(* ===== verification/Prelude.thy ===== *)
theory Prelude
  imports Main "HOL-Library.Word" "HOL-Library.Monad_Syntax" "HOL-Library.Sublist"
begin

text \<open>
  What every component of the development shares: the C types at their width,
  pointers with a null value, the kernel heap on which the driver's buffers live, error
  codes, the collections of rewrite rules and the generic lemmas on lists and words.

  Undefined behaviour of C (an access outside an array or a block, a freed or null
  pointer, a second \<open>kfree\<close>, unlocking a free mutex) is the value \<^term>\<open>None\<close> of the
  option type: a definition of type \<open>\<dots> option\<close> returns \<^term>\<open>None\<close> exactly where the C code
  would have no defined meaning, and every theorem that it returns \<open>Some\<close> is a memory
  safety statement.
\<close>

named_theorems ring_simps "index arithmetic and list views of the ring"
named_theorems heap_simps "the operations of the heap"
named_theorems inv_intros "an operation keeps its component's invariant"

section \<open>C types\<close>

type_synonym byte = "8 word"
type_synonym u8 = "8 word"
type_synonym u32 = "32 word"
type_synonym size_t = "64 word"
type_synonym loff_t = "64 word"

text \<open>A pointer: \<open>NULL\<close>, or a pointer to (or at) something that exists.\<close>

datatype 'a cptr = NULL | Ptr (pval: 'a)

type_synonym addr = nat

datatype errno = EINVAL | ERESTARTSYS | EFAULT | ENOMEM | ENOTTY | EBADF | EINTR | EPIPE | EOTHER nat

lemma cptr_not_NULL [simp]: "p \<noteq> NULL \<longleftrightarrow> (\<exists>x. p = Ptr x)"
  by (cases p) auto

section \<open>Arrays\<close>

text \<open>\<open>a[i]\<close> and \<open>a[i] = x\<close> for an array indexed by a \<open>uint8_t\<close>.\<close>

definition arr_get :: "'a list \<Rightarrow> u8 \<Rightarrow> 'a option" where
  "arr_get xs i = (if unat i < length xs then Some (xs ! unat i) else None)"

definition arr_set :: "'a list \<Rightarrow> u8 \<Rightarrow> 'a \<Rightarrow> 'a list option" where
  "arr_set xs i x = (if unat i < length xs then Some (xs[unat i := x]) else None)"

lemma arr_get_Some [simp]: "unat i < length xs \<Longrightarrow> arr_get xs i = Some (xs ! unat i)"
  by (simp add: arr_get_def)

lemma arr_set_Some [simp]: "unat i < length xs \<Longrightarrow> arr_set xs i x = Some (xs[unat i := x])"
  by (simp add: arr_set_def)

section \<open>The kernel heap\<close>

text \<open>
  A heap maps the address of each live block to its bytes. The allocator is not part of
  the program: what it answers is a choice of the environment, one \<open>alloc_choice\<close> per call,
  with the address it returns (none when it fails) and the arbitrary bytes that fresh
  memory holds. \<open>alloc_ok\<close> states what kmalloc documents: the block is not one that is
  live, and its size is within the allocator's limit.
\<close>

type_synonym heap = "addr \<Rightarrow> byte list option"

record alloc_choice =
  at :: "addr option"
  junk :: "nat \<Rightarrow> byte"

definition kmalloc_max :: nat where
  "kmalloc_max = 2 ^ 32"

definition kmalloc :: "alloc_choice \<Rightarrow> heap \<Rightarrow> size_t \<Rightarrow> heap \<times> addr cptr" where
  "kmalloc c h n =
     (case at c of
        None \<Rightarrow> (h, NULL)
      | Some a \<Rightarrow> (h(a \<mapsto> map (junk c) [0..<unat n]), Ptr a))"

definition krealloc :: "alloc_choice \<Rightarrow> heap \<Rightarrow> addr cptr \<Rightarrow> size_t \<Rightarrow> (heap \<times> addr cptr) option" where
  "krealloc c h p n =
     (case p of
        NULL \<Rightarrow> Some (kmalloc c h n)
      | Ptr q \<Rightarrow>
          (case h q of
             None \<Rightarrow> None
           | Some blk \<Rightarrow>
               (case at c of
                  None \<Rightarrow> Some (h, NULL)
                | Some a \<Rightarrow>
                    Some ((h(q := None))(a \<mapsto> take (unat n) blk @ map (junk c) [length blk..<unat n]),
                          Ptr a))))"

definition alloc_ok :: "alloc_choice \<Rightarrow> heap \<Rightarrow> size_t \<Rightarrow> bool" where
  "alloc_ok c h n \<longleftrightarrow>
     (case at c of None \<Rightarrow> True | Some a \<Rightarrow> h a = None \<and> unat n \<le> kmalloc_max)"

definition realloc_ok :: "alloc_choice \<Rightarrow> heap \<Rightarrow> addr \<Rightarrow> size_t \<Rightarrow> bool" where
  "realloc_ok c h q n \<longleftrightarrow>
     (case at c of None \<Rightarrow> True | Some a \<Rightarrow> (a = q \<or> h a = None) \<and> unat n \<le> kmalloc_max)"

definition kfree :: "heap \<Rightarrow> addr cptr \<Rightarrow> heap option" where
  "kfree h p =
     (case p of
        NULL \<Rightarrow> Some h
      | Ptr a \<Rightarrow> (if h a = None then None else Some (h(a := None))))"

text \<open>Reading and writing \<open>n\<close> bytes from offset \<open>off\<close> of a block.\<close>

definition heap_read :: "heap \<Rightarrow> addr cptr \<Rightarrow> nat \<Rightarrow> nat \<Rightarrow> byte list option" where
  "heap_read h p off n =
     (case p of
        NULL \<Rightarrow> None
      | Ptr a \<Rightarrow>
          (case h a of
             None \<Rightarrow> None
           | Some blk \<Rightarrow> (if off + n \<le> length blk then Some (take n (drop off blk)) else None)))"

definition heap_write :: "heap \<Rightarrow> addr cptr \<Rightarrow> nat \<Rightarrow> byte list \<Rightarrow> heap option" where
  "heap_write h p off bs =
     (case p of
        NULL \<Rightarrow> None
      | Ptr a \<Rightarrow>
          (case h a of
             None \<Rightarrow> None
           | Some blk \<Rightarrow>
               (if off + length bs \<le> length blk
                then Some (h(a \<mapsto> take off blk @ bs @ drop (off + length bs) blk)) else None)))"

lemma kfree_simps [heap_simps]:
  "kfree h NULL = Some h"
  "h a = Some b \<Longrightarrow> kfree h (Ptr a) = Some (h(a := None))"
  by (auto simp: kfree_def)

lemma heap_read_Ptr [heap_simps]:
  "h a = Some blk \<Longrightarrow> off + n \<le> length blk \<Longrightarrow> heap_read h (Ptr a) off n = Some (take n (drop off blk))"
  by (simp add: heap_read_def)

lemma heap_write_Ptr [heap_simps]:
  "h a = Some blk \<Longrightarrow> off + length bs \<le> length blk \<Longrightarrow>
   heap_write h (Ptr a) off bs = Some (h(a \<mapsto> take off blk @ bs @ drop (off + length bs) blk))"
  by (simp add: heap_write_def)

section \<open>Lists\<close>

text \<open>The last \<open>n\<close> elements, oldest first: what a bounded log of capacity \<open>n\<close> keeps.\<close>

definition keep_last :: "nat \<Rightarrow> 'a list \<Rightarrow> 'a list" where
  "keep_last n xs = drop (length xs - n) xs"

lemma keep_last_short [simp]: "length xs \<le> n \<Longrightarrow> keep_last n xs = xs"
  by (simp add: keep_last_def)

lemma length_keep_last [simp]: "length (keep_last n xs) = min n (length xs)"
  by (auto simp: keep_last_def)

lemma keep_last_snoc_full: "length xs = n \<Longrightarrow> 0 < n \<Longrightarrow> keep_last n (xs @ [x]) = tl xs @ [x]"
  by (cases xs) (auto simp: keep_last_def)

lemma keep_last_append_keep_last [simp]:
  "keep_last n (keep_last n xs @ ys) = keep_last n (xs @ ys)"
proof (cases "length xs \<le> n")
  case False
  then have "length xs - n + length ys = length xs + length ys - n" by simp
  with False show ?thesis by (simp add: keep_last_def add.commute)
qed simp

lemma set_keep_last: "set (keep_last n xs) \<subseteq> set xs"
  by (simp add: keep_last_def set_drop_subset)

lemma keep_last_map: "keep_last n (map f xs) = map f (keep_last n xs)"
  by (simp add: keep_last_def drop_map)

text \<open>A fallible step repeated over a list; it stops at the first failure.\<close>

fun foldM :: "('s \<Rightarrow> 'e \<Rightarrow> 's option) \<Rightarrow> 's \<Rightarrow> 'e list \<Rightarrow> 's option" where
  "foldM f s [] = Some s"
| "foldM f s (e # es) = f s e \<bind> (\<lambda>s'. foldM f s' es)"

lemma foldM_append: "foldM f s (xs @ ys) = foldM f s xs \<bind> (\<lambda>s'. foldM f s' ys)"
  by (induction xs arbitrary: s) simp_all

section \<open>Words\<close>

lemma unat_less_256 [simp]: "unat (x :: u8) < 256"
  using unsigned_less [of x] by simp

lemma unat_less_2_64: "unat (x :: size_t) < 2 ^ 64"
  using unsigned_less [of x] by simp

lemma unat_Suc_u8:
  assumes "unat (a :: u8) < unat (b :: u8)"
  shows "unat (a + 1) = Suc (unat a)"
proof -
  have "Suc (unat a) < 256" using assms unat_less_256 [of b] by linarith
  then show ?thesis by (simp add: unat_word_ariths)
qed

lemma unat_add_size_t:
  "unat (a :: size_t) + unat b < 2 ^ 64 \<Longrightarrow> unat (a + b) = unat a + unat b"
  by (simp add: unat_word_ariths)

lemma unat_ucast_u8 [simp]: "unat (ucast (x :: u8) :: u32) = unat x"
proof -
  have "unat x < 2 ^ LENGTH(8)" by (rule unsigned_less)
  also have "\<dots> < (2 :: nat) ^ LENGTH(32)" by simp
  finally have "take_bit LENGTH(32) (unat x) = unat x" by (rule take_bit_nat_eq_self)
  then show ?thesis by (simp only: unsigned_ucast_eq)
qed

lemma unat_ucast_u32 [simp]: "unat (ucast (x :: u32) :: 64 word) = unat x"
proof -
  have "unat x < 2 ^ LENGTH(32)" by (rule unsigned_less)
  also have "\<dots> < (2 :: nat) ^ LENGTH(64)" by simp
  finally have "take_bit LENGTH(64) (unat x) = unat x" by (rule take_bit_nat_eq_self)
  then show ?thesis by (simp only: unsigned_ucast_eq)
qed

lemma unat_of_nat_u8: "n < 256 \<Longrightarrow> unat (of_nat n :: u8) = n"
  by (simp add: unat_of_nat)

end
