(* ===== verification/Circular_Buffer.thy ===== *)
theory Circular_Buffer
  imports Prelude
begin

text \<open>
  The circular buffer of \<open>aesd-char-driver/circular-buffer\<close>: its two structs, the
  operations \<open>init\<close>, \<open>add_entry\<close>, \<open>remove_entry\<close> and \<open>find_entry_offset_for_fpos\<close>,
  the invariant of the index fields, the list of entries that a buffer stands for
  (\<open>cb_items\<close>, oldest first) and, for every operation, what it does to that list. The
  contract is the locale \<open>ring_log\<close>, a log that keeps the last entries pushed.
\<close>

section \<open>Data\<close>

record aesd_buffer_entry =
  entry_buffptr :: "addr cptr"
  entry_size :: size_t

record aesd_circular_buffer =
  entry :: "aesd_buffer_entry list"
  in_offs :: u8
  out_offs :: u8
  full :: bool

definition AESDCHAR_MAX_WRITE_OPERATIONS_SUPPORTED :: nat where
  [simp]: "AESDCHAR_MAX_WRITE_OPERATIONS_SUPPORTED = 10"

text \<open>The all-zero structs that \<open>memset\<close> and \<open>= {0}\<close> produce.\<close>

definition zero_entry :: aesd_buffer_entry where
  "zero_entry = \<lparr>entry_buffptr = NULL, entry_size = 0\<rparr>"

definition zero_buffer :: aesd_circular_buffer where
  "zero_buffer =
     \<lparr>entry = replicate AESDCHAR_MAX_WRITE_OPERATIONS_SUPPORTED zero_entry,
      in_offs = 0, out_offs = 0, full = False\<rparr>"

text \<open>
  \<open>(offs + 1) % 10\<close>: the sum is an \<open>int\<close> (integer promotion), so it does not wrap at 256
  before the remainder is taken; the result is stored back in a \<open>uint8_t\<close>.
\<close>

definition next_offs :: "u8 \<Rightarrow> u8" where
  "next_offs i = of_nat ((unat i + 1) mod AESDCHAR_MAX_WRITE_OPERATIONS_SUPPORTED)"

section \<open>Operations\<close>

text \<open>
  A pointer to a buffer is null or points at the buffer whose value is given; an operation
  returns the pointer with the buffer as it leaves it.
\<close>

definition aesd_circular_buffer_init :: "aesd_circular_buffer cptr \<Rightarrow> aesd_circular_buffer cptr" where
  "aesd_circular_buffer_init buffer =
     (case buffer of NULL \<Rightarrow> NULL | Ptr _ \<Rightarrow> Ptr zero_buffer)"

definition aesd_circular_buffer_add_entry ::
  "aesd_circular_buffer cptr \<Rightarrow> aesd_buffer_entry cptr \<Rightarrow> aesd_circular_buffer cptr option" where
  "aesd_circular_buffer_add_entry buffer add_entry =
     (case buffer of
        NULL \<Rightarrow> Some buffer
      | Ptr b \<Rightarrow>
          (case add_entry of
             NULL \<Rightarrow> Some buffer
           | Ptr e \<Rightarrow>
               if entry_buffptr e = NULL then Some buffer
               else do {
                 es \<leftarrow> arr_set (entry b) (in_offs b) e;
                 let b = b\<lparr>entry := es\<rparr>;
                 let b = (if full b then b\<lparr>out_offs := next_offs (out_offs b)\<rparr> else b);
                 let b = b\<lparr>in_offs := next_offs (in_offs b)\<rparr>;
                 Some (Ptr (b\<lparr>full := (in_offs b = out_offs b)\<rparr>))
               }))"

definition aesd_circular_buffer_remove_entry ::
  "aesd_circular_buffer cptr \<Rightarrow> aesd_circular_buffer cptr option" where
  "aesd_circular_buffer_remove_entry buffer =
     (case buffer of
        NULL \<Rightarrow> Some buffer
      | Ptr b \<Rightarrow>
          if \<not> full b \<and> in_offs b = out_offs b then Some buffer
          else do {
            e \<leftarrow> arr_get (entry b) (out_offs b);
            es \<leftarrow> arr_set (entry b) (out_offs b) (e\<lparr>entry_buffptr := NULL, entry_size := 0\<rparr>);
            let b = b\<lparr>entry := es\<rparr>;
            let b = b\<lparr>out_offs := next_offs (out_offs b)\<rparr>;
            Some (Ptr (b\<lparr>full := False\<rparr>))
          })"

text \<open>The number of valid entries, computed in a \<open>uint8_t\<close>.\<close>

definition total_entries :: "aesd_circular_buffer \<Rightarrow> u8" where
  "total_entries b =
     (if full b then of_nat AESDCHAR_MAX_WRITE_OPERATIONS_SUPPORTED
      else if out_offs b \<le> in_offs b then in_offs b - out_offs b
      else of_nat AESDCHAR_MAX_WRITE_OPERATIONS_SUPPORTED - out_offs b + in_offs b)"

text \<open>
  The search loop; its variables are \<open>current_pos\<close>, \<open>current_idx\<close> and
  \<open>entries_checked\<close>. The result is the pointer returned, as the index of the entry, with
  the value stored through \<open>entry_offset_byte_rtn\<close>.
\<close>

function find_entry_loop ::
  "aesd_buffer_entry list \<Rightarrow> size_t \<Rightarrow> u8 \<Rightarrow> size_t \<Rightarrow> u8 \<Rightarrow> u8 \<Rightarrow> (u8 \<times> size_t) cptr option" where
  "find_entry_loop es char_offset n_total current_pos current_idx entries_checked =
     (if entries_checked < n_total
      then do {
        e \<leftarrow> arr_get es current_idx;
        if char_offset < current_pos + entry_size e
        then Some (Ptr (current_idx, char_offset - current_pos))
        else find_entry_loop es char_offset n_total (current_pos + entry_size e)
               (next_offs current_idx) (entries_checked + 1)
      }
      else Some NULL)"
  by pat_completeness auto
termination
  by (relation "measure (\<lambda>(es, off, t, pos, idx, n). unat t - unat n)")
     (auto simp: word_less_nat_alt unat_Suc_u8)

declare find_entry_loop.simps [simp del]

definition aesd_circular_buffer_find_entry_offset_for_fpos ::
  "aesd_circular_buffer cptr \<Rightarrow> size_t \<Rightarrow> size_t cptr \<Rightarrow> (u8 \<times> size_t) cptr option" where
  "aesd_circular_buffer_find_entry_offset_for_fpos buffer char_offset entry_offset_byte_rtn =
     (case buffer of
        NULL \<Rightarrow> Some NULL
      | Ptr b \<Rightarrow>
          (case entry_offset_byte_rtn of
             NULL \<Rightarrow> Some NULL
           | Ptr _ \<Rightarrow>
               find_entry_loop (entry b) char_offset (total_entries b) 0 (out_offs b) 0))"

section \<open>The list a buffer stands for\<close>

text \<open>\<open>n\<close> consecutive cells of a ring of ten cells, starting at \<open>start\<close>.\<close>

definition ring_view :: "'a list \<Rightarrow> nat \<Rightarrow> nat \<Rightarrow> 'a list" where
  "ring_view xs start n = map (\<lambda>k. xs ! ((start + k) mod 10)) [0..<n]"

lemma length_ring_view [simp]: "length (ring_view xs start n) = n"
  by (simp add: ring_view_def)

lemma ring_view_0 [simp]: "ring_view xs start 0 = []"
  by (simp add: ring_view_def)

lemma nth_ring_view [simp]: "k < n \<Longrightarrow> ring_view xs start n ! k = xs ! ((start + k) mod 10)"
  by (simp add: ring_view_def)

lemma ring_view_Suc:
  "ring_view xs start (Suc n) = xs ! (start mod 10) # ring_view xs (Suc start mod 10) n"
  by (rule nth_equalityI) (auto simp: nth_Cons mod_simps split: nat.splits)

lemma ring_cells_distinct:
  assumes "k < n" "n < (10::nat)"
  shows "(start + k) mod 10 \<noteq> (start + n) mod 10"
proof
  assume "(start + k) mod 10 = (start + n) mod 10"
  then have "10 dvd (start + n) - (start + k)"
    using assms mod_eq_dvd_iff_nat [of "start + k" "start + n" 10] by simp
  then have "10 dvd n - k" by simp
  with assms show False using nat_dvd_not_less [of "n - k" 10] by simp
qed

lemma mod10_less_20: "a < 20 \<Longrightarrow> a mod 10 = (if a < 10 then a else a - (10::nat))"
  by (simp add: mod_if)

lemma ring_view_snoc:
  assumes "length xs = 10" "n < 10"
  shows "ring_view (xs[(start + n) mod 10 := x]) start (Suc n) = ring_view xs start n @ [x]"
proof (rule nth_equalityI)
  fix k assume "k < length (ring_view (xs[(start + n) mod 10 := x]) start (Suc n))"
  then consider "k < n" | "k = n" by force
  then show "ring_view (xs[(start + n) mod 10 := x]) start (Suc n) ! k = (ring_view xs start n @ [x]) ! k"
    using assms ring_cells_distinct [of k n start]
    by cases (auto simp: nth_append)
qed simp

lemma ring_view_update_outside:
  assumes "n < 10" "length xs = 10"
  shows "ring_view (xs[(start + n) mod 10 := x]) start n = ring_view xs start n"
  using assms by (intro nth_equalityI) (auto simp: nth_list_update dest: ring_cells_distinct [of _ _ start])

definition cb_inv :: "aesd_circular_buffer \<Rightarrow> bool" where
  "cb_inv b \<longleftrightarrow> length (entry b) = 10 \<and> unat (in_offs b) < 10 \<and> unat (out_offs b) < 10 \<and>
     (full b \<longrightarrow> in_offs b = out_offs b)"

definition cb_count :: "aesd_circular_buffer \<Rightarrow> nat" where
  "cb_count b = unat (total_entries b)"

definition cb_items :: "aesd_circular_buffer \<Rightarrow> aesd_buffer_entry list" where
  "cb_items b = ring_view (entry b) (unat (out_offs b)) (cb_count b)"

lemma unat_next_offs [ring_simps]: "unat (next_offs i) = Suc (unat i) mod 10"
  by (simp add: next_offs_def unat_of_nat)

lemma next_offs_less [simp]: "unat (next_offs i) < 10"
  by (simp add: unat_next_offs)

lemma cb_count_eq:
  assumes "cb_inv b"
  shows "cb_count b = (if full b then 10 else (unat (in_offs b) + 10 - unat (out_offs b)) mod 10)"
proof -
  have "unat (10 - out_offs b + in_offs b) = 10 - unat (out_offs b) + unat (in_offs b)"
    if "\<not> out_offs b \<le> in_offs b"
    using that assms by (auto simp: cb_inv_def unat_word_ariths word_le_nat_alt unat_sub)
  then show ?thesis
    using assms
    by (auto simp: cb_count_def total_entries_def cb_inv_def word_le_nat_alt unat_sub mod_if)
qed

text \<open>The fields agree: the write index is \<open>count\<close> cells after the read index.\<close>

lemma cb_count_bounds:
  assumes "cb_inv b"
  shows "cb_count b \<le> 10" "full b \<longleftrightarrow> cb_count b = 10"
    "unat (in_offs b) = (unat (out_offs b) + cb_count b) mod 10"
proof -
  have i: "unat (in_offs b) < 10" and o: "unat (out_offs b) < 10" and f: "full b \<longrightarrow> in_offs b = out_offs b"
    using assms by (simp_all add: cb_inv_def)
  then show "cb_count b \<le> 10" "full b \<longleftrightarrow> cb_count b = 10"
    by (auto simp: cb_count_eq [OF assms] mod10_less_20)
  show "unat (in_offs b) = (unat (out_offs b) + cb_count b) mod 10"
    using i o f by (auto simp: cb_count_eq [OF assms] mod10_less_20)
qed

text \<open>Conversely the fields determine the count.\<close>

lemma cb_countI:
  assumes "cb_inv b" "unat (in_offs b) = (unat (out_offs b) + n) mod 10" "full b \<longleftrightarrow> n = 10" "n \<le> 10"
  shows "cb_count b = n"
proof -
  have "unat (out_offs b) < 10" using assms(1) by (simp add: cb_inv_def)
  then show ?thesis
    using assms(2-4) by (auto simp: cb_count_eq [OF assms(1)] mod10_less_20)
qed

section \<open>What the operations do to the list\<close>

lemma zero_buffer_inv [inv_intros]: "cb_inv zero_buffer"
  by (simp add: cb_inv_def zero_buffer_def)

lemma zero_buffer_items [simp]: "cb_items zero_buffer = []"
  by (simp add: cb_items_def cb_count_def total_entries_def zero_buffer_def)

lemma length_cb_items: "length (cb_items b) = cb_count b"
  by (simp add: cb_items_def)

lemma cb_inv_arr [simp]:
  assumes "cb_inv b"
  shows "unat (in_offs b) < length (entry b)" "unat (out_offs b) < length (entry b)"
  using assms by (simp_all add: cb_inv_def)

text \<open>The buffer that \<open>add_entry\<close> leaves.\<close>

definition cb_add :: "aesd_circular_buffer \<Rightarrow> aesd_buffer_entry \<Rightarrow> aesd_circular_buffer" where
  "cb_add b e =
     b\<lparr>entry := (entry b)[unat (in_offs b) := e],
       out_offs := (if full b then next_offs (out_offs b) else out_offs b),
       in_offs := next_offs (in_offs b),
       full := (next_offs (in_offs b) = (if full b then next_offs (out_offs b) else out_offs b))\<rparr>"

lemma add_entry_eq:
  assumes "cb_inv b" "entry_buffptr e \<noteq> NULL"
  shows "aesd_circular_buffer_add_entry (Ptr b) (Ptr e) = Some (Ptr (cb_add b e))"
  using assms by (auto simp: aesd_circular_buffer_add_entry_def cb_add_def Let_def)

lemma cb_add_inv [inv_intros]: "cb_inv b \<Longrightarrow> cb_inv (cb_add b e)"
  by (auto simp: cb_inv_def cb_add_def)

lemma cb_add_count:
  assumes "cb_inv b"
  shows "cb_count (cb_add b e) = min 10 (Suc (cb_count b))"
proof (rule cb_countI [OF cb_add_inv [OF assms]])
  note bd = cb_count_bounds [OF assms]
  have full_iff: "next_offs i = j \<longleftrightarrow> Suc (unat i) mod 10 = unat j" for i j
    by (metis unat_next_offs word_unat_eq_iff)
  have o: "unat (out_offs b) < 10" using assms by (simp add: cb_inv_def)
  show "unat (in_offs (cb_add b e)) =
      (unat (out_offs (cb_add b e)) + min 10 (Suc (cb_count b))) mod 10"
    using bd o by (cases "full b") (auto simp: cb_add_def unat_next_offs mod_simps)
  show "full (cb_add b e) \<longleftrightarrow> min 10 (Suc (cb_count b)) = 10"
    using bd o by (cases "full b")
      (auto simp: cb_add_def full_iff unat_next_offs mod10_less_20 min_def split: if_splits)
qed simp

lemma cb_add_items:
  assumes "cb_inv b"
  shows "cb_items (cb_add b e) = keep_last 10 (cb_items b @ [e])"
proof (cases "full b")
  case False
  with cb_count_bounds [OF assms] have n: "cb_count b < 10" by auto
  then have "cb_items (cb_add b e) =
      ring_view ((entry b)[(unat (out_offs b) + cb_count b) mod 10 := e]) (unat (out_offs b)) (Suc (cb_count b))"
    using False cb_count_bounds(3) [OF assms] by (simp add: cb_items_def cb_add_count [OF assms]) (simp add: cb_add_def)
  also have "\<dots> = cb_items b @ [e]"
    unfolding cb_items_def using n assms by (intro ring_view_snoc) (simp_all add: cb_inv_def)
  finally show ?thesis using n by (simp add: length_cb_items)
next
  case True
  with assms cb_count_bounds [OF assms] have n: "cb_count b = 10" and io: "in_offs b = out_offs b"
    and o: "unat (out_offs b) < 10"
    by (auto simp: cb_inv_def)
  let ?o = "unat (out_offs b)"
  have tl: "tl (cb_items b) = ring_view (entry b) (Suc ?o mod 10) 9"
    using ring_view_Suc [of "entry b" ?o 9] by (simp add: cb_items_def n)
  have last: "(Suc ?o mod 10 + 9) mod 10 = ?o" using o by (simp add: mod10_less_20)
  have "cb_items (cb_add b e) = ring_view ((entry b)[?o := e]) (Suc ?o mod 10) (Suc 9)"
    using True io n by (simp add: cb_items_def cb_add_count [OF assms]) (simp add: cb_add_def unat_next_offs)
  also have "\<dots> = ring_view (entry b) (Suc ?o mod 10) 9 @ [e]"
    using ring_view_snoc [of "entry b" 9 "Suc ?o mod 10" e] last assms by (simp add: cb_inv_def)
  finally show ?thesis
    using n tl by (simp add: keep_last_snoc_full length_cb_items)
qed

text \<open>The buffer that \<open>remove_entry\<close> leaves when it is not empty.\<close>

definition cb_remove :: "aesd_circular_buffer \<Rightarrow> aesd_circular_buffer" where
  "cb_remove b =
     b\<lparr>entry := (entry b)[unat (out_offs b) :=
          ((entry b) ! unat (out_offs b))\<lparr>entry_buffptr := NULL, entry_size := 0\<rparr>],
       out_offs := next_offs (out_offs b), full := False\<rparr>"

lemma cb_empty_iff:
  assumes "cb_inv b"
  shows "\<not> full b \<and> in_offs b = out_offs b \<longleftrightarrow> cb_items b = []"
proof -
  have "cb_items b = [] \<longleftrightarrow> cb_count b = 0" by (simp add: cb_items_def ring_view_def)
  moreover have "unat (in_offs b) < 10" "unat (out_offs b) < 10" using assms by (simp_all add: cb_inv_def)
  ultimately show ?thesis
    by (auto simp: cb_count_eq [OF assms] mod10_less_20 word_unat_eq_iff)
qed

lemma remove_entry_eq:
  assumes "cb_inv b"
  shows "aesd_circular_buffer_remove_entry (Ptr b) =
    Some (Ptr (if cb_items b = [] then b else cb_remove b))"
  using assms cb_empty_iff [OF assms]
  by (auto simp: aesd_circular_buffer_remove_entry_def cb_remove_def Let_def)

lemma cb_remove_inv [inv_intros]: "cb_inv b \<Longrightarrow> cb_inv (cb_remove b)"
  by (auto simp: cb_inv_def cb_remove_def)

lemma cb_remove_items:
  assumes "cb_inv b" "cb_items b \<noteq> []"
  shows "cb_items (cb_remove b) = tl (cb_items b)"
proof -
  note bd = cb_count_bounds [OF assms(1)]
  let ?o = "unat (out_offs b)"
  have o: "?o < 10" using assms by (simp add: cb_inv_def)
  from assms obtain n where n: "cb_count b = Suc n"
    by (cases "cb_count b") (auto simp flip: length_0_conv simp: length_cb_items)
  with bd have "n < 10" by simp
  have count: "cb_count (cb_remove b) = n"
    by (rule cb_countI [OF cb_remove_inv [OF assms(1)]])
      (use bd n o in \<open>auto simp: cb_remove_def unat_next_offs mod_simps\<close>)
  let ?e = "((entry b) ! ?o)\<lparr>entry_buffptr := NULL, entry_size := 0\<rparr>"
  have "(entry b)[?o := ?e] ! ((Suc ?o mod 10 + k) mod 10) = entry b ! ((Suc ?o mod 10 + k) mod 10)"
    if "k < n" for k
  proof -
    have "(?o + Suc k) mod 10 \<noteq> ?o"
      using o that \<open>n < 10\<close> by (auto simp: mod10_less_20)
    then show ?thesis by (simp add: mod_simps)
  qed
  then have "cb_items (cb_remove b) = ring_view (entry b) (Suc ?o mod 10) n"
    by (simp add: cb_items_def count ring_view_def) (simp add: cb_remove_def unat_next_offs)
  then show ?thesis by (simp add: cb_items_def n ring_view_Suc)
qed

section \<open>Searching by position\<close>

text \<open>
  The specification of the search on the list of entries: which entry holds the byte at
  position \<open>p\<close> of the concatenation, and at which offset.
\<close>

abbreviation esize :: "aesd_buffer_entry \<Rightarrow> nat" where
  "esize e \<equiv> unat (entry_size e)"

fun locate :: "aesd_buffer_entry list \<Rightarrow> nat \<Rightarrow> (nat \<times> nat) option" where
  "locate [] p = None"
| "locate (e # es) p =
     (if p < esize e then Some (0, p) else map_option (apfst Suc) (locate es (p - esize e)))"

definition sizes :: "aesd_buffer_entry list \<Rightarrow> nat" where
  "sizes es = sum_list (map esize es)"

lemma sizes_simps [simp]:
  "sizes [] = 0" "sizes (e # es) = esize e + sizes es" "sizes (xs @ ys) = sizes xs + sizes ys"
  by (simp_all add: sizes_def)

lemma locate_None: "locate es p = None \<longleftrightarrow> sizes es \<le> p"
  by (induction es p rule: locate.induct) auto

lemma locate_SomeD:
  "locate es p = Some (k, j) \<Longrightarrow> k < length es \<and> j < esize (es ! k) \<and> p = sizes (take k es) + j"
proof (induction es p arbitrary: k rule: locate.induct)
  case (2 e es p)
  show ?case
  proof (cases "p < esize e")
    case False
    with "2.prems" obtain k' where "locate es (p - esize e) = Some (k', j)" "k = Suc k'"
      by auto
    with "2.IH" [OF False, of k'] False show ?thesis by auto
  qed (use "2.prems" in auto)
qed simp

lemma locate_SomeI:
  "k < length es \<Longrightarrow> j < esize (es ! k) \<Longrightarrow> locate es (sizes (take k es) + j) = Some (k, j)"
  by (induction es arbitrary: k) (auto simp: nth_Cons take_Cons split: nat.splits)

lemma drop_ring_view:
  "k < n \<Longrightarrow> drop k (ring_view xs start n) = xs ! ((start + k) mod 10) # drop (Suc k) (ring_view xs start n)"
  by (metis Cons_nth_drop_Suc length_ring_view nth_ring_view)

lemma next_offs_idx:
  "unat idx = (start + k) mod 10 \<Longrightarrow> unat (next_offs idx) = (start + Suc k) mod 10"
  by (simp add: unat_next_offs mod_simps)

text \<open>
  The loop invariant: after \<open>k\<close> entries, \<open>current_pos\<close> is their total size (no wrap-around,
  by the bound on all of them) and the rest is searched for the remaining distance.
\<close>

lemma find_entry_loop_eq:
  assumes "length es = 10" "n \<le> 10" "sizes (ring_view es start n) < 2 ^ 64"
    and "unat n_total = n" "unat checked = k" "k \<le> n" "unat idx = (start + k) mod 10"
    and "unat pos = sizes (take k (ring_view es start n))" "unat pos \<le> unat off"
  shows "find_entry_loop es off n_total pos idx checked =
    Some (case locate (drop k (ring_view es start n)) (unat off - unat pos) of
            None \<Rightarrow> NULL
          | Some (j, d) \<Rightarrow> Ptr (of_nat ((start + k + j) mod 10), of_nat d))"
  using assms(5-)
proof (induction "n - k" arbitrary: k pos idx checked)
  case 0
  with assms(4) have "\<not> checked < n_total" by (simp add: word_less_nat_alt)
  with 0 show ?case by (simp add: find_entry_loop.simps)
next
  case (Suc m)
  let ?v = "ring_view es start n" and ?e = "es ! ((start + k) mod 10)"
  have k: "k < n" using Suc.hyps(2) by simp
  have less: "checked < n_total" using k Suc.prems assms(4) by (simp add: word_less_nat_alt)
  have idx: "unat idx < length es" "es ! unat idx = ?e" using Suc.prems(3) assms(1) by simp_all
  have take: "take (Suc k) ?v = take k ?v @ [?e]" using k by (simp add: take_Suc_conv_app_nth)
  have "sizes ?v = sizes (take (Suc k) ?v) + sizes (drop (Suc k) ?v)"
    by (metis append_take_drop_id sizes_simps(3))
  with take Suc.prems(4) assms(3) have "unat pos + esize ?e < 2 ^ 64" by simp
  then have pos: "unat (pos + entry_size ?e) = unat pos + esize ?e" by (rule unat_add_size_t)
  have drop: "drop k ?v = ?e # drop (Suc k) ?v" using k by (rule drop_ring_view)
  show ?case
  proof (cases "off < pos + entry_size ?e")
    case True
    with pos Suc.prems(5) have "unat off - unat pos < esize ?e" by (simp add: word_less_nat_alt)
    moreover have "of_nat (unat off - unat pos) = off - pos"
      using Suc.prems(5) by (simp add: of_nat_diff)
    moreover have "of_nat ((start + k) mod 10) = idx"
      using Suc.prems(3) by (simp flip: Suc.prems(3))
    ultimately show ?thesis
      using less idx True by (simp add: find_entry_loop.simps drop)
  next
    case False
    then have ge: "unat pos + esize ?e \<le> unat off" using pos by (simp add: word_less_nat_alt)
    have chk: "unat (checked + 1) = Suc k"
      using unat_Suc_u8 [of checked n_total] k Suc.prems(1) assms(4) by simp
    have "find_entry_loop es off n_total (pos + entry_size ?e) (next_offs idx) (checked + 1) =
      Some (case locate (drop (Suc k) ?v) (unat off - unat (pos + entry_size ?e)) of
            None \<Rightarrow> NULL
          | Some (j, d) \<Rightarrow> Ptr (of_nat ((start + Suc k + j) mod 10), of_nat d))"
      using Suc.prems k less ge take pos next_offs_idx [OF Suc.prems(3)] Suc.hyps(2) assms(4)
      by (intro Suc.hyps(1) chk) simp_all
    then show ?thesis
      using less idx False ge
      by (subst find_entry_loop.simps) (auto simp: drop pos split: option.splits)
  qed
qed

lemma find_entry_eq:
  assumes "cb_inv b" "sizes (cb_items b) < 2 ^ 64"
  shows "aesd_circular_buffer_find_entry_offset_for_fpos (Ptr b) off (Ptr r) =
    Some (case locate (cb_items b) (unat off) of
            None \<Rightarrow> NULL
          | Some (j, d) \<Rightarrow> Ptr (of_nat ((unat (out_offs b) + j) mod 10), of_nat d))"
proof -
  have "find_entry_loop (entry b) off (total_entries b) 0 (out_offs b) 0 =
    Some (case locate (drop 0 (cb_items b)) (unat off - unat (0 :: size_t)) of
            None \<Rightarrow> NULL
          | Some (j, d) \<Rightarrow> Ptr (of_nat ((unat (out_offs b) + 0 + j) mod 10), of_nat d))"
    unfolding cb_items_def
    using assms cb_count_bounds(1) [OF assms(1)]
    by (intro find_entry_loop_eq) (simp_all add: cb_inv_def cb_items_def cb_count_def)
  then show ?thesis
    by (simp only: aesd_circular_buffer_find_entry_offset_for_fpos_def cptr.case add_0_right drop_0
        unsigned_0 diff_zero)
qed

section \<open>The contract: a log that keeps the last entries\<close>

locale ring_log =
  fixes new :: 'b
    and push :: "'b \<Rightarrow> 'e \<Rightarrow> 'b option"
    and pop :: "'b \<Rightarrow> 'b option"
    and items :: "'b \<Rightarrow> 'e list"
    and invar :: "'b \<Rightarrow> bool"
    and ok :: "'e \<Rightarrow> bool"
    and cap :: nat
  assumes cap_pos: "0 < cap"
    and invar_new: "invar new"
    and items_new: "items new = []"
    and push: "invar b \<Longrightarrow> ok e \<Longrightarrow>
      \<exists>b'. push b e = Some b' \<and> invar b' \<and> items b' = keep_last cap (items b @ [e])"
    and pop: "invar b \<Longrightarrow> \<exists>b'. pop b = Some b' \<and> invar b' \<and> items b' = tl (items b)"
    and items_bound: "invar b \<Longrightarrow> length (items b) \<le> cap"
begin

lemma push_list:
  "invar b \<Longrightarrow> list_all ok es \<Longrightarrow>
   \<exists>b'. foldM push b es = Some b' \<and> invar b' \<and> items b' = keep_last cap (items b @ es)"
proof (induction es arbitrary: b)
  case Nil
  then show ?case by (simp add: items_bound)
next
  case (Cons e es)
  then obtain b1 where b1: "push b e = Some b1" "invar b1" "items b1 = keep_last cap (items b @ [e])"
    using push [of b e] by auto
  with Cons.IH [of b1] Cons.prems obtain b2 where
    "foldM push b1 es = Some b2" "invar b2" "items b2 = keep_last cap (items b1 @ es)"
    by auto
  with b1 show ?case by simp
qed

lemma push_list_new:
  assumes "list_all ok es"
  shows "\<exists>b'. foldM push new es = Some b' \<and> invar b' \<and> items b' = keep_last cap es"
  using push_list [OF invar_new assms] by (simp add: items_new)

lemma pop_list:
  "invar b \<Longrightarrow> \<exists>b'. foldM (\<lambda>b _. pop b) b us = Some b' \<and> invar b' \<and> items b' = drop (length us) (items b)"
proof (induction us arbitrary: b)
  case (Cons u us)
  then show ?case using pop [of b] by (fastforce simp: drop_Suc)
qed simp

text \<open>First in, first out: what is pushed into an empty log comes out oldest first.\<close>

lemma push_then_pop:
  assumes "list_all ok es" "length es \<le> cap"
  shows "\<exists>b'. (foldM push new es \<bind> (\<lambda>b. foldM (\<lambda>b _. pop b) b us)) = Some b' \<and>
    invar b' \<and> items b' = drop (length us) es"
proof -
  from push_list_new [OF assms(1)] assms(2) obtain b where
    "foldM push new es = Some b" "invar b" "items b = es" by auto
  with pop_list [of b us] show ?thesis by auto
qed

end

abbreviation cb_ptr_inv :: "aesd_circular_buffer cptr \<Rightarrow> bool" where
  "cb_ptr_inv p \<equiv> p \<noteq> NULL \<and> cb_inv (pval p)"

lemma cb_inv_count: "cb_inv b \<Longrightarrow> length (cb_items b) \<le> 10"
  by (simp add: length_cb_items cb_count_bounds)

interpretation cb: ring_log
  "aesd_circular_buffer_init (Ptr b0)"
  "\<lambda>b e. aesd_circular_buffer_add_entry b (Ptr e)"
  aesd_circular_buffer_remove_entry
  "\<lambda>b. cb_items (pval b)"
  cb_ptr_inv
  "\<lambda>e. entry_buffptr e \<noteq> NULL"
  AESDCHAR_MAX_WRITE_OPERATIONS_SUPPORTED
  by unfold_locales
    (auto simp: aesd_circular_buffer_init_def add_entry_eq remove_entry_eq cb_add_items cb_remove_items
      cb_inv_count intro: inv_intros)

end
