(* ===== verification/Char_Buffer.thy ===== *)
theory Char_Buffer
  imports Circular_Buffer
begin

text \<open>
  The device structure \<open>struct aesd_dev\<close> and the buffer management of
  \<open>char-driver/src/aesd-char-buffer.c\<close>: accumulating a partial command in \<open>write_buf\<close> and
  moving a complete one into the circular buffer. The invariant \<open>dev_inv\<close> says which heap
  blocks the device owns (exactly these, none twice), \<open>commands\<close> and \<open>partial\<close> are the
  contents the device stands for, and each operation is proved against them.
\<close>

section \<open>Data\<close>

text \<open>
  The mutex is modelled by its state; \<open>cdev\<close> by what the driver sets in it and whether the
  kernel's registry holds it.
\<close>

datatype mutex = Mutex_Uninit | Unlocked | Locked

record cdev =
  cdev_ops :: bool
  cdev_owner :: bool
  cdev_added :: bool

record aesd_dev =
  buffer :: aesd_circular_buffer
  lock :: mutex
  cdev :: cdev
  write_buf :: "addr cptr"
  write_buf_size :: size_t

section \<open>Operations\<close>

text \<open>
  \<open>new_data\<close> points to a heap block; \<open>c\<close> is the allocator's answer to the one allocation.
\<close>

definition aesd_handle_write_buffer ::
  "alloc_choice \<Rightarrow> heap \<Rightarrow> aesd_dev cptr \<Rightarrow> addr cptr \<Rightarrow> size_t \<Rightarrow>
   (heap \<times> aesd_dev cptr \<times> (errno + unit)) option" where
  "aesd_handle_write_buffer c h dev new_data count =
     (case dev of
        NULL \<Rightarrow> Some (h, dev, Inl EINVAL)
      | Ptr d \<Rightarrow>
          if new_data = NULL then Some (h, dev, Inl EINVAL)
          else do {
            (h, d, res) \<leftarrow>
              (case write_buf d of
                 Ptr _ \<Rightarrow> do {
                   let new_size = write_buf_size d + count;
                   (h, new_buf) \<leftarrow> krealloc c h (write_buf d) (new_size + 1);
                   if new_buf = NULL then Some (h, d, Inl ENOMEM)
                   else do {
                     src \<leftarrow> heap_read h new_data 0 (unat count);
                     h \<leftarrow> heap_write h new_buf (unat (write_buf_size d)) src;
                     Some (h, d\<lparr>write_buf := new_buf, write_buf_size := new_size\<rparr>, Inr ())
                   }
                 }
               | NULL \<Rightarrow> do {
                   let (h, new_buf) = kmalloc c h (count + 1);
                   let d = d\<lparr>write_buf := new_buf\<rparr>;
                   if write_buf d = NULL then Some (h, d, Inl ENOMEM)
                   else do {
                     src \<leftarrow> heap_read h new_data 0 (unat count);
                     h \<leftarrow> heap_write h (write_buf d) 0 src;
                     Some (h, d\<lparr>write_buf_size := count\<rparr>, Inr ())
                   }
                 });
            (case res of
               Inl err \<Rightarrow> Some (h, Ptr d, Inl err)
             | Inr _ \<Rightarrow> do {
                 h \<leftarrow> heap_write h (write_buf d) (unat (write_buf_size d)) [0];
                 Some (h, Ptr d, Inr ())
               })
          })"

definition aesd_handle_complete_command ::
  "heap \<Rightarrow> aesd_dev cptr \<Rightarrow> (heap \<times> aesd_dev cptr) option" where
  "aesd_handle_complete_command h dev =
     (case dev of
        NULL \<Rightarrow> Some (h, dev)
      | Ptr d \<Rightarrow>
          if write_buf d = NULL then Some (h, dev)
          else do {
            let new_entry = \<lparr>entry_buffptr = write_buf d, entry_size = write_buf_size d\<rparr>;
            (h, d) \<leftarrow>
              (if full (buffer d)
               then do {
                 oldest \<leftarrow> arr_get (entry (buffer d)) (out_offs (buffer d));
                 if entry_buffptr oldest \<noteq> NULL
                 then do {
                   h \<leftarrow> kfree h (entry_buffptr oldest);
                   es \<leftarrow> arr_set (entry (buffer d)) (out_offs (buffer d))
                           (oldest\<lparr>entry_buffptr := NULL, entry_size := 0\<rparr>);
                   Some (h, d\<lparr>buffer := (buffer d)\<lparr>entry := es\<rparr>\<rparr>)
                 }
                 else Some (h, d)
               }
               else Some (h, d));
            let d = d\<lparr>write_buf := NULL, write_buf_size := 0\<rparr>;
            b \<leftarrow> aesd_circular_buffer_add_entry (Ptr (buffer d)) (Ptr new_entry);
            (case b of
               NULL \<Rightarrow> None
             | Ptr b \<Rightarrow> Some (h, Ptr (d\<lparr>buffer := b\<rparr>)))
          })"

section \<open>What the device stands for\<close>

text \<open>The bytes of an entry or of the partial command: \<open>size\<close> bytes of its block.\<close>

definition block_bytes :: "heap \<Rightarrow> addr cptr \<Rightarrow> size_t \<Rightarrow> byte list" where
  "block_bytes h p n = (case p of NULL \<Rightarrow> [] | Ptr a \<Rightarrow> take (unat n) (the (h a)))"

definition commands :: "heap \<Rightarrow> aesd_dev \<Rightarrow> byte list list" where
  "commands h d = map (\<lambda>e. block_bytes h (entry_buffptr e) (entry_size e)) (cb_items (buffer d))"

definition partial :: "heap \<Rightarrow> aesd_dev \<Rightarrow> byte list" where
  "partial h d = block_bytes h (write_buf d) (write_buf_size d)"

text \<open>A block that holds \<open>n\<close> bytes and the terminating null byte.\<close>

definition block_ok :: "heap \<Rightarrow> addr cptr \<Rightarrow> size_t \<Rightarrow> bool" where
  "block_ok h p n \<longleftrightarrow>
     (case p of
        NULL \<Rightarrow> False
      | Ptr a \<Rightarrow>
          (case h a of
             None \<Rightarrow> False
           | Some blk \<Rightarrow> length blk = Suc (unat n) \<and> last blk = 0 \<and> length blk \<le> kmalloc_max))"

fun ptr_addrs :: "addr cptr list \<Rightarrow> addr list" where
  "ptr_addrs [] = []"
| "ptr_addrs (NULL # ps) = ptr_addrs ps"
| "ptr_addrs (Ptr a # ps) = a # ptr_addrs ps"

definition owned :: "aesd_dev \<Rightarrow> addr list" where
  "owned d = ptr_addrs (map entry_buffptr (cb_items (buffer d)) @ [write_buf d])"

text \<open>The cells of the ring that hold no entry have a null pointer.\<close>

definition cb_clean :: "aesd_circular_buffer \<Rightarrow> bool" where
  "cb_clean b \<longleftrightarrow>
     (\<forall>e \<in> set (drop (cb_count b) (rotate (unat (out_offs b)) (entry b))). entry_buffptr e = NULL)"

text \<open>\<open>X\<close> is the set of the live blocks that do not belong to the device.\<close>

definition dev_inv :: "addr set \<Rightarrow> heap \<Rightarrow> aesd_dev \<Rightarrow> bool" where
  "dev_inv X h d \<longleftrightarrow>
     cb_inv (buffer d) \<and> cb_clean (buffer d) \<and>
     (\<forall>e \<in> set (cb_items (buffer d)). block_ok h (entry_buffptr e) (entry_size e)) \<and>
     (if write_buf d = NULL then write_buf_size d = 0 else block_ok h (write_buf d) (write_buf_size d)) \<and>
     distinct (owned d) \<and> X \<inter> set (owned d) = {} \<and> dom h = X \<union> set (owned d)"

section \<open>Lemmas on blocks and owned addresses\<close>

lemma ptr_addrs_append [simp]: "ptr_addrs (ps @ qs) = ptr_addrs ps @ ptr_addrs qs"
  by (induction ps rule: ptr_addrs.induct) auto

lemma set_ptr_addrs: "a \<in> set (ptr_addrs ps) \<longleftrightarrow> Ptr a \<in> set ps"
  by (induction ps rule: ptr_addrs.induct) auto

lemma block_frame [heap_simps]:
  assumes "p \<noteq> Ptr a"
  shows "block_ok (h(a := x)) p n = block_ok h p n" "block_bytes (h(a := x)) p n = block_bytes h p n"
  using assms by (auto simp: block_ok_def block_bytes_def split: cptr.splits)

lemma block_ok_Ptr:
  assumes "block_ok h p n"
  obtains a blk where "p = Ptr a" "h a = Some blk" "length blk = Suc (unat n)"
    "last blk = 0" "length blk \<le> kmalloc_max" "block_bytes h p n = take (unat n) blk"
  using assms by (auto simp: block_ok_def block_bytes_def split: cptr.splits option.splits)

lemma block_ok_not_NULL [simp]: "\<not> block_ok h NULL n"
  by (simp add: block_ok_def)

lemma length_block_bytes: "block_ok h p n \<Longrightarrow> length (block_bytes h p n) = unat n"
  by (erule block_ok_Ptr) simp

lemma block_ok_size: "block_ok h p n \<Longrightarrow> unat n < 2 ^ 32"
  by (erule block_ok_Ptr) (simp add: kmalloc_max_def)

lemma cb_items_rotate:
  "cb_inv b \<Longrightarrow> cb_items b = take (cb_count b) (rotate (unat (out_offs b)) (entry b))"
  using cb_count_bounds(1) [of b]
  by (intro nth_equalityI) (auto simp: cb_items_def cb_inv_def nth_rotate)

lemma rotate_update:
  assumes "length xs = 10" "n < 10"
  shows "rotate s (xs[(s + n) mod 10 := x]) = (rotate s xs)[n := x]"
proof (rule nth_equalityI)
  fix k assume "k < length (rotate s (xs[(s + n) mod 10 := x]))"
  then show "rotate s (xs[(s + n) mod 10 := x]) ! k = (rotate s xs)[n := x] ! k"
    using assms ring_cells_distinct [of k n s] ring_cells_distinct [of n k s]
    by (cases k n rule: linorder_cases) (auto simp: nth_rotate nth_list_update)
qed simp

lemma cb_clean_add [inv_intros]:
  assumes "cb_inv b" "cb_clean b"
  shows "cb_clean (cb_add b e)"
proof (cases "full b")
  case True
  with assms cb_count_bounds [OF assms(1)] show ?thesis
    by (simp add: cb_clean_def cb_add_count [OF assms(1)]) (simp add: cb_add_def cb_inv_def)
next
  case False
  let ?o = "unat (out_offs b)" and ?n = "cb_count b"
  have n: "?n < 10" using False cb_count_bounds [OF assms(1)] by auto
  have "rotate ?o ((entry b)[(?o + ?n) mod 10 := e]) = (rotate ?o (entry b))[?n := e]"
    using assms(1) n by (intro rotate_update) (simp_all add: cb_inv_def)
  then have "drop (Suc ?n) (rotate ?o ((entry b)[unat (in_offs b) := e])) = drop (Suc ?n) (rotate ?o (entry b))"
    using cb_count_bounds(3) [OF assms(1)] by simp
  moreover have "set (drop (Suc ?n) (rotate ?o (entry b))) \<subseteq> set (drop ?n (rotate ?o (entry b)))"
    by (rule set_drop_subset_set_drop) simp
  ultimately show ?thesis
    using assms(2) False n by (auto simp: cb_clean_def cb_add_count [OF assms(1)]) (auto simp: cb_add_def)
qed

lemma cb_clean_zero [inv_intros]: "cb_clean zero_buffer"
  by (auto simp: cb_clean_def zero_buffer_def zero_entry_def dest!: in_set_dropD)

lemma cb_full_items:
  assumes "cb_inv b" "full b"
  shows "cb_items b = entry b ! unat (out_offs b) # tl (cb_items b)" "length (cb_items b) = 10"
proof -
  from cb_count_bounds [OF assms(1)] assms(2) have n: "cb_count b = 10" by simp
  then show "length (cb_items b) = 10" by (simp add: length_cb_items)
  have "cb_items b = ring_view (entry b) (unat (out_offs b)) (Suc 9)" by (simp add: cb_items_def n)
  then show "cb_items b = entry b ! unat (out_offs b) # tl (cb_items b)"
    using assms by (simp only: ring_view_Suc list.sel) (simp add: cb_inv_def)
qed

text \<open>Clearing the oldest entry of a full ring before it is overwritten changes nothing.\<close>

lemma cb_add_cleared:
  assumes "cb_inv b" "full b"
  shows "cb_add (b\<lparr>entry := (entry b)[unat (out_offs b) := z]\<rparr>) e = cb_add b e"
  using assms by (simp add: cb_add_def cb_inv_def)

section \<open>The complete command\<close>

lemma owned_simps:
  "owned (d\<lparr>write_buf := NULL, write_buf_size := n, buffer := b\<rparr>) = ptr_addrs (map entry_buffptr (cb_items b))"
  by (simp add: owned_def)

lemma dev_inv_items:
  assumes "dev_inv X h d" "e \<in> set (cb_items (buffer d))"
  shows "block_ok h (entry_buffptr e) (entry_size e)"
  using assms by (simp add: dev_inv_def)

lemma handle_complete_command_not_full:
  assumes inv: "dev_inv X h d" and wb: "write_buf d \<noteq> NULL" and nf: "\<not> full (buffer d)"
  defines "d' \<equiv> d\<lparr>write_buf := NULL, write_buf_size := 0,
    buffer := cb_add (buffer d) \<lparr>entry_buffptr = write_buf d, entry_size = write_buf_size d\<rparr>\<rparr>"
  shows "aesd_handle_complete_command h (Ptr d) = Some (h, Ptr d')"
    and "dev_inv X h d'" and "commands h d' = commands h d @ [partial h d]"
proof -
  have cb: "cb_inv (buffer d)" using inv by (simp add: dev_inv_def)
  have n: "length (cb_items (buffer d)) < 10"
    using nf cb_count_bounds [OF cb] by (auto simp: length_cb_items)
  let ?e = "\<lparr>entry_buffptr = write_buf d, entry_size = write_buf_size d\<rparr>"
  have items: "cb_items (cb_add (buffer d) ?e) = cb_items (buffer d) @ [?e]"
    using n by (simp add: cb_add_items [OF cb])
  show "aesd_handle_complete_command h (Ptr d) = Some (h, Ptr d')"
    using wb nf cb by (auto simp: aesd_handle_complete_command_def Let_def add_entry_eq d'_def)
  show "dev_inv X h d'"
    using inv wb by (auto simp: dev_inv_def d'_def items owned_def intro: inv_intros)
  show "commands h d' = commands h d @ [partial h d]"
    by (simp add: commands_def partial_def d'_def items)
qed

lemma handle_complete_command_full:
  assumes inv: "dev_inv X h d" and wb: "write_buf d \<noteq> NULL" and f: "full (buffer d)"
  defines "d' \<equiv> d\<lparr>write_buf := NULL, write_buf_size := 0,
    buffer := cb_add (buffer d) \<lparr>entry_buffptr = write_buf d, entry_size = write_buf_size d\<rparr>\<rparr>"
  shows "\<exists>h'. aesd_handle_complete_command h (Ptr d) = Some (h', Ptr d') \<and> dev_inv X h' d' \<and>
    commands h' d' = tl (commands h d) @ [partial h d] \<and> (\<forall>a\<in>X. h' a = h a)"
proof -
  have cb: "cb_inv (buffer d)" using inv by (simp add: dev_inv_def)
  define o1 where "o1 = entry (buffer d) ! unat (out_offs (buffer d))"
  define es where "es = tl (cb_items (buffer d))"
  have it: "cb_items (buffer d) = o1 # es" and len: "length (cb_items (buffer d)) = 10"
    using cb_full_items [OF cb f] by (simp_all add: o1_def es_def)
  have "block_ok h (entry_buffptr o1) (entry_size o1)" by (rule dev_inv_items [OF inv]) (simp add: it)
  then obtain a blk where a: "entry_buffptr o1 = Ptr a" "h a = Some blk" by (rule block_ok_Ptr)
  have ne: "Ptr a \<notin> entry_buffptr ` set es" "write_buf d \<noteq> Ptr a" "a \<notin> X"
    using inv a by (auto simp: dev_inv_def owned_def it set_ptr_addrs)
  let ?e = "\<lparr>entry_buffptr = write_buf d, entry_size = write_buf_size d\<rparr>"
  let ?h = "h(a := None)"
  have items: "cb_items (cb_add (buffer d) ?e) = es @ [?e]"
    using len by (simp add: cb_add_items [OF cb] keep_last_snoc_full es_def)
  have step: "aesd_handle_complete_command h (Ptr d) = Some (?h, Ptr d')"
    using wb f cb a
    by (auto simp: aesd_handle_complete_command_def Let_def kfree_simps d'_def o1_def
        add_entry_eq cb_add_cleared cb_inv_def)
  have frame: "block_ok ?h (entry_buffptr e) n = block_ok h (entry_buffptr e) n"
    "block_bytes ?h (entry_buffptr e) n = block_bytes h (entry_buffptr e) n" if "e \<in> set es" for e n
  proof -
    have "entry_buffptr e \<noteq> Ptr a" using that ne(1) by force
    then show "block_ok ?h (entry_buffptr e) n = block_ok h (entry_buffptr e) n"
      "block_bytes ?h (entry_buffptr e) n = block_bytes h (entry_buffptr e) n"
      by (simp_all add: block_frame)
  qed
  have wbf: "block_ok ?h (write_buf d) n = block_ok h (write_buf d) n"
    "block_bytes ?h (write_buf d) n = block_bytes h (write_buf d) n" for n
    using ne(2) by (auto intro!: block_frame)
  have "dev_inv X ?h d'"
    using inv wb a ne
    by (auto simp: dev_inv_def d'_def items it owned_def frame wbf set_ptr_addrs intro: inv_intros)
  moreover have "commands ?h d' = tl (commands h d) @ [partial h d]"
    by (simp add: commands_def partial_def d'_def items it frame wbf)
  ultimately show ?thesis using step ne(3) by auto
qed

lemma tl_map_keep: "length xs = 10 \<Longrightarrow> tl xs @ [x] = keep_last 10 (xs @ [x])"
  by (simp add: keep_last_snoc_full)

lemma length_commands [simp]: "length (commands h d) = cb_count (buffer d)"
  by (simp add: commands_def length_cb_items)

text \<open>Both cases together: the oldest command is dropped when ten are stored.\<close>

lemma handle_complete_command_spec:
  assumes inv: "dev_inv X h d" and wb: "write_buf d \<noteq> NULL"
  shows "\<exists>h' d'. aesd_handle_complete_command h (Ptr d) = Some (h', Ptr d') \<and> dev_inv X h' d' \<and>
    commands h' d' = keep_last 10 (commands h d @ [partial h d]) \<and> partial h' d' = [] \<and>
    lock d' = lock d \<and> cdev d' = cdev d \<and> (\<forall>a\<in>X. h' a = h a)"
proof (cases "full (buffer d)")
  case True
  have "cb_inv (buffer d)" using inv by (simp add: dev_inv_def)
  then have "length (commands h d) = 10" using True cb_count_bounds by simp
  with handle_complete_command_full [OF inv wb True] show ?thesis
    by (fastforce simp: tl_map_keep partial_def block_bytes_def)
next
  case False
  have "cb_inv (buffer d)" using inv by (simp add: dev_inv_def)
  then have "length (commands h d) < 10" using False cb_count_bounds [of "buffer d"] by fastforce
  with handle_complete_command_not_full [OF inv wb False] show ?thesis
    by (auto simp: partial_def block_bytes_def)
qed

section \<open>The partial command\<close>

text \<open>What the environment may answer to the allocation of \<open>handle_write_buffer\<close>.\<close>

definition write_alloc_ok :: "alloc_choice \<Rightarrow> heap \<Rightarrow> aesd_dev \<Rightarrow> size_t \<Rightarrow> bool" where
  "write_alloc_ok c h d count \<longleftrightarrow>
     (case write_buf d of
        NULL \<Rightarrow> alloc_ok c h (count + 1)
      | Ptr q \<Rightarrow> realloc_ok c h q (write_buf_size d + count + 1))"

lemma unat_plus_1: "unat (n :: size_t) \<le> 2 ^ 62 \<Longrightarrow> unat (n + 1) = Suc (unat n)"
  using unat_add_size_t [of n 1] by simp

lemma dev_inv_other:
  assumes "dev_inv X h d" "h' = h(a := x)" "a \<notin> set (owned d)"
  shows "\<forall>e \<in> set (cb_items (buffer d)). block_ok h' (entry_buffptr e) (entry_size e)"
    and "commands h' d = commands h d"
proof -
  have ne: "entry_buffptr e \<noteq> Ptr a" if "e \<in> set (cb_items (buffer d))" for e
    using that assms(3) by (force simp: owned_def set_ptr_addrs)
  show "\<forall>e \<in> set (cb_items (buffer d)). block_ok h' (entry_buffptr e) (entry_size e)"
    using assms(1,2) ne by (simp add: dev_inv_def block_frame)
  show "commands h' d = commands h d"
    using assms(2) ne by (simp add: commands_def block_frame)
qed

lemma handle_write_buffer_new:
  assumes inv: "dev_inv X h d" and wb: "write_buf d = NULL" and at: "at c = Some a"
    and ok: "alloc_ok c h (count + 1)" and t: "t \<in> X" "h t = Some blk" "length blk = unat count"
    and cnt: "unat count \<le> kmalloc_max"
  defines "d' \<equiv> d\<lparr>write_buf := Ptr a, write_buf_size := count\<rparr>"
    and "h' \<equiv> h(a \<mapsto> blk @ [0])"
  shows "aesd_handle_write_buffer c h (Ptr d) (Ptr t) count = Some (h', Ptr d', Inr ())"
    and "dev_inv X h' d'" "commands h' d' = commands h d" "partial h' d' = blk"
proof -
  have n1: "unat (count + 1) = Suc (unat count)" using cnt by (simp add: unat_plus_1 kmalloc_max_def)
  have fresh: "h a = None" "Suc (unat count) \<le> kmalloc_max" using ok at n1 by (simp_all add: alloc_ok_def)
  then have ta: "t \<noteq> a" using t by auto
  show "aesd_handle_write_buffer c h (Ptr d) (Ptr t) count = Some (h', Ptr d', Inr ())"
    using wb at n1 t ta
    by (simp add: aesd_handle_write_buffer_def kmalloc_def heap_read_Ptr heap_write_Ptr h'_def d'_def)
  have a: "a \<notin> set (owned d)" "a \<notin> X" using inv fresh by (auto simp: dev_inv_def)
  note other = dev_inv_other [OF inv h'_def [unfolded atomize_eq, simplified] a(1)]
  show "dev_inv X h' d'"
    using inv wb a fresh other(1) t
    by (auto simp: dev_inv_def d'_def h'_def owned_def block_ok_def)
  show "commands h' d' = commands h d" using other(2) by (simp add: d'_def commands_def)
  show "partial h' d' = blk" using t by (simp add: partial_def d'_def h'_def block_bytes_def)
qed

lemma dev_inv_new_buf:
  fixes d :: aesd_dev
  defines "A \<equiv> set (ptr_addrs (map entry_buffptr (cb_items (buffer d))))"
  assumes inv: "dev_inv X h d"
    and items: "\<And>e n. e \<in> set (cb_items (buffer d)) \<Longrightarrow>
      block_ok h' (entry_buffptr e) n = block_ok h (entry_buffptr e) n"
    and buf: "block_ok h' (Ptr a) n" and a: "a \<notin> A" "a \<notin> X" and dom: "dom h' = insert a (X \<union> A)"
  shows "dev_inv X h' (d\<lparr>write_buf := Ptr a, write_buf_size := n\<rparr>)"
proof -
  have "distinct (ptr_addrs (map entry_buffptr (cb_items (buffer d))))" "X \<inter> A = {}"
    using inv by (auto simp: dev_inv_def owned_def A_def)
  then have "distinct (owned (d\<lparr>write_buf := Ptr a, write_buf_size := n\<rparr>))"
    "X \<inter> set (owned (d\<lparr>write_buf := Ptr a, write_buf_size := n\<rparr>)) = {}"
    "dom h' = X \<union> set (owned (d\<lparr>write_buf := Ptr a, write_buf_size := n\<rparr>))"
    using a dom by (auto simp: owned_def A_def)
  moreover have "\<forall>e\<in>set (cb_items (buffer d)). block_ok h' (entry_buffptr e) (entry_size e)"
    using inv items by (simp add: dev_inv_def)
  ultimately show ?thesis using inv buf by (simp add: dev_inv_def)
qed

lemma two_writes:
  assumes "length blk = w + n + 1" "length bs = n"
  shows "take (w + n) (take w blk @ bs @ drop (w + n) blk) @ [0] @
      drop (w + n + 1) (take w blk @ bs @ drop (w + n) blk) = take w blk @ bs @ [0]"
  using assms by simp

lemma handle_write_buffer_grow:
  assumes inv: "dev_inv X h d" and wb: "write_buf d = Ptr q" and at: "at c = Some a"
    and ok: "realloc_ok c h q (write_buf_size d + count + 1)"
    and t: "t \<in> X" "h t = Some blk" "length blk = unat count"
    and cnt: "unat count \<le> kmalloc_max"
  defines "d' \<equiv> d\<lparr>write_buf := Ptr a, write_buf_size := write_buf_size d + count\<rparr>"
    and "h' \<equiv> (h(q := None))(a \<mapsto> partial h d @ blk @ [0])"
  shows "aesd_handle_write_buffer c h (Ptr d) (Ptr t) count = Some (h', Ptr d', Inr ())"
    and "dev_inv X h' d'" "commands h' d' = commands h d" "partial h' d' = partial h d @ blk"
proof -
  let ?w = "unat (write_buf_size d)" and ?n = "unat count"
  have bok: "block_ok h (Ptr q) (write_buf_size d)" using inv wb by (simp add: dev_inv_def)
  then obtain bq where bq: "h q = Some bq" "length bq = Suc ?w" "length bq \<le> kmalloc_max"
    and part: "partial h d = take ?w bq"
    by (auto elim!: block_ok_Ptr simp: partial_def wb)
  have w: "unat (write_buf_size d + count) = ?w + ?n"
    using bq(2,3) cnt by (intro unat_add_size_t) (simp add: kmalloc_max_def)
  then have w1: "unat (write_buf_size d + count + 1) = Suc (?w + ?n)"
    using bq(2,3) cnt by (subst unat_plus_1) (simp_all add: kmalloc_max_def)
  have fresh: "a = q \<or> h a = None" "Suc (?w + ?n) \<le> kmalloc_max"
    using ok at w1 by (simp_all add: realloc_ok_def)
  have q: "q \<notin> X" "q \<in> dom h" using inv wb bq by (auto simp: dev_inv_def owned_def)
  have ta: "t \<noteq> a" "t \<noteq> q" using t q fresh by auto
  let ?b1 = "bq @ map (junk c) [Suc ?w..<Suc (?w + ?n)]"
  have b1: "length ?b1 = ?w + ?n + 1" "take ?w ?b1 = take ?w bq" using bq by simp_all
  have kr: "krealloc c h (Ptr q) (write_buf_size d + count + 1) = Some ((h(q := None))(a \<mapsto> ?b1), Ptr a)"
    using bq at w1 by (simp add: krealloc_def del: upt_Suc)
  have rd: "heap_read ((h(q := None))(a \<mapsto> ?b1)) (Ptr t) 0 ?n = Some blk"
    using t ta by (simp add: heap_read_Ptr)
  have wr: "heap_write ((h(q := None))(a \<mapsto> ?b1)) (Ptr a) ?w blk =
      Some ((h(q := None))(a \<mapsto> take ?w ?b1 @ blk @ drop (?w + ?n) ?b1))"
    using b1 t by (simp add: heap_write_Ptr del: upt_Suc)
  have wr0: "heap_write ((h(q := None))(a \<mapsto> take ?w ?b1 @ blk @ drop (?w + ?n) ?b1)) (Ptr a) (?w + ?n) [0] = Some h'"
    using two_writes [of ?b1 ?w ?n blk] b1 t bq part
    by (simp add: heap_write_Ptr h'_def del: upt_Suc)
  show "aesd_handle_write_buffer c h (Ptr d) (Ptr t) count = Some (h', Ptr d', Inr ())"
    using wb kr rd wr wr0 w by (simp add: aesd_handle_write_buffer_def d'_def del: upt_Suc)
  have a: "a \<notin> set (ptr_addrs (map entry_buffptr (cb_items (buffer d))))" "a \<notin> X"
    using inv fresh q wb by (auto simp: dev_inv_def owned_def)
  let ?A = "set (ptr_addrs (map entry_buffptr (cb_items (buffer d))))"
  have own: "owned d = ptr_addrs (map entry_buffptr (cb_items (buffer d))) @ [q]"
    by (simp add: owned_def wb)
  have "distinct (owned d)" "dom h = X \<union> set (owned d)" using inv by (simp_all add: dev_inv_def)
  then have dh: "dom h = insert q (X \<union> ?A)" and qn: "q \<notin> X \<union> ?A" using q(1) by (simp_all add: own)
  have ne: "entry_buffptr e \<noteq> Ptr a" "entry_buffptr e \<noteq> Ptr q" if "e \<in> set (cb_items (buffer d))" for e
  proof -
    have "entry_buffptr e \<noteq> Ptr x" if "x \<notin> ?A" for x
      using that \<open>e \<in> _\<close> by (metis imageI list.set_map set_ptr_addrs)
    then show "entry_buffptr e \<noteq> Ptr a" "entry_buffptr e \<noteq> Ptr q" using a(1) qn by simp_all
  qed
  have frame: "block_ok h' (entry_buffptr e) n = block_ok h (entry_buffptr e) n"
    "block_bytes h' (entry_buffptr e) n = block_bytes h (entry_buffptr e) n"
    if "e \<in> set (cb_items (buffer d))" for e n
    using ne [OF that] by (simp_all add: h'_def block_frame)
  have lp: "length (partial h d) = ?w" using part bq by simp
  have wb': "block_ok h' (Ptr a) (write_buf_size d + count)"
    "block_bytes h' (Ptr a) (write_buf_size d + count) = partial h d @ blk"
    using fresh t w lp by (simp_all add: block_ok_def block_bytes_def h'_def)
  have "dom h - {q} = X \<union> ?A" unfolding dh using qn by (rule Diff_insert_absorb)
  then have "dom h' = insert a (X \<union> ?A)" by (simp add: h'_def)
  then show "dev_inv X h' d'"
    unfolding d'_def by (intro dev_inv_new_buf [OF inv frame(1) wb'(1) a]) simp_all
  show "commands h' d' = commands h d" by (simp add: d'_def commands_def frame)
  show "partial h' d' = partial h d @ blk" using wb'(2) by (simp add: partial_def d'_def)
qed

text \<open>Every case together: the data is appended, or the allocation failed and nothing changed.\<close>

lemma handle_write_buffer_spec:
  assumes inv: "dev_inv X h d" and ok: "write_alloc_ok c h d count"
    and t: "t \<in> X" "h t = Some blk" "length blk = unat count" and cnt: "unat count \<le> kmalloc_max"
  shows "\<exists>h' d' res. aesd_handle_write_buffer c h (Ptr d) (Ptr t) count = Some (h', Ptr d', res) \<and>
    dev_inv X h' d' \<and> commands h' d' = commands h d \<and>
    (if at c = None then res = Inl ENOMEM \<and> h' = h \<and> d' = d
     else res = Inr () \<and> partial h' d' = partial h d @ blk \<and> write_buf d' \<noteq> NULL) \<and>
    lock d' = lock d \<and> cdev d' = cdev d \<and> (\<forall>a\<in>X. h' a = h a)"
proof (cases "at c")
  case None
  have "aesd_handle_write_buffer c h (Ptr d) (Ptr t) count = Some (h, Ptr d, Inl ENOMEM)"
  proof (cases "write_buf d")
    case NULL
    then show ?thesis using None by (simp add: aesd_handle_write_buffer_def kmalloc_def)
  next
    case (Ptr q)
    then obtain bq where "h q = Some bq" using inv by (auto simp: dev_inv_def elim: block_ok_Ptr)
    then show ?thesis using None Ptr by (simp add: aesd_handle_write_buffer_def krealloc_def)
  qed
  with None inv show ?thesis by simp
next
  case (Some a)
  show ?thesis
  proof (cases "write_buf d")
    case NULL
    with ok have ok': "alloc_ok c h (count + 1)" by (simp add: write_alloc_ok_def)
    then have "a \<notin> X" using Some inv by (auto simp: alloc_ok_def dev_inv_def)
    with handle_write_buffer_new [OF inv NULL Some ok' t cnt] NULL Some show ?thesis
      by (auto simp: partial_def block_bytes_def)
  next
    case (Ptr q)
    with ok have ok': "realloc_ok c h q (write_buf_size d + count + 1)" by (simp add: write_alloc_ok_def)
    have "a \<notin> X" "q \<notin> X"
      using ok' Some Ptr inv by (auto simp: realloc_ok_def dev_inv_def owned_def)
    with handle_write_buffer_grow [OF inv Ptr Some ok' t cnt] Some show ?thesis by auto
  qed
qed

end
