(* ===== verification/Char_Device.thy ===== *)
theory Char_Device
  imports Char_Buffer "HOL-Library.Multiset"
begin

text \<open>
  Loading and unloading the driver: \<open>aesd_setup_cdev\<close> and \<open>aesd_cleanup_device\<close> of
  \<open>char-driver/src/aesd-char-device.c\<close>, \<open>aesd_init\<close> and \<open>aesd_exit\<close> of \<open>main.c\<close>. The
  theorems: initialisation gives an empty device or releases what it acquired, and cleanup
  frees every block the device owns, once, whatever the state it is called in.
\<close>

section \<open>State\<close>

text \<open>
  \<open>region\<close> is the registered range of device numbers, \<open>aesd_device\<close> the global device.
\<close>

record kernel =
  kheap :: heap
  region :: "nat option"
  aesd_major :: nat
  aesd_device :: aesd_dev

section \<open>Device setup and cleanup\<close>

text \<open>\<open>added\<close> is what \<open>cdev_add\<close> answers: an error, or none.\<close>

definition aesd_setup_cdev :: "errno option \<Rightarrow> aesd_dev cptr \<Rightarrow> aesd_dev cptr \<times> (errno + unit)" where
  "aesd_setup_cdev added dev =
     (case dev of
        NULL \<Rightarrow> (dev, Inl EINVAL)
      | Ptr d \<Rightarrow>
          (let d = d\<lparr>cdev := \<lparr>cdev_ops = True, cdev_owner = False, cdev_added = False\<rparr>\<rparr>;
               d = d\<lparr>cdev := (cdev d)\<lparr>cdev_owner := True\<rparr>\<rparr>
           in case added of
                None \<Rightarrow> (Ptr (d\<lparr>cdev := (cdev d)\<lparr>cdev_added := True\<rparr>\<rparr>), Inr ())
              | Some err \<Rightarrow> (Ptr d, Inl err)))"

text \<open>The body of the loop \<open>AESD_CIRCULAR_BUFFER_FOREACH\<close> over the array, for one index.\<close>

definition cleanup_entry ::
  "heap \<times> aesd_buffer_entry list \<Rightarrow> u8 \<Rightarrow> (heap \<times> aesd_buffer_entry list) option" where
  "cleanup_entry s index =
     (case s of (h, es) \<Rightarrow> do {
        e \<leftarrow> arr_get es index;
        if entry_buffptr e \<noteq> NULL
        then do {
          h \<leftarrow> kfree h (entry_buffptr e);
          es \<leftarrow> arr_set es index (e\<lparr>entry_buffptr := NULL, entry_size := 0\<rparr>);
          Some (h, es)
        }
        else Some (h, es)
      })"

definition foreach_indices :: "u8 list" where
  "foreach_indices = map of_nat [0..<AESDCHAR_MAX_WRITE_OPERATIONS_SUPPORTED]"

definition aesd_cleanup_device :: "heap \<Rightarrow> aesd_dev cptr \<Rightarrow> (heap \<times> aesd_dev cptr) option" where
  "aesd_cleanup_device h dev =
     (case dev of
        NULL \<Rightarrow> Some (h, dev)
      | Ptr d \<Rightarrow> do {
          (h, d) \<leftarrow>
            (if write_buf d \<noteq> NULL
             then do {
               h \<leftarrow> kfree h (write_buf d);
               Some (h, d\<lparr>write_buf := NULL, write_buf_size := 0\<rparr>)
             }
             else Some (h, d));
          (h, es) \<leftarrow> foldM cleanup_entry (h, entry (buffer d)) foreach_indices;
          Some (h, Ptr (d\<lparr>buffer := (buffer d)\<lparr>entry := es\<rparr>\<rparr>))
        })"

section \<open>Module initialisation and exit\<close>

definition zero_dev :: aesd_dev where
  "zero_dev = \<lparr>buffer = zero_buffer, lock = Mutex_Uninit,
     cdev = \<lparr>cdev_ops = False, cdev_owner = False, cdev_added = False\<rparr>,
     write_buf = NULL, write_buf_size = 0\<rparr>"

definition MAJOR :: "nat \<Rightarrow> nat" where
  "MAJOR dev = dev div 2 ^ 20"

text \<open>\<open>mutex_destroy\<close> on a mutex that is not initialised or is held is an error.\<close>

definition mutex_destroy :: "mutex \<Rightarrow> mutex option" where
  "mutex_destroy m = (if m = Unlocked then Some Mutex_Uninit else None)"

definition unregister_chrdev_region :: "nat option \<Rightarrow> nat option option" where
  "unregister_chrdev_region r = (if r = None then None else Some None)"

text \<open>
  \<open>chrdev\<close> is the answer of \<open>alloc_chrdev_region\<close> (an error or the device number),
  \<open>added\<close> that of \<open>cdev_add\<close>.
\<close>

definition aesd_init ::
  "errno + nat \<Rightarrow> errno option \<Rightarrow> kernel \<Rightarrow> (kernel \<times> (errno + unit)) option" where
  "aesd_init chrdev added k =
     (case chrdev of
        Inl err \<Rightarrow> Some (k, Inl err)
      | Inr dev \<Rightarrow>
          (let k = k\<lparr>region := Some dev\<rparr>;
               k = k\<lparr>aesd_major := MAJOR dev\<rparr>;
               k = k\<lparr>aesd_device := zero_dev\<rparr>;
               k = k\<lparr>aesd_device := (aesd_device k)\<lparr>lock := Unlocked\<rparr>\<rparr>
           in case aesd_circular_buffer_init (Ptr (buffer (aesd_device k))) of
                NULL \<Rightarrow> None
              | Ptr b \<Rightarrow>
                  (let k = k\<lparr>aesd_device := (aesd_device k)\<lparr>buffer := b\<rparr>\<rparr>
                   in case aesd_setup_cdev added (Ptr (aesd_device k)) of
                        (NULL, _) \<Rightarrow> None
                      | (Ptr d, Inr _) \<Rightarrow> Some (k\<lparr>aesd_device := d\<rparr>, Inr ())
                      | (Ptr d, Inl err) \<Rightarrow> do {
                          r \<leftarrow> unregister_chrdev_region (region k);
                          l \<leftarrow> mutex_destroy (lock d);
                          Some (k\<lparr>aesd_device := d\<lparr>lock := l\<rparr>, region := r\<rparr>, Inl err)
                        })))"

definition aesd_exit :: "kernel \<Rightarrow> kernel option" where
  "aesd_exit k = do {
     (h, d) \<leftarrow> aesd_cleanup_device (kheap k) (Ptr (aesd_device k));
     (case d of
        NULL \<Rightarrow> None
      | Ptr d \<Rightarrow> do {
          let d = d\<lparr>cdev := (cdev d)\<lparr>cdev_added := False\<rparr>\<rparr>;
          l \<leftarrow> mutex_destroy (lock d);
          r \<leftarrow> unregister_chrdev_region (region k);
          Some (k\<lparr>kheap := h, aesd_device := d\<lparr>lock := l\<rparr>, region := r\<rparr>)
        })
   }"

section \<open>Cleanup frees everything once\<close>

lemma mset_ptr_addrs: "mset (ptr_addrs ps) = image_mset pval (filter_mset (\<lambda>p. p \<noteq> NULL) (mset ps))"
  by (induction ps rule: ptr_addrs.induct) auto

lemma ptr_addrs_NULLs: "\<forall>p\<in>set ps. p = NULL \<Longrightarrow> ptr_addrs ps = []"
  by (induction ps rule: ptr_addrs.induct) auto

lemma mset_rotate: "mset (rotate n xs) = mset xs"
  by (metis append_take_drop_id mset_append rotate_drop_take union_commute)

text \<open>The array holds the pointers of the items and null pointers, nothing else.\<close>

lemma cb_clean_ptrs:
  assumes "cb_inv b" "cb_clean b"
  shows "mset (ptr_addrs (map entry_buffptr (entry b))) = mset (ptr_addrs (map entry_buffptr (cb_items b)))"
proof -
  let ?r = "rotate (unat (out_offs b)) (entry b)"
  have "mset (map entry_buffptr (entry b)) = mset (map entry_buffptr ?r)"
    by (simp add: mset_rotate)
  also have "\<dots> = mset (map entry_buffptr (cb_items b) @ map entry_buffptr (drop (cb_count b) ?r))"
    by (simp only: cb_items_rotate [OF assms(1)] flip: map_append) (simp only: append_take_drop_id)
  finally have "mset (ptr_addrs (map entry_buffptr (entry b))) =
      mset (ptr_addrs (map entry_buffptr (cb_items b) @ map entry_buffptr (drop (cb_count b) ?r)))"
    by (simp add: mset_ptr_addrs)
  moreover have "ptr_addrs (map entry_buffptr (drop (cb_count b) ?r)) = []"
    using assms(2) by (intro ptr_addrs_NULLs) (auto simp: cb_clean_def)
  ultimately show ?thesis by simp
qed

text \<open>The loop, from index \<open>k\<close> on.\<close>

lemma cleanup_loop:
  assumes "length es = 10" "k \<le> 10"
    and "distinct (ptr_addrs (map entry_buffptr (drop k es)))"
    and "set (ptr_addrs (map entry_buffptr (drop k es))) \<subseteq> dom h"
    and "\<forall>e\<in>set (take k es). entry_buffptr e = NULL"
  shows "\<exists>h' es'. foldM cleanup_entry (h, es) (map of_nat [k..<10]) = Some (h', es') \<and>
    length es' = 10 \<and> (\<forall>e\<in>set es'. entry_buffptr e = NULL) \<and>
    h' = h |` (- set (ptr_addrs (map entry_buffptr (drop k es))))"
  using assms
proof (induction "10 - k" arbitrary: k h es)
  case 0
  then show ?case by (simp add: restrict_map_def)
next
  case (Suc m)
  then have k: "k < 10" "m = 10 - Suc k" by simp_all
  have u: "unat (of_nat k :: u8) = k" using k by (intro unat_of_nat_u8) simp
  have upt: "[k..<10] = k # [Suc k..<10]" using k by (simp add: upt_rec)
  have drop: "drop k es = es ! k # drop (Suc k) es" using k Suc.prems(1) by (simp add: Cons_nth_drop_Suc)
  show ?case
  proof (cases "entry_buffptr (es ! k)")
    case NULL
    have "\<forall>e\<in>set (take (Suc k) es). entry_buffptr e = NULL"
      using Suc.prems(1,5) k NULL by (auto simp: take_Suc_conv_app_nth)
    with Suc.hyps(1) [OF k(2) Suc.prems(1), of h] Suc.prems(3,4) k drop NULL show ?thesis
      by (simp add: upt cleanup_entry_def u Suc.prems(1))
  next
    case (Ptr a)
    let ?z = "(es ! k)\<lparr>entry_buffptr := NULL, entry_size := 0\<rparr>" and ?h = "h(a := None)"
    let ?A = "set (ptr_addrs (map entry_buffptr (drop (Suc k) es)))"
    have A: "distinct (ptr_addrs (map entry_buffptr (drop (Suc k) es)))" "a \<notin> ?A" "?A \<subseteq> dom ?h"
      using Suc.prems(3,4) drop Ptr by auto
    have "h a \<noteq> None" using Suc.prems(4) drop Ptr by auto
    then have step: "cleanup_entry (h, es) (of_nat k) = Some (?h, es[k := ?z])"
      using Ptr k Suc.prems(1) by (auto simp: cleanup_entry_def u kfree_simps)
    have "\<forall>e\<in>set (take (Suc k) (es[k := ?z])). entry_buffptr e = NULL"
      using Suc.prems(1,5) k by (auto simp: take_Suc_conv_app_nth)
    with Suc.hyps(1) [OF k(2), of "es[k := ?z]" ?h] A k Suc.prems(1) obtain h' es' where
      "foldM cleanup_entry (?h, es[k := ?z]) (map of_nat [Suc k..<10]) = Some (h', es')"
      "length es' = 10" "\<forall>e\<in>set es'. entry_buffptr e = NULL" "h' = ?h |` (- ?A)"
      by auto
    moreover have "?h |` (- ?A) = h |` (- insert a ?A)"
      by (auto simp: restrict_map_def fun_eq_iff)
    ultimately show ?thesis using step drop Ptr by (auto simp: upt)
  qed
qed

lemma cleanup_device_spec:
  assumes inv: "dev_inv X h d"
  shows "\<exists>h' d'. aesd_cleanup_device h (Ptr d) = Some (h', Ptr d') \<and> h' = h |` X \<and> dom h' = X \<and>
    write_buf d' = NULL \<and> (\<forall>e\<in>set (entry (buffer d')). entry_buffptr e = NULL) \<and>
    lock d' = lock d \<and> cdev d' = cdev d"
proof -
  let ?ps = "ptr_addrs (map entry_buffptr (entry (buffer d)))"
  let ?qs = "ptr_addrs (map entry_buffptr (cb_items (buffer d)))"
  let ?d = "d\<lparr>write_buf := NULL, write_buf_size := 0\<rparr>"
  have cb: "cb_inv (buffer d)" "cb_clean (buffer d)" and len: "length (entry (buffer d)) = 10"
    using inv by (simp_all add: dev_inv_def cb_inv_def)
  have ms: "mset ?ps = mset ?qs" by (rule cb_clean_ptrs [OF cb])
  then have set_eq: "set ?ps = set ?qs" by (metis set_mset_mset)
  have own: "owned d = ?qs @ ptr_addrs [write_buf d]" by (simp add: owned_def)
  have dist: "distinct ?ps" "X \<inter> set ?ps = {}" "dom h = X \<union> set ?ps \<union> set (ptr_addrs [write_buf d])"
    "set ?ps \<inter> set (ptr_addrs [write_buf d]) = {}" "X \<inter> set (ptr_addrs [write_buf d]) = {}"
    using inv ms set_eq mset_eq_imp_distinct_iff [OF ms] by (auto simp: dev_inv_def own)
  define h1 where "h1 = h |` (- set (ptr_addrs [write_buf d]))"
  have free: "(if write_buf d \<noteq> NULL then do { h \<leftarrow> kfree h (write_buf d); Some (h, ?d) } else Some (h, d)) =
      Some (h1, if write_buf d = NULL then d else ?d)"
  proof (cases "write_buf d")
    case NULL
    then show ?thesis by (simp add: h1_def restrict_map_def)
  next
    case (Ptr a)
    then have "h a \<noteq> None" using dist(3) by auto
    moreover have "h(a := None) = h1" using Ptr by (auto simp: h1_def restrict_map_def fun_eq_iff)
    ultimately show ?thesis using Ptr by (auto simp: kfree_simps)
  qed
  have "dom h1 = dom h \<inter> - set (ptr_addrs [write_buf d])" by (simp add: h1_def)
  with dist(3,4) have "set ?ps \<subseteq> dom h1" by blast
  with cleanup_loop [of "entry (buffer d)" 0 h1] dist(1) len obtain h2 es where
    loop: "foldM cleanup_entry (h1, entry (buffer d)) foreach_indices = Some (h2, es)"
    and es: "\<forall>e\<in>set es. entry_buffptr e = NULL" and h2: "h2 = h1 |` (- set ?ps)"
    by (auto simp: foreach_indices_def)
  have "h2 = h |` X" using dist by (auto simp: h2 h1_def restrict_map_def fun_eq_iff dom_def)
  moreover have "dom (h |` X) = X" using dist(3) by auto
  ultimately show ?thesis
    using free loop es by (auto simp: aesd_cleanup_device_def)
qed

section \<open>The loaded driver\<close>

definition kernel_inv :: "kernel \<Rightarrow> bool" where
  "kernel_inv k \<longleftrightarrow>
     dev_inv {} (kheap k) (aesd_device k) \<and> lock (aesd_device k) = Unlocked \<and> region k \<noteq> None \<and>
     cdev (aesd_device k) = \<lparr>cdev_ops = True, cdev_owner = True, cdev_added = True\<rparr>"

lemma empty_device:
  assumes "buffer d = zero_buffer" "write_buf d = NULL" "write_buf_size d = 0"
  shows "dev_inv X h d \<longleftrightarrow> dom h = X" "commands h d = []" "partial h d = []"
  using assms
  by (auto simp: dev_inv_def owned_def commands_def partial_def block_bytes_def intro: inv_intros)

lemma aesd_init_ok:
  assumes "kheap k = Map.empty"
  shows "\<exists>k'. aesd_init (Inr dev) None k = Some (k', Inr ()) \<and> kernel_inv k' \<and>
    commands (kheap k') (aesd_device k') = [] \<and> partial (kheap k') (aesd_device k') = [] \<and>
    aesd_major k' = dev div 2 ^ 20"
  using assms
  by (simp add: aesd_init_def aesd_circular_buffer_init_def aesd_setup_cdev_def zero_dev_def
      kernel_inv_def empty_device MAJOR_def)

lemma aesd_init_fails:
  "aesd_init (Inl err) added k = Some (k, Inl err)"
  "\<exists>k'. aesd_init (Inr dev) (Some err) k = Some (k', Inl err) \<and> region k' = None \<and>
     lock (aesd_device k') = Mutex_Uninit \<and> \<not> cdev_added (cdev (aesd_device k')) \<and> kheap k' = kheap k"
  by (simp_all add: aesd_init_def aesd_circular_buffer_init_def aesd_setup_cdev_def zero_dev_def
      mutex_destroy_def unregister_chrdev_region_def)

lemma aesd_exit_releases:
  assumes "kernel_inv k"
  shows "\<exists>k'. aesd_exit k = Some k' \<and> kheap k' = Map.empty \<and> region k' = None \<and>
    lock (aesd_device k') = Mutex_Uninit \<and> \<not> cdev_added (cdev (aesd_device k')) \<and>
    write_buf (aesd_device k') = NULL"
proof -
  have "dev_inv {} (kheap k) (aesd_device k)" using assms by (simp add: kernel_inv_def)
  from cleanup_device_spec [OF this] obtain h' d' where
    "aesd_cleanup_device (kheap k) (Ptr (aesd_device k)) = Some (h', Ptr d')" "h' = Map.empty"
    "write_buf d' = NULL" "lock d' = lock (aesd_device k)"
    by auto
  with assms show ?thesis
    by (auto simp: aesd_exit_def kernel_inv_def mutex_destroy_def unregister_chrdev_region_def)
qed

end
