(* ===== verification/File_Ops.thy ===== *)
theory File_Ops
  imports Char_Device
begin

text \<open>
  The file operations of \<open>char-driver/src/aesd-char-fileops.c\<close>: open, release, read, write,
  llseek and unlocked_ioctl. Each is the whole function: argument checks, the mutex, the
  transfer between user and kernel memory, every error path and the clean-up. The
  theorems say what each does to the commands and the partial command of the device.
\<close>

section \<open>Data\<close>

text \<open>\<open>struct file\<close>: the device that \<open>private_data\<close> points to (there is one) and the position.\<close>

record kfile =
  private_data :: "unit cptr"
  f_pos :: loff_t

record aesd_seekto =
  write_cmd :: u32
  write_cmd_offset :: u32

text \<open>
  The command number \<open>_IOWR(0x16, 1, struct aesd_seekto)\<close>: direction (read and write), size
  of the argument (8 bytes), magic and number, packed as \<open>asm-generic/ioctl.h\<close> does.
\<close>

definition AESD_IOC_MAGIC :: nat where
  "AESD_IOC_MAGIC = 0x16"

definition AESDCHAR_IOCSEEKTO :: u32 where
  "AESDCHAR_IOCSEEKTO = of_nat (3 * 2 ^ 30 + 8 * 2 ^ 16 + AESD_IOC_MAGIC * 2 ^ 8 + 1)"

text \<open>
  What the environment decides during one call: whether a signal interrupts the wait for
  the mutex, and the answers of the allocator.
\<close>

record op_env =
  interrupted :: bool
  tmp_alloc :: alloc_choice
  buf_alloc :: alloc_choice

section \<open>Kernel services\<close>

text \<open>
  \<open>mutex_lock_interruptible\<close> returns the mutex and whether it failed; \<open>None\<close> stands for a
  mutex that is not initialised or that the caller holds already.
\<close>

definition mutex_lock_interruptible :: "bool \<Rightarrow> mutex \<Rightarrow> (mutex \<times> bool) option" where
  "mutex_lock_interruptible intr m =
     (if m = Unlocked then Some (if intr then (Unlocked, True) else (Locked, False)) else None)"

definition mutex_unlock :: "mutex \<Rightarrow> mutex option" where
  "mutex_unlock m = (if m = Locked then Some Unlocked else None)"

text \<open>Locking and unlocking \<open>dev->lock\<close>.\<close>

definition dev_lock :: "op_env \<Rightarrow> kernel \<Rightarrow> (kernel \<times> bool) option" where
  "dev_lock e k = do {
     (l, failed) \<leftarrow> mutex_lock_interruptible (interrupted e) (lock (aesd_device k));
     Some (k\<lparr>aesd_device := (aesd_device k)\<lparr>lock := l\<rparr>\<rparr>, failed)
   }"

definition dev_unlock :: "kernel \<Rightarrow> kernel option" where
  "dev_unlock k = do {
     l \<leftarrow> mutex_unlock (lock (aesd_device k));
     Some (k\<lparr>aesd_device := (aesd_device k)\<lparr>lock := l\<rparr>\<rparr>)
   }"

text \<open>
  User memory at an address is the bytes that can be read there (\<open>src\<close>), or the number of
  bytes that can be written there (\<open>room\<close>). The copy stops at the first byte that cannot be
  accessed and returns how many were not copied; \<open>copy_from_user\<close> clears the rest.
\<close>

definition copy_from_user :: "heap \<Rightarrow> addr cptr \<Rightarrow> byte list \<Rightarrow> size_t \<Rightarrow> (heap \<times> nat) option" where
  "copy_from_user h dst src n =
     (let k = min (unat n) (length src) in do {
        h \<leftarrow> heap_write h dst 0 (take k src @ replicate (unat n - k) 0);
        Some (h, unat n - k)
      })"

definition copy_to_user :: "nat \<Rightarrow> heap \<Rightarrow> addr cptr \<Rightarrow> size_t \<Rightarrow> size_t \<Rightarrow> (byte list \<times> nat) option" where
  "copy_to_user room h src off n =
     do {
       bs \<leftarrow> heap_read h src (unat off) (unat n);
       Some (take room bs, unat n - min room (unat n))
     }"

text \<open>Dereferencing a pointer.\<close>

definition deref :: "'a cptr \<Rightarrow> 'a option" where
  "deref p = (case p of NULL \<Rightarrow> None | Ptr x \<Rightarrow> Some x)"

lemma deref_Ptr [simp]: "deref (Ptr x) = Some x"
  by (simp add: deref_def)

section \<open>Open and release\<close>

text \<open>\<open>container_of(inode->i_cdev, ...)\<close> is the device that contains the \<open>cdev\<close>.\<close>

definition aesd_open :: "unit \<Rightarrow> kfile \<Rightarrow> kfile \<times> (errno + unit)" where
  "aesd_open i_cdev filp = (filp\<lparr>private_data := Ptr i_cdev\<rparr>, Inr ())"

definition aesd_release :: "kfile \<Rightarrow> kfile \<times> (errno + unit)" where
  "aesd_release filp = (filp, Inr ())"

section \<open>Read\<close>

text \<open>
  Returns the state, the position through \<open>fpos\<close>, the bytes stored at the start of the
  user's buffer and the result.
\<close>

definition aesd_read ::
  "op_env \<Rightarrow> kernel \<Rightarrow> kfile \<Rightarrow> nat cptr \<Rightarrow> size_t \<Rightarrow> loff_t cptr \<Rightarrow>
   (kernel \<times> loff_t cptr \<times> byte list \<times> (errno + size_t)) option" where
  "aesd_read e k filp buf cnt fpos =
     (case (buf, fpos) of
        (Ptr room, Ptr pos) \<Rightarrow>
          if private_data filp = NULL then Some (k, fpos, [], Inl EINVAL)
          else do {
            (k, failed) \<leftarrow> dev_lock e k;
            if failed then Some (k, fpos, [], Inl ERESTARTSYS)
            else do {
              found \<leftarrow> aesd_circular_buffer_find_entry_offset_for_fpos
                         (Ptr (buffer (aesd_device k))) pos (Ptr 0);
              (case found of
                 NULL \<Rightarrow> do {
                   k \<leftarrow> dev_unlock k;
                   Some (k, fpos, [], Inr 0)
                 }
               | Ptr (idx, entry_offset) \<Rightarrow> do {
                   ent \<leftarrow> arr_get (entry (buffer (aesd_device k))) idx;
                   let bytes_to_read = min cnt (entry_size ent - entry_offset);
                   (out, left) \<leftarrow> copy_to_user room (kheap k) (entry_buffptr ent) entry_offset bytes_to_read;
                   let (fpos, retval) =
                     (if left \<noteq> 0 then (fpos, Inl EFAULT)
                      else (Ptr (pos + bytes_to_read), Inr bytes_to_read));
                   k \<leftarrow> dev_unlock k;
                   Some (k, fpos, out, retval)
                 })
            }
          }
      | _ \<Rightarrow> Some (k, fpos, [], Inl EINVAL))"

section \<open>Write\<close>

text \<open>The part of \<open>aesd_write\<close> that runs once \<open>tmp_buf\<close> holds the user's bytes.\<close>

definition aesd_write_store ::
  "alloc_choice \<Rightarrow> heap \<Rightarrow> aesd_dev \<Rightarrow> addr cptr \<Rightarrow> size_t \<Rightarrow>
   (heap \<times> aesd_dev \<times> (errno + size_t)) option" where
  "aesd_write_store c h d tmp_buf cnt = do {
     (h, dp, result) \<leftarrow> aesd_handle_write_buffer c h (Ptr d) tmp_buf cnt;
     d \<leftarrow> deref dp;
     (case result of
        Inl err \<Rightarrow> Some (h, d, Inl err)
      | Inr _ \<Rightarrow> do {
          bytes \<leftarrow> heap_read h (write_buf d) 0 (unat (write_buf_size d));
          if 10 \<in> set bytes
          then do {
            (h, dp) \<leftarrow> aesd_handle_complete_command h (Ptr d);
            d \<leftarrow> deref dp;
            Some (h, d, Inr cnt)
          }
          else Some (h, d, Inr cnt)
        })
   }"

definition aesd_write ::
  "op_env \<Rightarrow> kernel \<Rightarrow> kfile \<Rightarrow> byte list cptr \<Rightarrow> size_t \<Rightarrow> (kernel \<times> (errno + size_t)) option" where
  "aesd_write e k filp buf cnt =
     (case buf of
        NULL \<Rightarrow> Some (k, Inl EINVAL)
      | Ptr src \<Rightarrow>
          if private_data filp = NULL \<or> cnt = 0 then Some (k, Inl EINVAL)
          else do {
            (k, failed) \<leftarrow> dev_lock e k;
            if failed then Some (k, Inl ERESTARTSYS)
            else do {
              let (h, tmp_buf) = kmalloc (tmp_alloc e) (kheap k) cnt;
              let k = k\<lparr>kheap := h\<rparr>;
              if tmp_buf = NULL
              then do {
                k \<leftarrow> dev_unlock k;
                Some (k, Inl ENOMEM)
              }
              else do {
                (h, left) \<leftarrow> copy_from_user (kheap k) tmp_buf src cnt;
                (h, d, retval) \<leftarrow>
                  (if left \<noteq> 0 then Some (h, aesd_device k, Inl EFAULT)
                   else aesd_write_store (buf_alloc e) h (aesd_device k) tmp_buf cnt);
                h \<leftarrow> kfree h tmp_buf;
                k \<leftarrow> dev_unlock (k\<lparr>kheap := h, aesd_device := d\<rparr>);
                Some (k, retval)
              }
            }
          })"

section \<open>llseek\<close>

function total_size_loop :: "aesd_buffer_entry list \<Rightarrow> u8 \<Rightarrow> size_t \<Rightarrow> u8 \<Rightarrow> u8 \<Rightarrow> size_t option" where
  "total_size_loop es n_total total_size current_idx entries_checked =
     (if entries_checked < n_total
      then do {
        ent \<leftarrow> arr_get es current_idx;
        total_size_loop es n_total (total_size + entry_size ent) (next_offs current_idx) (entries_checked + 1)
      }
      else Some total_size)"
  by pat_completeness auto
termination
  by (relation "measure (\<lambda>(es, t, s, idx, n). unat t - unat n)")
     (auto simp: word_less_nat_alt unat_Suc_u8)

declare total_size_loop.simps [simp del]

definition aesd_get_total_buffer_size :: "aesd_circular_buffer \<Rightarrow> size_t option" where
  "aesd_get_total_buffer_size b = total_size_loop (entry b) (total_entries b) 0 (out_offs b) 0"

definition SEEK_SET :: int where "SEEK_SET = 0"
definition SEEK_CUR :: int where "SEEK_CUR = 1"
definition SEEK_END :: int where "SEEK_END = 2"

text \<open>
  \<open>new_pos < 0\<close> compares a signed \<open>loff_t\<close>; \<open>new_pos > total_size\<close> compares with a
  \<open>size_t\<close>, so \<open>new_pos\<close> is read as unsigned there. The sums are 64-bit and wrap.
\<close>

definition aesd_llseek :: "op_env \<Rightarrow> kernel \<Rightarrow> kfile \<Rightarrow> loff_t \<Rightarrow> int \<Rightarrow> (kernel \<times> kfile \<times> (errno + loff_t)) option" where
  "aesd_llseek e k filp offset whence =
     (if private_data filp = NULL then Some (k, filp, Inl EINVAL)
      else do {
        (k, failed) \<leftarrow> dev_lock e k;
        if failed then Some (k, filp, Inl ERESTARTSYS)
        else do {
          total_size \<leftarrow> aesd_get_total_buffer_size (buffer (aesd_device k));
          let target =
            (if whence = SEEK_SET then Some offset
             else if whence = SEEK_CUR then Some (f_pos filp + offset)
             else if whence = SEEK_END then Some (total_size + offset)
             else None);
          (case target of
             None \<Rightarrow> do {
               k \<leftarrow> dev_unlock k;
               Some (k, filp, Inl EINVAL)
             }
           | Some new_pos \<Rightarrow>
               if sint new_pos < 0 \<or> total_size < new_pos
               then do {
                 k \<leftarrow> dev_unlock k;
                 Some (k, filp, Inl EINVAL)
               }
               else do {
                 let filp = filp\<lparr>f_pos := new_pos\<rparr>;
                 k \<leftarrow> dev_unlock k;
                 Some (k, filp, Inr new_pos)
               })
        }
      })"

section \<open>ioctl\<close>

text \<open>
  \<open>entries_checked\<close> is a \<open>uint8_t\<close> compared with a \<open>uint32_t\<close>: with a bound above 255 the
  loop would not end, which is the value \<open>None\<close> of the partial function.
\<close>

partial_function (option) seekto_loop ::
  "aesd_buffer_entry list \<Rightarrow> u32 \<Rightarrow> loff_t \<Rightarrow> u8 \<Rightarrow> u8 \<Rightarrow> (loff_t \<times> u8) option" where
  "seekto_loop es cmd_index new_pos current_idx entries_checked =
     (if ucast entries_checked < cmd_index
      then (case arr_get es current_idx of
              None \<Rightarrow> None
            | Some ent \<Rightarrow> seekto_loop es cmd_index (new_pos + entry_size ent) (next_offs current_idx) (entries_checked + 1))
      else Some (new_pos, current_idx))"

text \<open>\<open>arg\<close> is the user's struct, or \<open>NULL\<close> for an address that cannot be read.\<close>

definition aesd_unlocked_ioctl ::
  "op_env \<Rightarrow> kernel \<Rightarrow> kfile \<Rightarrow> u32 \<Rightarrow> aesd_seekto cptr \<Rightarrow> (kernel \<times> kfile \<times> (errno + unit)) option" where
  "aesd_unlocked_ioctl e k filp cmd arg =
     (if private_data filp = NULL then Some (k, filp, Inl EINVAL)
      else if cmd = AESDCHAR_IOCSEEKTO then
        (case arg of
           NULL \<Rightarrow> Some (k, filp, Inl EFAULT)
         | Ptr seekto \<Rightarrow> do {
             (k, failed) \<leftarrow> dev_lock e k;
             if failed then Some (k, filp, Inl ERESTARTSYS)
             else do {
               let b = buffer (aesd_device k);
               if ucast (total_entries b) \<le> write_cmd seekto
               then do {
                 k \<leftarrow> dev_unlock k;
                 Some (k, filp, Inl EINVAL)
               }
               else do {
                 (new_pos, current_idx) \<leftarrow> seekto_loop (entry b) (write_cmd seekto) 0 (out_offs b) 0;
                 ent \<leftarrow> arr_get (entry b) current_idx;
                 if entry_size ent \<le> ucast (write_cmd_offset seekto)
                 then do {
                   k \<leftarrow> dev_unlock k;
                   Some (k, filp, Inl EINVAL)
                 }
                 else do {
                   let filp = filp\<lparr>f_pos := new_pos + ucast (write_cmd_offset seekto)\<rparr>;
                   k \<leftarrow> dev_unlock k;
                   Some (k, filp, Inr ())
                 }
               }
             }
           })
      else Some (k, filp, Inl ENOTTY))"

section \<open>The mutex\<close>

definition locked :: "kernel \<Rightarrow> kernel" where
  "locked k = k\<lparr>aesd_device := (aesd_device k)\<lparr>lock := Locked\<rparr>\<rparr>"

lemma locked_simps [simp]:
  "kheap (locked k) = kheap k" "region (locked k) = region k" "aesd_major (locked k) = aesd_major k"
  "buffer (aesd_device (locked k)) = buffer (aesd_device k)"
  "write_buf (aesd_device (locked k)) = write_buf (aesd_device k)"
  "write_buf_size (aesd_device (locked k)) = write_buf_size (aesd_device k)"
  "lock (aesd_device (locked k)) = Locked"
  "cdev (aesd_device (locked k)) = cdev (aesd_device k)"
  by (simp_all add: locked_def)

lemma locked_same_heap: "(locked k)\<lparr>kheap := kheap k\<rparr> = locked k"
  by (cases k) (simp add: locked_def)

lemma dev_lock_eq:
  assumes "lock (aesd_device k) = Unlocked"
  shows "dev_lock e k = Some (if interrupted e then (k, True) else (locked k, False))"
  using assms by (cases k) (auto simp: dev_lock_def mutex_lock_interruptible_def locked_def)

lemma dev_unlock_locked: "lock (aesd_device k) = Unlocked \<Longrightarrow> dev_unlock (locked k) = Some k"
  by (cases k) (auto simp: dev_unlock_def mutex_unlock_def locked_def)

lemma dev_unlock_eq:
  "lock (aesd_device k) = Locked \<Longrightarrow>
   dev_unlock k = Some (k\<lparr>aesd_device := (aesd_device k)\<lparr>lock := Unlocked\<rparr>\<rparr>)"
  by (simp add: dev_unlock_def mutex_unlock_def)

section \<open>What the device holds\<close>

abbreviation contents :: "kernel \<Rightarrow> byte list list" where
  "contents k \<equiv> commands (kheap k) (aesd_device k)"

abbreviation pending :: "kernel \<Rightarrow> byte list" where
  "pending k \<equiv> partial (kheap k) (aesd_device k)"

text \<open>The rest of the command that holds position \<open>p\<close> of the concatenated commands.\<close>

fun cmd_at :: "byte list list \<Rightarrow> nat \<Rightarrow> byte list" where
  "cmd_at [] p = []"
| "cmd_at (c # cs) p = (if p < length c then drop p c else cmd_at cs (p - length c))"

lemma cmd_at_Nil: "cmd_at cs p = [] \<longleftrightarrow> length (concat cs) \<le> p"
  by (induction cs p rule: cmd_at.induct) auto

lemma cmd_at_prefix: "prefix (cmd_at cs p) (drop p (concat cs))"
  by (induction cs p rule: cmd_at.induct) (auto simp: prefix_def)

lemma cmd_at_nth:
  "i < length cs \<Longrightarrow> j < length (cs ! i) \<Longrightarrow> cmd_at cs (length (concat (take i cs)) + j) = drop j (cs ! i)"
  by (induction cs arbitrary: i) (auto simp: nth_Cons take_Cons split: nat.splits)

lemma kernel_invD:
  assumes "kernel_inv k"
  shows "cb_inv (buffer (aesd_device k))" "lock (aesd_device k) = Unlocked"
    "dev_inv {} (kheap k) (aesd_device k)"
    "\<And>e. e \<in> set (cb_items (buffer (aesd_device k))) \<Longrightarrow> block_ok (kheap k) (entry_buffptr e) (entry_size e)"
  using assms by (auto simp: kernel_inv_def dev_inv_def)

lemma sizes_contents:
  assumes "\<And>e. e \<in> set es \<Longrightarrow> block_ok h (entry_buffptr e) (entry_size e)"
  shows "sizes es = length (concat (map (\<lambda>e. block_bytes h (entry_buffptr e) (entry_size e)) es))"
    and "sizes es \<le> length es * 2 ^ 32"
proof -
  show "sizes es = length (concat (map (\<lambda>e. block_bytes h (entry_buffptr e) (entry_size e)) es))"
    using assms by (induction es) (auto simp: length_block_bytes)
  show "sizes es \<le> length es * 2 ^ 32"
    using assms
  proof (induction es)
    case (Cons e es)
    then show ?case using block_ok_size [of h "entry_buffptr e" "entry_size e"] by simp
  qed simp
qed

lemma contents_size:
  assumes "kernel_inv k"
  shows "sizes (cb_items (buffer (aesd_device k))) = length (concat (contents k))"
    "length (concat (contents k)) \<le> 10 * 2 ^ 32"
proof -
  note inv = kernel_invD [OF assms]
  show eq: "sizes (cb_items (buffer (aesd_device k))) = length (concat (contents k))"
    unfolding commands_def by (rule sizes_contents(1)) (rule inv(4))
  have "sizes (cb_items (buffer (aesd_device k))) \<le> length (cb_items (buffer (aesd_device k))) * 2 ^ 32"
    by (rule sizes_contents(2)) (rule inv(4))
  also have "\<dots> \<le> 10 * 2 ^ 32"
    using cb_inv_count [OF inv(1)] by simp
  finally show "length (concat (contents k)) \<le> 10 * 2 ^ 32" by (simp add: eq)
qed

text \<open>The search by position, read on the contents.\<close>

lemma locate_cmd_at:
  assumes "\<And>e. e \<in> set es \<Longrightarrow> block_ok h (entry_buffptr e) (entry_size e)"
  shows "cmd_at (map (\<lambda>e. block_bytes h (entry_buffptr e) (entry_size e)) es) p =
    (case locate es p of
       None \<Rightarrow> []
     | Some (j, d) \<Rightarrow> drop d (block_bytes h (entry_buffptr (es ! j)) (entry_size (es ! j))))"
  using assms
proof (induction es p rule: locate.induct)
  case (2 e es p)
  then show ?case
    by (auto simp: length_block_bytes split: option.splits)
qed simp

section \<open>Reading\<close>

lemma aesd_read_spec:
  fixes cnt :: size_t and pos :: loff_t
  assumes inv: "kernel_inv k" and pd: "private_data filp \<noteq> NULL"
  defines "bs \<equiv> take (unat cnt) (cmd_at (contents k) (unat pos))"
  shows "aesd_read e k filp (Ptr room) cnt (Ptr pos) =
    Some (if interrupted e then (k, Ptr pos, [], Inl ERESTARTSYS)
          else if room < length bs then (k, Ptr pos, take room bs, Inl EFAULT)
          else (k, Ptr (pos + of_nat (length bs)), bs, Inr (of_nat (length bs))))"
proof (cases "interrupted e")
  case True
  then show ?thesis using pd kernel_invD(2) [OF inv] by (auto simp: aesd_read_def dev_lock_eq)
next
  case False
  note ki = kernel_invD [OF inv]
  let ?b = "buffer (aesd_device k)" and ?h = "kheap k"
  let ?its = "cb_items ?b"
  have "sizes ?its < 2 ^ 64" using contents_size [OF inv] by simp
  note find = find_entry_eq [OF ki(1) this, of pos 0]
  have at: "cmd_at (contents k) (unat pos) =
    (case locate ?its (unat pos) of
       None \<Rightarrow> []
     | Some (j, d) \<Rightarrow> drop d (block_bytes ?h (entry_buffptr (?its ! j)) (entry_size (?its ! j))))"
    unfolding commands_def by (rule locate_cmd_at) (rule ki(4))
  show ?thesis
  proof (cases "locate ?its (unat pos)")
    case None
    then have "bs = []" using at by (simp add: bs_def)
    then show ?thesis
      using False pd None find ki(2) by (auto simp: aesd_read_def dev_lock_eq dev_unlock_locked)
  next
    case (Some jd)
    obtain j d where jd: "jd = (j, d)" by (cases jd)
    with Some have loc: "j < length ?its" "d < esize (?its ! j)" using locate_SomeD by auto
    let ?idx = "of_nat ((unat (out_offs ?b) + j) mod 10) :: u8" and ?e = "?its ! j"
    have idx: "unat ?idx = (unat (out_offs ?b) + j) mod 10" by (rule unat_of_nat_u8) simp
    have get: "arr_get (entry ?b) ?idx = Some ?e"
      using loc(1) ki(1) idx by (simp add: length_cb_items cb_inv_def) (simp add: cb_items_def)
    have "block_ok ?h (entry_buffptr ?e) (entry_size ?e)" using loc(1) by (intro ki(4)) simp
    then obtain a blk where a: "entry_buffptr ?e = Ptr a" "?h a = Some blk" "length blk = Suc (esize ?e)"
      and bytes: "block_bytes ?h (entry_buffptr ?e) (entry_size ?e) = take (esize ?e) blk"
      by (rule block_ok_Ptr)
    have d: "unat (of_nat d :: size_t) = d"
      using loc(2) unat_less_2_64 [of "entry_size ?e"] by (simp add: unat_of_nat)
    then have "unat (entry_size ?e - of_nat d) = esize ?e - d"
      using loc(2) by (simp add: unat_sub word_le_nat_alt)
    then have n: "unat (min cnt (entry_size ?e - of_nat d)) = min (unat cnt) (esize ?e - d)"
      by (simp add: min_def word_le_nat_alt)
    have bs: "bs = take (min (unat cnt) (esize ?e - d)) (drop d blk)"
      using at Some jd bytes by (simp add: bs_def drop_take)
    have len: "length bs = min (unat cnt) (esize ?e - d)" using bs a(3) by simp
    have of_len: "of_nat (length bs) = min cnt (entry_size ?e - of_nat d)"
      unfolding len n [symmetric] by simp
    have copy: "copy_to_user room ?h (entry_buffptr ?e) (of_nat d) (min cnt (entry_size ?e - of_nat d)) =
        Some (take room bs, length bs - min room (length bs))"
      using a loc(2) by (simp add: copy_to_user_def n d heap_read_Ptr bs [symmetric] len)
    show ?thesis
      using False pd find Some jd ki(2) get copy of_len
      by (auto simp: aesd_read_def dev_lock_eq dev_unlock_locked Let_def)
  qed
qed

section \<open>Writing\<close>

text \<open>The specification of one write: append, and store what is complete.\<close>

definition a_write :: "byte list list \<times> byte list \<Rightarrow> byte list \<Rightarrow> byte list list \<times> byte list" where
  "a_write s data =
     (let p = snd s @ data
      in if 10 \<in> set p then (keep_last 10 (fst s @ [p]), []) else (fst s, p))"

text \<open>
  The allocator behaves: \<open>tmp_buf\<close> is fresh, and so is what the second call returns, made
  while \<open>tmp_buf\<close> is live.
\<close>

definition write_env_ok :: "op_env \<Rightarrow> kernel \<Rightarrow> size_t \<Rightarrow> bool" where
  "write_env_ok e k cnt \<longleftrightarrow>
     alloc_ok (tmp_alloc e) (kheap k) cnt \<and>
     (case at (tmp_alloc e) of
        None \<Rightarrow> True
      | Some t \<Rightarrow> write_alloc_ok (buf_alloc e) ((kheap k)(t \<mapsto> [])) (aesd_device k) cnt)"

definition write_result :: "op_env \<Rightarrow> byte list \<Rightarrow> size_t \<Rightarrow> errno + size_t" where
  "write_result e src cnt =
     (if interrupted e then Inl ERESTARTSYS
      else if at (tmp_alloc e) = None then Inl ENOMEM
      else if length src < unat cnt then Inl EFAULT
      else if at (buf_alloc e) = None then Inl ENOMEM
      else Inr cnt)"

lemma write_alloc_ok_upd:
  "write_alloc_ok c (h(t \<mapsto> x)) d n \<Longrightarrow> write_alloc_ok c (h(t \<mapsto> y)) d n"
  by (auto simp: write_alloc_ok_def alloc_ok_def realloc_ok_def split: cptr.splits option.splits)

lemma write_alloc_ok_lock [simp]: "write_alloc_ok c h (d\<lparr>lock := l\<rparr>) n = write_alloc_ok c h d n"
  by (simp add: write_alloc_ok_def split: cptr.split)

text \<open>Allocating a block that the device does not own, and freeing it again.\<close>

lemma dev_inv_alloc:
  assumes inv: "dev_inv X h d" and a: "h a = None"
  shows "dev_inv (insert a X) (h(a \<mapsto> blk)) d" "commands (h(a \<mapsto> blk)) d = commands h d"
    "partial (h(a \<mapsto> blk)) d = partial h d"
proof -
  have ao: "a \<notin> set (owned d)" using inv a by (auto simp: dev_inv_def)
  note other = dev_inv_other [OF inv refl ao]
  have wb: "write_buf d \<noteq> Ptr a" using ao by (auto simp: owned_def set_ptr_addrs)
  show "partial (h(a \<mapsto> blk)) d = partial h d" using wb by (simp add: partial_def block_frame)
  show "commands (h(a \<mapsto> blk)) d = commands h d" by (rule other(2))
  have d: "dom (h(a \<mapsto> blk)) = insert a (X \<union> set (owned d))" using inv by (simp add: dev_inv_def)
  have "if write_buf d = NULL then write_buf_size d = 0
      else block_ok (h(a \<mapsto> blk)) (write_buf d) (write_buf_size d)"
    using inv wb by (auto simp: dev_inv_def block_frame split: if_splits)
  then show "dev_inv (insert a X) (h(a \<mapsto> blk)) d"
    using inv other(1) d ao unfolding dev_inv_def by simp
qed

lemma dev_inv_free:
  assumes inv: "dev_inv (insert a X) h d" and a: "a \<notin> X"
  shows "kfree h (Ptr a) = Some (h(a := None))" "dev_inv X (h(a := None)) d"
    "commands (h(a := None)) d = commands h d" "partial (h(a := None)) d = partial h d"
proof -
  have ao: "a \<notin> set (owned d)" and dh: "dom h = insert a (X \<union> set (owned d))"
    using inv by (auto simp: dev_inv_def)
  note other = dev_inv_other [OF inv refl ao]
  have wb: "write_buf d \<noteq> Ptr a" using ao by (auto simp: owned_def set_ptr_addrs)
  have "a \<in> dom h" by (simp add: dh)
  then show "kfree h (Ptr a) = Some (h(a := None))" by (auto simp: kfree_simps)
  show "partial (h(a := None)) d = partial h d" using wb by (simp add: partial_def block_frame)
  show "commands (h(a := None)) d = commands h d" by (rule other(2))
  have d: "dom (h(a := None)) = X \<union> set (owned d)" using dh a ao by simp
  have "if write_buf d = NULL then write_buf_size d = 0
      else block_ok (h(a := None)) (write_buf d) (write_buf_size d)"
    using inv wb by (auto simp: dev_inv_def block_frame split: if_splits)
  then show "dev_inv X (h(a := None)) d"
    using inv other(1) d unfolding dev_inv_def by simp
qed

lemma dev_inv_lock [simp]: "dev_inv X h (d\<lparr>lock := l\<rparr>) = dev_inv X h d"
  "commands h (d\<lparr>lock := l\<rparr>) = commands h d" "partial h (d\<lparr>lock := l\<rparr>) = partial h d"
  by (simp_all add: dev_inv_def owned_def commands_def partial_def)

lemma write_store_spec:
  assumes inv: "dev_inv {t} h d" and t: "h t = Some data" "length data = unat cnt"
    and ok: "write_alloc_ok c h d cnt" and cnt: "unat cnt \<le> kmalloc_max"
  shows "\<exists>h' d'. aesd_write_store c h d (Ptr t) cnt =
      Some (h', d', if at c = None then Inl ENOMEM else Inr cnt) \<and>
    dev_inv {t} h' d' \<and> lock d' = lock d \<and> cdev d' = cdev d \<and>
    (commands h' d', partial h' d') =
      (if at c = None then (commands h d, partial h d) else a_write (commands h d, partial h d) data)"
proof -
  have "t \<in> {t}" by simp
  from handle_write_buffer_spec [OF inv ok this t cnt] obtain h1 d1 res where
    hw: "aesd_handle_write_buffer c h (Ptr d) (Ptr t) cnt = Some (h1, Ptr d1, res)"
    and inv1: "dev_inv {t} h1 d1" and cmds: "commands h1 d1 = commands h d"
    and res: "if at c = None then res = Inl ENOMEM \<and> h1 = h \<and> d1 = d
         else res = Inr () \<and> partial h1 d1 = partial h d @ data \<and> write_buf d1 \<noteq> NULL"
    and fr: "lock d1 = lock d" "cdev d1 = cdev d"
    by blast
  show ?thesis
  proof (cases "at c")
    case None
    with hw res inv1 cmds fr show ?thesis by (simp add: aesd_write_store_def)
  next
    case (Some a)
    with res have r: "res = Inr ()" and p: "partial h1 d1 = partial h d @ data" and wb: "write_buf d1 \<noteq> NULL"
      by simp_all
    from inv1 wb have "block_ok h1 (write_buf d1) (write_buf_size d1)" by (auto simp: dev_inv_def)
    then have rd: "heap_read h1 (write_buf d1) 0 (unat (write_buf_size d1)) = Some (partial h1 d1)"
      by (auto elim!: block_ok_Ptr simp: partial_def heap_read_Ptr)
    show ?thesis
    proof (cases "10 \<in> set (partial h1 d1)")
      case False
      with hw r rd inv1 cmds fr p Some show ?thesis by (auto simp: aesd_write_store_def a_write_def Let_def)
    next
      case True
      from handle_complete_command_spec [OF inv1 wb] obtain h2 d2 where
        "aesd_handle_complete_command h1 (Ptr d1) = Some (h2, Ptr d2)" "dev_inv {t} h2 d2"
        "commands h2 d2 = keep_last 10 (commands h1 d1 @ [partial h1 d1])" "partial h2 d2 = []"
        "lock d2 = lock d1" "cdev d2 = cdev d1"
        by blast
      with hw r rd True cmds fr p Some show ?thesis by (auto simp: aesd_write_store_def a_write_def Let_def)
    qed
  qed
qed

lemma aesd_write_invalid:
  "buf = NULL \<or> private_data filp = NULL \<or> cnt = 0 \<Longrightarrow> aesd_write e k filp buf cnt = Some (k, Inl EINVAL)"
  by (auto simp: aesd_write_def split: cptr.splits)

lemma copy_from_user_eq:
  assumes "h t = Some blk" "length blk = unat cnt"
  shows "copy_from_user h (Ptr t) src cnt =
    Some (h(t \<mapsto> take (unat cnt) src @ replicate (unat cnt - length src) 0), unat cnt - length src)"
proof -
  have "take (min (unat cnt) (length src)) src = take (unat cnt) src" by (auto simp: min_def)
  moreover have "unat cnt - min (unat cnt) (length src) = unat cnt - length src" by simp
  ultimately show ?thesis using assms by (simp add: copy_from_user_def heap_write_Ptr Let_def)
qed

lemma aesd_write_spec:
  assumes inv: "kernel_inv k" and pd: "private_data filp \<noteq> NULL" and cnt: "cnt \<noteq> 0"
    and ok: "write_env_ok e k cnt"
  shows "\<exists>k'. aesd_write e k filp (Ptr src) cnt = Some (k', write_result e src cnt) \<and> kernel_inv k' \<and>
    (contents k', pending k') =
      (case write_result e src cnt of
         Inl _ \<Rightarrow> (contents k, pending k)
       | Inr _ \<Rightarrow> a_write (contents k, pending k) (take (unat cnt) src))"
proof -
  note ki = kernel_invD [OF inv]
  consider "interrupted e" | "\<not> interrupted e" "at (tmp_alloc e) = None"
    | t where "\<not> interrupted e" "at (tmp_alloc e) = Some t" by auto
  then show ?thesis
  proof cases
    case 1
    then show ?thesis using pd cnt ki(2) inv by (auto simp: aesd_write_def dev_lock_eq write_result_def)
  next
    case 2
    then show ?thesis
      using 2 pd cnt ki(2) inv
      by (auto simp: aesd_write_def dev_lock_eq dev_unlock_locked locked_same_heap write_result_def kmalloc_def)
  next
    case 3
    let ?data = "take (unat cnt) src @ replicate (unat cnt - length src) 0"
    let ?h = "(kheap k)(t \<mapsto> ?data)" and ?d = "aesd_device (locked k)"
    have fresh: "kheap k t = None" "unat cnt \<le> kmalloc_max"
      using ok 3 by (simp_all add: write_env_ok_def alloc_ok_def)
    have "write_alloc_ok (buf_alloc e) ((kheap k)(t \<mapsto> [])) (aesd_device k) cnt"
      using ok 3 by (simp add: write_env_ok_def)
    then have "write_alloc_ok (buf_alloc e) ?h (aesd_device k) cnt" by (rule write_alloc_ok_upd)
    then have wok: "write_alloc_ok (buf_alloc e) ?h ?d cnt" by (simp add: locked_def)
    have inv0: "dev_inv {} (kheap k) ?d" "commands (kheap k) ?d = contents k" "partial (kheap k) ?d = pending k"
      using ki(3) by (simp_all add: locked_def)
    note al = dev_inv_alloc [OF inv0(1) fresh(1), of ?data]
    define store where "store =
      (if unat cnt - length src \<noteq> 0 then Some (?h, ?d, Inl EFAULT)
       else aesd_write_store (buf_alloc e) ?h ?d (Ptr t) cnt)"
    have "\<exists>h1 d1. store = Some (h1, d1, write_result e src cnt) \<and> dev_inv {t} h1 d1 \<and> lock d1 = Locked \<and>
      cdev d1 = cdev (aesd_device k) \<and> (commands h1 d1, partial h1 d1) =
        (case write_result e src cnt of
           Inl _ \<Rightarrow> (contents k, pending k)
         | Inr _ \<Rightarrow> a_write (contents k, pending k) (take (unat cnt) src))"
      using write_store_spec [OF al(1) _ _ wok fresh(2)] al inv0 3
      by (auto simp: store_def write_result_def)
    then obtain h1 d1 where mid: "store = Some (h1, d1, write_result e src cnt)"
      and post: "dev_inv {t} h1 d1" "lock d1 = Locked" "cdev d1 = cdev (aesd_device k)"
      and abs: "(commands h1 d1, partial h1 d1) =
        (case write_result e src cnt of
           Inl _ \<Rightarrow> (contents k, pending k)
         | Inr _ \<Rightarrow> a_write (contents k, pending k) (take (unat cnt) src))"
      by blast
    have "aesd_write e k filp (Ptr src) cnt =
        do {
          (h, d, retval) \<leftarrow> store;
          h \<leftarrow> kfree h (Ptr t);
          k \<leftarrow> dev_unlock ((locked k)\<lparr>kheap := h, aesd_device := d\<rparr>);
          Some (k, retval)
        }"
      using 3 pd cnt ki(2)
      by (auto simp: aesd_write_def dev_lock_eq kmalloc_def copy_from_user_eq [where t = t] locked_def store_def)
    then show ?thesis
      using mid abs dev_inv_free [OF post(1)] post inv
      by (simp add: dev_unlock_eq kernel_inv_def)
  qed
qed

section \<open>Seeking\<close>

lemma total_size_loop_eq:
  assumes "length es = 10" "unat n_total = n" "unat checked = k" "k \<le> n" "unat idx = (start + k) mod 10"
  shows "total_size_loop es n_total s idx checked = Some (s + of_nat (sizes (drop k (ring_view es start n))))"
  using assms(3-)
proof (induction "n - k" arbitrary: k s idx checked)
  case 0
  with assms(2) show ?case by (simp add: total_size_loop.simps word_less_nat_alt)
next
  case (Suc m)
  let ?e = "es ! ((start + k) mod 10)"
  have k: "k < n" using Suc.hyps(2) by simp
  have less: "checked < n_total" using k Suc.prems assms(2) by (simp add: word_less_nat_alt)
  have idx: "unat idx < length es" "es ! unat idx = ?e" using Suc.prems(3) assms(1) by simp_all
  have "unat (checked + 1) = Suc k"
    using unat_Suc_u8 [of checked n_total] k Suc.prems(1) assms(2) by simp
  then have "total_size_loop es n_total (s + entry_size ?e) (next_offs idx) (checked + 1) =
      Some (s + entry_size ?e + of_nat (sizes (drop (Suc k) (ring_view es start n))))"
    using Suc.hyps k next_offs_idx [OF Suc.prems(3)] by (intro Suc.hyps(1)) simp_all
  then show ?case
    using less idx drop_ring_view [OF k, of es start]
    by (simp add: total_size_loop.simps [of es n_total s idx checked] add.assoc)
qed

lemma total_buffer_size_eq:
  assumes "kernel_inv k"
  shows "aesd_get_total_buffer_size (buffer (aesd_device k)) = Some (of_nat (length (concat (contents k))))"
proof -
  let ?b = "buffer (aesd_device k)"
  have "total_size_loop (entry ?b) (total_entries ?b) 0 (out_offs ?b) 0 =
      Some (0 + of_nat (sizes (drop 0 (ring_view (entry ?b) (unat (out_offs ?b)) (cb_count ?b)))))"
    using kernel_invD(1) [OF assms]
    by (intro total_size_loop_eq) (simp_all add: cb_inv_def cb_count_def)
  then show ?thesis
    by (simp add: aesd_get_total_buffer_size_def contents_size(1) [OF assms] flip: cb_items_def)
qed

text \<open>The position a seek asks for, as an integer.\<close>

definition seek_target :: "int \<Rightarrow> int \<Rightarrow> int \<Rightarrow> int \<Rightarrow> int option" where
  "seek_target n_all pos off whence =
     (if whence = SEEK_SET then Some off
      else if whence = SEEK_CUR then Some (pos + off)
      else if whence = SEEK_END then Some (n_all + off)
      else None)"

lemma loff_in_bounds:
  fixes n :: nat
  assumes "n < 2 ^ 63" "- (2 ^ 63) \<le> t" "t < 2 ^ 64"
  shows "\<not> (sint (word_of_int t :: loff_t) < 0 \<or> of_nat n < (word_of_int t :: loff_t)) \<longleftrightarrow> 0 \<le> t \<and> t \<le> int n"
proof -
  have self: "sint (word_of_int t :: loff_t) = t" if "t < 2 ^ 63"
    using that assms(2) by (simp add: sint_sbintrunc' signed_take_bit_int_eq_self)
  have "uint (word_of_int t :: loff_t) = t" if "0 \<le> t"
    using that assms(3) by (simp add: uint_word_of_int)
  moreover have "uint (of_nat n :: loff_t) = int n"
    using assms(1) by (simp add: uint_nat unat_of_nat)
  ultimately have "of_nat n < (word_of_int t :: loff_t) \<longleftrightarrow> int n < t" if "0 \<le> t"
    using that by (simp add: word_less_def)
  then show ?thesis using self assms(1) by (cases "0 \<le> t") (auto simp: not_less)
qed

lemma word_of_int_sint_add: "(a :: loff_t) + b = word_of_int (sint a + sint b)"
  by simp

lemma sint_range: "- (2 ^ 63) \<le> sint (a :: loff_t)" "sint (a :: loff_t) < 2 ^ 63"
  using sint_greater_eq [of a] sint_less [of a] by simp_all

lemma aesd_llseek_spec:
  assumes inv: "kernel_inv k" and pd: "private_data filp \<noteq> NULL" and pos: "0 \<le> sint (f_pos filp)"
  defines "n \<equiv> length (concat (contents k))"
  shows "aesd_llseek e k filp offset whence =
    Some (if interrupted e then (k, filp, Inl ERESTARTSYS)
          else (case seek_target (int n) (sint (f_pos filp)) (sint offset) whence of
                  None \<Rightarrow> (k, filp, Inl EINVAL)
                | Some t \<Rightarrow>
                    if 0 \<le> t \<and> t \<le> int n
                    then (k, filp\<lparr>f_pos := word_of_int t\<rparr>, Inr (word_of_int t))
                    else (k, filp, Inl EINVAL)))"
proof -
  have n: "n \<le> 10 * 2 ^ 32" unfolding n_def by (rule contents_size(2) [OF inv])
  then have n63: "n < 2 ^ 63" by simp
  have bounds: "\<not> (sint (word_of_int t :: loff_t) < 0 \<or> of_nat n < (word_of_int t :: loff_t)) \<longleftrightarrow>
      0 \<le> t \<and> t \<le> int n"
    if "seek_target (int n) (sint (f_pos filp)) (sint offset) whence = Some t" for t
    using that pos n sint_range [of offset] sint_range [of "f_pos filp"]
    by (intro loff_in_bounds n63) (auto simp: seek_target_def split: if_splits)
  have target: "(if whence = SEEK_SET then Some offset
        else if whence = SEEK_CUR then Some (f_pos filp + offset)
        else if whence = SEEK_END then Some (of_nat n + offset) else None) =
      map_option word_of_int (seek_target (int n) (sint (f_pos filp)) (sint offset) whence)"
    by (auto simp: seek_target_def)
  let ?t = "seek_target (int n) (sint (f_pos filp)) (sint offset) whence"
  have "aesd_llseek e k filp offset whence =
    (if interrupted e then Some (k, filp, Inl ERESTARTSYS)
     else (case map_option word_of_int ?t of
             None \<Rightarrow> Some (k, filp, Inl EINVAL)
           | Some new_pos \<Rightarrow>
               if sint new_pos < 0 \<or> of_nat n < new_pos then Some (k, filp, Inl EINVAL)
               else Some (k, filp\<lparr>f_pos := new_pos\<rparr>, Inr new_pos)))"
    unfolding target [symmetric]
    using pd kernel_invD(2) [OF inv] total_buffer_size_eq [OF inv]
    by (simp add: aesd_llseek_def dev_lock_eq dev_unlock_locked Let_def n_def cong: option.case_cong)
  then show ?thesis using bounds by (cases ?t) auto
qed

section \<open>Seeking to a command\<close>

lemma seekto_loop_eq:
  assumes "length es = 10" "k \<le> n" "n < 10" "unat checked = k" "unat cmd_index = n"
    and "unat idx = (start + k) mod 10"
  shows "seekto_loop es cmd_index pos idx checked =
    Some (pos + of_nat (sizes (drop k (ring_view es start n))), of_nat ((start + n) mod 10))"
  using assms(2-)
proof (induction "n - k" arbitrary: k pos idx checked)
  case 0
  then have "\<not> ucast checked < cmd_index" by (simp add: word_less_nat_alt)
  moreover have "of_nat ((start + n) mod 10) = idx" using 0 by (simp flip: 0(6))
  ultimately show ?case using 0 by (simp add: seekto_loop.simps)
next
  case (Suc m)
  let ?e = "es ! ((start + k) mod 10)"
  have k: "k < n" using Suc.hyps(2) by simp
  have less: "ucast checked < cmd_index" using k Suc.prems by (simp add: word_less_nat_alt)
  have idx: "unat idx < length es" "es ! unat idx = ?e" using Suc.prems assms(1) by simp_all
  have "unat (checked + 1) = Suc k" using Suc.prems k by (simp add: unat_word_ariths)
  then have "seekto_loop es cmd_index (pos + entry_size ?e) (next_offs idx) (checked + 1) =
      Some (pos + entry_size ?e + of_nat (sizes (drop (Suc k) (ring_view es start n))),
            of_nat ((start + n) mod 10))"
    using Suc.hyps Suc.prems k next_offs_idx [of idx start k] by (intro Suc.hyps(1)) simp_all
  then show ?case
    using less idx drop_ring_view [OF k, of es start]
    by (simp add: seekto_loop.simps [of es cmd_index pos idx checked] add.assoc)
qed

lemma take_ring_view: "n \<le> m \<Longrightarrow> take n (ring_view es start m) = ring_view es start n"
  by (intro nth_equalityI) auto

lemma aesd_ioctl_spec:
  fixes st :: aesd_seekto
  assumes inv: "kernel_inv k" and pd: "private_data filp \<noteq> NULL"
  defines "w \<equiv> unat (write_cmd st)" and "j \<equiv> unat (write_cmd_offset st)"
  shows "aesd_unlocked_ioctl e k filp AESDCHAR_IOCSEEKTO (Ptr st) =
    Some (if interrupted e then (k, filp, Inl ERESTARTSYS)
          else if w < length (contents k) \<and> j < length (contents k ! w)
          then (k, filp\<lparr>f_pos := of_nat (length (concat (take w (contents k))) + j)\<rparr>, Inr ())
          else (k, filp, Inl EINVAL))"
proof -
  note ki = kernel_invD [OF inv]
  let ?b = "buffer (aesd_device k)" and ?its = "cb_items (buffer (aesd_device k))"
  have total: "ucast (total_entries ?b) \<le> write_cmd st \<longleftrightarrow> length (contents k) \<le> w"
    by (simp add: word_le_nat_alt w_def cb_count_def)
  show ?thesis
  proof (cases "w < length (contents k)")
    case False
    then show ?thesis
      using pd ki(2) total by (auto simp: aesd_unlocked_ioctl_def dev_lock_eq dev_unlock_locked)
  next
    case True
    then have w: "w < cb_count ?b" "w < 10" using cb_count_bounds(1) [OF ki(1)] by simp_all
    let ?e = "?its ! w" and ?idx = "of_nat ((unat (out_offs ?b) + w) mod 10) :: u8"
    have loop: "seekto_loop (entry ?b) (write_cmd st) 0 (out_offs ?b) 0 =
        Some (0 + of_nat (sizes (drop 0 (ring_view (entry ?b) (unat (out_offs ?b)) w))), ?idx)"
      using ki(1) w by (intro seekto_loop_eq) (simp_all add: cb_inv_def w_def)
    have pre: "sizes (ring_view (entry ?b) (unat (out_offs ?b)) w) = length (concat (take w (contents k)))"
    proof -
      have "ring_view (entry ?b) (unat (out_offs ?b)) w = take w ?its"
        using w by (simp add: cb_items_def take_ring_view)
      then show ?thesis
        using sizes_contents(1) [of "take w ?its" "kheap k"] ki(4)
        by (auto simp: commands_def take_map dest: in_set_takeD)
    qed
    have "unat ?idx = (unat (out_offs ?b) + w) mod 10" by (rule unat_of_nat_u8) simp
    then have get: "arr_get (entry ?b) ?idx = Some ?e"
      using ki(1) w by (simp add: cb_inv_def cb_items_def)
    have "block_ok (kheap k) (entry_buffptr ?e) (entry_size ?e)"
      using w by (intro ki(4)) (simp add: length_cb_items)
    then have "length (contents k ! w) = esize ?e"
      using w by (simp add: commands_def length_cb_items length_block_bytes)
    then have size: "entry_size ?e \<le> ucast (write_cmd_offset st) \<longleftrightarrow> \<not> j < length (contents k ! w)"
      by (simp add: word_le_nat_alt j_def not_less)
    have off: "ucast (write_cmd_offset st) = (of_nat j :: loff_t)" by (simp add: j_def)
    show ?thesis
      using pd ki(2) total loop pre get size off True
      by (auto simp: aesd_unlocked_ioctl_def dev_lock_eq dev_unlock_locked Let_def)
  qed
qed

end
