(* ===== verification/Driver_World.thy ===== *)
theory Driver_World
  imports File_Ops
begin

text \<open>
  The driver as the processes of the system see it: a table of open files, and the system
  calls that reach the file operations of \<open>aesd_fops\<close> (\<open>char-driver/src/aesd-char-fileops.c\<close>).
  Every state that the calls can reach keeps the driver's invariant, so no call has undefined
  behaviour, and every call does what an abstract log of commands does.
\<close>

section \<open>System calls\<close>

record world =
  kern :: kernel
  files :: "nat \<Rightarrow> kfile option"

text \<open>
  The calls of a process: the file, the environment's choices, and the arguments. \<open>room\<close> is
  how many bytes of the user's buffer can be written, \<open>src\<close> the bytes that can be read there.
\<close>

datatype syscall =
    Sys_open nat
  | Sys_close nat
  | Sys_read nat op_env nat size_t
  | Sys_write nat op_env "byte list" size_t
  | Sys_llseek nat op_env loff_t int
  | Sys_ioctl nat op_env u32 "aesd_seekto cptr"

type_synonym answer = "byte list \<times> (errno + size_t)"

definition fd_of :: "syscall \<Rightarrow> nat" where
  "fd_of c = (case c of Sys_open fd \<Rightarrow> fd | Sys_close fd \<Rightarrow> fd | Sys_read fd e room n \<Rightarrow> fd
     | Sys_write fd e src n \<Rightarrow> fd | Sys_llseek fd e off wh \<Rightarrow> fd | Sys_ioctl fd e cmd arg \<Rightarrow> fd)"

text \<open>One call on an open file, through the operations that \<open>aesd_fops\<close> names.\<close>

definition call_file :: "syscall \<Rightarrow> kernel \<Rightarrow> kfile \<Rightarrow> (kernel \<times> kfile option \<times> answer) option" where
  "call_file c k f =
     (case c of
        Sys_open fd \<Rightarrow> Some (k, Some f, [], Inl EBADF)
      | Sys_close fd \<Rightarrow> Some (k, None, [], Inr 0)
      | Sys_read fd e room n \<Rightarrow>
          (case aesd_read e k f (Ptr room) n (Ptr (f_pos f)) of
             None \<Rightarrow> None
           | Some (k, p, out, r) \<Rightarrow> Some (k, Some (f\<lparr>f_pos := pval p\<rparr>), out, r))
      | Sys_write fd e src n \<Rightarrow>
          (case aesd_write e k f (Ptr src) n of
             None \<Rightarrow> None
           | Some (k, r) \<Rightarrow> Some (k, Some f, [], r))
      | Sys_llseek fd e off wh \<Rightarrow>
          (case aesd_llseek e k f off wh of
             None \<Rightarrow> None
           | Some (k, f, r) \<Rightarrow> Some (k, Some f, [], r))
      | Sys_ioctl fd e cmd arg \<Rightarrow>
          (case aesd_unlocked_ioctl e k f cmd arg of
             None \<Rightarrow> None
           | Some (k, f, r) \<Rightarrow> Some (k, Some f, [], (case r of Inl err \<Rightarrow> Inl err | Inr _ \<Rightarrow> Inr 0))))"

definition new_file :: kfile where
  "new_file = \<lparr>private_data = NULL, f_pos = 0\<rparr>"

text \<open>A call on a descriptor that is not open, or that is open already, is refused.\<close>

definition run_sys :: "syscall \<Rightarrow> world \<Rightarrow> (world \<times> answer) option" where
  "run_sys c w =
     (case files w (fd_of c) of
        None \<Rightarrow>
          (case c of
             Sys_open fd \<Rightarrow> Some (w\<lparr>files := (files w)(fd \<mapsto> fst (aesd_open () new_file))\<rparr>, [], Inr 0)
           | _ \<Rightarrow> Some (w, [], Inl EBADF))
      | Some f \<Rightarrow>
          (case call_file c (kern w) f of
             None \<Rightarrow> None
           | Some (k, f', a) \<Rightarrow> Some (\<lparr>kern = k, files = (files w)(fd_of c := f')\<rparr>, a)))"

text \<open>The environment's choices are those a kernel can make in the state.\<close>

definition sys_ok :: "syscall \<Rightarrow> world \<Rightarrow> bool" where
  "sys_ok c w = (case c of Sys_write fd e src n \<Rightarrow> write_env_ok e (kern w) n | _ \<Rightarrow> True)"

inductive sys_step :: "world \<Rightarrow> world \<Rightarrow> bool" where
  call: "sys_ok c w \<Longrightarrow> run_sys c w = Some (w', a) \<Longrightarrow> sys_step w w'"

inductive_cases sys_stepE: "sys_step w w'"

text \<open>From the loaded driver with no file open.\<close>

definition booted :: "world \<Rightarrow> bool" where
  "booted w \<longleftrightarrow>
     (\<exists>k dev. kheap k = Map.empty \<and> aesd_init (Inr dev) None k = Some (kern w, Inr ())) \<and> files w = Map.empty"

definition reachable :: "world \<Rightarrow> bool" where
  "reachable w \<longleftrightarrow> (\<exists>w0. booted w0 \<and> sys_step\<^sup>*\<^sup>* w0 w)"

section \<open>The invariant\<close>

definition max_log :: nat where
  "max_log = 10 * 2 ^ 32"

definition world_inv :: "world \<Rightarrow> bool" where
  "world_inv w \<longleftrightarrow>
     kernel_inv (kern w) \<and>
     (\<forall>fd f. files w fd = Some f \<longrightarrow> private_data f = Ptr () \<and> unat (f_pos f) \<le> max_log)"

section \<open>The abstract log\<close>

text \<open>
  The commands that are kept, the command that is being written, and the position of each
  open file.
\<close>

record log_state =
  log_cmds :: "byte list list"
  log_pending :: "byte list"
  log_pos :: "nat \<Rightarrow> nat option"

definition abs_world :: "world \<Rightarrow> log_state" where
  "abs_world w =
     \<lparr>log_cmds = contents (kern w), log_pending = pending (kern w),
      log_pos = (\<lambda>fd. map_option (\<lambda>f. unat (f_pos f)) (files w fd))\<rparr>"

text \<open>The answer and the new state of a call on an open file at position \<open>p\<close>.\<close>

definition log_call :: "syscall \<Rightarrow> log_state \<Rightarrow> nat \<Rightarrow> byte list list \<times> byte list \<times> nat option \<times> answer" where
  "log_call c s p =
     (let same = (\<lambda>r. (log_cmds s, log_pending s, Some p, [], r)) in
      case c of
        Sys_open fd \<Rightarrow> same (Inl EBADF)
      | Sys_close fd \<Rightarrow> (log_cmds s, log_pending s, None, [], Inr 0)
      | Sys_read fd e room n \<Rightarrow>
          (let bs = take (unat n) (cmd_at (log_cmds s) p) in
           if interrupted e then same (Inl ERESTARTSYS)
           else if room < length bs then (log_cmds s, log_pending s, Some p, take room bs, Inl EFAULT)
           else (log_cmds s, log_pending s, Some (p + length bs), bs, Inr (of_nat (length bs))))
      | Sys_write fd e src n \<Rightarrow>
          if n = 0 then same (Inl EINVAL)
          else (case write_result e src n of
                  Inl err \<Rightarrow> same (Inl err)
                | Inr r \<Rightarrow>
                    (let (cmds, pend) = a_write (log_cmds s, log_pending s) (take (unat n) src)
                     in (cmds, pend, Some p, [], Inr r)))
      | Sys_llseek fd e off wh \<Rightarrow>
          (let total = length (concat (log_cmds s)) in
           if interrupted e then same (Inl ERESTARTSYS)
           else (case seek_target (int total) (int p) (sint off) wh of
                   None \<Rightarrow> same (Inl EINVAL)
                 | Some t \<Rightarrow>
                     if 0 \<le> t \<and> t \<le> int total
                     then (log_cmds s, log_pending s, Some (nat t), [], Inr (word_of_int t))
                     else same (Inl EINVAL)))
      | Sys_ioctl fd e cmd arg \<Rightarrow>
          if cmd \<noteq> AESDCHAR_IOCSEEKTO then same (Inl ENOTTY)
          else (case arg of
                  NULL \<Rightarrow> same (Inl EFAULT)
                | Ptr st \<Rightarrow>
                    (let i = unat (write_cmd st); j = unat (write_cmd_offset st) in
                     if interrupted e then same (Inl ERESTARTSYS)
                     else if i < length (log_cmds s) \<and> j < length (log_cmds s ! i)
                     then (log_cmds s, log_pending s, Some (length (concat (take i (log_cmds s))) + j), [], Inr 0)
                     else same (Inl EINVAL))))"

definition log_sys :: "syscall \<Rightarrow> log_state \<Rightarrow> log_state \<times> answer" where
  "log_sys c s =
     (case log_pos s (fd_of c) of
        None \<Rightarrow>
          (case c of
             Sys_open fd \<Rightarrow> (s\<lparr>log_pos := (log_pos s)(fd \<mapsto> 0)\<rparr>, [], Inr 0)
           | _ \<Rightarrow> (s, [], Inl EBADF))
      | Some p \<Rightarrow>
          (let (cmds, pend, p', a) = log_call c s p
           in (\<lparr>log_cmds = cmds, log_pending = pend, log_pos = (log_pos s)(fd_of c := p')\<rparr>, a)))"

section \<open>Every call refines the log\<close>

lemma contents_max: "kernel_inv k \<Longrightarrow> length (concat (contents k)) \<le> max_log"
  using contents_size(2) by (simp add: max_log_def)

lemma unat_of_nat_log: "m \<le> max_log \<Longrightarrow> unat (of_nat m :: loff_t) = m"
  by (simp add: unat_of_nat max_log_def)

text \<open>What a call on an open file has to establish.\<close>

definition call_ok :: "syscall \<Rightarrow> kernel \<Rightarrow> kfile \<Rightarrow> log_state \<Rightarrow> bool" where
  "call_ok c k f s \<longleftrightarrow>
     (\<exists>k' f' a. call_file c k f = Some (k', f', a) \<and> kernel_inv k' \<and>
        (\<forall>g. f' = Some g \<longrightarrow> private_data g = Ptr () \<and> unat (f_pos g) \<le> max_log) \<and>
        log_call c s (unat (f_pos f)) = (contents k', pending k', map_option (\<lambda>g. unat (f_pos g)) f', a))"

definition open_ok :: "kernel \<Rightarrow> kfile \<Rightarrow> log_state \<Rightarrow> bool" where
  "open_ok k f s \<longleftrightarrow>
     kernel_inv k \<and> private_data f = Ptr () \<and> unat (f_pos f) \<le> max_log \<and>
     log_cmds s = contents k \<and> log_pending s = pending k"

lemma open_okD:
  assumes "open_ok k f s"
  shows "kernel_inv k" "private_data f = Ptr ()" "private_data f \<noteq> NULL" "unat (f_pos f) \<le> max_log"
    "log_cmds s = contents k" "log_pending s = pending k"
  using assms by (auto simp: open_ok_def)

lemma read_ok:
  assumes ok: "open_ok k f s"
  shows "call_ok (Sys_read fd e room n) k f s"
proof -
  note o = open_okD [OF ok]
  note inv = o(1) and pd = o(2) and pd_not_NULL = o(3) and pos = o(4) and s = o(5,6)
  define bs where "bs = take (unat n) (cmd_at (contents k) (unat (f_pos f)))"
  note spec = aesd_read_spec [OF inv pd_not_NULL, of e room n "f_pos f", folded bs_def]
  have le: "unat (f_pos f) + length bs \<le> max_log"
  proof (cases "bs = []")
    case False
    have "prefix (cmd_at (contents k) (unat (f_pos f))) (drop (unat (f_pos f)) (concat (contents k)))"
      by (rule cmd_at_prefix)
    then have "length (cmd_at (contents k) (unat (f_pos f))) \<le> length (concat (contents k)) - unat (f_pos f)"
      by (metis length_drop prefix_length_le)
    then have "length bs \<le> length (concat (contents k)) - unat (f_pos f)" by (simp add: bs_def)
    moreover have "0 < length bs" using False by simp
    ultimately show ?thesis using contents_max [OF inv] by linarith
  qed (simp add: pos)
  then have "unat (f_pos f + of_nat (length bs)) = unat (f_pos f) + length bs"
    by (simp add: unat_word_ariths unat_of_nat max_log_def)
  then show ?thesis
    using spec inv pos pd le s
    by (auto simp: call_ok_def call_file_def log_call_def bs_def [symmetric] Let_def)
qed

lemma write_ok:
  assumes ok: "open_ok k f s" and env: "write_env_ok e k n"
  shows "call_ok (Sys_write fd e src n) k f s"
proof -
  note o = open_okD [OF ok]
  note inv = o(1) and pd = o(2) and pd_not_NULL = o(3) and pos = o(4) and s = o(5,6)
  show ?thesis
  proof (cases "n = 0")
  case True
  then show ?thesis
    using aesd_write_invalid [of "Ptr src" f n e k] inv pos pd s
    by (simp add: call_ok_def call_file_def log_call_def)
next
  case False
  from aesd_write_spec [OF inv pd_not_NULL False env, of src] obtain k' where
    "aesd_write e k f (Ptr src) n = Some (k', write_result e src n)" "kernel_inv k'"
    "(contents k', pending k') =
      (case write_result e src n of
         Inl _ \<Rightarrow> (contents k, pending k)
       | Inr _ \<Rightarrow> a_write (contents k, pending k) (take (unat n) src))"
    by blast
  then show ?thesis
    using False pos pd s
    by (cases "write_result e src n") (auto simp: call_ok_def call_file_def log_call_def split: prod.splits)
qed
qed

lemma sint_small: "0 \<le> t \<Longrightarrow> t < 2 ^ 63 \<Longrightarrow> sint (word_of_int t :: loff_t) = t"
  by (simp add: sint_sbintrunc' signed_take_bit_int_eq_self)

lemma sint_pos:
  assumes "unat (p :: loff_t) \<le> max_log"
  shows "sint p = int (unat p)"
proof -
  have "unat p < 2 ^ 63" using assms by (simp add: max_log_def)
  then have "int (unat p) < int (2 ^ 63)" by (simp only: of_nat_less_iff)
  then have "uint p < 2 ^ 63" by simp
  then show ?thesis using sint_small [of "uint p"] by simp
qed

lemma llseek_ok:
  assumes ok: "open_ok k f s"
  shows "call_ok (Sys_llseek fd e off wh) k f s"
proof -
  note o = open_okD [OF ok]
  note inv = o(1) and pd = o(2) and pd_not_NULL = o(3) and pos = o(4) and s = o(5,6)
  let ?n = "length (concat (contents k))"
  have "0 \<le> sint (f_pos f)" by (simp add: sint_pos [OF pos])
  note spec = aesd_llseek_spec [OF inv pd_not_NULL this, of e off wh, unfolded sint_pos [OF pos]]
  have "unat (word_of_int t :: loff_t) = nat t \<and> nat t \<le> max_log" if "0 \<le> t" "t \<le> int ?n" for t
  proof -
    have "t \<le> int max_log" using contents_max [OF inv] that(2) by linarith
    then show ?thesis using that(1) by (simp add: unat_eq_nat_uint uint_word_of_int max_log_def)
  qed
  then show ?thesis
    using spec inv pos pd s
    by (auto simp: call_ok_def call_file_def log_call_def Let_def split: option.splits)
qed

lemma ioctl_ok:
  assumes ok: "open_ok k f s"
  shows "call_ok (Sys_ioctl fd e cmd arg) k f s"
proof -
  note o = open_okD [OF ok]
  note inv = o(1) and pd = o(2) and pd_not_NULL = o(3) and pos = o(4) and s = o(5,6)
  show ?thesis
  proof (cases "cmd = AESDCHAR_IOCSEEKTO")
  case False
  then show ?thesis
    using inv pos pd s by (simp add: call_ok_def call_file_def log_call_def aesd_unlocked_ioctl_def)
next
  case True
  show ?thesis
  proof (cases arg)
    case NULL
    then show ?thesis
      using True inv pos pd s by (simp add: call_ok_def call_file_def log_call_def aesd_unlocked_ioctl_def)
  next
    case (Ptr st)
    let ?i = "unat (write_cmd st)" and ?j = "unat (write_cmd_offset st)"
    let ?p = "length (concat (take ?i (contents k))) + ?j"
    note spec = aesd_ioctl_spec [OF inv pd_not_NULL, of e st]
    have "?p \<le> max_log" if "?i < length (contents k)" "?j < length (contents k ! ?i)"
    proof -
      have "contents k = take ?i (contents k) @ contents k ! ?i # drop (Suc ?i) (contents k)"
        using that(1) by (rule id_take_nth_drop)
      then have "length (concat (contents k)) =
          length (concat (take ?i (contents k))) + length (contents k ! ?i) + length (concat (drop (Suc ?i) (contents k)))"
        by (metis append.assoc concat.simps(2) concat_append length_append)
      then show ?thesis using that(2) contents_max [OF inv] by linarith
    qed
    moreover have "unat (of_nat ?p :: loff_t) = ?p" if "?p \<le> max_log"
      using that by (rule unat_of_nat_log)
    ultimately show ?thesis
      using spec True Ptr inv pos pd s
      by (auto simp: call_ok_def call_file_def log_call_def Let_def split: if_splits)
  qed
qed
qed

lemma any_call_ok:
  assumes ok: "open_ok k f s" and env: "\<And>fd e src n. c = Sys_write fd e src n \<Longrightarrow> write_env_ok e k n"
  shows "call_ok c k f s"
proof (cases c)
  case (Sys_open fd)
  then show ?thesis using open_okD [OF ok] by (simp add: call_ok_def call_file_def log_call_def)
next
  case (Sys_close fd)
  then show ?thesis using open_okD [OF ok] by (simp add: call_ok_def call_file_def log_call_def)
qed (use env in \<open>auto intro: read_ok [OF ok] write_ok [OF ok] llseek_ok [OF ok] ioctl_ok [OF ok]\<close>)

lemma run_sys_refines:
  assumes inv: "world_inv w" and ok: "sys_ok c w"
  obtains w' a where "run_sys c w = Some (w', a)" "world_inv w'" "log_sys c (abs_world w) = (abs_world w', a)"
proof (cases "files w (fd_of c)")
  case None
  then show ?thesis
    using inv that
    by (cases c)
       (auto simp: run_sys_def log_sys_def fd_of_def abs_world_def world_inv_def aesd_open_def new_file_def fun_eq_iff)
next
  case (Some f)
  let ?s = "abs_world w"
  have "open_ok (kern w) f ?s" using inv Some by (simp add: open_ok_def world_inv_def abs_world_def)
  then have "call_ok c (kern w) f ?s"
    by (rule any_call_ok) (use ok in \<open>simp add: sys_ok_def\<close>)
  then obtain k' f' a where r: "call_file c (kern w) f = Some (k', f', a)" "kernel_inv k'"
    "\<forall>g. f' = Some g \<longrightarrow> private_data g = Ptr () \<and> unat (f_pos g) \<le> max_log"
    "log_call c ?s (unat (f_pos f)) = (contents k', pending k', map_option (\<lambda>g. unat (f_pos g)) f', a)"
    by (auto simp: call_ok_def)
  let ?w = "\<lparr>kern = k', files = (files w)(fd_of c := f')\<rparr>"
  have pos: "log_pos ?s (fd_of c) = Some (unat (f_pos f))" by (simp add: abs_world_def Some)
  show ?thesis
  proof (rule that [of ?w a])
    show "run_sys c w = Some (?w, a)" by (simp add: run_sys_def Some r(1))
    show "world_inv ?w" using inv r(2,3) by (auto simp: world_inv_def)
    show "log_sys c ?s = (abs_world ?w, a)"
      unfolding log_sys_def pos option.case r(4) Let_def prod.case
      by (auto simp: abs_world_def fun_eq_iff)
  qed
qed

section \<open>Reachable states\<close>

lemma booted_inv: "booted w \<Longrightarrow> world_inv w \<and> log_cmds (abs_world w) = [] \<and> log_pending (abs_world w) = []"
proof -
  assume "booted w"
  then obtain k dev where k: "kheap k = Map.empty" "aesd_init (Inr dev) None k = Some (kern w, Inr ())"
    and "files w = Map.empty" by (auto simp: booted_def)
  with aesd_init_ok [OF k(1), of dev] show ?thesis by (auto simp: world_inv_def abs_world_def)
qed

lemma sys_step_inv:
  assumes "sys_step w w'" "world_inv w"
  shows "world_inv w'"
  using assms(1)
proof (rule sys_stepE)
  fix c a
  assume ok: "sys_ok c w" and run: "run_sys c w = Some (w', a)"
  show "world_inv w'" by (rule run_sys_refines [OF assms(2) ok]) (use run in simp)
qed

lemma sys_steps_inv: "sys_step\<^sup>*\<^sup>* w w' \<Longrightarrow> world_inv w \<Longrightarrow> world_inv w'"
  by (induction rule: rtranclp_induct) (auto intro: sys_step_inv)

lemma reachable_inv: "reachable w \<Longrightarrow> world_inv w"
  using booted_inv sys_steps_inv by (auto simp: reachable_def)

section \<open>Traces\<close>

text \<open>A list of calls, one after the other; every one must be possible in its state.\<close>

fun run_trace :: "syscall list \<Rightarrow> world \<Rightarrow> (world \<times> answer list) option" where
  "run_trace [] w = Some (w, [])"
| "run_trace (c # cs) w =
     (case run_sys c w of
        None \<Rightarrow> None
      | Some (w, a) \<Rightarrow> map_option (\<lambda>(w, as). (w, a # as)) (run_trace cs w))"

fun trace_ok :: "syscall list \<Rightarrow> world \<Rightarrow> bool" where
  "trace_ok [] w = True"
| "trace_ok (c # cs) w = (sys_ok c w \<and> (case run_sys c w of None \<Rightarrow> True | Some (w, a) \<Rightarrow> trace_ok cs w))"

fun log_trace :: "syscall list \<Rightarrow> log_state \<Rightarrow> log_state \<times> answer list" where
  "log_trace [] s = (s, [])"
| "log_trace (c # cs) s = (let (s, a) = log_sys c s; (s, as) = log_trace cs s in (s, a # as))"

lemma run_trace_refines:
  "world_inv w \<Longrightarrow> trace_ok cs w \<Longrightarrow>
   \<exists>w' as. run_trace cs w = Some (w', as) \<and> world_inv w' \<and> log_trace cs (abs_world w) = (abs_world w', as)"
proof (induction cs arbitrary: w)
  case (Cons c cs)
  then have "sys_ok c w" by simp
  from run_sys_refines [OF Cons.prems(1) this] obtain w1 a
    where 1: "run_sys c w = Some (w1, a)" "world_inv w1" "log_sys c (abs_world w) = (abs_world w1, a)" by metis
  moreover have "trace_ok cs w1" using Cons.prems(2) 1(1) by simp
  ultimately show ?case using Cons.IH [of w1] by auto
qed simp

section \<open>The log and the stream of bytes\<close>

text \<open>The complete lines of a stream, and what follows the last newline.\<close>

fun split_lines :: "byte list \<Rightarrow> byte list list \<times> byte list" where
  "split_lines [] = ([], [])"
| "split_lines (b # bs) =
     (let (ls, r) = split_lines bs in
      if b = 10 then ([b] # ls, r)
      else (case ls of [] \<Rightarrow> ([], b # r) | l # ls' \<Rightarrow> ((b # l) # ls', r)))"

lemma split_lines_plain: "10 \<notin> set bs \<Longrightarrow> split_lines bs = ([], bs)"
  by (induction bs) auto

lemma split_lines_line: "10 \<notin> set bs \<Longrightarrow> split_lines (bs @ 10 # rest) = (let (ls, r) = split_lines rest in ((bs @ [10]) # ls, r))"
  by (induction bs) (auto split: prod.splits)

lemma split_lines_concat: "concat (fst (split_lines bs)) @ snd (split_lines bs) = bs"
  by (induction bs) (auto split: prod.splits list.splits)

text \<open>A chunk with no data after its newline.\<close>

definition whole :: "byte list \<Rightarrow> bool" where
  "whole chunk \<longleftrightarrow> 10 \<notin> set (butlast chunk)"

lemma whole_cases:
  assumes "whole chunk"
  obtains "10 \<notin> set chunk" | bs where "chunk = bs @ [10]" "10 \<notin> set bs"
proof (cases chunk rule: rev_cases)
  case (snoc bs b)
  then show ?thesis using assms that by (cases "b = 10") (auto simp: whole_def)
qed (use that in simp)

lemma foldl_a_write:
  assumes "\<forall>c \<in> set chunks. whole c" "10 \<notin> set p"
  shows "foldl a_write (cmds, p) chunks =
    (let (ls, r) = split_lines (p @ concat chunks) in
     (if ls = [] then cmds else keep_last 10 (cmds @ ls), r))"
  using assms
proof (induction chunks arbitrary: cmds p)
  case Nil
  then show ?case by (simp add: split_lines_plain)
next
  case (Cons c chunks)
  from Cons.prems(1) have "whole c" by simp
  then show ?case
  proof (cases rule: whole_cases)
    case 1
    then have "10 \<notin> set (p @ c)" using Cons.prems(2) by simp
    from Cons.IH [OF _ this, of cmds] show ?thesis
      using 1 Cons.prems by (simp add: a_write_def Let_def)
  next
    case (2 bs)
    have "foldl a_write (keep_last 10 (cmds @ [p @ bs @ [10]]), []) chunks =
        (let (ls, r) = split_lines (concat chunks) in
         (if ls = [] then keep_last 10 (cmds @ [p @ bs @ [10]])
          else keep_last 10 (keep_last 10 (cmds @ [p @ bs @ [10]]) @ ls), r))"
      using Cons.IH [of "[]"] Cons.prems(1) by simp
    moreover have "split_lines (p @ concat (c # chunks)) =
        (let (ls, r) = split_lines (concat chunks) in ((p @ bs @ [10]) # ls, r))"
      using split_lines_line [of "p @ bs" "concat chunks"] 2 Cons.prems(2) by simp
    moreover have "a_write (cmds, p) c = (keep_last 10 (cmds @ [p @ bs @ [10]]), [])"
      using 2 by (simp add: a_write_def)
    ultimately show ?thesis by (auto split: prod.splits)
  qed
qed

text \<open>A list of complete writes through one open file.\<close>

definition writes :: "nat \<Rightarrow> op_env list \<Rightarrow> byte list list \<Rightarrow> syscall list" where
  "writes fd es chunks = map2 (\<lambda>e c. Sys_write fd e c (of_nat (length c))) es chunks"

definition write_succeeds :: "op_env \<Rightarrow> bool" where
  "write_succeeds e \<longleftrightarrow> \<not> interrupted e \<and> at (tmp_alloc e) \<noteq> None \<and> at (buf_alloc e) \<noteq> None"

lemma log_trace_writes:
  assumes "length es = length chunks" "\<forall>e \<in> set es. write_succeeds e"
    and "\<forall>c \<in> set chunks. c \<noteq> [] \<and> length c < 2 ^ 64" "log_pos s fd = Some p"
  shows "log_trace (writes fd es chunks) s =
    (let (cmds, pend) = foldl a_write (log_cmds s, log_pending s) chunks
     in (s\<lparr>log_cmds := cmds, log_pending := pend\<rparr>, map (\<lambda>c. ([], Inr (of_nat (length c)))) chunks))"
  using assms
proof (induction es chunks arbitrary: s rule: list_induct2)
  case Nil
  then show ?case by (simp add: writes_def)
next
  case (Cons e es c chunks)
  let ?n = "of_nat (length c) :: size_t"
  have n: "unat ?n = length c" using Cons.prems(2) by (simp add: unat_of_nat)
  then have nz: "?n \<noteq> 0" using Cons.prems(2) by (metis length_0_conv list.set_intros(1) unat_0)
  obtain cmds pend where a: "a_write (log_cmds s, log_pending s) c = (cmds, pend)" by (cases "a_write (log_cmds s, log_pending s) c")
  let ?s = "s\<lparr>log_cmds := cmds, log_pending := pend\<rparr>"
  have "write_result e c ?n = Inr ?n"
    using Cons.prems(1) n by (auto simp: write_result_def write_succeeds_def)
  then have "log_sys (Sys_write fd e c ?n) s = (\<lparr>log_cmds = cmds, log_pending = pend, log_pos = (log_pos s)(fd \<mapsto> p)\<rparr>, [], Inr ?n)"
    using Cons.prems(3) nz n a by (simp add: log_sys_def fd_of_def log_call_def Let_def)
  moreover have "(log_pos s)(fd \<mapsto> p) = log_pos s" using Cons.prems(3) by auto
  ultimately have step: "log_sys (Sys_write fd e c ?n) s = (?s, [], Inr ?n)" by simp
  show ?case
    using Cons.IH [of ?s] Cons.prems step a by (auto simp: writes_def Let_def split: prod.splits)
qed

section \<open>Reading to the end\<close>

text \<open>
  A reader that asks for \<open>n\<close> bytes at a time until it gets none. The fuel bounds the number
  of reads.
\<close>

fun read_to_end :: "nat \<Rightarrow> nat \<Rightarrow> op_env \<Rightarrow> nat \<Rightarrow> size_t \<Rightarrow> world \<Rightarrow> (world \<times> byte list) option" where
  "read_to_end 0 fd e room n w = None"
| "read_to_end (Suc fuel) fd e room n w =
     (case run_sys (Sys_read fd e room n) w of
        Some (w, out, Inr r) \<Rightarrow>
          if r = 0 then Some (w, []) else map_option (\<lambda>(w, rest). (w, out @ rest)) (read_to_end fuel fd e room n w)
      | _ \<Rightarrow> None)"

lemma cmd_at_split:
  "drop p (concat cs) = take n (cmd_at cs p) @ drop (p + length (take n (cmd_at cs p))) (concat cs)"
proof -
  define t where "t = take n (cmd_at cs p)"
  obtain zs where "drop p (concat cs) = cmd_at cs p @ zs" using cmd_at_prefix [of cs p] by (auto simp: prefix_def)
  then have "drop p (concat cs) = t @ drop n (cmd_at cs p) @ zs" by (simp add: t_def)
  then have "drop p (concat cs) = t @ drop (length t) (drop p (concat cs))" by (metis append_eq_conv_conj)
  then have "drop p (concat cs) = t @ drop (p + length t) (concat cs)" by (simp add: add.commute)
  then show ?thesis by (simp add: t_def)
qed

lemma read_to_end_log:
  assumes "world_inv w" "files w fd = Some f" "\<not> interrupted e" "n \<noteq> 0" "unat n \<le> room"
    and "length (concat (contents (kern w))) - unat (f_pos f) < fuel"
  shows "\<exists>w'. read_to_end fuel fd e room n w = Some (w', drop (unat (f_pos f)) (concat (contents (kern w)))) \<and>
    world_inv w' \<and> contents (kern w') = contents (kern w) \<and> pending (kern w') = pending (kern w)"
  using assms
proof (induction fuel arbitrary: w f)
  case (Suc fuel)
  let ?cs = "contents (kern w)" and ?p = "unat (f_pos f)"
  define bs where "bs = take (unat n) (cmd_at ?cs ?p)"
  have room: "\<not> room < length bs" using Suc.prems(5) by (simp add: bs_def)
  have pos: "log_pos (abs_world w) fd = Some ?p" using Suc.prems(2) by (simp add: abs_world_def)
  have "sys_ok (Sys_read fd e room n) w" by (simp add: sys_ok_def)
  from run_sys_refines [OF Suc.prems(1) this] obtain w1 a where 1: "run_sys (Sys_read fd e room n) w = Some (w1, a)"
    "world_inv w1" "log_sys (Sys_read fd e room n) (abs_world w) = (abs_world w1, a)" by metis
  have log: "log_sys (Sys_read fd e room n) (abs_world w) =
      (\<lparr>log_cmds = ?cs, log_pending = pending (kern w),
        log_pos = (log_pos (abs_world w))(fd \<mapsto> ?p + length bs)\<rparr>, bs, Inr (of_nat (length bs)))"
  proof -
    have "log_call (Sys_read fd e room n) (abs_world w) ?p =
        (?cs, pending (kern w), Some (?p + length bs), bs, Inr (of_nat (length bs)))"
      using Suc.prems(3) room by (simp add: log_call_def Let_def bs_def abs_world_def)
    moreover have "fd_of (Sys_read fd e room n) = fd" by (simp add: fd_of_def)
    ultimately show ?thesis using pos by (simp add: log_sys_def)
  qed
  then have a: "a = (bs, Inr (of_nat (length bs)))"
    and w1: "abs_world w1 = \<lparr>log_cmds = ?cs, log_pending = pending (kern w),
      log_pos = (log_pos (abs_world w))(fd \<mapsto> ?p + length bs)\<rparr>"
    using 1(3) by simp_all
  have same: "contents (kern w1) = ?cs" "pending (kern w1) = pending (kern w)"
    using arg_cong [OF w1, of log_cmds] arg_cong [OF w1, of log_pending] by (simp_all add: abs_world_def)
  have pos1: "log_pos (abs_world w1) fd = Some (?p + length bs)" by (simp add: w1)
  obtain f1 where f1: "files w1 fd = Some f1" "unat (f_pos f1) = ?p + length bs"
    using pos1 by (auto simp: abs_world_def)
  have split: "drop ?p (concat ?cs) = bs @ drop (?p + length bs) (concat ?cs)"
    unfolding bs_def by (rule cmd_at_split)
  show ?case
  proof (cases "bs = []")
    case True
    then have "cmd_at ?cs ?p = []" using Suc.prems(4) by (simp add: bs_def unat_eq_zero)
    then have "drop ?p (concat ?cs) = []" by (simp add: cmd_at_Nil)
    then show ?thesis using 1(1,2) a True same by simp
  next
    case False
    have "length bs \<le> length (drop ?p (concat ?cs))" unfolding split by simp
    then have le: "length bs \<le> length (concat ?cs) - ?p" by simp
    then have "length bs < 2 ^ 64" using contents_max [of "kern w"] Suc.prems(1) by (simp add: world_inv_def max_log_def)
    then have "unat (of_nat (length bs) :: size_t) = length bs" by (simp add: unat_of_nat)
    then have nz: "(of_nat (length bs) :: size_t) \<noteq> 0" using False by (metis length_0_conv unat_0)
    have "0 < length bs" using False by simp
    then have "length (concat (contents (kern w1))) - unat (f_pos f1) < fuel"
      unfolding same f1(2) using Suc.prems(6) le by linarith
    from Suc.IH [OF 1(2) f1(1) Suc.prems(3-5) this] obtain w2
      where "read_to_end fuel fd e room n w1 = Some (w2, drop (?p + length bs) (concat ?cs))" "world_inv w2"
        "contents (kern w2) = ?cs" "pending (kern w2) = pending (kern w)"
      using f1(2) same by auto
    then show ?thesis using 1(1) a nz split by simp
  qed
qed simp

end
