(* ===== verification/Driver_Properties.thy ===== *)
theory Driver_Properties
  imports Driver_World
begin

text \<open>
  The properties of the character driver (\<open>aesd-char-driver/\<close>): of the ring of commands, of
  loading and unloading, and of every sequence of system calls on the loaded driver. Each
  rests on the lemmas of the component it is about and comes with an instance on a small
  concrete system.
\<close>

section \<open>A small system\<close>

definition empty_kernel :: kernel where
  "empty_kernel = \<lparr>kheap = Map.empty, region = None, aesd_major = 0, aesd_device = zero_dev\<rparr>"

definition loaded_kernel :: kernel where
  "loaded_kernel =
     \<lparr>kheap = Map.empty, region = Some 0, aesd_major = 0,
      aesd_device = zero_dev\<lparr>lock := Unlocked, cdev := \<lparr>cdev_ops = True, cdev_owner = True, cdev_added = True\<rparr>\<rparr>\<rparr>"

definition loaded_world :: world where
  "loaded_world = \<lparr>kern = loaded_kernel, files = Map.empty\<rparr>"

text \<open>No signal; the allocator answers \<open>a\<close> for the temporary buffer and \<open>b\<close> for the command.\<close>

definition calm :: "addr \<Rightarrow> addr \<Rightarrow> op_env" where
  "calm a b =
     \<lparr>interrupted = False, tmp_alloc = \<lparr>at = Some a, junk = (\<lambda>_. 0)\<rparr>, buf_alloc = \<lparr>at = Some b, junk = (\<lambda>_. 0)\<rparr>\<rparr>"

definition no_memory :: op_env where
  "no_memory =
     \<lparr>interrupted = False, tmp_alloc = \<lparr>at = None, junk = (\<lambda>_. 0)\<rparr>, buf_alloc = \<lparr>at = None, junk = (\<lambda>_. 0)\<rparr>\<rparr>"

lemma booted_loaded: "booted loaded_world"
  unfolding booted_def
  by (intro conjI exI [of _ empty_kernel] exI [of _ 0])
     (simp_all add: empty_kernel_def loaded_world_def loaded_kernel_def aesd_init_def aesd_circular_buffer_init_def
       aesd_setup_cdev_def zero_dev_def MAJOR_def)

lemma reachable_loaded: "reachable loaded_world"
  unfolding reachable_def using booted_loaded by blast

lemma reachable_trace:
  "reachable w \<Longrightarrow> trace_ok cs w \<Longrightarrow> run_trace cs w = Some (w', as) \<Longrightarrow> reachable w'"
proof (induction cs arbitrary: w as)
  case (Cons c cs)
  then obtain w1 a as' where "run_sys c w = Some (w1, a)" "sys_ok c w" "trace_ok cs w1" "run_trace cs w1 = Some (w', as')"
    by (auto split: option.splits)
  moreover from this have "sys_step w w1" by (auto intro: sys_step.intros)
  then have "reachable w1" using Cons.prems(1) by (auto simp: reachable_def intro: rtranclp.rtrancl_into_rtrancl)
  ultimately show ?case using Cons.IH by blast
qed simp

text \<open>
  A process opens the device as file 3 and makes two writes: the command ``a'' with its
  newline, and ``b'', the beginning of the next one.
\<close>

definition two_writes :: "syscall list" where
  "two_writes = [Sys_open 3, Sys_write 3 (calm 1 2) [97, 10] 2, Sys_write 3 (calm 1 3) [98] 1]"

lemmas eval_driver =
  run_sys_def fd_of_def call_file_def sys_ok_def calm_def no_memory_def loaded_world_def loaded_kernel_def zero_dev_def
  new_file_def aesd_open_def aesd_write_def aesd_write_store_def dev_lock_def dev_unlock_def
  mutex_lock_interruptible_def mutex_unlock_def kmalloc_def krealloc_def kfree_def heap_read_def heap_write_def
  copy_from_user_def deref_def aesd_handle_write_buffer_def aesd_handle_complete_command_def Let_def
  write_env_ok_def write_alloc_ok_def alloc_ok_def realloc_ok_def kmalloc_max_def zero_buffer_def zero_entry_def
  aesd_circular_buffer_add_entry_def arr_get_def arr_set_def next_offs_def

lemma two_writes_ok: "trace_ok two_writes loaded_world"
  by (simp add: two_writes_def eval_driver upt_rec)

definition stored_world :: world where
  "stored_world = fst (the (run_trace two_writes loaded_world))"

lemma stored:
  shows stored_reachable: "reachable stored_world"
    and stored_contents: "contents (kern stored_world) = [[97, 10]]"
    and stored_pending: "pending (kern stored_world) = [98]"
    and stored_file: "files stored_world 3 = Some \<lparr>private_data = Ptr (), f_pos = 0\<rparr>"
proof -
  have inv: "world_inv loaded_world" by (rule reachable_inv [OF reachable_loaded])
  from run_trace_refines [OF inv two_writes_ok] obtain w as where
    run: "run_trace two_writes loaded_world = Some (w, as)"
    and log: "log_trace two_writes (abs_world loaded_world) = (abs_world w, as)" by auto
  then have w: "stored_world = w" by (simp add: stored_world_def)
  show "reachable stored_world" unfolding w by (rule reachable_trace [OF reachable_loaded two_writes_ok run])
  have "abs_world loaded_world = \<lparr>log_cmds = [], log_pending = [], log_pos = Map.empty\<rparr>"
    using booted_inv [OF booted_loaded] by (simp add: abs_world_def loaded_world_def)
  with log have a: "abs_world w = \<lparr>log_cmds = [[97, 10]], log_pending = [98], log_pos = [3 \<mapsto> 0]\<rparr>"
    by (simp add: two_writes_def log_sys_def log_call_def fd_of_def a_write_def write_result_def calm_def Let_def)
  show "contents (kern stored_world) = [[97, 10]]" "pending (kern stored_world) = [98]"
    using arg_cong [OF a, of log_cmds] arg_cong [OF a, of log_pending] by (simp_all add: w abs_world_def)
  from run show "files stored_world 3 = Some \<lparr>private_data = Ptr (), f_pos = 0\<rparr>"
    unfolding w by (simp add: two_writes_def eval_driver upt_rec) force
qed

section \<open>Every sequence of calls\<close>

lemma driver_log:
  assumes "booted w" and "trace_ok cs w"
  shows "\<exists>w' as. run_trace cs w = Some (w', as) \<and> world_inv w' \<and>
    log_trace cs \<lparr>log_cmds = [], log_pending = [], log_pos = Map.empty\<rparr> = (abs_world w', as)"
proof -
  have "abs_world w = \<lparr>log_cmds = [], log_pending = [], log_pos = Map.empty\<rparr>"
    using booted_inv [OF assms(1)] assms(1) by (simp add: abs_world_def booted_def)
  then show ?thesis
    using run_trace_refines [OF _ assms(2)] booted_inv [OF assms(1)] by auto
qed

text \<open>C1. From the freshly loaded driver, every sequence of system calls that a kernel can make returns, and its
  answers and the final contents, partial command and file positions are those of the abstract log of commands,
  started empty: the ring, the heap, the mutex and the 64-bit arithmetic implement the log.\<close>

theorem driver_refines_log:
  assumes "booted w" and "trace_ok cs w"
  shows "\<exists>w' as. run_trace cs w = Some (w', as) \<and>
    log_trace cs \<lparr>log_cmds = [], log_pending = [], log_pos = Map.empty\<rparr> = (abs_world w', as)"
  using driver_log [OF assms] by blast

lemma driver_refines_log_witness:
  "\<exists>w' as. run_trace two_writes loaded_world = Some (w', as) \<and>
    log_trace two_writes \<lparr>log_cmds = [], log_pending = [], log_pos = Map.empty\<rparr> = (abs_world w', as)"
  by (rule driver_refines_log [OF booted_loaded two_writes_ok])

text \<open>C9. In every state that the loaded driver can reach, every call that a kernel can make has a defined
  result: no access outside an array or a block, no use of a freed or null pointer, no double free, no
  mutex locked twice or unlocked when free, no loop without end; and the next state is reachable again.\<close>

theorem reachable_calls_defined:
  assumes "reachable w" and "sys_ok c w"
  shows "\<exists>w' a. run_sys c w = Some (w', a) \<and> reachable w'"
proof -
  obtain w' a where r: "run_sys c w = Some (w', a)"
    using run_sys_refines [OF reachable_inv [OF assms(1)] assms(2)] by metis
  then have "run_trace [c] w = Some (w', [a])" "trace_ok [c] w" using assms(2) by simp_all
  with reachable_trace [OF assms(1)] r show ?thesis by blast
qed

lemma reachable_calls_defined_witness:
  "\<exists>w' a. run_sys (Sys_read 3 (calm 1 2) 5 9) stored_world = Some (w', a) \<and> reachable w'"
  by (rule reachable_calls_defined [OF stored_reachable]) (simp add: sys_ok_def)

text \<open>C7. Memory ownership: in every reachable state the live blocks of the kernel heap are exactly the
  blocks that the ten stored commands and the partial command point to, and no block is owned twice. So no
  sequence of calls leaks memory or lets two entries share a block, and the mutex is free between calls.\<close>

theorem no_leak_no_alias:
  assumes "reachable w"
  shows "dom (kheap (kern w)) = set (owned (aesd_device (kern w))) \<and>
    distinct (owned (aesd_device (kern w))) \<and>
    lock (aesd_device (kern w)) = Unlocked \<and> cb_inv (buffer (aesd_device (kern w)))"
  using reachable_inv [OF assms] by (auto simp: world_inv_def kernel_inv_def dev_inv_def)

lemma no_leak_no_alias_witness:
  "dom (kheap (kern stored_world)) = set (owned (aesd_device (kern stored_world))) \<and>
   distinct (owned (aesd_device (kern stored_world)))"
  using no_leak_no_alias [OF stored_reachable] by simp

lemma log_write_error:
  assumes "log_sys (Sys_write fd e src n) s = (s', out, Inl err)" and "log_pos s fd = Some p"
  shows "log_cmds s' = log_cmds s" and "log_pending s' = log_pending s"
    and "err = (if n = 0 then EINVAL else if interrupted e then ERESTARTSYS
      else if at (tmp_alloc e) = None then ENOMEM else if length src < unat n then EFAULT else ENOMEM)"
  using assms
  by (auto simp: log_sys_def fd_of_def log_call_def write_result_def Let_def split: if_splits prod.splits)

text \<open>C28. A write that is interrupted, cannot allocate either buffer, or faults on the user's memory reports
  exactly that error and leaves the stored commands and the partial command as they were; and no block is
  lost: the temporary buffer is freed on every error path.\<close>

theorem failed_write_keeps_log:
  assumes "reachable w" and "files w fd = Some f" and "sys_ok (Sys_write fd e src n) w"
    and "run_sys (Sys_write fd e src n) w = Some (w', out, Inl err)"
  shows "contents (kern w') = contents (kern w) \<and> pending (kern w') = pending (kern w) \<and>
    dom (kheap (kern w')) = set (owned (aesd_device (kern w'))) \<and>
    err = (if n = 0 then EINVAL else if interrupted e then ERESTARTSYS
      else if at (tmp_alloc e) = None then ENOMEM else if length src < unat n then EFAULT else ENOMEM)"
proof -
  from run_sys_refines [OF reachable_inv [OF assms(1)] assms(3)] assms(4)
  have log: "log_sys (Sys_write fd e src n) (abs_world w) = (abs_world w', out, Inl err)" and inv: "world_inv w'"
    by auto
  have pos: "log_pos (abs_world w) fd = Some (unat (f_pos f))" using assms(2) by (simp add: abs_world_def)
  have "dom (kheap (kern w')) = set (owned (aesd_device (kern w')))"
    using inv by (auto simp: world_inv_def kernel_inv_def dev_inv_def)
  then show ?thesis using log_write_error [OF log pos] by (simp add: abs_world_def)
qed

lemma failed_write_keeps_log_witness:
  "\<exists>w'. run_sys (Sys_write 3 no_memory [99, 10] 2) stored_world = Some (w', [], Inl ENOMEM) \<and>
    contents (kern w') = [[97, 10]] \<and> pending (kern w') = [98]"
proof -
  let ?c = "Sys_write 3 no_memory [99, 10] 2"
  have ok: "sys_ok ?c stored_world" by (simp add: sys_ok_def write_env_ok_def alloc_ok_def no_memory_def)
  from run_sys_refines [OF reachable_inv [OF stored_reachable] ok] obtain w' a where
    r: "run_sys ?c stored_world = Some (w', a)" "log_sys ?c (abs_world stored_world) = (abs_world w', a)" by metis
  from r(2) have "a = ([], Inl ENOMEM)"
    by (simp add: log_sys_def log_call_def fd_of_def abs_world_def stored_file no_memory_def write_result_def)
  with r(1) failed_write_keeps_log [OF stored_reachable stored_file ok, of w' "[]" ENOMEM] show ?thesis
    by (simp add: stored_contents stored_pending)
qed

section \<open>The stream of commands\<close>

lemma writes_log:
  assumes "booted w" and "trace_ok (Sys_open fd # writes fd es chunks) w"
    and "length es = length chunks" and "\<forall>e \<in> set es. write_succeeds e"
    and "\<forall>c \<in> set chunks. whole c \<and> c \<noteq> [] \<and> length c < 2 ^ 64"
  shows "\<exists>w' as. run_trace (Sys_open fd # writes fd es chunks) w = Some (w', as) \<and> world_inv w' \<and>
    as = ([], Inr 0) # map (\<lambda>c. ([], Inr (of_nat (length c)))) chunks \<and>
    abs_world w' = \<lparr>log_cmds = keep_last 10 (fst (split_lines (concat chunks))),
      log_pending = snd (split_lines (concat chunks)), log_pos = [fd \<mapsto> 0]\<rparr>"
proof -
  let ?s = "\<lparr>log_cmds = [], log_pending = [], log_pos = [fd \<mapsto> 0]\<rparr>"
  from driver_log [OF assms(1,2)] obtain w' as where
    run: "run_trace (Sys_open fd # writes fd es chunks) w = Some (w', as)" "world_inv w'"
    and log: "log_trace (Sys_open fd # writes fd es chunks) \<lparr>log_cmds = [], log_pending = [], log_pos = Map.empty\<rparr> =
      (abs_world w', as)" by blast
  have chunks: "\<forall>c \<in> set chunks. c \<noteq> [] \<and> length c < 2 ^ 64" "\<forall>c \<in> set chunks. whole c" using assms(5) by auto
  have "log_sys (Sys_open fd) \<lparr>log_cmds = [], log_pending = [], log_pos = Map.empty\<rparr> = (?s, [], Inr 0)"
    by (simp add: log_sys_def fd_of_def)
  with log log_trace_writes [OF assms(3,4) chunks(1), of ?s fd 0] foldl_a_write [OF chunks(2), of "[]" "[]"]
  have "abs_world w' = \<lparr>log_cmds = keep_last 10 (fst (split_lines (concat chunks))),
      log_pending = snd (split_lines (concat chunks)), log_pos = [fd \<mapsto> 0]\<rparr>"
    and "as = ([], Inr 0) # map (\<lambda>c. ([], Inr (of_nat (length c)))) chunks"
    by (auto split: prod.splits if_splits)
  with run show ?thesis by simp
qed

text \<open>C19. After any number of successful writes, each of which ends at its first newline if it has one, what the device
  keeps depends only on the stream of bytes, and not on which of these ways it was cut: the stored commands are the last
  ten newline-terminated lines of the concatenated bytes, and the partial command is what follows the last newline. (A
  write with data after its newline is stored as one command, \<open>aesd-char-fileops.c\<close>, and is not covered.)\<close>

theorem writes_store_last_lines:
  assumes "booted w" and "trace_ok (Sys_open fd # writes fd es chunks) w"
    and "length es = length chunks" and "\<forall>e \<in> set es. write_succeeds e"
    and "\<forall>c \<in> set chunks. whole c \<and> c \<noteq> [] \<and> length c < 2 ^ 64"
  shows "\<exists>w' as. run_trace (Sys_open fd # writes fd es chunks) w = Some (w', as) \<and>
    as = ([], Inr 0) # map (\<lambda>c. ([], Inr (of_nat (length c)))) chunks \<and>
    contents (kern w') = keep_last 10 (fst (split_lines (concat chunks))) \<and>
    pending (kern w') = snd (split_lines (concat chunks))"
  using writes_log [OF assms] by (auto simp: abs_world_def)

lemma writes_store_last_lines_witness:
  "\<exists>w' as. run_trace (Sys_open 3 # writes 3 [calm 1 2, calm 1 3] [[97, 10], [98]]) loaded_world = Some (w', as) \<and>
    contents (kern w') = [[97, 10]] \<and> pending (kern w') = [98]"
proof -
  have t: "Sys_open 3 # writes 3 [calm 1 2, calm 1 3] [[97, 10], [98]] = two_writes"
    by (simp add: writes_def two_writes_def)
  then have "trace_ok (Sys_open 3 # writes 3 [calm 1 2, calm 1 3] [[97, 10], [98]]) loaded_world"
    using two_writes_ok by simp
  from writes_store_last_lines [OF booted_loaded this] show ?thesis
    by (auto simp: write_succeeds_def calm_def whole_def)
qed

text \<open>C35. A reader that repeats \<open>read\<close> until it gets no bytes terminates, whatever the size of its
  buffer, and has received exactly the stored commands, concatenated, from its position on; reading changes
  neither the commands nor the partial command.\<close>

theorem read_to_end_returns_rest:
  assumes "reachable w" and "files w fd = Some f" and "\<not> interrupted e" and "n \<noteq> 0" and "unat n \<le> room"
    and "length (concat (contents (kern w))) - unat (f_pos f) < fuel"
  shows "\<exists>w'. read_to_end fuel fd e room n w = Some (w', drop (unat (f_pos f)) (concat (contents (kern w)))) \<and>
    contents (kern w') = contents (kern w) \<and> pending (kern w') = pending (kern w)"
  using read_to_end_log [OF reachable_inv [OF assms(1)] assms(2-)] by blast

lemma read_to_end_returns_rest_witness:
  "\<exists>w'. read_to_end 3 3 (calm 0 0) 1 1 stored_world = Some (w', [97, 10])"
  using read_to_end_returns_rest [OF stored_reachable stored_file, of "calm 0 0" 1 1 3]
  by (auto simp: stored_contents calm_def)

lemma trace_append:
  "run_trace cs w = Some (w1, as) \<Longrightarrow> run_trace ds w1 = Some (w2, bs) \<Longrightarrow> run_trace (cs @ ds) w = Some (w2, as @ bs)"
  by (induction cs arbitrary: w as) (auto split: option.splits)

text \<open>C13. Round trip: what is written through one file, in chunks of any length none of which has data after its
  newline, and read back through another one is the concatenation of the last ten complete lines. (A chunk with data
  after its newline is stored as one command, and is not covered.)\<close>

theorem write_read_roundtrip:
  assumes "booted w" and "trace_ok (Sys_open fd # writes fd es chunks) w"
    and "length es = length chunks" and "\<forall>e \<in> set es. write_succeeds e"
    and "\<forall>c \<in> set chunks. whole c \<and> c \<noteq> [] \<and> length c < 2 ^ 64"
    and "fd' \<noteq> fd" and "\<not> interrupted e" and "n \<noteq> 0" and "unat n \<le> room" and "length (concat chunks) < fuel"
  shows "\<exists>w1 as w2. run_trace (Sys_open fd # writes fd es chunks @ [Sys_open fd']) w = Some (w1, as) \<and>
    read_to_end fuel fd' e room n w1 = Some (w2, concat (keep_last 10 (fst (split_lines (concat chunks)))))"
proof -
  let ?cs = "Sys_open fd # writes fd es chunks" and ?ls = "fst (split_lines (concat chunks))"
  from writes_log [OF assms(1-5)] obtain w1 as where
    run: "run_trace ?cs w = Some (w1, as)" and inv: "world_inv w1"
    and abs: "abs_world w1 = \<lparr>log_cmds = keep_last 10 ?ls, log_pending = snd (split_lines (concat chunks)), log_pos = [fd \<mapsto> 0]\<rparr>"
    by blast
  have "log_pos (abs_world w1) fd' = None" using abs assms(6) by simp
  then have closed: "files w1 fd' = None" by (simp add: abs_world_def)
  have "sys_ok (Sys_open fd') w1" by (simp add: sys_ok_def)
  from run_sys_refines [OF inv this] obtain w2 a where
    op: "run_sys (Sys_open fd') w1 = Some (w2, a)" "world_inv w2" by metis
  then have w2: "files w2 fd' = Some \<lparr>private_data = Ptr (), f_pos = 0\<rparr>" "kern w2 = kern w1"
    using closed by (auto simp: run_sys_def fd_of_def aesd_open_def new_file_def)
  have cmds: "contents (kern w2) = keep_last 10 ?ls"
    using arg_cong [OF abs, of log_cmds] w2(2) by (simp add: abs_world_def)
  have "length (concat (keep_last 10 ?ls)) \<le> length (concat ?ls)"
    unfolding keep_last_def by (metis append_take_drop_id concat_append length_append le_add2)
  also have "\<dots> \<le> length (concat chunks)"
    using arg_cong [OF split_lines_concat [of "concat chunks"], of length] by simp
  finally have "length (concat (contents (kern w2))) - unat (f_pos \<lparr>private_data = Ptr (), f_pos = 0\<rparr>) < fuel"
    using assms(10) cmds by simp
  from read_to_end_log [OF op(2) w2(1) assms(7-9) this] cmds
  have "\<exists>w3. read_to_end fuel fd' e room n w2 = Some (w3, concat (keep_last 10 ?ls))" by auto
  moreover have "run_trace [Sys_open fd'] w1 = Some (w2, [a])" using op(1) by simp
  ultimately show ?thesis using trace_append [OF run] by fastforce
qed

lemma write_read_roundtrip_witness:
  "\<exists>w1 as w2. run_trace (Sys_open 3 # writes 3 [calm 1 2, calm 1 3] [[97, 10], [98]] @ [Sys_open 4]) loaded_world = Some (w1, as) \<and>
    read_to_end 4 4 (calm 0 0) 1 1 w1 = Some (w2, [97, 10])"
proof -
  have t: "Sys_open 3 # writes 3 [calm 1 2, calm 1 3] [[97, 10], [98]] = two_writes"
    by (simp add: writes_def two_writes_def)
  then have "trace_ok (Sys_open 3 # writes 3 [calm 1 2, calm 1 3] [[97, 10], [98]]) loaded_world"
    using two_writes_ok by simp
  from write_read_roundtrip [OF booted_loaded this, of 4 "calm 0 0" 1 1 4] show ?thesis
    by (auto simp: write_succeeds_def calm_def whole_def)
qed

section \<open>Seeking\<close>

text \<open>After \<open>ioctl(AESDCHAR_IOCSEEKTO)\<close> to command \<open>i\<close> and offset \<open>j\<close>, both inside what is stored, the next
  \<open>read\<close> returns the bytes of exactly that command from that offset on, as many as asked for; the position in
  the file is the sum of the sizes of the commands before it, plus the offset.\<close>

lemma seekto_then_read:
  assumes "reachable w" and "files w fd = Some f" and "\<not> interrupted e" and "\<not> interrupted e'"
    and "unat (write_cmd st) < length (contents (kern w))"
    and "unat (write_cmd_offset st) < length (contents (kern w) ! unat (write_cmd st))"
    and "length (contents (kern w) ! unat (write_cmd st)) \<le> room"
  shows "\<exists>w' r. run_trace [Sys_ioctl fd e AESDCHAR_IOCSEEKTO (Ptr st), Sys_read fd e' room n] w =
    Some (w', [([], Inr 0),
      (take (unat n) (drop (unat (write_cmd_offset st)) (contents (kern w) ! unat (write_cmd st))), Inr r)])"
proof -
  let ?c = "Sys_ioctl fd e AESDCHAR_IOCSEEKTO (Ptr st)" and ?d = "Sys_read fd e' room n"
  let ?i = "unat (write_cmd st)" and ?j = "unat (write_cmd_offset st)" and ?cs = "contents (kern w)"
  let ?bs = "take (unat n) (drop ?j (?cs ! ?i))"
  have "trace_ok [?c, ?d] w" by (auto simp: sys_ok_def split: option.splits)
  from run_trace_refines [OF reachable_inv [OF assms(1)] this] obtain w' as where
    r: "run_trace [?c, ?d] w = Some (w', as)" "log_trace [?c, ?d] (abs_world w) = (abs_world w', as)" by blast
  have "length ?bs \<le> length (?cs ! ?i)" by simp
  then have "\<not> room < length ?bs" using assms(7) by linarith
  moreover have "log_pos (abs_world w) fd = Some (unat (f_pos f))" "log_cmds (abs_world w) = ?cs"
    using assms(2) by (simp_all add: abs_world_def)
  ultimately have "as = [([], Inr 0), (?bs, Inr (of_nat (length ?bs)))]"
    using r(2) assms(3-6) by (auto simp: log_sys_def fd_of_def log_call_def cmd_at_nth Let_def)
  with r(1) show ?thesis by blast
qed

text \<open>C36. \<open>llseek\<close> moves the position exactly when the target, computed without overflow from the start, the
  current position or the end, lies within the stored bytes (their end included), and then returns it; every
  other target and every other \<open>whence\<close> is refused with \<open>EINVAL\<close> and leaves the position where it was. The mixed
  signed and unsigned 64-bit comparisons of the code decide this for every offset.\<close>

theorem llseek_in_bounds:
  assumes "reachable w" and "files w fd = Some f" and "\<not> interrupted e"
  shows "aesd_llseek e (kern w) f offset whence =
    (case seek_target (int (length (concat (contents (kern w))))) (sint (f_pos f)) (sint offset) whence of
       None \<Rightarrow> Some (kern w, f, Inl EINVAL)
     | Some t \<Rightarrow>
         if 0 \<le> t \<and> t \<le> int (length (concat (contents (kern w))))
         then Some (kern w, f\<lparr>f_pos := word_of_int t\<rparr>, Inr (word_of_int t))
         else Some (kern w, f, Inl EINVAL))"
proof -
  have inv: "world_inv w" by (rule reachable_inv [OF assms(1)])
  then have "kernel_inv (kern w)" "private_data f \<noteq> NULL" "unat (f_pos f) \<le> max_log"
    using assms(2) by (auto simp: world_inv_def)
  moreover from this have "0 \<le> sint (f_pos f)" by (simp add: sint_pos)
  ultimately show ?thesis
    using assms(3) by (subst aesd_llseek_spec) (auto split: option.split)
qed

lemma llseek_in_bounds_witness:
  "aesd_llseek (calm 0 0) (kern stored_world) \<lparr>private_data = Ptr (), f_pos = 0\<rparr> (- 1) SEEK_END =
     Some (kern stored_world, \<lparr>private_data = Ptr (), f_pos = 1\<rparr>, Inr 1) \<and>
   aesd_llseek (calm 0 0) (kern stored_world) \<lparr>private_data = Ptr (), f_pos = 0\<rparr> (- 1) SEEK_SET =
     Some (kern stored_world, \<lparr>private_data = Ptr (), f_pos = 0\<rparr>, Inl EINVAL)"
  by (subst (1 2) llseek_in_bounds [OF stored_reachable stored_file])
     (simp_all add: calm_def stored_contents seek_target_def SEEK_END_def SEEK_SET_def SEEK_CUR_def)

section \<open>Loading and unloading\<close>

text \<open>C33. Whatever was done between loading and unloading the driver, \<open>aesd_exit\<close> returns with no block left on
  the heap (each freed exactly once), the device numbers given back, the mutex destroyed and the character
  device removed.\<close>

theorem load_use_unload:
  assumes "kheap k = Map.empty" and "aesd_init (Inr dev) None k = Some (k0, Inr ())"
    and "trace_ok cs \<lparr>kern = k0, files = Map.empty\<rparr>"
  shows "\<exists>w as k'. run_trace cs \<lparr>kern = k0, files = Map.empty\<rparr> = Some (w, as) \<and>
    aesd_exit (kern w) = Some k' \<and> kheap k' = Map.empty \<and> region k' = None \<and>
    lock (aesd_device k') = Mutex_Uninit \<and> \<not> cdev_added (cdev (aesd_device k'))"
proof -
  have "booted \<lparr>kern = k0, files = Map.empty\<rparr>" using assms(1,2) by (auto simp: booted_def)
  from driver_log [OF this assms(3)] obtain w as where
    "run_trace cs \<lparr>kern = k0, files = Map.empty\<rparr> = Some (w, as)" "kernel_inv (kern w)"
    by (auto simp: world_inv_def)
  with aesd_exit_releases [of "kern w"] show ?thesis by blast
qed

lemma loaded_init: "aesd_init (Inr 0) None empty_kernel = Some (loaded_kernel, Inr ())"
  by (simp add: empty_kernel_def loaded_kernel_def aesd_init_def aesd_circular_buffer_init_def
      aesd_setup_cdev_def zero_dev_def MAJOR_def)

lemma load_use_unload_witness:
  "\<exists>w as k'. run_trace two_writes \<lparr>kern = loaded_kernel, files = Map.empty\<rparr> = Some (w, as) \<and>
    aesd_exit (kern w) = Some k' \<and> kheap k' = Map.empty \<and> region k' = None"
proof -
  have "kheap empty_kernel = Map.empty" by (simp add: empty_kernel_def)
  from load_use_unload [OF this loaded_init two_writes_ok [unfolded loaded_world_def]] show ?thesis by blast
qed

text \<open>Loading fails cleanly: when the device numbers cannot be allocated nothing changes, and when \<open>cdev_add\<close>
  fails the numbers are given back, the mutex is destroyed and no block is allocated; the error is the one
  reported.\<close>

lemma failed_init_releases:
  "aesd_init (Inl err) added k = Some (k, Inl err) \<and>
   (\<exists>k'. aesd_init (Inr dev) (Some err) k = Some (k', Inl err) \<and> region k' = None \<and>
     lock (aesd_device k') = Mutex_Uninit \<and> \<not> cdev_added (cdev (aesd_device k')) \<and> kheap k' = kheap k)"
  using aesd_init_fails by blast

section \<open>The ring\<close>

text \<open>The ring is a log of capacity ten: adding any list of entries to an initialised buffer succeeds and
  keeps the last ten, oldest first; the index fields, computed in 8 bits, stay in the array.\<close>

lemma ring_keeps_last_ten:
  assumes "\<forall>e \<in> set es. entry_buffptr e \<noteq> NULL"
  shows "\<exists>b. foldM (\<lambda>b e. aesd_circular_buffer_add_entry b (Ptr e)) (aesd_circular_buffer_init (Ptr b0)) es = Some (Ptr b) \<and>
    cb_inv b \<and> cb_items b = keep_last 10 es"
proof -
  have "list_all (\<lambda>e. entry_buffptr e \<noteq> NULL) es" using assms by (simp add: list_all_iff)
  from cb.push_list_new [OF this, of b0] show ?thesis by auto
qed

definition entry_at :: "nat \<Rightarrow> aesd_buffer_entry" where
  "entry_at a = \<lparr>entry_buffptr = Ptr a, entry_size = 4\<rparr>"

text \<open>First in, first out: of at most ten entries added to an initialised buffer, removing \<open>m\<close> times leaves
  the later ones in order, and removing from an empty buffer changes nothing.\<close>

lemma ring_fifo:
  assumes "\<forall>e \<in> set es. entry_buffptr e \<noteq> NULL" and "length es \<le> 10"
  shows "\<exists>b. (foldM (\<lambda>b e. aesd_circular_buffer_add_entry b (Ptr e)) (aesd_circular_buffer_init (Ptr b0)) es \<bind>
      (\<lambda>b. foldM (\<lambda>b _. aesd_circular_buffer_remove_entry b) b [0..<m])) = Some (Ptr b) \<and>
    cb_inv b \<and> cb_items b = drop m es"
proof -
  have "list_all (\<lambda>e. entry_buffptr e \<noteq> NULL) es" using assms(1) by (simp add: list_all_iff)
  from cb.push_then_pop [OF this, of b0 "[0..<m]"] assms(2) show ?thesis by auto
qed

text \<open>C23. The search by position is the reference search: on any buffer whose fields are in range and whose sizes
  do not overflow, the loop over the wrapped indices returns the entry, and the offset in it, that hold the byte
  at that position of the concatenated entries, and a null pointer exactly when the position is beyond them.\<close>

theorem find_entry_is_locate:
  assumes "cb_inv b" and "sizes (cb_items b) < 2 ^ 64"
  shows "\<exists>found. aesd_circular_buffer_find_entry_offset_for_fpos (Ptr b) off (Ptr r) = Some found \<and>
    (case found of
       NULL \<Rightarrow> sizes (cb_items b) \<le> unat off
     | Ptr (idx, d) \<Rightarrow>
         \<exists>j < length (cb_items b). unat idx = (unat (out_offs b) + j) mod 10 \<and> entry b ! unat idx = cb_items b ! j \<and>
           unat d < esize (cb_items b ! j) \<and> unat off = sizes (take j (cb_items b)) + unat d)"
proof (cases "locate (cb_items b) (unat off)")
  case None
  then show ?thesis using find_entry_eq [OF assms, of off r] locate_None [of "cb_items b" "unat off"] by simp
next
  case (Some jd)
  obtain j d where jd: "jd = (j, d)" by (cases jd)
  with Some have j: "j < length (cb_items b)" "d < esize (cb_items b ! j)"
    "unat off = sizes (take j (cb_items b)) + d" using locate_SomeD by auto
  have d: "unat (of_nat d :: size_t) = d"
    using j(2) unat_less_2_64 [of "entry_size (cb_items b ! j)"] by (simp add: unat_of_nat)
  have idx: "unat (of_nat ((unat (out_offs b) + j) mod 10) :: u8) = (unat (out_offs b) + j) mod 10"
    by (rule unat_of_nat_u8) simp
  have "cb_items b ! j = entry b ! ((unat (out_offs b) + j) mod 10)"
    using j(1) unfolding cb_items_def by simp
  then show ?thesis
    using find_entry_eq [OF assms, of off r] Some jd j d idx by auto
qed

lemma find_entry_is_locate_witness:
  "\<exists>b idx d. cb_items b = [entry_at 1, entry_at 2] \<and>
    aesd_circular_buffer_find_entry_offset_for_fpos (Ptr b) 5 (Ptr 0) = Some (Ptr (idx, d)) \<and>
    entry b ! unat idx = entry_at 2 \<and> unat d = 1"
proof -
  obtain b where b: "cb_inv b" "cb_items b = [entry_at 1, entry_at 2]"
    using cb.push_list_new [of "[entry_at 1, entry_at 2]"] by (auto simp: entry_at_def)
  have "sizes (cb_items b) = 8" by (simp add: b(2) entry_at_def)
  with find_entry_is_locate [OF b(1), of 5 0] obtain found where
    f: "aesd_circular_buffer_find_entry_offset_for_fpos (Ptr b) 5 (Ptr 0) = Some found"
    "case found of NULL \<Rightarrow> sizes (cb_items b) \<le> unat (5 :: size_t)
     | Ptr (idx, d) \<Rightarrow> \<exists>j < length (cb_items b). unat idx = (unat (out_offs b) + j) mod 10 \<and>
         entry b ! unat idx = cb_items b ! j \<and> unat d < esize (cb_items b ! j) \<and>
         unat (5 :: size_t) = sizes (take j (cb_items b)) + unat d"
    by auto
  moreover have "\<not> sizes (cb_items b) \<le> unat (5 :: size_t)" by (simp add: b(2) entry_at_def)
  ultimately obtain idx d j where p: "found = Ptr (idx, d)" "j < length (cb_items b)" "entry b ! unat idx = cb_items b ! j"
    "unat d < esize (cb_items b ! j)" "unat (5 :: size_t) = sizes (take j (cb_items b)) + unat d"
    by (cases found) (simp, force)
  from p(2) b(2) consider "j = 0" | "j = 1" by force
  then have "j = 1" by cases (use p(4,5) in \<open>simp_all add: b(2) entry_at_def\<close>)
  with p f(1) b(2) show ?thesis by (auto simp: entry_at_def)
qed

end
