(* ===== verification/Thread_List.thy ===== *)
theory Thread_List
  imports Prelude
begin

text \<open>
  The list of client threads of the server (\<open>server/aesdsocket_app/src/thread_manager.c\<close>): a
  linked list of nodes on the heap of the process, under a mutex. Each operation is the code's
  pointer program; the theorems say what it does to the list of nodes, that no freed node is
  used, and that every thread is joined once.
\<close>

section \<open>Data\<close>

text \<open>\<open>struct thread_node\<close>; the thread is the id that \<open>pthread_create\<close> gave.\<close>

record thread_node =
  thread :: nat
  next_node :: "addr cptr"
  completed :: bool

datatype pmutex = Free | Held | Destroyed

text \<open>
  The nodes on the heap, the two global variables of the list, and the threads joined so far.
\<close>

record thread_list =
  nodes :: "addr \<Rightarrow> thread_node option"
  thread_list_head :: "addr cptr"
  thread_list_mutex :: pmutex
  joined :: "nat list"

section \<open>Operations\<close>

text \<open>Locking a destroyed mutex is undefined; locking one that the caller holds never returns.\<close>

definition pthread_mutex_lock :: "pmutex \<Rightarrow> pmutex option" where
  "pthread_mutex_lock m = (if m = Free then Some Held else None)"

definition pthread_mutex_unlock :: "pmutex \<Rightarrow> pmutex option" where
  "pthread_mutex_unlock m = (if m = Held then Some Free else None)"

definition lock_list :: "thread_list \<Rightarrow> thread_list option" where
  "lock_list s = map_option (\<lambda>m. s\<lparr>thread_list_mutex := m\<rparr>) (pthread_mutex_lock (thread_list_mutex s))"

definition unlock_list :: "thread_list \<Rightarrow> thread_list option" where
  "unlock_list s = map_option (\<lambda>m. s\<lparr>thread_list_mutex := m\<rparr>) (pthread_mutex_unlock (thread_list_mutex s))"

text \<open>
  Waiting for the thread of a node. Its callers hold the mutex of the list, which a client
  takes at its end to mark its node (\<open>mark_completed\<close>): the wait ends for a client that has
  marked it, and never for one that has not. A thread is joined at most once; the threads of
  the model are identities, so that an id that the system uses again is another thread.
\<close>

definition pthread_join :: "thread_node \<Rightarrow> thread_list \<Rightarrow> thread_list option" where
  "pthread_join n s =
     (if completed n \<and> thread n \<notin> set (joined s) then Some (s\<lparr>joined := joined s @ [thread n]\<rparr>) else None)"

definition free_node :: "addr \<Rightarrow> thread_list \<Rightarrow> thread_list option" where
  "free_node a s = (if nodes s a = None then None else Some (s\<lparr>nodes := (nodes s)(a := None)\<rparr>))"

text \<open>Storing through a pointer to a node.\<close>

definition set_node :: "addr \<Rightarrow> (thread_node \<Rightarrow> thread_node) \<Rightarrow> thread_list \<Rightarrow> thread_list option" where
  "set_node a f s = map_option (\<lambda>n. s\<lparr>nodes := (nodes s)(a \<mapsto> f n)\<rparr>) (nodes s a)"

text \<open>\<open>c\<close> is the answer of \<open>malloc\<close>.\<close>

definition add_thread_to_list :: "addr option \<Rightarrow> nat \<Rightarrow> thread_list \<Rightarrow> (thread_list \<times> addr cptr) option" where
  "add_thread_to_list c t s =
     (case c of
        None \<Rightarrow> Some (s, NULL)
      | Some a \<Rightarrow> do {
          let s = s\<lparr>nodes := (nodes s)(a \<mapsto> \<lparr>thread = t, next_node = NULL, completed = False\<rparr>)\<rparr>;
          s \<leftarrow> lock_list s;
          s \<leftarrow> set_node a (\<lambda>n. n\<lparr>next_node := thread_list_head s\<rparr>) s;
          let s = s\<lparr>thread_list_head := Ptr a\<rparr>;
          s \<leftarrow> unlock_list s;
          Some (s, Ptr a)
        })"

text \<open>The end of a client thread: \<open>my_node->completed = 1\<close>.\<close>

definition mark_completed :: "addr cptr \<Rightarrow> thread_list \<Rightarrow> thread_list option" where
  "mark_completed p s =
     (case p of
        NULL \<Rightarrow> Some s
      | Ptr a \<Rightarrow> do {
          s \<leftarrow> lock_list s;
          s \<leftarrow> set_node a (\<lambda>n. n\<lparr>completed := True\<rparr>) s;
          unlock_list s
        })"

text \<open>Taking the node after \<open>prev\<close>, or the first one, out of the list.\<close>

definition unlink :: "addr cptr \<Rightarrow> addr cptr \<Rightarrow> thread_list \<Rightarrow> thread_list option" where
  "unlink prev succ s =
     (case prev of
        NULL \<Rightarrow> Some (s\<lparr>thread_list_head := succ\<rparr>)
      | Ptr b \<Rightarrow> set_node b (\<lambda>n. n\<lparr>next_node := succ\<rparr>) s)"

partial_function (option) remove_loop :: "addr cptr \<Rightarrow> addr cptr \<Rightarrow> thread_list \<Rightarrow> thread_list option" where
  "remove_loop prev current s =
     (case current of
        NULL \<Rightarrow> Some s
      | Ptr a \<Rightarrow>
          do {
            n \<leftarrow> nodes s a;
            if completed n
            then do {
              s \<leftarrow> unlink prev (next_node n) s;
              s \<leftarrow> pthread_join n s;
              s \<leftarrow> free_node a s;
              remove_loop prev (next_node n) s
            }
            else remove_loop (Ptr a) (next_node n) s
          })"

definition remove_completed_threads :: "thread_list \<Rightarrow> thread_list option" where
  "remove_completed_threads s = do {
     s \<leftarrow> lock_list s;
     s \<leftarrow> remove_loop NULL (thread_list_head s) s;
     unlock_list s
   }"

partial_function (option) cleanup_loop :: "thread_list \<Rightarrow> thread_list option" where
  "cleanup_loop s =
     (case thread_list_head s of
        NULL \<Rightarrow> Some s
      | Ptr a \<Rightarrow>
          do {
            n \<leftarrow> nodes s a;
            s \<leftarrow> pthread_join n (s\<lparr>thread_list_head := next_node n\<rparr>);
            s \<leftarrow> free_node a s;
            cleanup_loop s
          })"

definition cleanup_thread_list :: "thread_list \<Rightarrow> thread_list option" where
  "cleanup_thread_list s = do {
     s \<leftarrow> lock_list s;
     s \<leftarrow> cleanup_loop s;
     unlock_list s
   }"

section \<open>Chains of nodes\<close>

text \<open>\<open>as\<close> are the nodes from \<open>p\<close> up to, not including, \<open>q\<close>.\<close>

fun chain :: "(addr \<Rightarrow> thread_node option) \<Rightarrow> addr cptr \<Rightarrow> addr list \<Rightarrow> addr cptr \<Rightarrow> bool" where
  "chain h p [] q = (p = q)"
| "chain h p (a # as) q = (p = Ptr a \<and> (\<exists>n. h a = Some n \<and> chain h (next_node n) as q))"

lemma chain_append [simp]: "chain h p (as @ bs) q \<longleftrightarrow> (\<exists>r. chain h p as r \<and> chain h r bs q)"
  by (induction as arbitrary: p) auto

lemma chain_frame: "a \<notin> set as \<Longrightarrow> chain (h(a := x)) p as q = chain h p as q"
  by (induction as arbitrary: p) auto

lemma chain_live: "chain h p as q \<Longrightarrow> set as \<subseteq> dom h"
  by (induction as arbitrary: p) auto

lemma chain_same_next:
  assumes "h a = Some n" "next_node (f n) = next_node n"
  shows "chain (h(a \<mapsto> f n)) p as q = chain h p as q"
  by (induction as arbitrary: p) (use assms in auto)

text \<open>The nodes of a list, and the threads of some nodes.\<close>

definition threads_of :: "thread_list \<Rightarrow> addr list \<Rightarrow> nat list" where
  "threads_of s as = map (\<lambda>a. thread (the (nodes s a))) as"

definition done_in :: "thread_list \<Rightarrow> addr \<Rightarrow> bool" where
  "done_in s a \<longleftrightarrow> completed (the (nodes s a))"

lemma view_mutex [simp]:
  "threads_of (s\<lparr>thread_list_mutex := m\<rparr>) as = threads_of s as"
  "done_in (s\<lparr>thread_list_mutex := m\<rparr>) = done_in s"
  by (simp_all add: threads_of_def done_in_def [abs_def])

text \<open>
  The list of the server: the nodes \<open>as\<close>, which are all the live ones; the mutex is free; every
  thread has one node and is not joined yet.
\<close>

definition list_ok :: "thread_list \<Rightarrow> addr list \<Rightarrow> bool" where
  "list_ok s as \<longleftrightarrow>
     chain (nodes s) (thread_list_head s) as NULL \<and> distinct as \<and> dom (nodes s) = set as \<and>
     thread_list_mutex s = Free \<and> distinct (joined s @ threads_of s as)"

text \<open>What two states agree on about some nodes: the thread and the mark, not the link.\<close>

definition same_marks :: "thread_list \<Rightarrow> thread_list \<Rightarrow> addr list \<Rightarrow> bool" where
  "same_marks s s' as \<longleftrightarrow>
     (\<forall>a\<in>set as. thread (the (nodes s' a)) = thread (the (nodes s a)) \<and>
                 completed (the (nodes s' a)) = completed (the (nodes s a)))"

lemma same_marks_threads: "same_marks s s' as \<Longrightarrow> set bs \<subseteq> set as \<Longrightarrow> threads_of s' bs = threads_of s bs"
  by (auto simp: same_marks_def threads_of_def)

lemma same_marks_done: "same_marks s s' as \<Longrightarrow> set bs \<subseteq> set as \<Longrightarrow> filter (done_in s') bs = filter (done_in s) bs"
  by (rule filter_cong) (auto simp: same_marks_def done_in_def)

lemma same_marks_trans:
  "same_marks s s1 as \<Longrightarrow> same_marks s1 s2 bs \<Longrightarrow> set bs \<subseteq> set as \<Longrightarrow> same_marks s s2 bs"
  by (auto simp: same_marks_def)

section \<open>Adding and marking\<close>

lemma add_thread_spec:
  assumes ok: "list_ok s as" and new: "a \<notin> set as" "t \<notin> set (joined s @ threads_of s as)"
  obtains s' where "add_thread_to_list (Some a) t s = Some (s', Ptr a)" "list_ok s' (a # as)"
    "threads_of s' (a # as) = t # threads_of s as" "joined s' = joined s" "same_marks s s' as"
    "\<not> done_in s' a"
proof -
  let ?h = "(nodes s)(a \<mapsto> \<lparr>thread = t, next_node = thread_list_head s, completed = False\<rparr>)"
  let ?s = "s\<lparr>nodes := ?h, thread_list_head := Ptr a, thread_list_mutex := Free\<rparr>"
  have free: "thread_list_mutex s = Free" using ok by (simp add: list_ok_def)
  have "add_thread_to_list (Some a) t s = Some (?s, Ptr a)"
    by (simp add: add_thread_to_list_def lock_list_def unlock_list_def set_node_def free
        pthread_mutex_lock_def pthread_mutex_unlock_def Let_def)
  moreover have same: "same_marks s ?s as" using new(1) by (auto simp: same_marks_def)
  moreover have "threads_of ?s (a # as) = t # threads_of s as"
    using same_marks_threads [OF same, of as] by (simp add: threads_of_def)
  moreover from this have "list_ok ?s (a # as)"
    using ok new by (auto simp: list_ok_def chain_frame)
  ultimately show ?thesis using that [of ?s] by (simp add: done_in_def)
qed

lemma add_thread_no_memory: "add_thread_to_list None t s = Some (s, NULL)"
  by (simp add: add_thread_to_list_def)

lemma mark_completed_spec:
  assumes ok: "list_ok s as" and a: "a \<in> set as"
  obtains s' where "mark_completed (Ptr a) s = Some s'" "list_ok s' as" "threads_of s' as = threads_of s as"
    "joined s' = joined s"
    "\<forall>b\<in>set as. thread (the (nodes s' b)) = thread (the (nodes s b)) \<and>
                completed (the (nodes s' b)) = (b = a \<or> completed (the (nodes s b)))"
proof -
  from ok a obtain n where n: "nodes s a = Some n" by (auto simp: list_ok_def)
  let ?s = "s\<lparr>nodes := (nodes s)(a \<mapsto> n\<lparr>completed := True\<rparr>)\<rparr>"
  have free: "thread_list_mutex s = Free" using ok by (simp add: list_ok_def)
  have "mark_completed (Ptr a) s = Some ?s"
    using n free by (simp add: mark_completed_def lock_list_def unlock_list_def set_node_def
        pthread_mutex_lock_def pthread_mutex_unlock_def)
  moreover have th: "threads_of ?s as = threads_of s as" using n by (auto simp: threads_of_def)
  moreover have "list_ok ?s as"
    using ok n th a by (auto simp: list_ok_def chain_same_next [where f = "\<lambda>n. n\<lparr>completed := True\<rparr>"])
  moreover have "\<forall>b\<in>set as. thread (the (nodes ?s b)) = thread (the (nodes s b)) \<and>
      completed (the (nodes ?s b)) = (b = a \<or> completed (the (nodes s b)))"
    using n by auto
  ultimately show ?thesis using that [of ?s] by simp
qed

section \<open>Removing the completed nodes\<close>

text \<open>
  The invariant of the walk: \<open>us\<close> are the nodes already kept, the last of which is \<open>prev\<close>,
  and \<open>vs\<close> those from \<open>current\<close> on.
\<close>

definition walking :: "addr list \<Rightarrow> addr cptr \<Rightarrow> addr list \<Rightarrow> addr cptr \<Rightarrow> thread_list \<Rightarrow> bool" where
  "walking us prev vs current s \<longleftrightarrow>
     prev = (if us = [] then NULL else Ptr (last us)) \<and>
     chain (nodes s) (thread_list_head s) us current \<and> chain (nodes s) current vs NULL \<and>
     distinct (us @ vs) \<and> dom (nodes s) = set (us @ vs) \<and> distinct (joined s @ threads_of s (us @ vs))"

lemma unlink_spec:
  assumes w: "walking us prev (a # vs) (Ptr a) s" and n: "nodes s a = Some n"
  obtains s' where "unlink prev (next_node n) s = Some s'" "same_marks s s' (us @ a # vs)"
    "chain (nodes s') (thread_list_head s') us (next_node n)" "chain (nodes s') (next_node n) vs NULL"
    "dom (nodes s') = dom (nodes s)" "joined s' = joined s" "thread_list_mutex s' = thread_list_mutex s"
proof (cases us rule: rev_cases)
  case Nil
  then show ?thesis
    using w n that [of "s\<lparr>thread_list_head := next_node n\<rparr>"]
    by (simp add: walking_def unlink_def same_marks_def)
next
  case (snoc bs b)
  then obtain m where m: "nodes s b = Some m" and bs: "chain (nodes s) (thread_list_head s) bs (Ptr b)"
    and p: "prev = Ptr b" using w by (auto simp: walking_def)
  let ?s = "s\<lparr>nodes := (nodes s)(b \<mapsto> m\<lparr>next_node := next_node n\<rparr>)\<rparr>"
  have fresh: "b \<notin> set bs" "b \<notin> set vs" "b \<noteq> a" using w snoc by (auto simp: walking_def)
  have "unlink prev (next_node n) s = Some ?s" using p m by (simp add: unlink_def set_node_def)
  moreover have "same_marks s ?s (us @ a # vs)" using m by (auto simp: same_marks_def)
  moreover have "chain (nodes ?s) (thread_list_head ?s) us (next_node n)"
    using bs fresh by (simp add: snoc chain_frame)
  moreover have "chain (nodes ?s) (next_node n) vs NULL"
    using w n fresh by (simp add: walking_def chain_frame)
  moreover have "dom (nodes ?s) = dom (nodes s)" using m by auto
  ultimately show ?thesis using that [of ?s] by simp
qed

lemma walking_drop:
  assumes w: "walking us prev (a # vs) (Ptr a) s" and n: "nodes s a = Some n" and c: "completed n"
  obtains s' where
    "do { s \<leftarrow> unlink prev (next_node n) s; s \<leftarrow> pthread_join n s; free_node a s } = Some s'"
    "walking us prev vs (next_node n) s'" "same_marks s s' (us @ vs)"
    "joined s' = joined s @ [thread n]" "thread_list_mutex s' = thread_list_mutex s"
proof -
  from unlink_spec [OF w n] obtain s1 where
    s1: "unlink prev (next_node n) s = Some s1" "same_marks s s1 (us @ a # vs)"
    "chain (nodes s1) (thread_list_head s1) us (next_node n)" "chain (nodes s1) (next_node n) vs NULL"
    "dom (nodes s1) = dom (nodes s)" "joined s1 = joined s" "thread_list_mutex s1 = thread_list_mutex s" .
  let ?s = "s1\<lparr>joined := joined s1 @ [thread n], nodes := (nodes s1)(a := None)\<rparr>"
  have a: "a \<in> dom (nodes s1)" using n s1(5) by auto
  have d: "distinct (us @ a # vs)" "dom (nodes s) = set (us @ a # vs)" "thread n \<notin> set (joined s)"
    "distinct (joined s @ threads_of s (us @ a # vs))" "prev = (if us = [] then NULL else Ptr (last us))"
    using w n by (auto simp: walking_def threads_of_def)
  have run: "do { s \<leftarrow> unlink prev (next_node n) s; s \<leftarrow> pthread_join n s; free_node a s } = Some ?s"
    using s1(1,6) d(3) a c by (auto simp: pthread_join_def free_node_def)
  have same: "same_marks s ?s (us @ vs)" using s1(2) d(1) by (auto simp: same_marks_def)
  have thr: "threads_of ?s (us @ vs) = threads_of s (us @ vs)" by (rule same_marks_threads [OF same]) simp
  have tn: "threads_of s (us @ a # vs) = threads_of s us @ thread n # threads_of s vs"
    "threads_of s (us @ vs) = threads_of s us @ threads_of s vs" using n by (simp_all add: threads_of_def)
  have "walking us prev vs (next_node n) ?s"
    using s1 d thr tn a by (auto simp: walking_def chain_frame)
  with run same s1 show ?thesis using that [of ?s] by simp
qed

lemma remove_loop_spec:
  assumes "walking us prev vs current s"
  shows "\<exists>s'. remove_loop prev current s = Some s' \<and>
    chain (nodes s') (thread_list_head s') (us @ filter (\<lambda>a. \<not> done_in s a) vs) NULL \<and>
    dom (nodes s') = set (us @ filter (\<lambda>a. \<not> done_in s a) vs) \<and>
    joined s' = joined s @ threads_of s (filter (done_in s) vs) \<and>
    thread_list_mutex s' = thread_list_mutex s \<and>
    same_marks s s' (us @ filter (\<lambda>a. \<not> done_in s a) vs)"
  using assms
proof (induction vs arbitrary: us prev current s)
  case Nil
  then show ?case
    by (subst remove_loop.simps) (auto simp: walking_def threads_of_def same_marks_def)
next
  case (Cons a vs)
  from Cons.prems obtain n where n: "nodes s a = Some n" and cur: "current = Ptr a"
    by (auto simp: walking_def)
  show ?case
  proof (cases "completed n")
    case True
    from walking_drop [OF Cons.prems [unfolded cur] n True] obtain s1 where
      s1: "do { s \<leftarrow> unlink prev (next_node n) s; s \<leftarrow> pthread_join n s; free_node a s } = Some s1"
        "walking us prev vs (next_node n) s1" "same_marks s s1 (us @ vs)"
        "joined s1 = joined s @ [thread n]" "thread_list_mutex s1 = thread_list_mutex s" .
    have step: "remove_loop prev current s = remove_loop prev (next_node n) s1"
      using s1(1) by (subst remove_loop.simps) (auto simp: cur n True bind_eq_Some_conv)
    have flt: "filter (done_in s1) vs = filter (done_in s) vs"
      "filter (\<lambda>a. \<not> done_in s1 a) vs = filter (\<lambda>a. \<not> done_in s a) vs"
      using s1(3) by (auto intro!: filter_cong simp: same_marks_def done_in_def)
    have "threads_of s1 (filter (done_in s) vs) = threads_of s (filter (done_in s) vs)"
      by (rule same_marks_threads [OF s1(3)]) auto
    with Cons.IH [OF s1(2)] obtain s' where
      s': "remove_loop prev (next_node n) s1 = Some s'"
        "chain (nodes s') (thread_list_head s') (us @ filter (\<lambda>a. \<not> done_in s a) vs) NULL"
        "dom (nodes s') = set (us @ filter (\<lambda>a. \<not> done_in s a) vs)"
        "joined s' = joined s @ thread n # threads_of s (filter (done_in s) vs)"
        "thread_list_mutex s' = thread_list_mutex s"
        "same_marks s1 s' (us @ filter (\<lambda>a. \<not> done_in s a) vs)"
      unfolding flt s1(4,5) by auto
    have "same_marks s s' (us @ filter (\<lambda>a. \<not> done_in s a) vs)"
      by (rule same_marks_trans [OF s1(3) s'(6)]) auto
    moreover have "done_in s a" by (simp add: done_in_def n True)
    ultimately show ?thesis using s' step n by (auto simp: threads_of_def)
  next
    case False
    have "walking (us @ [a]) (Ptr a) vs (next_node n) s"
      using Cons.prems n by (auto simp: walking_def)
    note loop = Cons.IH [OF this]
    have not_done: "\<not> done_in s a" by (simp add: done_in_def n False)
    from loop show ?thesis
      using not_done by (subst remove_loop.simps) (simp add: cur n False)
  qed
qed

lemma remove_completed_spec:
  assumes ok: "list_ok s as"
  obtains s' where "remove_completed_threads s = Some s'" "list_ok s' (filter (\<lambda>a. \<not> done_in s a) as)"
    "joined s' = joined s @ threads_of s (filter (done_in s) as)"
    "same_marks s s' (filter (\<lambda>a. \<not> done_in s a) as)"
proof -
  let ?k = "filter (\<lambda>a. \<not> done_in s a) as"
  let ?s = "s\<lparr>thread_list_mutex := Held\<rparr>"
  have "walking [] NULL as (thread_list_head ?s) ?s"
    using ok by (simp add: list_ok_def walking_def threads_of_def)
  from remove_loop_spec [OF this] obtain s1 where
    s1: "remove_loop NULL (thread_list_head ?s) ?s = Some s1"
      "chain (nodes s1) (thread_list_head s1) ?k NULL" "dom (nodes s1) = set ?k"
      "joined s1 = joined s @ threads_of s (filter (done_in s) as)" "thread_list_mutex s1 = Held"
      "same_marks s s1 ?k"
    by (auto simp: done_in_def [abs_def] threads_of_def same_marks_def)
  have thr: "threads_of s1 ?k = threads_of s ?k" by (rule same_marks_threads [OF s1(6)]) simp
  have free: "thread_list_mutex s = Free" and d: "distinct as" "distinct (joined s @ threads_of s as)"
    using ok by (simp_all add: list_ok_def)
  have "remove_completed_threads s = Some (s1\<lparr>thread_list_mutex := Free\<rparr>)"
    using s1(1,5) by (simp add: remove_completed_threads_def lock_list_def unlock_list_def free
        pthread_mutex_lock_def pthread_mutex_unlock_def)
  moreover have "distinct ((joined s @ threads_of s (filter (done_in s) as)) @ threads_of s ?k)"
    using d by (auto simp: threads_of_def distinct_map inj_on_def)
  then have "list_ok (s1\<lparr>thread_list_mutex := Free\<rparr>) ?k"
    using s1 thr d(1) by (simp add: list_ok_def)
  ultimately show ?thesis
    using that [of "s1\<lparr>thread_list_mutex := Free\<rparr>"] s1 by (simp add: same_marks_def)
qed

section \<open>Emptying the list\<close>

lemma cleanup_loop_spec:
  assumes "walking [] NULL vs (thread_list_head s) s" and "\<forall>a\<in>set vs. done_in s a"
  shows "\<exists>s'. cleanup_loop s = Some s' \<and> thread_list_head s' = NULL \<and> nodes s' = Map.empty \<and>
    joined s' = joined s @ threads_of s vs \<and> thread_list_mutex s' = thread_list_mutex s"
  using assms
proof (induction vs arbitrary: s)
  case Nil
  then show ?case
    by (subst cleanup_loop.simps) (auto simp: walking_def threads_of_def)
next
  case (Cons a vs)
  from Cons.prems(1) obtain n where n: "nodes s a = Some n" and cur: "thread_list_head s = Ptr a"
    by (auto simp: walking_def)
  have c: "completed n" using Cons.prems(2) n by (simp add: done_in_def)
  from walking_drop [OF Cons.prems(1) [unfolded cur] n c] obtain s1 where
    s1: "do { s \<leftarrow> unlink NULL (next_node n) s; s \<leftarrow> pthread_join n s; free_node a s } = Some s1"
      "walking [] NULL vs (next_node n) s1" "same_marks s s1 ([] @ vs)"
      "joined s1 = joined s @ [thread n]" "thread_list_mutex s1 = thread_list_mutex s" .
  have step: "cleanup_loop s = cleanup_loop s1"
    using s1(1) by (subst cleanup_loop.simps) (auto simp: cur n unlink_def bind_eq_Some_conv)
  have hd: "thread_list_head s1 = next_node n" using s1(2) by (simp add: walking_def)
  have thr: "threads_of s1 vs = threads_of s vs" by (rule same_marks_threads [OF s1(3)]) simp
  have "\<forall>b\<in>set vs. done_in s1 b" using s1(3) Cons.prems(2) by (auto simp: same_marks_def done_in_def)
  with Cons.IH [of s1] s1(2,4,5) hd step n thr show ?case by (auto simp: threads_of_def)
qed

lemma cleanup_loop_stuck:
  assumes "walking [] NULL vs (thread_list_head s) s" and "\<exists>a\<in>set vs. \<not> done_in s a"
  shows "cleanup_loop s = None"
  using assms
proof (induction vs arbitrary: s)
  case (Cons a vs)
  from Cons.prems(1) obtain n where n: "nodes s a = Some n" and cur: "thread_list_head s = Ptr a"
    by (auto simp: walking_def)
  show ?case
  proof (cases "completed n")
    case True
    from walking_drop [OF Cons.prems(1) [unfolded cur] n True] obtain s1 where
      s1: "do { s \<leftarrow> unlink NULL (next_node n) s; s \<leftarrow> pthread_join n s; free_node a s } = Some s1"
        "walking [] NULL vs (next_node n) s1" "same_marks s s1 ([] @ vs)"
        "joined s1 = joined s @ [thread n]" "thread_list_mutex s1 = thread_list_mutex s" .
    have step: "cleanup_loop s = cleanup_loop s1"
      using s1(1) by (subst cleanup_loop.simps) (auto simp: cur n unlink_def bind_eq_Some_conv)
    have "thread_list_head s1 = next_node n" using s1(2) by (simp add: walking_def)
    moreover have "\<exists>b\<in>set vs. \<not> done_in s1 b"
      using s1(3) Cons.prems(2) True n by (auto simp: same_marks_def done_in_def)
    ultimately show ?thesis using Cons.IH [of s1] s1(2) step by simp
  next
    case False
    then show ?thesis by (subst cleanup_loop.simps) (simp add: cur n pthread_join_def)
  qed
qed simp

lemma cleanup_spec:
  assumes ok: "list_ok s as" and all_done: "\<forall>a\<in>set as. done_in s a"
  obtains s' where "cleanup_thread_list s = Some s'" "list_ok s' []"
    "joined s' = joined s @ threads_of s as"
proof -
  let ?s = "s\<lparr>thread_list_mutex := Held\<rparr>"
  have "walking [] NULL as (thread_list_head ?s) ?s"
    using ok by (simp add: list_ok_def walking_def threads_of_def)
  from cleanup_loop_spec [OF this] all_done obtain s1 where
    s1: "cleanup_loop ?s = Some s1" "thread_list_head s1 = NULL" "nodes s1 = Map.empty"
      "joined s1 = joined s @ threads_of s as" "thread_list_mutex s1 = Held"
    by (auto simp: threads_of_def)
  have "cleanup_thread_list s = Some (s1\<lparr>thread_list_mutex := Free\<rparr>)"
    using s1(1,5) ok by (simp add: cleanup_thread_list_def lock_list_def unlock_list_def list_ok_def
        pthread_mutex_lock_def pthread_mutex_unlock_def)
  moreover have "list_ok (s1\<lparr>thread_list_mutex := Free\<rparr>) []"
    using s1 ok by (simp add: list_ok_def threads_of_def)
  ultimately show ?thesis using that s1(4) by simp
qed

lemma cleanup_stuck:
  assumes ok: "list_ok s as" and "\<exists>a\<in>set as. \<not> done_in s a"
  shows "cleanup_thread_list s = None"
proof -
  let ?s = "s\<lparr>thread_list_mutex := Held\<rparr>"
  have "walking [] NULL as (thread_list_head ?s) ?s"
    using ok by (simp add: list_ok_def walking_def threads_of_def)
  from cleanup_loop_stuck [OF this] assms(2) have "cleanup_loop ?s = None" by simp
  then show ?thesis
    using ok by (simp add: cleanup_thread_list_def lock_list_def list_ok_def pthread_mutex_lock_def)
qed

section \<open>The list as the abstract list of clients\<close>

text \<open>A client: its node, its thread, and whether it has ended.\<close>

type_synonym client = "addr \<times> nat \<times> bool"

definition client_of :: "thread_list \<Rightarrow> addr \<Rightarrow> client" where
  "client_of s a = (a, thread (the (nodes s a)), completed (the (nodes s a)))"

definition clients_are :: "thread_list \<Rightarrow> client list \<Rightarrow> bool" where
  "clients_are s cs \<longleftrightarrow> (\<exists>as. list_ok s as \<and> cs = map (client_of s) as)"

lemma clients_are_I: "list_ok s as \<Longrightarrow> cs = map (client_of s) as \<Longrightarrow> clients_are s cs"
  by (auto simp: clients_are_def)

datatype list_op = Add "addr option" nat | Mark "addr cptr" | Reap | Clean_up

definition run_list_op :: "thread_list \<Rightarrow> list_op \<Rightarrow> thread_list option" where
  "run_list_op s p =
     (case p of
        Add c t \<Rightarrow> map_option fst (add_thread_to_list c t s)
      | Mark a \<Rightarrow> mark_completed a s
      | Reap \<Rightarrow> remove_completed_threads s
      | Clean_up \<Rightarrow> cleanup_thread_list s)"

text \<open>
  The same on the abstract list, with the threads that were joined. Cleaning up while a
  client has not ended never returns.
\<close>

definition ended :: "client \<Rightarrow> bool" where
  "ended c = snd (snd c)"

definition list_op :: "client list \<times> nat list \<Rightarrow> list_op \<Rightarrow> (client list \<times> nat list) option" where
  "list_op st p =
     (let (cs, j) = st in
      case p of
        Add None t \<Rightarrow> Some (cs, j)
      | Add (Some a) t \<Rightarrow> Some ((a, t, False) # cs, j)
      | Mark NULL \<Rightarrow> Some (cs, j)
      | Mark (Ptr a) \<Rightarrow> Some (map (\<lambda>c. if fst c = a then (a, fst (snd c), True) else c) cs, j)
      | Reap \<Rightarrow> Some (filter (\<lambda>c. \<not> ended c) cs, j @ map (\<lambda>c. fst (snd c)) (filter ended cs))
      | Clean_up \<Rightarrow> if list_all ended cs then Some ([], j @ map (\<lambda>c. fst (snd c)) cs) else None)"

text \<open>
  What the system and the threads keep to: \<open>malloc\<close> returns a node that is not in use, a new
  thread is a new one, and a client marks a node of the list, its own.
\<close>

fun list_op_ok :: "client list \<times> nat list \<Rightarrow> list_op \<Rightarrow> bool" where
  "list_op_ok (cs, j) (Add (Some a) t) \<longleftrightarrow> a \<notin> fst ` set cs \<and> t \<notin> set j \<union> (\<lambda>c. fst (snd c)) ` set cs"
| "list_op_ok (cs, j) (Mark (Ptr a)) \<longleftrightarrow> a \<in> fst ` set cs"
| "list_op_ok (cs, j) p \<longleftrightarrow> True"

fun list_ops_ok :: "client list \<times> nat list \<Rightarrow> list_op list \<Rightarrow> bool" where
  "list_ops_ok st [] = True"
| "list_ops_ok st (p # ps) \<longleftrightarrow>
     list_op_ok st p \<and> (case list_op st p of None \<Rightarrow> True | Some st' \<Rightarrow> list_ops_ok st' ps)"

lemma client_of_simps [simp]:
  "fst (client_of s a) = a" "fst (snd (client_of s a)) = thread (the (nodes s a))"
  "ended (client_of s a) = done_in s a"
  by (simp_all add: client_of_def ended_def done_in_def)

lemma clients_threads: "map (\<lambda>c. fst (snd c)) (map (client_of s) as) = threads_of s as"
  by (simp add: threads_of_def)

lemma clients_filter:
  "filter ended (map (client_of s) as) = map (client_of s) (filter (done_in s) as)"
  "filter (\<lambda>c. \<not> ended c) (map (client_of s) as) = map (client_of s) (filter (\<lambda>a. \<not> done_in s a) as)"
  by (simp_all add: filter_map o_def)

lemma clients_same: "same_marks s s' as \<Longrightarrow> map (client_of s') as = map (client_of s) as"
  by (auto simp: same_marks_def client_of_def)

lemma list_op_refined:
  assumes cl: "clients_are s cs" and ok: "list_op_ok (cs, joined s) p"
  shows "case list_op (cs, joined s) p of
      None \<Rightarrow> run_list_op s p = None
    | Some (cs', j') \<Rightarrow> \<exists>s'. run_list_op s p = Some s' \<and> clients_are s' cs' \<and> joined s' = j'"
proof -
  from cl obtain as where as: "list_ok s as" and cs: "cs = map (client_of s) as"
    by (auto simp: clients_are_def)
  show ?thesis
  proof (cases p)
    case (Add c t)
    show ?thesis
    proof (cases c)
      case None
      then show ?thesis using cl Add by (simp add: list_op_def run_list_op_def add_thread_no_memory)
    next
      case (Some a)
      have "a \<notin> set as" "t \<notin> set (joined s @ threads_of s as)"
        using ok by (auto simp: Add Some cs threads_of_def image_image)
      from add_thread_spec [OF as this] obtain s' where
        s': "add_thread_to_list (Some a) t s = Some (s', Ptr a)" "list_ok s' (a # as)"
          "threads_of s' (a # as) = t # threads_of s as" "joined s' = joined s" "same_marks s s' as"
          "\<not> done_in s' a" .
      have "(a, t, False) # cs = map (client_of s') (a # as)"
        using s'(3,6) clients_same [OF s'(5)] by (simp add: cs client_of_def threads_of_def done_in_def)
      from clients_are_I [OF s'(2) this] s'(1,4) show ?thesis
        by (simp add: Add Some list_op_def run_list_op_def)
    qed
  next
    case (Mark q)
    show ?thesis
    proof (cases q)
      case NULL
      then show ?thesis using cl Mark by (simp add: list_op_def run_list_op_def mark_completed_def)
    next
      case (Ptr a)
      have "a \<in> set as" using ok by (auto simp: Mark Ptr cs image_image)
      from mark_completed_spec [OF as this] obtain s' where
        s': "mark_completed (Ptr a) s = Some s'" "list_ok s' as" "joined s' = joined s"
          "\<forall>b\<in>set as. thread (the (nodes s' b)) = thread (the (nodes s b)) \<and>
             completed (the (nodes s' b)) = (b = a \<or> completed (the (nodes s b)))" .
      have "map (\<lambda>c. if fst c = a then (a, fst (snd c), True) else c) cs = map (client_of s') as"
        using s'(4) by (auto simp: cs client_of_def)
      from clients_are_I [OF s'(2) this] s'(1,3) show ?thesis
        by (simp add: Mark Ptr list_op_def run_list_op_def)
    qed
  next
    case Reap
    from remove_completed_spec [OF as] obtain s' where
      s': "remove_completed_threads s = Some s'" "list_ok s' (filter (\<lambda>a. \<not> done_in s a) as)"
        "joined s' = joined s @ threads_of s (filter (done_in s) as)"
        "same_marks s s' (filter (\<lambda>a. \<not> done_in s a) as)" .
    have "clients_are s' (filter (\<lambda>c. \<not> ended c) cs)"
      by (rule clients_are_I [OF s'(2)]) (simp only: cs clients_filter clients_same [OF s'(4)])
    moreover have "j = joined s @ map (\<lambda>c. fst (snd c)) (filter ended cs) \<Longrightarrow> joined s' = j" for j
      by (simp only: s'(3) cs clients_filter clients_threads)
    ultimately show ?thesis using s'(1) by (simp add: Reap list_op_def run_list_op_def)
  next
    case Clean_up
    show ?thesis
    proof (cases "\<forall>a\<in>set as. done_in s a")
      case True
      from cleanup_spec [OF as this] obtain s' where
        s': "cleanup_thread_list s = Some s'" "list_ok s' []" "joined s' = joined s @ threads_of s as" .
      have "list_all ended cs" using True by (simp add: cs list_all_iff)
      moreover have "clients_are s' []" by (rule clients_are_I [OF s'(2)]) simp
      moreover have "j = joined s @ map (\<lambda>c. fst (snd c)) cs \<Longrightarrow> joined s' = j" for j
        by (simp only: s'(3) cs clients_threads)
      ultimately show ?thesis using s'(1) by (simp add: Clean_up list_op_def run_list_op_def)
    next
      case False
      then have "\<exists>a\<in>set as. \<not> done_in s a" "\<not> list_all ended cs" by (auto simp: cs list_all_iff)
      then show ?thesis
        using cleanup_stuck [OF as] by (simp add: Clean_up list_op_def run_list_op_def)
    qed
  qed
qed

lemma list_ops_refined:
  assumes "clients_are s cs" and "list_ops_ok (cs, joined s) ps"
  shows "case foldM list_op (cs, joined s) ps of
      None \<Rightarrow> foldM run_list_op s ps = None
    | Some (cs', j') \<Rightarrow> \<exists>s'. foldM run_list_op s ps = Some s' \<and> clients_are s' cs' \<and> joined s' = j'"
  using assms
proof (induction ps arbitrary: s cs)
  case (Cons p ps)
  from Cons.prems have ok: "list_op_ok (cs, joined s) p" by simp
  note step = list_op_refined [OF Cons.prems(1) ok]
  show ?case
  proof (cases "list_op (cs, joined s) p")
    case None
    then show ?thesis using step by simp
  next
    case (Some st)
    obtain cs' j' where st: "st = (cs', j')" by force
    from step obtain s' where s': "run_list_op s p = Some s'" "clients_are s' cs'" "joined s' = j'"
      by (auto simp: Some st)
    have "list_ops_ok (cs', joined s') ps" using Cons.prems(2) s'(3) by (simp add: Some st)
    note rest = Cons.IH [OF s'(2) this, unfolded s'(3)]
    have "foldM run_list_op s (p # ps) = foldM run_list_op s' ps"
      "foldM list_op (cs, joined s) (p # ps) = foldM list_op (cs', j') ps"
      by (simp_all add: s' Some st)
    with rest show ?thesis by (simp only:)
  qed
qed simp

text \<open>The list at the start of the program.\<close>

definition no_threads :: thread_list where
  "no_threads = \<lparr>nodes = Map.empty, thread_list_head = NULL, thread_list_mutex = Free, joined = []\<rparr>"

lemma no_threads_clients: "clients_are no_threads []" "joined no_threads = []"
  by (auto intro!: clients_are_I [of _ "[]"] simp: no_threads_def list_ok_def threads_of_def)

end
