(* ===== verification/Socket_Ops.thy ===== *)
theory Socket_Ops
  imports Driver_World Thread_List
begin

text \<open>
  The system calls of the server and its loops over them
  (\<open>server/aesdsocket_app/src/socket_ops.c\<close>): \<open>write_all\<close> and \<open>read_all\<close>, which repeat a call
  until all bytes are through, and \<open>setup_server_socket\<close>. The writes go to the connection of a
  client or to the device, whose driver is the one of \<open>Driver_World\<close>; what \<open>write_all\<close> relies on
  is the interface \<open>sink\<close>, which both provide.
\<close>

section \<open>The process and its surroundings\<close>

text \<open>
  What the network, the kernel and the C library decide: the choices of the kernel in the call
  at a time, the descriptor that \<open>open\<close> gives, how many bytes a write to the connection takes,
  whether \<open>pthread_mutex_lock\<close> reports an error, and what \<open>sscanf\<close> stores for a number that is out of range (the C standard leaves it open).
\<close>

record surroundings =
  choices :: "nat \<Rightarrow> kernel \<Rightarrow> size_t \<Rightarrow> op_env"
  opens :: "nat \<Rightarrow> errno + nat"
  accepts :: "nat \<Rightarrow> errno + size_t"
  lock_fails :: "nat \<Rightarrow> bool"
  oversized :: "int \<Rightarrow> u32"

text \<open>
  Two of these answers do not only come back as an error. A call is interrupted when its thread takes a signal, and
  then \<open>signal_handler\<close> has run in that thread; a client thread makes its calls on the device, on the file and on the
  connection, but for \<open>recv\<close>, while it holds \<open>file_mutex\<close>, which the handler destroys, so that no such run is
  defined (\<open>handler_in_holder\<close> in \<open>Server\<close>). A write to a connection whose peer has closed it raises \<open>SIGPIPE\<close>, which
  the program neither handles nor ignores: the process is killed. Such a call has the value \<open>None\<close> in the model.
\<close>

definition ends_process :: "errno \<Rightarrow> bool" where
  "ends_process err \<longleftrightarrow> err = EINTR \<or> err = EPIPE"

text \<open>What \<open>recv\<close> reports; interruptions are not among it, for they come with the handler.\<close>

datatype conn_errno = ECONNRESET | ETIMEDOUT | ENOTCONN | ECONN nat

text \<open>
  A client thread with what it shares: the kernel, \<open>file_mutex\<close>, the list of threads; its
  connection, with what has yet to arrive (an element is an error of \<open>recv\<close>, or bytes) and what
  was sent; and the time, which counts the calls.
\<close>

record session =
  machine :: world
  file_mutex :: pmutex
  threads :: thread_list
  connected :: bool
  incoming :: "(conn_errno + byte list) list"
  outgoing :: "byte list"
  clock :: nat

definition tick :: "'z session_scheme \<Rightarrow> 'z session_scheme" where
  "tick s = s\<lparr>clock := Suc (clock s)\<rparr>"

text \<open>
  A call on the device. The driver gives \<open>ERESTARTSYS\<close> only for a call that a signal has interrupted.
\<close>

definition dev_call ::
  "surroundings \<Rightarrow> size_t \<Rightarrow> (op_env \<Rightarrow> syscall) \<Rightarrow> session \<Rightarrow> (session \<times> byte list \<times> (errno + size_t)) option" where
  "dev_call E n c s =
     (case run_sys (c (choices E (clock s) (kern (machine s)) n)) (machine s) of
        None \<Rightarrow> None
      | Some (w, out, r) \<Rightarrow> if r = Inl ERESTARTSYS then None else Some (tick (s\<lparr>machine := w\<rparr>), out, r))"

definition dev_write :: "surroundings \<Rightarrow> nat \<Rightarrow> session \<Rightarrow> byte list \<Rightarrow> size_t \<Rightarrow> (session \<times> (errno + size_t)) option" where
  "dev_write E fd s buf n = map_option (\<lambda>(s, out, r). (s, r)) (dev_call E n (\<lambda>e. Sys_write fd e buf n) s)"

definition dev_read :: "surroundings \<Rightarrow> nat \<Rightarrow> session \<Rightarrow> nat \<Rightarrow> size_t \<Rightarrow> (session \<times> byte list \<times> (errno + size_t)) option" where
  "dev_read E fd s room n = dev_call E n (\<lambda>e. Sys_read fd e room n) s"

text \<open>A write to the connection of the client.\<close>

definition sock_write ::
  "surroundings \<Rightarrow> 'z session_scheme \<Rightarrow> byte list \<Rightarrow> size_t \<Rightarrow> ('z session_scheme \<times> (errno + size_t)) option" where
  "sock_write E s buf n =
     (case accepts E (clock s) of
        Inl err \<Rightarrow> if ends_process err then None else Some (tick s, Inl err)
      | Inr m \<Rightarrow>
          (let k = min m n in
           if unat k \<le> length buf
           then Some (tick (s\<lparr>outgoing := outgoing s @ take (unat k) buf\<rparr>), Inr k) else None))"

section \<open>The loops\<close>

partial_function (option) write_all_loop ::
  "('s \<Rightarrow> byte list \<Rightarrow> size_t \<Rightarrow> ('s \<times> (errno + size_t)) option) \<Rightarrow>
   's \<Rightarrow> byte list \<Rightarrow> size_t \<Rightarrow> size_t \<Rightarrow> ('s \<times> (errno + size_t)) option" where
  "write_all_loop write s buf cnt bytes_written =
     (if bytes_written < cnt
      then do {
        (s, ret) \<leftarrow> write s (drop (unat bytes_written) buf) (cnt - bytes_written);
        (case ret of
           Inl err \<Rightarrow>
             if err = EINTR then write_all_loop write s buf cnt bytes_written else Some (s, Inl err)
         | Inr n \<Rightarrow>
             if n = 0 then Some (s, Inr bytes_written)
             else write_all_loop write s buf cnt (bytes_written + n))
      }
      else Some (s, Inr bytes_written))"

definition write_all ::
  "('s \<Rightarrow> byte list \<Rightarrow> size_t \<Rightarrow> ('s \<times> (errno + size_t)) option) \<Rightarrow>
   's \<Rightarrow> byte list \<Rightarrow> size_t \<Rightarrow> ('s \<times> (errno + size_t)) option" where
  "write_all write s buf cnt = write_all_loop write s buf cnt 0"

text \<open>\<open>read\<close> answers with the bytes it stored; \<open>buf\<close> are the bytes stored so far.\<close>

partial_function (option) read_all_loop ::
  "('s \<Rightarrow> size_t \<Rightarrow> ('s \<times> byte list \<times> (errno + size_t)) option) \<Rightarrow>
   's \<Rightarrow> byte list \<Rightarrow> size_t \<Rightarrow> size_t \<Rightarrow> ('s \<times> byte list \<times> (errno + size_t)) option" where
  "read_all_loop read s buf cnt bytes_read =
     (if bytes_read < cnt
      then do {
        (s, out, ret) \<leftarrow> read s (cnt - bytes_read);
        (case ret of
           Inl err \<Rightarrow>
             if err = EINTR then read_all_loop read s buf cnt bytes_read else Some (s, buf, Inl err)
         | Inr n \<Rightarrow>
             if n = 0 then Some (s, buf, Inr bytes_read)
             else read_all_loop read s (buf @ out) cnt (bytes_read + n))
      }
      else Some (s, buf, Inr bytes_read))"

definition read_all ::
  "('s \<Rightarrow> size_t \<Rightarrow> ('s \<times> byte list \<times> (errno + size_t)) option) \<Rightarrow>
   's \<Rightarrow> size_t \<Rightarrow> ('s \<times> byte list \<times> (errno + size_t)) option" where
  "read_all read s cnt = read_all_loop read s [] cnt 0"

section \<open>The interface of a sink\<close>

text \<open>
  \<open>put\<close> takes some of the bytes, and \<open>grow\<close> is what the pieces it takes do to the contents. It is
  interrupted only finitely often in a row: \<open>delay\<close> bounds how often. A loop over it gives up
  when it fails for another reason or takes nothing.
\<close>

definition gave_up ::
  "('s \<Rightarrow> byte list \<Rightarrow> size_t \<Rightarrow> ('s \<times> (errno + size_t)) option) \<Rightarrow> ('s \<Rightarrow> bool) \<Rightarrow> errno + size_t \<Rightarrow> bool" where
  "gave_up put ready r \<longleftrightarrow>
     (\<exists>s n buf s' ret. ready s \<and> n \<noteq> 0 \<and> unat n \<le> length buf \<and> put s buf n = Some (s', ret) \<and>
        (case ret of Inl err \<Rightarrow> err \<noteq> EINTR \<and> r = Inl err | Inr m \<Rightarrow> m = 0))"

lemma gave_up_I:
  "ready s \<Longrightarrow> n \<noteq> 0 \<Longrightarrow> unat n \<le> length buf \<Longrightarrow> put s buf n = Some (s', ret) \<Longrightarrow>
   (\<And>err. ret = Inl err \<Longrightarrow> err \<noteq> EINTR \<and> r = Inl err) \<Longrightarrow> (\<And>m. ret = Inr m \<Longrightarrow> m = 0) \<Longrightarrow> gave_up put ready r"
  unfolding gave_up_def by (cases ret) force+

locale sink =
  fixes put :: "'s \<Rightarrow> byte list \<Rightarrow> size_t \<Rightarrow> ('s \<times> (errno + size_t)) option"
    and ready :: "'s \<Rightarrow> bool"
    and view :: "'s \<Rightarrow> 'v"
    and grow :: "'v \<Rightarrow> byte list \<Rightarrow> 'v"
    and delay :: "'s \<Rightarrow> nat"
  assumes put_returns: "ready s \<Longrightarrow> n \<noteq> 0 \<Longrightarrow> unat n \<le> length buf \<Longrightarrow> \<exists>s' r. put s buf n = Some (s', r) \<and> ready s'"
    and put_takes: "ready s \<Longrightarrow> n \<noteq> 0 \<Longrightarrow> unat n \<le> length buf \<Longrightarrow> put s buf n = Some (s', Inr m) \<Longrightarrow>
      unat m \<le> unat n \<and> (m \<noteq> 0 \<longrightarrow> view s' = grow (view s) (take (unat m) buf)) \<and> (m = 0 \<longrightarrow> view s' = view s)"
    and put_fails: "ready s \<Longrightarrow> n \<noteq> 0 \<Longrightarrow> unat n \<le> length buf \<Longrightarrow> put s buf n = Some (s', Inl err) \<Longrightarrow>
      view s' = view s"
    and put_waits: "ready s \<Longrightarrow> n \<noteq> 0 \<Longrightarrow> unat n \<le> length buf \<Longrightarrow> put s buf n = Some (s', Inl EINTR) \<Longrightarrow>
      delay s' < delay s"
begin

text \<open>
  \<open>write_all\<close> returns. It has passed on a beginning of the buffer, in some pieces, and says how
  long it is unless it fails.
\<close>

lemma write_all_loop_spec:
  assumes "ready s" "unat written \<le> unat cnt" "unat cnt \<le> length buf"
  shows "\<exists>s' r ps. write_all_loop put s buf cnt written = Some (s', r) \<and> ready s' \<and>
    (r = Inr cnt \<or> gave_up put ready r) \<and>
    view s' = foldl grow (view s) ps \<and>
    prefix (concat ps) (take (unat cnt - unat written) (drop (unat written) buf)) \<and>
    (case r of Inl err \<Rightarrow> err \<noteq> EINTR | Inr n \<Rightarrow> unat n = unat written + length (concat ps))"
  using assms
proof (induction "(unat cnt - unat written, delay s)" arbitrary: s written rule: wf_induct_rule [OF wf_lex_prod [OF wf_less_than wf_less_than]])
  case 1
  show ?case
  proof (cases "written < cnt")
    case False
    then show ?thesis
      by (subst write_all_loop.simps)
         (use "1.prems" in \<open>auto simp: word_less_nat_alt intro!: exI [of _ "[]"] word_unat_eq_iff [THEN iffD2]\<close>)
  next
    case True
    let ?rest = "drop (unat written) buf"
    have sub: "unat (cnt - written) = unat cnt - unat written"
      using True by (simp add: unat_sub_if' word_less_nat_alt)
    have lt: "unat written < unat cnt" using True by (simp add: word_less_nat_alt)
    then have pos: "0 < unat (cnt - written)" unfolding sub by linarith
    have args: "cnt - written \<noteq> 0" "unat (cnt - written) \<le> length ?rest"
    proof -
      show "cnt - written \<noteq> 0" using pos by auto
      show "unat (cnt - written) \<le> length ?rest" using "1.prems"(3) by (simp add: sub)
    qed
    note here = "1.prems"(1) args
    from put_returns [OF here] obtain s1 ret where
      put: "put s ?rest (cnt - written) = Some (s1, ret)" and ready: "ready s1" by blast
    show ?thesis
    proof (cases ret)
      case (Inl err)
      note view = put_fails [OF here put [unfolded Inl]]
      show ?thesis
      proof (cases "err = EINTR")
        case True
        then have "delay s1 < delay s" using put_waits [OF here] put Inl by simp
        then have "((unat cnt - unat written, delay s1), (unat cnt - unat written, delay s))
            \<in> less_than <*lex*> less_than" by simp
        from "1.hyps" [OF this ready "1.prems"(2,3)] show ?thesis
          by (subst write_all_loop.simps) (use lt in \<open>simp add: word_less_nat_alt put Inl True view\<close>)
      next
        case False
        have "gave_up put ready (Inl err)" by (rule gave_up_I [where put = put and ready = ready, OF here put]) (use Inl False in auto)
        then show ?thesis
          by (subst write_all_loop.simps)
             (use lt ready False in \<open>auto simp: word_less_nat_alt put Inl view intro!: exI [of _ "[]"]\<close>)
      qed
    next
      case (Inr n)
      note taken = put_takes [OF here put [unfolded Inr]]
      show ?thesis
      proof (cases "n = 0")
        case True
        have "gave_up put ready (Inr written)" by (rule gave_up_I [where put = put and ready = ready, OF here put]) (use Inr True in auto)
        then show ?thesis
          by (subst write_all_loop.simps)
             (use lt ready taken True in \<open>auto simp: word_less_nat_alt put Inr intro!: exI [of _ "[]"]\<close>)
      next
        case False
        have le: "unat written + unat n \<le> unat cnt" using taken lt unfolding sub by linarith
        have w: "unat (written + n) = unat written + unat n"
          by (rule unat_add_size_t) (use le unat_less_2_64 [of cnt] in linarith)
        have "0 < unat n" using False by (simp add: unat_gt_0)
        then have "unat cnt - unat (written + n) < unat cnt - unat written"
          unfolding w using lt by linarith
        then have "((unat cnt - unat (written + n), delay s1), (unat cnt - unat written, delay s))
            \<in> less_than <*lex*> less_than" by simp
        from "1.hyps" [OF this ready _ "1.prems"(3)] le obtain s' r ps where
          ih: "write_all_loop put s1 buf cnt (written + n) = Some (s', r)" "ready s'" "r = Inr cnt \<or> gave_up put ready r"
            "view s' = foldl grow (view s1) ps"
            "prefix (concat ps) (take (unat cnt - unat (written + n)) (drop (unat (written + n)) buf))"
            "case r of Inl err \<Rightarrow> err \<noteq> EINTR | Inr m \<Rightarrow> unat m = unat (written + n) + length (concat ps)"
          by (auto simp: w)
        let ?p = "take (unat n) ?rest"
        have len: "length ?p = unat n" using taken args(2) by simp
        have "take (unat cnt - unat written) ?rest =
            ?p @ take (unat cnt - unat (written + n)) (drop (unat (written + n)) buf)"
        proof -
          have "unat cnt - unat written = unat n + (unat cnt - (unat written + unat n))" using le by linarith
          then show ?thesis by (simp only: take_add drop_drop w add.commute [of "unat n" "unat written"])
        qed
        then have "prefix (concat (?p # ps)) (take (unat cnt - unat written) ?rest)"
          using ih(5) by simp
        moreover have "case r of Inl err \<Rightarrow> err \<noteq> EINTR | Inr m \<Rightarrow> unat m = unat written + length (concat (?p # ps))"
          using ih(6) len by (cases r) (simp_all add: w)
        moreover have "view s' = foldl grow (view s) (?p # ps)" using ih(4) taken False by simp
        moreover have "write_all_loop put s buf cnt written = Some (s', r)"
          by (subst write_all_loop.simps) (use lt False in \<open>simp add: word_less_nat_alt put Inr ih(1)\<close>)
        ultimately show ?thesis using ih(2,3) by blast
      qed
    qed
  qed
qed

lemma write_all_spec:
  assumes "ready s" "unat cnt \<le> length buf"
  obtains s' r ps where "write_all put s buf cnt = Some (s', r)" "ready s'" "r = Inr cnt \<or> gave_up put ready r"
    "view s' = foldl grow (view s) ps" "prefix (concat ps) (take (unat cnt) buf)"
    "case r of Inl err \<Rightarrow> err \<noteq> EINTR | Inr n \<Rightarrow> unat n = length (concat ps)"
  using write_all_loop_spec [OF assms(1) _ assms(2), of 0, unfolded unat_0 add_0 diff_zero drop_0] that
  unfolding write_all_def by blast

text \<open>When it says that it wrote all, the pieces make up the buffer.\<close>

lemma write_all_pieces:
  assumes "ready s" and n: "unat cnt \<le> length buf"
  obtains s' r ps where "write_all put s buf cnt = Some (s', r)" "ready s'" "view s' = foldl grow (view s) ps"
    "prefix (concat ps) (take (unat cnt) buf)" "r = Inr cnt \<Longrightarrow> concat ps = take (unat cnt) buf"
    "r = Inr cnt \<or> gave_up put ready r"
proof -
  from write_all_spec [OF assms] obtain s' r ps where
    w: "write_all put s buf cnt = Some (s', r)" "ready s'" "r = Inr cnt \<or> gave_up put ready r"
      "view s' = foldl grow (view s) ps" "prefix (concat ps) (take (unat cnt) buf)"
      "case r of Inl err \<Rightarrow> err \<noteq> EINTR | Inr m \<Rightarrow> unat m = length (concat ps)" by blast
  obtain zs where zs: "take (unat cnt) buf = concat ps @ zs" using w(5) by (auto simp: prefix_def)
  have "length (take (unat cnt) buf) = length (concat ps) + length zs" unfolding zs by simp
  then have "r = Inr cnt \<Longrightarrow> zs = []" using w(6) n by simp
  then have "r = Inr cnt \<Longrightarrow> concat ps = take (unat cnt) buf" using zs by simp
  with that w show ?thesis by blast
qed

end

text \<open>A sink that takes everything or nothing, as the device does.\<close>

locale whole_sink = sink +
  assumes put_whole: "ready s \<Longrightarrow> n \<noteq> 0 \<Longrightarrow> unat n \<le> length buf \<Longrightarrow> put s buf n = Some (s', Inr m) \<Longrightarrow> m = n"
begin

lemma write_all_whole:
  assumes "ready s" "cnt \<noteq> 0" "unat cnt \<le> length buf"
  shows "\<exists>s' r. write_all put s buf cnt = Some (s', r) \<and> ready s' \<and> (r = Inr cnt \<or> gave_up put ready r) \<and>
    view s' = (if r = Inr cnt then grow (view s) (take (unat cnt) buf) else view s)"
  using assms
proof (induction "delay s" arbitrary: s rule: less_induct)
  case less
  note here = less.prems
  from put_returns [OF here] obtain s1 ret where put: "put s buf cnt = Some (s1, ret)" and ready: "ready s1" by blast
  have pos: "0 < cnt" using here(2) by (simp add: word_gt_0)
  show ?case
  proof (cases ret)
    case (Inl err)
    note view = put_fails [OF here put [unfolded Inl]]
    show ?thesis
    proof (cases "err = EINTR")
      case True
      have "delay s1 < delay s" using put_waits [OF here] put Inl True by simp
      from less.hyps [OF this ready here(2,3)] obtain s' r where
        ih: "write_all put s1 buf cnt = Some (s', r)" "ready s'" "r = Inr cnt \<or> gave_up put ready r"
          "view s' = (if r = Inr cnt then grow (view s1) (take (unat cnt) buf) else view s1)" by blast
      have "write_all put s buf cnt = write_all put s1 buf cnt"
        by (subst (1) write_all_def, subst write_all_loop.simps)
           (use pos in \<open>simp add: put Inl True write_all_def\<close>)
      with ih show ?thesis unfolding view by auto
    next
      case False
      have "gave_up put ready (Inl err)" by (rule gave_up_I [where put = put and ready = ready, OF here put]) (use Inl False in auto)
      then show ?thesis
        by (subst write_all_def, subst write_all_loop.simps)
           (use pos ready False in \<open>simp add: put Inl view\<close>)
    qed
  next
    case (Inr m)
    have "m = cnt" by (rule put_whole [OF here put [unfolded Inr]])
    moreover have "write_all_loop put s1 buf cnt cnt = Some (s1, Inr cnt)" by (subst write_all_loop.simps) simp
    ultimately show ?thesis
      by (subst write_all_def, subst write_all_loop.simps)
         (use pos ready here(2) put_takes [OF here put [unfolded Inr]] in \<open>simp add: put Inr\<close>)
  qed
qed

text \<open>A call that fails only by interruption, with \<open>able\<close> an invariant of the interrupted calls.\<close>

lemma write_all_able:
  assumes "able s" "cnt \<noteq> 0" "unat cnt \<le> length buf" "\<And>s. able s \<Longrightarrow> ready s"
    and "\<And>s s' r. able s \<Longrightarrow> put s buf cnt = Some (s', r) \<Longrightarrow> r = Inr cnt \<or> r = Inl EINTR \<and> able s'"
  shows "\<exists>s'. write_all put s buf cnt = Some (s', Inr cnt) \<and> ready s' \<and> view s' = grow (view s) (take (unat cnt) buf)"
  using assms(1)
proof (induction "delay s" arbitrary: s rule: less_induct)
  case less
  note here = assms(4) [OF less.prems] assms(2,3)
  from put_returns [OF here] obtain s1 ret where put: "put s buf cnt = Some (s1, ret)" and ready: "ready s1" by blast
  have pos: "0 < cnt" using assms(2) by (simp add: word_gt_0)
  from assms(5) [OF less.prems put] show ?case
  proof
    assume "ret = Inr cnt"
    moreover have "write_all_loop put s1 buf cnt cnt = Some (s1, Inr cnt)" by (subst write_all_loop.simps) simp
    ultimately show ?thesis
      by (subst write_all_def, subst write_all_loop.simps)
         (use pos ready assms(2) put_takes [OF here] put in \<open>simp add: put\<close>)
  next
    assume intr: "ret = Inl EINTR \<and> able s1"
    then have "delay s1 < delay s" using put_waits [OF here] put by simp
    from less.hyps [OF this] intr obtain s' where
      ih: "write_all put s1 buf cnt = Some (s', Inr cnt)" "ready s'"
        "view s' = grow (view s1) (take (unat cnt) buf)" by blast
    have "view s1 = view s" by (rule put_fails [OF here, of s1 EINTR]) (use put intr in simp)
    moreover have "write_all put s buf cnt = write_all put s1 buf cnt"
      by (subst (1) write_all_def, subst write_all_loop.simps)
         (use pos intr in \<open>simp add: put write_all_def\<close>)
    ultimately show ?thesis using ih by simp
  qed
qed

end

text \<open>A sink that never fails but for interruptions, and takes something at every call.\<close>

locale steady_sink = sink +
  assumes put_steady: "ready s \<Longrightarrow> n \<noteq> 0 \<Longrightarrow> unat n \<le> length buf \<Longrightarrow> put s buf n = Some (s', r) \<Longrightarrow>
      r = Inl EINTR \<or> (\<exists>m. r = Inr m \<and> m \<noteq> 0)"
begin

lemma never_gives_up: "\<not> gave_up put ready r"
  unfolding gave_up_def using put_steady by fastforce

lemma write_all_complete:
  assumes "ready s" "unat cnt \<le> length buf"
  obtains s' ps where "write_all put s buf cnt = Some (s', Inr cnt)" "ready s'"
    "view s' = foldl grow (view s) ps" "concat ps = take (unat cnt) buf"
proof -
  from write_all_pieces [OF assms] obtain s' r ps where
    w: "write_all put s buf cnt = Some (s', r)" "ready s'" "view s' = foldl grow (view s) ps"
      "r = Inr cnt \<Longrightarrow> concat ps = take (unat cnt) buf" "r = Inr cnt \<or> gave_up put ready r" by blast
  have "r = Inr cnt" using w(5) never_gives_up by blast
  then show ?thesis using that w by blast
qed

end

section \<open>The connection and the device as sinks\<close>

text \<open>
  No client thread takes a signal and no peer closes its connection while it is written to; the kernel's choices are
  those a kernel can make; and the network takes bytes at every write.
\<close>

definition undisturbed :: "surroundings \<Rightarrow> bool" where
  "undisturbed E \<longleftrightarrow> (\<forall>t err. accepts E t = Inl err \<longrightarrow> \<not> ends_process err) \<and> (\<forall>t k n. \<not> interrupted (choices E t k n))"

definition sane :: "surroundings \<Rightarrow> bool" where
  "sane E \<longleftrightarrow> (\<forall>t k n. kernel_inv k \<longrightarrow> write_env_ok (choices E t k n) k n)"

definition obliging :: "surroundings \<Rightarrow> bool" where
  "obliging E \<longleftrightarrow> (\<forall>t. \<exists>m. accepts E t = Inr m \<and> m \<noteq> 0)"

text \<open>What a write to the connection of \<open>s0\<close> leaves alone, and one to a device file of \<open>s0\<close>.\<close>

definition sock_ready :: "surroundings \<Rightarrow> 'z session_scheme \<Rightarrow> 'z session_scheme \<Rightarrow> bool" where
  "sock_ready E s0 s \<longleftrightarrow> undisturbed E \<and> (\<exists>out t. s = s0\<lparr>outgoing := out, clock := t\<rparr>)"

lemma sock_ready_step:
  assumes "sock_ready E s0 s"
  shows "sock_ready E s0 (tick s)" and "sock_ready E s0 (tick (s\<lparr>outgoing := x\<rparr>))"
proof -
  from assms obtain y t where s: "s = s0\<lparr>outgoing := y, clock := t\<rparr>" and "undisturbed E" by (auto simp: sock_ready_def)
  then show "sock_ready E s0 (tick s)" "sock_ready E s0 (tick (s\<lparr>outgoing := x\<rparr>))"
    by (auto simp: sock_ready_def tick_def intro: exI [of _ y] exI [of _ x] exI [of _ "Suc t"])
qed

definition dev_ready :: "surroundings \<Rightarrow> nat \<Rightarrow> session \<Rightarrow> session \<Rightarrow> bool" where
  "dev_ready E fd s0 s \<longleftrightarrow> undisturbed E \<and> sane E \<and> files (machine s0) fd \<noteq> None \<and>
     (\<exists>k t. s = s0\<lparr>machine := (machine s0)\<lparr>kern := k\<rparr>, clock := t\<rparr> \<and> world_inv (machine s))"

definition stored :: "session \<Rightarrow> byte list list \<times> byte list" where
  "stored s = (contents (kern (machine s)), pending (kern (machine s)))"

text \<open>Neither is ever interrupted, so that nothing has to be waited for.\<close>

interpretation sock: sink "sock_write E" "sock_ready E s0" outgoing "(@)" "\<lambda>s. 0" for E s0
proof unfold_locales
  show "\<exists>s' r. sock_write E s buf n = Some (s', r) \<and> sock_ready E s0 s'"
    if "sock_ready E s0 s" "n \<noteq> 0" "unat n \<le> length buf" for s n buf
    using that sock_ready_step [OF that(1)]
    by (auto simp: sock_write_def sock_ready_def undisturbed_def Let_def min_def word_le_nat_alt split: sum.splits)
  show "unat m \<le> unat n \<and> (m \<noteq> 0 \<longrightarrow> outgoing s' = outgoing s @ take (unat m) buf) \<and> (m = 0 \<longrightarrow> outgoing s' = outgoing s)"
    if "sock_write E s buf n = Some (s', Inr m)" for s n buf s' m
    using that by (auto simp: sock_write_def tick_def Let_def min_def word_le_nat_alt split: sum.splits if_splits)
  show "outgoing s' = outgoing s" if "sock_write E s buf n = Some (s', Inl err)" for s n buf s' err
    using that by (auto simp: sock_write_def tick_def Let_def split: sum.splits if_splits)
  show "(0 :: nat) < 0" if "sock_write E s buf n = Some (s', Inl EINTR)" for s n buf s'
    using that by (auto simp: sock_write_def ends_process_def Let_def split: sum.splits if_splits)
qed

interpretation conn: steady_sink "sock_write E" "\<lambda>s. obliging E \<and> sock_ready E s0 s" outgoing "(@)" "\<lambda>s. 0"
  for E and s0 :: "'z session_scheme"
proof unfold_locales
  fix s :: "'z session_scheme" and n :: size_t and buf :: "byte list" and s' r
  assume s: "obliging E \<and> sock_ready E s0 s" and n: "n \<noteq> 0" "unat n \<le> length buf"
  then show "\<exists>s' r. sock_write E s buf n = Some (s', r) \<and> obliging E \<and> sock_ready E s0 s'"
    using sock.put_returns by blast
  from s obtain m where "accepts E (clock s) = Inr m" "m \<noteq> 0" by (auto simp: obliging_def)
  then show "r = Inl EINTR \<or> (\<exists>m. r = Inr m \<and> m \<noteq> 0)" if "sock_write E s buf n = Some (s', r)"
    using that n by (auto simp: sock_write_def Let_def min_def split: if_splits)
qed (use sock.put_takes sock.put_fails sock.put_waits in blast)+

text \<open>A write to an open file of the device.\<close>

lemma sys_write_run:
  assumes inv: "world_inv w" and f: "files w fd = Some f" and n: "n \<noteq> 0" and env: "write_env_ok e (kern w) n"
  obtains k where "run_sys (Sys_write fd e src n) w = Some (w\<lparr>kern := k\<rparr>, [], write_result e src n)"
    "world_inv (w\<lparr>kern := k\<rparr>)"
    "(contents k, pending k) =
      (case write_result e src n of
         Inl _ \<Rightarrow> (contents (kern w), pending (kern w))
       | Inr _ \<Rightarrow> a_write (contents (kern w), pending (kern w)) (take (unat n) src))"
proof -
  have k: "kernel_inv (kern w)" "private_data f \<noteq> NULL" using inv f by (auto simp: world_inv_def)
  from aesd_write_spec [OF k n env, of src] obtain k' where
    k': "aesd_write e (kern w) f (Ptr src) n = Some (k', write_result e src n)" "kernel_inv k'"
      "(contents k', pending k') =
        (case write_result e src n of
           Inl _ \<Rightarrow> (contents (kern w), pending (kern w))
         | Inr _ \<Rightarrow> a_write (contents (kern w), pending (kern w)) (take (unat n) src))" by blast
  have "(files w)(fd := Some f) = files w" using f by auto
  with k' f have "run_sys (Sys_write fd e src n) w = Some (w\<lparr>kern := k'\<rparr>, [], write_result e src n)"
    by (simp add: run_sys_def fd_of_def call_file_def)
  moreover have "world_inv (w\<lparr>kern := k'\<rparr>)" using inv k'(2) by (simp add: world_inv_def)
  ultimately show ?thesis using that k'(3) by blast
qed

lemma write_result_calm: "\<not> interrupted e \<Longrightarrow> write_result e src n \<noteq> Inl ERESTARTSYS \<and> write_result e src n \<noteq> Inl EINTR"
  by (auto simp: write_result_def)

lemma dev_write_run:
  assumes s: "dev_ready E fd s0 s" and n: "n \<noteq> 0"
  obtains s' where
    "dev_write E fd s buf n = Some (s', write_result (choices E (clock s) (kern (machine s)) n) buf n)"
    "dev_ready E fd s0 s'" "clock s' = Suc (clock s)"
    "stored s' =
      (case write_result (choices E (clock s) (kern (machine s)) n) buf n of
         Inl _ \<Rightarrow> stored s | Inr _ \<Rightarrow> a_write (stored s) (take (unat n) buf))"
proof -
  let ?e = "choices E (clock s) (kern (machine s)) n"
  from s obtain k t f where k: "s = s0\<lparr>machine := (machine s0)\<lparr>kern := k\<rparr>, clock := t\<rparr>" "world_inv (machine s)"
    and f: "files (machine s) fd = Some f" by (auto simp: dev_ready_def)
  have calm: "\<not> interrupted ?e" using s by (simp add: dev_ready_def undisturbed_def)
  have "write_env_ok ?e (kern (machine s)) n" using s k(2) by (simp add: dev_ready_def sane_def world_inv_def)
  from sys_write_run [OF k(2) f n this, of buf] obtain k' where
    run: "run_sys (Sys_write fd ?e buf n) (machine s) = Some ((machine s)\<lparr>kern := k'\<rparr>, [], write_result ?e buf n)"
      "world_inv ((machine s)\<lparr>kern := k'\<rparr>)"
      "(contents k', pending k') =
        (case write_result ?e buf n of
           Inl _ \<Rightarrow> (contents (kern (machine s)), pending (kern (machine s)))
         | Inr _ \<Rightarrow> a_write (contents (kern (machine s)), pending (kern (machine s))) (take (unat n) buf))" .
  let ?s = "tick (s\<lparr>machine := (machine s)\<lparr>kern := k'\<rparr>\<rparr>)"
  have "dev_write E fd s buf n = Some (?s, write_result ?e buf n)"
    using run(1) calm write_result_calm [OF calm] by (simp add: dev_write_def dev_call_def)
  moreover have "dev_ready E fd s0 ?s"
    using s k run(2) by (auto simp: dev_ready_def tick_def)
  moreover have "stored ?s = (case write_result ?e buf n of
      Inl _ \<Rightarrow> stored s | Inr _ \<Rightarrow> a_write (stored s) (take (unat n) buf))"
    using run(3) unfolding stored_def tick_def by simp
  ultimately show ?thesis using that by (simp add: tick_def)
qed

lemma write_result_Inr: "write_result e src n = Inr m \<Longrightarrow> m = n"
  by (auto simp: write_result_def split: if_splits)

interpretation dev: whole_sink "dev_write E fd" "dev_ready E fd s0" stored a_write "\<lambda>s. 0" for E fd s0
proof unfold_locales
  fix s :: session and n :: size_t and buf :: "byte list" and s' m err
  assume s: "dev_ready E fd s0 s" and n: "n \<noteq> 0" "unat n \<le> length buf"
  from dev_write_run [OF s n(1), of buf] obtain s1 where
    run: "dev_write E fd s buf n = Some (s1, write_result (choices E (clock s) (kern (machine s)) n) buf n)"
      "dev_ready E fd s0 s1" "clock s1 = Suc (clock s)"
      "stored s1 =
        (case write_result (choices E (clock s) (kern (machine s)) n) buf n of
           Inl _ \<Rightarrow> stored s | Inr _ \<Rightarrow> a_write (stored s) (take (unat n) buf))" .
  show "\<exists>s' r. dev_write E fd s buf n = Some (s', r) \<and> dev_ready E fd s0 s'" using run by blast
  show "m = n" if "dev_write E fd s buf n = Some (s', Inr m)"
    using that run(1) write_result_Inr by (auto simp: map_sum_def split: sum.splits)
  then show "unat m \<le> unat n \<and> (m \<noteq> 0 \<longrightarrow> stored s' = a_write (stored s) (take (unat m) buf)) \<and>
      (m = 0 \<longrightarrow> stored s' = stored s)" if "dev_write E fd s buf n = Some (s', Inr m)"
    using that run n(1) by (auto split: sum.splits)
  show "stored s' = stored s" if "dev_write E fd s buf n = Some (s', Inl err)"
    using that run by (auto split: sum.splits)
  have "\<not> interrupted (choices E (clock s) (kern (machine s)) n)" using s by (simp add: dev_ready_def undisturbed_def)
  then show "(0 :: nat) < 0" if "dev_write E fd s buf n = Some (s', Inl EINTR)"
    using that run(1) write_result_calm by auto
qed

end
