(* ===== verification/Client_Session.thy ===== *)
theory Client_Session
  imports Socket_Ops
begin

text \<open>
  The thread of a client (\<open>handle_client\<close> in \<open>server/aesdsocket_app/src/thread_manager.c\<close>, built
  with \<open>USE_AESD_CHAR_DEVICE\<close>): it receives segments, hands them to the driver, answers a
  complete command with the whole log and an \<open>AESDCHAR_IOCSEEKTO\<close> command with the log from a
  position on. The theorems relate it to an abstract session on the log.
\<close>

section \<open>Strings\<close>

text \<open>\<open>strncmp(a, b, n) == 0\<close>; reading past the end of an array is undefined.\<close>

fun strncmp_eq :: "byte list \<Rightarrow> byte list \<Rightarrow> nat \<Rightarrow> bool option" where
  "strncmp_eq a b 0 = Some True"
| "strncmp_eq (x # a) (y # b) (Suc n) =
     (if x \<noteq> y then Some False else if x = 0 then Some True else strncmp_eq a b n)"
| "strncmp_eq a b (Suc n) = None"

definition c_string :: "byte list \<Rightarrow> byte list option" where
  "c_string buf = (if 0 \<in> set buf then Some (takeWhile (\<lambda>b. b \<noteq> 0) buf) else None)"

definition memchr :: "byte list \<Rightarrow> byte \<Rightarrow> nat \<Rightarrow> bool option" where
  "memchr buf c n = (if n \<le> length buf then Some (c \<in> set (take n buf)) else None)"

definition is_space :: "byte \<Rightarrow> bool" where
  "is_space b \<longleftrightarrow> b = 32 \<or> 9 \<le> b \<and> b \<le> 13"

definition is_digit :: "byte \<Rightarrow> bool" where
  "is_digit b \<longleftrightarrow> 48 \<le> b \<and> b \<le> 57"

text \<open>
  A \<open>%u\<close> of \<open>sscanf\<close>: blanks, a sign, digits. The number is stored when an \<open>unsigned int\<close> can
  hold it.
\<close>

definition scan_u :: "surroundings \<Rightarrow> byte list \<Rightarrow> (u32 \<times> byte list) option" where
  "scan_u E str =
     (let str = dropWhile is_space str;
          (negative, str) = (case str of
             c # rest \<Rightarrow> if c = 45 then (True, rest) else if c = 43 then (False, rest) else (False, str)
           | [] \<Rightarrow> (False, str));
          digits = takeWhile is_digit str;
          n = foldl (\<lambda>n d. 10 * n + (uint d - 48)) 0 digits;
          n = (if negative then - n else n)
      in if digits = [] then None
         else Some (if 0 \<le> n \<and> n < 2 ^ 32 then word_of_int n else oversized E n, dropWhile is_digit str))"

text \<open>\<open>sscanf(str, "%u,%u", \<dots>)\<close>, when it stores both numbers.\<close>

definition scan_pair :: "surroundings \<Rightarrow> byte list \<Rightarrow> aesd_seekto option" where
  "scan_pair E str = do {
     (x, rest) \<leftarrow> scan_u E str;
     (case rest of
        [] \<Rightarrow> None
      | c # rest \<Rightarrow>
          if c = 44 then do { (y, _) \<leftarrow> scan_u E rest; Some \<lparr>write_cmd = x, write_cmd_offset = y\<rparr> } else None)
   }"

section \<open>Calls\<close>

definition BUFFER_SIZE :: size_t where
  "BUFFER_SIZE = 1024"

text \<open>\<open>"AESDCHAR_IOCSEEKTO:"\<close> with its final null.\<close>

definition seekto_prefix :: "byte list" where
  "seekto_prefix = [65, 69, 83, 68, 67, 72, 65, 82, 95, 73, 79, 67, 83, 69, 69, 75, 84, 79, 58]"

text \<open>\<open>recv\<close> takes what fits of the next segment; it gives no bytes when the peer has closed.\<close>

definition recv :: "'z session_scheme \<Rightarrow> size_t \<Rightarrow> 'z session_scheme \<times> (conn_errno + byte list)" where
  "recv s n =
     (case incoming s of
        [] \<Rightarrow> (tick s, Inr [])
      | Inl err # rest \<Rightarrow> (tick (s\<lparr>incoming := rest\<rparr>), Inl err)
      | Inr bs # rest \<Rightarrow>
          (tick (s\<lparr>incoming := (if unat n < length bs then Inr (drop (unat n) bs) # rest else rest)\<rparr>),
           Inr (take (unat n) bs)))"

text \<open>Storing bytes at the start of an array.\<close>

definition store :: "byte list \<Rightarrow> byte list \<Rightarrow> byte list option" where
  "store bs buf = (if length bs \<le> length buf then Some (bs @ drop (length bs) buf) else None)"

text \<open>\<open>pthread_mutex_lock(&file_mutex) == 0\<close>.\<close>

definition lock_file :: "surroundings \<Rightarrow> 'z session_scheme \<Rightarrow> ('z session_scheme \<times> bool) option" where
  "lock_file E s =
     (if lock_fails E (clock s) then Some (tick s, False)
      else map_option (\<lambda>m. (tick (s\<lparr>file_mutex := m\<rparr>), True)) (pthread_mutex_lock (file_mutex s)))"

definition unlock_file :: "'z session_scheme \<Rightarrow> 'z session_scheme option" where
  "unlock_file s = map_option (\<lambda>m. s\<lparr>file_mutex := m\<rparr>) (pthread_mutex_unlock (file_mutex s))"

definition open_dev :: "surroundings \<Rightarrow> session \<Rightarrow> (session \<times> (errno + nat)) option" where
  "open_dev E s =
     (case opens E (clock s) of
        Inl err \<Rightarrow> Some (tick s, Inl err)
      | Inr fd \<Rightarrow> map_option (\<lambda>(s, out, r). (s, map_sum id (\<lambda>_. fd) r)) (dev_call E 0 (\<lambda>e. Sys_open fd) s))"

definition close_dev :: "surroundings \<Rightarrow> nat \<Rightarrow> session \<Rightarrow> session option" where
  "close_dev E fd s = map_option fst (dev_call E 0 (\<lambda>e. Sys_close fd) s)"

definition ioctl_seekto :: "surroundings \<Rightarrow> nat \<Rightarrow> aesd_seekto \<Rightarrow> session \<Rightarrow> (session \<times> (errno + size_t)) option" where
  "ioctl_seekto E fd st s =
     map_option (\<lambda>(s, out, r). (s, r)) (dev_call E 0 (\<lambda>e. Sys_ioctl fd e AESDCHAR_IOCSEEKTO (Ptr st)) s)"

section \<open>The thread\<close>

text \<open>Reading the file to its end and sending it back.\<close>

partial_function (option) send_back :: "surroundings \<Rightarrow> nat \<Rightarrow> session \<Rightarrow> byte list \<Rightarrow> (session \<times> byte list) option" where
  "send_back E fd s buf = do {
     (s, out, r) \<leftarrow> dev_read E fd s (length buf) (BUFFER_SIZE - 1);
     buf \<leftarrow> store out buf;
     (case r of
        Inl err \<Rightarrow> Some (s, buf)
      | Inr n \<Rightarrow>
          if n = 0 then Some (s, buf)
          else do {
            (s, sent) \<leftarrow> write_all (sock_write E) s buf n;
            if sent \<noteq> Inr n then Some (s, buf) else send_back E fd s buf
          })
   }"

text \<open>The result says whether the loop over the segments goes on.\<close>

definition leave :: "'z session_scheme \<Rightarrow> byte list \<Rightarrow> ('z session_scheme \<times> byte list \<times> bool) option" where
  "leave s buf = do { s \<leftarrow> unlock_file s; Some (s, buf, False) }"

definition seekto_segment :: "surroundings \<Rightarrow> session \<Rightarrow> byte list \<Rightarrow> (session \<times> byte list \<times> bool) option" where
  "seekto_segment E s buf = do {
     command_str \<leftarrow> c_string (drop 19 buf);
     (case scan_pair E command_str of
        None \<Rightarrow> Some (s, buf, False)
      | Some seekto \<Rightarrow> do {
          (s, locked) \<leftarrow> lock_file E s;
          if \<not> locked then Some (s, buf, False)
          else do {
            (s, r) \<leftarrow> open_dev E s;
            (case r of
               Inl err \<Rightarrow> leave s buf
             | Inr fd \<Rightarrow> do {
                 (s, r) \<leftarrow> ioctl_seekto E fd seekto s;
                 (case r of
                    Inl err \<Rightarrow> do { s \<leftarrow> close_dev E fd s; leave s buf }
                  | Inr _ \<Rightarrow> do {
                      (s, buf) \<leftarrow> send_back E fd s buf;
                      s \<leftarrow> close_dev E fd s;
                      s \<leftarrow> unlock_file s;
                      Some (s, buf, True)
                    })
               })
          }
        })
   }"

definition write_segment ::
  "surroundings \<Rightarrow> session \<Rightarrow> byte list \<Rightarrow> size_t \<Rightarrow> (session \<times> byte list \<times> bool) option" where
  "write_segment E s buf bytes_received = do {
     (s, locked) \<leftarrow> lock_file E s;
     if \<not> locked then Some (s, buf, False)
     else do {
       (s, r) \<leftarrow> open_dev E s;
       (case r of
          Inl err \<Rightarrow> leave s buf
        | Inr fd \<Rightarrow> do {
            (s, written) \<leftarrow> write_all (dev_write E fd) s buf bytes_received;
            if written \<noteq> Inr bytes_received
            then do { s \<leftarrow> close_dev E fd s; leave s buf }
            else do {
              newline \<leftarrow> memchr buf 10 (unat bytes_received);
              if newline
              then do {
                s \<leftarrow> close_dev E fd s;
                (s, r) \<leftarrow> open_dev E s;
                (case r of
                   Inl err \<Rightarrow> leave s buf
                 | Inr fd \<Rightarrow> do {
                     (s, buf) \<leftarrow> send_back E fd s buf;
                     s \<leftarrow> close_dev E fd s;
                     leave s buf
                   })
              }
              else do {
                s \<leftarrow> close_dev E fd s;
                s \<leftarrow> unlock_file s;
                Some (s, buf, True)
              }
            }
          })
     }
   }"

text \<open>One round of the loop: receiving a segment and doing what it asks for.\<close>

definition client_round :: "surroundings \<Rightarrow> session \<Rightarrow> byte list \<Rightarrow> (session \<times> byte list \<times> bool) option" where
  "client_round E s buf =
     (let (s, r) = recv s (BUFFER_SIZE - 1) in
      case r of
        Inl err \<Rightarrow> Some (s, buf, False)
      | Inr bs \<Rightarrow>
          if bs = [] then Some (s, buf, False)
          else do {
            buf \<leftarrow> store (bs @ [0]) buf;
            is_seekto \<leftarrow> strncmp_eq buf (seekto_prefix @ [0]) 19;
            if is_seekto then seekto_segment E s buf else write_segment E s buf (of_nat (length bs))
          })"

partial_function (option) client_loop :: "surroundings \<Rightarrow> session \<Rightarrow> byte list \<Rightarrow> (session \<times> byte list) option" where
  "client_loop E s buf = do {
     (s, buf, go_on) \<leftarrow> client_round E s buf;
     if go_on then client_loop E s buf else Some (s, buf)
   }"

text \<open>
  The whole thread: \<open>t\<close> is its id, \<open>node\<close> the answer of \<open>malloc\<close> for its node of the list, and
  \<open>block\<close> that for its buffer, with the arbitrary bytes in it.
\<close>

definition handle_client ::
  "surroundings \<Rightarrow> nat \<Rightarrow> addr option \<Rightarrow> byte list option \<Rightarrow> session \<Rightarrow> session option" where
  "handle_client E t node block s = do {
     (l, my_node) \<leftarrow> add_thread_to_list node t (threads s);
     let s = s\<lparr>threads := l\<rparr>;
     s \<leftarrow> (case block of
             None \<Rightarrow> Some s
           | Some buf \<Rightarrow> map_option fst (client_loop E s buf));
     let s = s\<lparr>connected := False\<rparr>;
     l \<leftarrow> mark_completed my_node (threads s);
     Some (s\<lparr>threads := l\<rparr>)
   }"

section \<open>The abstract session\<close>

text \<open>Where a seek goes: the position of byte \<open>write_cmd_offset\<close> of command \<open>write_cmd\<close>.\<close>

definition a_seek :: "byte list list \<Rightarrow> aesd_seekto \<Rightarrow> nat option" where
  "a_seek cmds st =
     (let i = unat (write_cmd st); j = unat (write_cmd_offset st) in
      if i < length cmds \<and> j < length (cmds ! i) then Some (length (concat (take i cmds)) + j) else None)"

text \<open>
  What a segment does to the log of the device (the stored commands and the partial one),
  what is sent for it, and whether the session goes on.
\<close>

definition a_round ::
  "surroundings \<Rightarrow> byte list list \<times> byte list \<Rightarrow> byte list \<Rightarrow> (byte list list \<times> byte list) \<times> byte list \<times> bool" where
  "a_round E log bs =
     (if take 19 bs = seekto_prefix
      then (case scan_pair E (takeWhile (\<lambda>b. b \<noteq> 0) (drop 19 bs)) of
              None \<Rightarrow> (log, [], False)
            | Some st \<Rightarrow>
                (case a_seek (fst log) st of
                   None \<Rightarrow> (log, [], False)
                 | Some p \<Rightarrow> (log, drop p (concat (fst log)), True)))
      else (let log = a_write log bs in
            if 10 \<in> set bs then (log, concat (fst log), False) else (log, [], True)))"

section \<open>The states of a session\<close>

text \<open>Between two rounds: no file of the device is open, and the mutex is free.\<close>

definition session_ok :: "surroundings \<Rightarrow> session \<Rightarrow> bool" where
  "session_ok E s \<longleftrightarrow> undisturbed E \<and> sane E \<and> world_inv (machine s) \<and> files (machine s) = Map.empty \<and> file_mutex s = Free"

text \<open>While the thread holds the mutex, with the files \<open>fs\<close> open.\<close>

definition held :: "surroundings \<Rightarrow> (nat \<Rightarrow> kfile option) \<Rightarrow> session \<Rightarrow> bool" where
  "held E fs s \<longleftrightarrow> undisturbed E \<and> sane E \<and> world_inv (machine s) \<and> files (machine s) = fs \<and> file_mutex s = Held"

text \<open>What no call on the device or the connection changes; \<open>out\<close> is what was sent between two states.\<close>

definition sends :: "'z session_scheme \<Rightarrow> byte list \<Rightarrow> 'z session_scheme \<Rightarrow> bool" where
  "sends s out s' \<longleftrightarrow> threads s' = threads s \<and> connected s' = connected s \<and> incoming s' = incoming s \<and>
     outgoing s' = outgoing s @ out"

definition quiet :: "session \<Rightarrow> session \<Rightarrow> bool" where
  "quiet s s' \<longleftrightarrow> sends s [] s' \<and> stored s' = stored s"

lemma sends_trans: "sends s xs s1 \<Longrightarrow> sends s1 ys s2 \<Longrightarrow> sends s (xs @ ys) s2"
  by (simp add: sends_def)

lemma quiet_trans: "quiet s s1 \<Longrightarrow> quiet s1 s2 \<Longrightarrow> quiet s s2"
  by (simp add: quiet_def sends_def)

lemma quiet_sends: "quiet s s1 \<Longrightarrow> sends s1 out s2 \<Longrightarrow> sends s out s2"
  "sends s out s1 \<Longrightarrow> quiet s1 s2 \<Longrightarrow> sends s out s2"
  by (simp_all add: quiet_def sends_def)

lemma quiet_stored: "quiet s s' \<Longrightarrow> stored s' = stored s"
  by (simp add: quiet_def)

text \<open>
  A quiet environment: no signal, no error of \<open>open\<close> or of the mutex, the network takes what it
  is given (but may cut it), and memory for the commands up to the limit of the
  allocator.
\<close>

definition steady :: "surroundings \<Rightarrow> bool" where
  "steady E \<longleftrightarrow> obliging E \<and> (\<forall>t. \<not> lock_fails E t) \<and> (\<forall>t err. opens E t \<noteq> Inl err) \<and>
     (\<forall>t k n. \<not> interrupted (choices E t k n)) \<and>
     (\<forall>t k n. kernel_inv k \<longrightarrow> length (pending k) + unat n < kmalloc_max \<longrightarrow>
        at (tmp_alloc (choices E t k n)) \<noteq> None \<and> at (buf_alloc (choices E t k n)) \<noteq> None)"

lemma steadyD:
  assumes "steady E"
  shows "obliging E" "\<not> lock_fails E t" "opens E t \<noteq> Inl err" "\<not> interrupted (choices E t k n)"
  using assms by (auto simp: steady_def)

lemma steady_undisturbed: "steady E \<Longrightarrow> undisturbed E"
  unfolding steady_def obliging_def undisturbed_def by (metis Inl_Inr_False)

section \<open>The calls of a session\<close>

lemma lock_file_spec:
  assumes "session_ok E s"
  obtains s' where "lock_file E s = Some (s', False)" "session_ok E s'" "quiet s s'" "\<not> steady E"
  | s' where "lock_file E s = Some (s', True)" "held E Map.empty s'" "quiet s s'"
  using assms
  by (cases "lock_fails E (clock s)")
     (auto simp: lock_file_def session_ok_def held_def quiet_def sends_def stored_def tick_def pthread_mutex_lock_def
       dest: steadyD(2))

lemma unlock_file_spec:
  assumes "held E Map.empty s"
  obtains s' where "unlock_file s = Some s'" "session_ok E s'" "quiet s s'"
  using assms
  by (auto simp: unlock_file_def session_ok_def held_def quiet_def sends_def stored_def pthread_mutex_unlock_def)

definition opened :: "loff_t \<Rightarrow> kfile" where
  "opened pos = \<lparr>private_data = Ptr (), f_pos = pos\<rparr>"

lemma open_dev_spec:
  assumes "held E Map.empty s"
  obtains s' err where "open_dev E s = Some (s', Inl err)" "held E Map.empty s'" "quiet s s'" "\<not> steady E"
  | s' fd where "open_dev E s = Some (s', Inr fd)" "held E [fd \<mapsto> opened 0] s'" "quiet s s'"
proof (cases "opens E (clock s)")
  case (Inl err)
  then show ?thesis
    using assms that(1) [of "tick s" err]
    by (auto simp: open_dev_def held_def quiet_def sends_def stored_def tick_def dest: steadyD(3))
next
  case (Inr fd)
  then show ?thesis
    using assms that(2) [of "tick (s\<lparr>machine := (machine s)\<lparr>files := [fd \<mapsto> opened 0]\<rparr>\<rparr>)" fd]
    by (simp add: open_dev_def dev_call_def run_sys_def fd_of_def aesd_open_def new_file_def opened_def held_def
        quiet_def sends_def stored_def tick_def world_inv_def)
qed

lemma close_dev_spec:
  assumes "held E [fd \<mapsto> f] s"
  obtains s' where "close_dev E fd s = Some s'" "held E Map.empty s'" "quiet s s'"
  using assms that [of "tick (s\<lparr>machine := (machine s)\<lparr>files := Map.empty\<rparr>\<rparr>)"]
  by (auto simp: close_dev_def dev_call_def run_sys_def fd_of_def call_file_def held_def
      quiet_def sends_def stored_def tick_def world_inv_def)

lemma ioctl_seekto_spec:
  assumes h: "held E [fd \<mapsto> opened pos] s"
  obtains s' err where "ioctl_seekto E fd st s = Some (s', Inl err)" "held E [fd \<mapsto> opened pos] s'" "quiet s s'"
    "steady E \<Longrightarrow> a_seek (fst (stored s)) st = None"
  | s' r pos' where "ioctl_seekto E fd st s = Some (s', Inr r)" "held E [fd \<mapsto> opened pos'] s'" "quiet s s'"
    "a_seek (fst (stored s)) st = Some (unat pos')"
proof -
  let ?w = "machine s" and ?e = "choices E (clock s) (kern (machine s)) 0"
  let ?i = "unat (write_cmd st)" and ?j = "unat (write_cmd_offset st)"
  let ?p = "length (concat (take ?i (contents (kern ?w)))) + ?j"
  have calm: "\<not> interrupted ?e" using h by (simp add: held_def undisturbed_def)
  have inv: "world_inv ?w" and f: "files ?w fd = Some (opened pos)" using h by (simp_all add: held_def)
  then have k: "kernel_inv (kern ?w)" "private_data (opened pos) \<noteq> NULL" by (auto simp: world_inv_def)
  note spec = aesd_ioctl_spec [OF k, of ?e st]
  have run: "run_sys (Sys_ioctl fd ?e AESDCHAR_IOCSEEKTO (Ptr st)) ?w =
    Some (if ?i < length (contents (kern ?w)) \<and> ?j < length (contents (kern ?w) ! ?i)
      then (?w\<lparr>files := (files ?w)(fd \<mapsto> opened (of_nat ?p))\<rparr>, [], Inr 0)
      else (?w, [], Inl EINVAL))"
    using spec f calm by (simp add: run_sys_def fd_of_def call_file_def opened_def fun_upd_idem)
  have "sys_ok (Sys_ioctl fd ?e AESDCHAR_IOCSEEKTO (Ptr st)) ?w" by (simp add: sys_ok_def)
  from run_sys_refines [OF inv this] obtain w' a where
    r: "run_sys (Sys_ioctl fd ?e AESDCHAR_IOCSEEKTO (Ptr st)) ?w = Some (w', a)" "world_inv w'"
      "log_sys (Sys_ioctl fd ?e AESDCHAR_IOCSEEKTO (Ptr st)) (abs_world ?w) = (abs_world w', a)" by metis
  show ?thesis
  proof (cases "?i < length (contents (kern ?w)) \<and> ?j < length (contents (kern ?w) ! ?i)")
    case True
    then have w': "w' = ?w\<lparr>files := (files ?w)(fd \<mapsto> opened (of_nat ?p))\<rparr>" "a = ([], Inr 0)" using r(1) run by auto
    have "log_pos (fst (log_sys (Sys_ioctl fd ?e AESDCHAR_IOCSEEKTO (Ptr st)) (abs_world ?w))) fd = Some ?p"
      using True f calm by (simp add: log_sys_def fd_of_def log_call_def abs_world_def Let_def)
    moreover have "log_pos (abs_world w') fd = Some (unat (of_nat ?p :: loff_t))"
      by (simp add: abs_world_def w' opened_def)
    ultimately have "unat (of_nat ?p :: loff_t) = ?p" using r(3) by simp
    then show ?thesis
      using that(2) [of "tick (s\<lparr>machine := w'\<rparr>)" 0 "of_nat ?p"] run True h r(2)
      by (auto simp: ioctl_seekto_def dev_call_def held_def quiet_def sends_def stored_def tick_def w' a_seek_def)
  next
    case False
    then have a: "a = ([], Inl EINVAL)" and w': "w' = ?w" using r(1) run by (auto split: if_splits)
    then show ?thesis
      using that(1) [of "tick s" EINVAL] r(1,2) h False
      by (auto simp: ioctl_seekto_def dev_call_def held_def quiet_def sends_def stored_def tick_def a_seek_def Let_def)
  qed
qed

lemma dev_read_spec:
  assumes h: "held E [fd \<mapsto> opened pos] s" and room: "unat n \<le> room"
  obtains s' bs pos' where "dev_read E fd s room n = Some (s', bs, Inr (of_nat (length bs)))"
    "held E [fd \<mapsto> opened pos'] s'" "quiet s s'"
    "bs = take (unat n) (cmd_at (fst (stored s)) (unat pos))" "unat pos' = unat pos + length bs"
proof -
  let ?w = "machine s" and ?e = "choices E (clock s) (kern (machine s)) n"
  let ?bs = "take (unat n) (cmd_at (contents (kern ?w)) (unat pos))"
  have calm: "\<not> interrupted ?e" using h by (simp add: held_def undisturbed_def)
  have inv: "world_inv ?w" and f: "files ?w fd = Some (opened pos)" using h by (simp_all add: held_def)
  then have k: "kernel_inv (kern ?w)" "private_data (opened pos) \<noteq> NULL" by (auto simp: world_inv_def)
  have fits: "\<not> room < length ?bs" using room by (simp add: min_def)
  have run: "run_sys (Sys_read fd ?e room n) ?w =
    Some (?w\<lparr>files := (files ?w)(fd \<mapsto> opened (pos + of_nat (length ?bs)))\<rparr>, ?bs, Inr (of_nat (length ?bs)))"
    using aesd_read_spec [OF k, of ?e room n pos] f calm
    unfolding if_not_P [OF fits] by (simp add: run_sys_def fd_of_def call_file_def opened_def fun_upd_idem)
  have "sys_ok (Sys_read fd ?e room n) ?w" by (simp add: sys_ok_def)
  from run_sys_refines [OF inv this] obtain w' a where
    r: "run_sys (Sys_read fd ?e room n) ?w = Some (w', a)" "world_inv w'"
      "log_sys (Sys_read fd ?e room n) (abs_world ?w) = (abs_world w', a)" by metis
  have w': "w' = ?w\<lparr>files := (files ?w)(fd \<mapsto> opened (pos + of_nat (length ?bs)))\<rparr>" using r(1) run by auto
    have "log_pos (fst (log_sys (Sys_read fd ?e room n) (abs_world ?w))) fd = Some (unat pos + length ?bs)"
      using calm f room by (auto simp: log_sys_def fd_of_def log_call_def abs_world_def opened_def Let_def)
    moreover have "log_pos (abs_world w') fd = Some (unat (pos + of_nat (length ?bs)))"
      by (simp add: abs_world_def w' opened_def)
    ultimately have "unat (pos + of_nat (length ?bs)) = unat pos + length ?bs" using r(3) by simp
    moreover have "dev_read E fd s room n = Some (tick (s\<lparr>machine := w'\<rparr>), ?bs, Inr (of_nat (length ?bs)))"
      unfolding dev_read_def dev_call_def run w' by simp
    moreover have "held E [fd \<mapsto> opened (pos + of_nat (length ?bs))] (tick (s\<lparr>machine := w'\<rparr>))"
      using h r(2) unfolding held_def tick_def by (simp add: w' del: length_take)
    moreover have "quiet s (tick (s\<lparr>machine := w'\<rparr>))"
      unfolding quiet_def sends_def stored_def tick_def by (simp add: w' del: length_take)
    ultimately show ?thesis using that unfolding stored_def fst_conv by blast
qed

section \<open>Sending back\<close>

lemma foldl_append: "foldl (@) xs yss = xs @ concat yss"
  by (induction yss arbitrary: xs) simp_all

text \<open>Sending: what is sent is a beginning of the buffer, all of it if no call fails.\<close>

lemma sock_write_sent:
  assumes E: "undisturbed E" and n: "unat n \<le> length buf"
  obtains r out t where "write_all (sock_write E) s buf n = Some (s\<lparr>outgoing := outgoing s @ out, clock := t\<rparr>, r)"
    "prefix out (take (unat n) buf)" "r = Inr n \<Longrightarrow> out = take (unat n) buf" "obliging E \<Longrightarrow> r = Inr n"
proof -
  have ready: "sock_ready E s s"
    using E unfolding sock_ready_def by (intro conjI exI [of _ "outgoing s"] exI [of _ "clock s"]) simp_all
  from sock.write_all_pieces [OF ready n] obtain s' r ps where
    w: "write_all (sock_write E) s buf n = Some (s', r)" "sock_ready E s s'"
      "outgoing s' = foldl (@) (outgoing s) ps" "prefix (concat ps) (take (unat n) buf)"
      "r = Inr n \<Longrightarrow> concat ps = take (unat n) buf" by blast
  obtain t where s': "s' = s\<lparr>outgoing := outgoing s @ concat ps, clock := t\<rparr>"
    using w(2,3) by (auto simp: sock_ready_def foldl_append)
  show ?thesis
  proof (rule that [OF w(1) [unfolded s'] w(4,5)])
    show "r = Inr n" if "obliging E"
    proof -
      have "obliging E \<and> sock_ready E s s" using ready that by simp
      from conn.write_all_complete [OF this n] show ?thesis using w(1) by force
    qed
  qed
qed

lemma sock_write_all:
  assumes h: "held E fs s" and n: "unat n \<le> length buf"
  obtains s' r out where "write_all (sock_write E) s buf n = Some (s', r)" "held E fs s'" "sends s out s'"
    "stored s' = stored s" "prefix out (take (unat n) buf)" "r = Inr n \<Longrightarrow> out = take (unat n) buf"
    "steady E \<Longrightarrow> r = Inr n"
proof -
  have "undisturbed E" using h by (simp add: held_def)
  from sock_write_sent [OF this n, of s] obtain r out t where
    w: "write_all (sock_write E) s buf n = Some (s\<lparr>outgoing := outgoing s @ out, clock := t\<rparr>, r)"
      "prefix out (take (unat n) buf)" "r = Inr n \<Longrightarrow> out = take (unat n) buf" "obliging E \<Longrightarrow> r = Inr n" by blast
  show ?thesis
    by (rule that [OF w(1), of out]) (use h w(2-4) steadyD(1) in \<open>auto simp: held_def sends_def stored_def\<close>)
qed

definition rest_from :: "loff_t \<Rightarrow> session \<Rightarrow> byte list" where
  "rest_from pos s = drop (unat pos) (concat (fst (stored s)))"

lemma send_back_spec:
  assumes "held E [fd \<mapsto> opened pos] s" and "length buf = unat BUFFER_SIZE"
  shows "\<exists>s' buf' out pos'. send_back E fd s buf = Some (s', buf') \<and> held E [fd \<mapsto> opened pos'] s' \<and>
    sends s out s' \<and> stored s' = stored s \<and> length buf' = unat BUFFER_SIZE \<and>
    prefix out (rest_from pos s) \<and> (steady E \<longrightarrow> out = rest_from pos s)"
  using assms
proof (induction "length (rest_from pos s)" arbitrary: s buf pos rule: less_induct)
  case less
  have n: "unat (BUFFER_SIZE - 1) = 1023" "unat BUFFER_SIZE = 1024" by (simp_all add: BUFFER_SIZE_def)
  have len: "length buf = 1024" using less.prems(2) n by simp
  have room: "unat (BUFFER_SIZE - 1) \<le> length buf" using n len by simp
  show ?case
  proof (rule dev_read_spec [OF less.prems(1) room])
    fix s1 bs pos1
    assume read: "dev_read E fd s (length buf) (BUFFER_SIZE - 1) = Some (s1, bs, Inr (of_nat (length bs)))"
      and h1: "held E [fd \<mapsto> opened pos1] s1" and q: "quiet s s1"
      and bs: "bs = take (unat (BUFFER_SIZE - 1)) (cmd_at (fst (stored s)) (unat pos))"
      and pos1: "unat pos1 = unat pos + length bs"
    have short: "length bs \<le> 1023" using bs n by simp
    let ?buf = "bs @ drop (length bs) buf" and ?n = "of_nat (length bs) :: size_t"
    have st: "store bs buf = Some ?buf" and len1: "length ?buf = unat BUFFER_SIZE"
      using short len n by (simp_all add: store_def)
    have un: "unat ?n = length bs" using short by (simp add: unat_of_nat)
    have rest: "rest_from pos s = bs @ rest_from pos1 s1"
      unfolding rest_from_def pos1 quiet_stored [OF q] bs by (rule cmd_at_split)
    show ?thesis
    proof (cases "bs = []")
      case True
      then have "cmd_at (fst (stored s)) (unat pos) = []" using bs n by (simp add: take_eq_Nil)
      then have "rest_from pos s = []" by (simp add: cmd_at_Nil rest_from_def)
      moreover have "send_back E fd s buf = Some (s1, buf)"
        by (subst send_back.simps) (use True st in \<open>simp add: read\<close>)
      ultimately show ?thesis using q h1 less.prems(2) by (auto simp: quiet_def intro: exI [of _ "[]"])
    next
      case False
      have nz: "?n \<noteq> 0" using False un by (metis length_0_conv unat_0)
      have "unat ?n \<le> length ?buf" by (simp add: un)
      from sock_write_all [OF h1 this] obtain s2 r out where
        w: "write_all (sock_write E) s1 ?buf ?n = Some (s2, r)" "held E [fd \<mapsto> opened pos1] s2" "sends s1 out s2"
          "stored s2 = stored s1" "prefix out bs" "r = Inr ?n \<Longrightarrow> out = bs" "steady E \<Longrightarrow> r = Inr ?n"
        unfolding un by auto
      note sent = quiet_sends(1) [OF q w(3)]
      have same: "stored s2 = stored s" using w(4) quiet_stored [OF q] by simp
      show ?thesis
      proof (cases "r = Inr ?n")
        case False
        have "send_back E fd s buf = Some (s2, ?buf)"
          by (subst send_back.simps) (use False nz in \<open>simp add: read st w(1)\<close>)
        moreover have "prefix out (rest_from pos s)" using w(5) by (simp add: rest prefix_append)
        ultimately show ?thesis using w(2,7) sent same len1 False by blast
      next
        case True
        have out: "out = bs" by (rule w(6) [OF True])
        have rest2: "rest_from pos1 s2 = rest_from pos1 s1" by (simp add: rest_from_def w(4))
        have "length (rest_from pos1 s2) < length (rest_from pos s)" using False by (simp add: rest rest2)
        from less.hyps [OF this w(2) len1] obtain s' buf' more pos' where
          ih: "send_back E fd s2 ?buf = Some (s', buf')" "held E [fd \<mapsto> opened pos'] s'" "sends s2 more s'"
            "stored s' = stored s2" "length buf' = unat BUFFER_SIZE" "prefix more (rest_from pos1 s1)"
            "steady E \<longrightarrow> more = rest_from pos1 s1"
          unfolding rest2 by blast
        have "send_back E fd s buf = send_back E fd s2 ?buf"
          by (subst (1) send_back.simps) (use True nz in \<open>simp add: read st w(1)\<close>)
        moreover have "sends s (out @ more) s'" by (rule sends_trans [OF sent ih(3)])
        ultimately show ?thesis using ih same by (auto simp: rest out)
      qed
    qed
  qed
qed

text \<open>\<open>read_all\<close> on the device: it collects what the reads give, command by command, until it has enough.\<close>

lemma read_all_loop_dev:
  assumes "held E [fd \<mapsto> opened pos] s" and "steady E" and "unat cnt \<le> room" and "unat got \<le> unat cnt"
  shows "\<exists>s' pos'. read_all_loop (\<lambda>s n. dev_read E fd s room n) s buf cnt got =
      Some (s', buf @ take (unat cnt - unat got) (rest_from pos s),
        Inr (got + of_nat (length (take (unat cnt - unat got) (rest_from pos s))))) \<and>
    held E [fd \<mapsto> opened pos'] s' \<and> quiet s s'"
  using assms
proof (induction "unat cnt - unat got" arbitrary: s pos got buf rule: less_induct)
  case less
  show ?case
  proof (cases "got < cnt")
    case False
    then have "unat cnt - unat got = 0" using less.prems(4) by (simp add: word_less_nat_alt)
    moreover have "read_all_loop (\<lambda>s n. dev_read E fd s room n) s buf cnt got = Some (s, buf, Inr got)"
      using False by (subst read_all_loop.simps) simp
    ultimately show ?thesis using less.prems(1) by (auto simp: quiet_def sends_def)
  next
    case True
    let ?n = "cnt - got" and ?rest = "rest_from pos s"
    have lt: "unat got < unat cnt" using True by (simp add: word_less_nat_alt)
    then have n: "unat ?n = unat cnt - unat got" by (simp add: unat_sub_if')
    then have room: "unat ?n \<le> room" using less.prems(3) by linarith
    show ?thesis
    proof (rule dev_read_spec [OF less.prems(1) room])
      fix s1 bs pos1
      assume read: "dev_read E fd s room ?n = Some (s1, bs, Inr (of_nat (length bs)))"
        and h1: "held E [fd \<mapsto> opened pos1] s1" and q: "quiet s s1"
        and bs: "bs = take (unat ?n) (cmd_at (fst (stored s)) (unat pos))"
        and pos1: "unat pos1 = unat pos + length bs"
      have rest: "?rest = bs @ rest_from pos1 s1"
        unfolding rest_from_def pos1 quiet_stored [OF q] bs by (rule cmd_at_split)
      have le: "length bs \<le> unat cnt - unat got" using bs n by simp
      then have "length bs < 2 ^ 64" using unat_less_2_64 [of cnt] by linarith
      then have un: "unat (of_nat (length bs) :: size_t) = length bs" by (simp add: unat_of_nat)
      show ?thesis
      proof (cases "bs = []")
        case True
        then have "cmd_at (fst (stored s)) (unat pos) = []" using bs n lt by (simp add: take_eq_Nil)
        then have "?rest = []" by (simp add: cmd_at_Nil rest_from_def)
        moreover have "read_all_loop (\<lambda>s n. dev_read E fd s room n) s buf cnt got = Some (s1, buf, Inr got)"
          using lt True by (subst read_all_loop.simps) (simp add: read word_less_nat_alt)
        ultimately show ?thesis using h1 q by auto
      next
        case False
        have nz: "(of_nat (length bs) :: size_t) \<noteq> 0" using False un by (metis length_0_conv unat_0)
        let ?got = "got + of_nat (length bs)"
        have got: "unat ?got = unat got + length bs"
          using le lt unat_less_2_64 [of cnt] by (subst unat_add_size_t) (simp_all add: un)
        have more: "unat cnt - unat ?got = unat cnt - unat got - length bs" by (simp add: got)
        have "0 < length bs" using False by simp
        then have "unat cnt - unat ?got < unat cnt - unat got" unfolding got using lt by linarith
        moreover have "unat ?got \<le> unat cnt" unfolding got using le lt by linarith
        ultimately obtain s' pos' where
          ih: "read_all_loop (\<lambda>s n. dev_read E fd s room n) s1 (buf @ bs) cnt ?got =
              Some (s', (buf @ bs) @ take (unat cnt - unat ?got) (rest_from pos1 s1),
                Inr (?got + of_nat (length (take (unat cnt - unat ?got) (rest_from pos1 s1)))))"
            "held E [fd \<mapsto> opened pos'] s'" "quiet s1 s'"
          using less.hyps [OF _ h1 less.prems(2,3)] by blast
        have "read_all_loop (\<lambda>s n. dev_read E fd s room n) s buf cnt got =
            read_all_loop (\<lambda>s n. dev_read E fd s room n) s1 (buf @ bs) cnt ?got"
          using lt nz by (subst (1) read_all_loop.simps) (simp add: read word_less_nat_alt)
        moreover have "take (unat cnt - unat got) ?rest = bs @ take (unat cnt - unat ?got) (rest_from pos1 s1)"
          using le by (simp add: rest more)
        ultimately show ?thesis using ih quiet_trans [OF q ih(3)] by auto
      qed
    qed
  qed
qed

lemma read_all_dev:
  assumes "held E [fd \<mapsto> opened pos] s" and "steady E" and "unat cnt \<le> room"
  obtains s' pos' where "read_all (\<lambda>s n. dev_read E fd s room n) s cnt =
      Some (s', take (unat cnt) (rest_from pos s), Inr (of_nat (min (length (rest_from pos s)) (unat cnt))))"
    "held E [fd \<mapsto> opened pos'] s'" "quiet s s'"
  using read_all_loop_dev [OF assms, of 0 "[]"] that by (auto simp: read_all_def)

section \<open>One round\<close>

lemma dev_write_all:
  assumes h: "held E [fd \<mapsto> f] s" and n: "n \<noteq> 0" "unat n \<le> length buf"
  obtains s' where "write_all (dev_write E fd) s buf n = Some (s', Inr n)" "held E [fd \<mapsto> f] s'" "sends s [] s'"
    "stored s' = a_write (stored s) (take (unat n) buf)"
  | s' r where "write_all (dev_write E fd) s buf n = Some (s', r)" "r \<noteq> Inr n" "held E [fd \<mapsto> f] s'" "quiet s s'"
    "\<not> (steady E \<and> length (snd (stored s)) + unat n < kmalloc_max)"
proof -
  have ready: "dev_ready E fd s s"
    using h unfolding dev_ready_def held_def
    by (intro conjI exI [of _ "kern (machine s)"] exI [of _ "clock s"]) simp_all
  have keeps: "held E [fd \<mapsto> f] s1 \<and> sends s [] s1" if "dev_ready E fd s s1" for s1
    using that h by (auto simp: dev_ready_def held_def sends_def)
  from dev.write_all_whole [OF ready n] obtain s' r where
    w: "write_all (dev_write E fd) s buf n = Some (s', r)" "dev_ready E fd s s'"
      "stored s' = (if r = Inr n then a_write (stored s) (take (unat n) buf) else stored s)" by blast
  show ?thesis
  proof (cases "r = Inr n")
    case True
    then show ?thesis using that(1) w keeps by auto
  next
    case False
    have "r = Inr n" if fine: "steady E" "length (snd (stored s)) + unat n < kmalloc_max"
    proof -
      have "\<exists>s'. write_all (dev_write E fd) s buf n = Some (s', Inr n) \<and> dev_ready E fd s s' \<and>
          stored s' = a_write (stored s) (take (unat n) buf)"
      proof (rule dev.write_all_able [where able = "\<lambda>s1. dev_ready E fd s s1 \<and> stored s1 = stored s"])
        fix s1 s2 r
        assume s1: "dev_ready E fd s s1 \<and> stored s1 = stored s" and put: "dev_write E fd s1 buf n = Some (s2, r)"
        let ?k = "kern (machine s1)"
        have "kernel_inv ?k" using s1 by (auto simp: dev_ready_def world_inv_def)
        moreover have "length (pending ?k) + unat n < kmalloc_max" using s1 fine(2) by (simp add: stored_def)
        ultimately have "write_result (choices E (clock s1) ?k n) buf n = Inr n"
          using fine(1) n(2) steadyD(4) [OF fine(1)] by (simp add: steady_def write_result_def)
        then show "r = Inr n \<or> r = Inl EINTR \<and> dev_ready E fd s s2 \<and> stored s2 = stored s"
          using dev_write_run [of E fd s s1 n buf] s1 n(1) put by force
      qed (use ready n in auto)
      then show ?thesis using w(1) by auto
    qed
    then show ?thesis using that(2) [OF w(1) False] w(2,3) keeps False by (auto simp: quiet_def)
  qed
qed

text \<open>
  What a round has to establish, for what the abstract session does: it does that, sending
  perhaps only a beginning, or it fails, changes nothing and ends the session; in a quiet
  environment it does all of it.
\<close>

definition round_does ::
  "surroundings \<Rightarrow> session \<Rightarrow> (byte list list \<times> byte list) \<times> byte list \<times> bool \<Rightarrow> bool \<Rightarrow>
   (session \<times> byte list \<times> bool) option \<Rightarrow> bool" where
  "round_does E s spec fine result \<longleftrightarrow>
     (case (spec, result) of
        (_, None) \<Rightarrow> False
      | ((log, out, g), Some (s', buf, go)) \<Rightarrow>
          session_ok E s' \<and> length buf = unat BUFFER_SIZE \<and>
          (\<exists>sent. sends s sent s' \<and>
             (stored s' = stored s \<and> sent = [] \<and> \<not> go \<or> stored s' = log \<and> prefix sent out \<and> go = g) \<and>
             (steady E \<and> fine \<longrightarrow> stored s' = log \<and> sent = out \<and> go = g)))"

lemma round_fails:
  "session_ok E s' \<Longrightarrow> length buf = unat BUFFER_SIZE \<Longrightarrow> quiet s s' \<Longrightarrow>
   (steady E \<Longrightarrow> fine \<Longrightarrow> spec = (stored s, [], False)) \<Longrightarrow>
   round_does E s spec fine (Some (s', buf, False))"
  by (cases spec) (auto simp: round_does_def quiet_def)

lemma round_works:
  "session_ok E s' \<Longrightarrow> length buf = unat BUFFER_SIZE \<Longrightarrow> sends s sent s' \<Longrightarrow> stored s' = log \<Longrightarrow>
   prefix sent out \<Longrightarrow> (steady E \<Longrightarrow> sent = out) \<Longrightarrow>
   round_does E s (log, out, g) fine (Some (s', buf, g))"
  by (auto simp: round_does_def)

lemma leave_spec:
  assumes "held E Map.empty s"
  obtains s' where "leave s buf = Some (s', buf, False)" "session_ok E s'" "quiet s s'"
  by (rule unlock_file_spec [OF assms]) (use that in \<open>auto simp: leave_def\<close>)

text \<open>Leaving after something failed, with a file open or not.\<close>

lemma leave_fails:
  assumes "held E Map.empty s1" "length buf = unat BUFFER_SIZE" "quiet s s1"
    and "steady E \<Longrightarrow> fine \<Longrightarrow> spec = (stored s, [], False)"
  shows "round_does E s spec fine (leave s1 buf)"
  by (rule leave_spec [OF assms(1), of buf]) (auto intro!: round_fails assms quiet_trans [OF assms(3)])

lemma close_leave_fails:
  assumes "held E [fd \<mapsto> f] s1" "length buf = unat BUFFER_SIZE" "quiet s s1"
    and "steady E \<Longrightarrow> fine \<Longrightarrow> spec = (stored s, [], False)"
  shows "round_does E s spec fine (do { s \<leftarrow> close_dev E fd s1; leave s buf })"
proof (rule close_dev_spec [OF assms(1)])
  fix s2
  assume c: "close_dev E fd s1 = Some s2" "held E Map.empty s2" "quiet s1 s2"
  show ?thesis
    using leave_fails [OF c(2) assms(2) quiet_trans [OF assms(3) c(3)] assms(4)] by (simp add: c(1))
qed

lemma strncmp_eq_lit:
  "0 \<notin> set lit \<Longrightarrow> strncmp_eq (bs @ 0 # rest) (lit @ [0]) (length lit) = Some (take (length lit) bs = lit)"
proof (induction lit arbitrary: bs)
  case (Cons y lit)
  then show ?case by (cases bs) auto
qed simp

lemma c_string_store: "c_string (bs @ 0 # rest) = Some (takeWhile (\<lambda>b. b \<noteq> 0) bs)"
  by (induction bs) (auto simp: c_string_def)

lemma seekto_segment_spec:
  assumes ok: "session_ok E s" and buf: "buf = bs @ 0 # rest" "length buf = unat BUFFER_SIZE"
    and pre: "take 19 bs = seekto_prefix"
  shows "round_does E s (a_round E (stored s) bs) fine (seekto_segment E s buf)"
proof -
  let ?str = "takeWhile (\<lambda>b. b \<noteq> 0) (drop 19 bs)"
  have "length (take 19 bs) = 19" unfolding pre by (simp add: seekto_prefix_def)
  then have "drop 19 buf = drop 19 bs @ 0 # rest" by (simp add: buf(1))
  then have str: "c_string (drop 19 buf) = Some ?str" by (simp add: c_string_store)
  show ?thesis
  proof (cases "scan_pair E ?str")
    case None
    then have "seekto_segment E s buf = Some (s, buf, False)" by (simp add: seekto_segment_def str)
    moreover have "a_round E (stored s) bs = (stored s, [], False)" by (simp add: a_round_def pre None)
    ultimately show ?thesis using round_fails [OF ok buf(2)] by (simp add: quiet_def sends_def)
  next
    case (Some st)
    have spec: "a_round E (stored s) bs =
        (case a_seek (fst (stored s)) st of
           None \<Rightarrow> (stored s, [], False)
         | Some p \<Rightarrow> (stored s, drop p (concat (fst (stored s))), True))"
      by (simp add: a_round_def pre Some)
    note seg = seekto_segment_def str Some
    show ?thesis
    proof (rule lock_file_spec [OF ok])
      fix s1
      assume l: "lock_file E s = Some (s1, False)" "session_ok E s1" "quiet s s1" "\<not> steady E"
      show ?thesis using round_fails [OF l(2) buf(2) l(3)] l(1,4) by (simp add: seg)
    next
      fix s1
      assume l: "lock_file E s = Some (s1, True)" "held E Map.empty s1" "quiet s s1"
      show ?thesis
      proof (rule open_dev_spec [OF l(2)])
        fix s2 err
        assume o: "open_dev E s1 = Some (s2, Inl err)" "held E Map.empty s2" "quiet s1 s2" "\<not> steady E"
        show ?thesis
          using leave_fails [OF o(2) buf(2) quiet_trans [OF l(3) o(3)]] l(1) o(1,4) by (simp add: seg)
      next
        fix s2 fd
        assume o: "open_dev E s1 = Some (s2, Inr fd)" "held E [fd \<mapsto> opened 0] s2" "quiet s1 s2"
        note q2 = quiet_trans [OF l(3) o(3)]
        show ?thesis
        proof (rule ioctl_seekto_spec [OF o(2), of st])
          fix s3 err
          assume i: "ioctl_seekto E fd st s2 = Some (s3, Inl err)" "held E [fd \<mapsto> opened 0] s3" "quiet s2 s3"
            "steady E \<Longrightarrow> a_seek (fst (stored s2)) st = None"
          have "steady E \<Longrightarrow> a_round E (stored s) bs = (stored s, [], False)"
            using i(4) by (simp add: spec quiet_stored [OF q2])
          with close_leave_fails [OF i(2) buf(2) quiet_trans [OF q2 i(3)]] show ?thesis
            using l(1) o(1) i(1) by (simp add: seg)
        next
          fix s3 r pos
          assume i: "ioctl_seekto E fd st s2 = Some (s3, Inr r)" "held E [fd \<mapsto> opened pos] s3" "quiet s2 s3"
            "a_seek (fst (stored s2)) st = Some (unat pos)"
          note q3 = quiet_trans [OF q2 i(3)]
          from send_back_spec [OF i(2) buf(2)] obtain s4 buf' out pos' where
            b: "send_back E fd s3 buf = Some (s4, buf')" "held E [fd \<mapsto> opened pos'] s4" "sends s3 out s4"
              "stored s4 = stored s3" "length buf' = unat BUFFER_SIZE" "prefix out (rest_from pos s3)"
              "steady E \<longrightarrow> out = rest_from pos s3" by blast
          have rest: "rest_from pos s3 = drop (unat pos) (concat (fst (stored s)))"
            by (simp add: rest_from_def quiet_stored [OF q3])
          have spec2: "a_round E (stored s) bs = (stored s, rest_from pos s3, True)"
            using i(4) by (simp add: spec quiet_stored [OF q2] rest)
          show ?thesis
          proof (rule close_dev_spec [OF b(2)])
            fix s5
            assume c: "close_dev E fd s4 = Some s5" "held E Map.empty s5" "quiet s4 s5"
            show ?thesis
            proof (rule unlock_file_spec [OF c(2)])
              fix s6
              assume u: "unlock_file s5 = Some s6" "session_ok E s6" "quiet s5 s6"
              have "sends s out s6"
                using quiet_sends(1) [OF q3 quiet_sends(2) [OF b(3) quiet_trans [OF c(3) u(3)]]] .
              moreover have "stored s6 = stored s"
                using quiet_stored [OF c(3)] quiet_stored [OF u(3)] b(4) quiet_stored [OF q3] by simp
              ultimately show ?thesis
                unfolding spec2 using round_works [OF u(2) b(5), of s out "stored s"] b(6,7) l(1) o(1) i(1) b(1) c(1) u(1)
                by (simp add: seg)
            qed
          qed
        qed
      qed
    qed
  qed
qed

lemma leave_works:
  assumes "held E Map.empty s1" "length buf = unat BUFFER_SIZE" "sends s sent s1" "stored s1 = log"
    and "prefix sent out" "steady E \<Longrightarrow> sent = out"
  shows "round_does E s (log, out, False) fine (leave s1 buf)"
proof (rule leave_spec [OF assms(1), of buf])
  fix s2
  assume l: "leave s1 buf = Some (s2, buf, False)" "session_ok E s2" "quiet s1 s2"
  show ?thesis
    unfolding l(1)
    by (rule round_works [OF l(2) assms(2) quiet_sends(2) [OF assms(3) l(3)] _ assms(5,6)])
       (simp_all add: quiet_stored [OF l(3)] assms(4))
qed

lemma write_segment_spec:
  assumes ok: "session_ok E s" and buf: "buf = bs @ 0 # rest" "length buf = unat BUFFER_SIZE" and bs: "bs \<noteq> []"
    and pre: "take 19 bs \<noteq> seekto_prefix"
  shows "round_does E s (a_round E (stored s) bs) (length (snd (stored s)) + length bs < kmalloc_max)
    (write_segment E s buf (of_nat (length bs)))"
proof -
  let ?n = "of_nat (length bs) :: size_t"
  let ?log = "a_write (stored s) bs"
  let ?fine = "length (snd (stored s)) + length bs < kmalloc_max"
  have "length bs \<le> 1023" using buf by (simp add: BUFFER_SIZE_def)
  then have un: "unat ?n = length bs" by (simp add: unat_of_nat)
  have nz: "?n \<noteq> 0" using bs un by (metis length_0_conv unat_0)
  have fits: "unat ?n \<le> length buf" "take (unat ?n) buf = bs" by (simp_all add: un buf(1))
  have nl: "memchr buf 10 (unat ?n) = Some (10 \<in> set bs)" using fits by (simp add: memchr_def)
  have spec: "a_round E (stored s) bs =
      (?log, if 10 \<in> set bs then concat (fst ?log) else [], 10 \<notin> set bs)"
    by (simp add: a_round_def pre Let_def)
  note seg = write_segment_def
  show ?thesis
  proof (rule lock_file_spec [OF ok])
    fix s1
    assume l: "lock_file E s = Some (s1, False)" "session_ok E s1" "quiet s s1" "\<not> steady E"
    show ?thesis using round_fails [OF l(2) buf(2) l(3)] l(1,4) by (simp add: seg)
  next
    fix s1
    assume l: "lock_file E s = Some (s1, True)" "held E Map.empty s1" "quiet s s1"
    show ?thesis
    proof (rule open_dev_spec [OF l(2)])
      fix s2 err
      assume o: "open_dev E s1 = Some (s2, Inl err)" "held E Map.empty s2" "quiet s1 s2" "\<not> steady E"
      show ?thesis
        using leave_fails [OF o(2) buf(2) quiet_trans [OF l(3) o(3)]] l(1) o(1,4) by (simp add: seg)
    next
      fix s2 fd
      assume o: "open_dev E s1 = Some (s2, Inr fd)" "held E [fd \<mapsto> opened 0] s2" "quiet s1 s2"
      note q2 = quiet_trans [OF l(3) o(3)]
      show ?thesis
      proof (rule dev_write_all [OF o(2) nz fits(1)])
        fix s3 r
        assume w: "write_all (dev_write E fd) s2 buf ?n = Some (s3, r)" "r \<noteq> Inr ?n"
          "held E [fd \<mapsto> opened 0] s3" "quiet s2 s3"
          "\<not> (steady E \<and> length (snd (stored s2)) + unat ?n < kmalloc_max)"
        have "\<not> (steady E \<and> ?fine)" using w(5) by (simp add: quiet_stored [OF q2] un)
        then have "round_does E s (a_round E (stored s) bs) ?fine (do { s \<leftarrow> close_dev E fd s3; leave s buf })"
          by (intro close_leave_fails [OF w(3) buf(2) quiet_trans [OF q2 w(4)]]) blast
        then show ?thesis using l(1) o(1) w(1,2) by (simp add: seg)
      next
        fix s3
        assume w: "write_all (dev_write E fd) s2 buf ?n = Some (s3, Inr ?n)" "held E [fd \<mapsto> opened 0] s3"
          "sends s2 [] s3" "stored s3 = a_write (stored s2) (take (unat ?n) buf)"
        have sent3: "sends s [] s3" by (rule quiet_sends(1) [OF q2 w(3)])
        have log3: "stored s3 = ?log" using w(4) by (simp only: fits(2) quiet_stored [OF q2])
        show ?thesis
        proof (rule close_dev_spec [OF w(2)])
          fix s4
          assume c: "close_dev E fd s3 = Some s4" "held E Map.empty s4" "quiet s3 s4"
          have sent4: "sends s [] s4" by (rule quiet_sends(2) [OF sent3 c(3)])
          have log4: "stored s4 = ?log" using log3 by (simp only: quiet_stored [OF c(3)])
          show ?thesis
          proof (cases "10 \<in> set bs")
            case False
            show ?thesis
            proof (rule unlock_file_spec [OF c(2)])
              fix s5
              assume u: "unlock_file s4 = Some s5" "session_ok E s5" "quiet s4 s5"
              have "round_does E s (?log, [], True) ?fine (Some (s5, buf, True))"
                by (rule round_works [OF u(2) buf(2) quiet_sends(2) [OF sent4 u(3)]])
                   (simp_all add: quiet_stored [OF u(3)] log4)
              then show ?thesis
                using l(1) o(1) w(1) c(1) u(1) nl False by (simp add: seg spec)
            qed
          next
            case True
            have spec2: "a_round E (stored s) bs = (?log, concat (fst ?log), False)" using True by (simp add: spec)
            have seg2: "write_segment E s buf ?n =
                do {
                  (s, r) \<leftarrow> open_dev E s4;
                  (case r of
                     Inl err \<Rightarrow> leave s buf
                   | Inr fd \<Rightarrow> do {
                       (s, buf) \<leftarrow> send_back E fd s buf;
                       s \<leftarrow> close_dev E fd s;
                       leave s buf
                     })
                }"
              using l(1) o(1) w(1) c(1) nl True by (simp add: seg)
            show ?thesis
            proof (rule open_dev_spec [OF c(2)])
              fix s5 err
              assume o': "open_dev E s4 = Some (s5, Inl err)" "held E Map.empty s5" "quiet s4 s5" "\<not> steady E"
              show ?thesis
                unfolding spec2
                using leave_works [OF o'(2) buf(2) quiet_sends(2) [OF sent4 o'(3)], of ?log] o'(1,4)
                by (simp add: seg2 quiet_stored [OF o'(3)] log4)
            next
              fix s5 fd'
              assume o': "open_dev E s4 = Some (s5, Inr fd')" "held E [fd' \<mapsto> opened 0] s5" "quiet s4 s5"
              from send_back_spec [OF o'(2) buf(2)] obtain s6 buf' out pos' where
                b: "send_back E fd' s5 buf = Some (s6, buf')" "held E [fd' \<mapsto> opened pos'] s6" "sends s5 out s6"
                  "stored s6 = stored s5" "length buf' = unat BUFFER_SIZE" "prefix out (rest_from 0 s5)"
                  "steady E \<longrightarrow> out = rest_from 0 s5" by blast
              have log5: "stored s5 = ?log" using log4 by (simp only: quiet_stored [OF o'(3)])
              have rest: "rest_from 0 s5 = concat (fst ?log)" by (simp add: rest_from_def log5)
              have sent6: "sends s out s6"
                using sends_trans [OF quiet_sends(2) [OF sent4 o'(3)] b(3)] by simp
              show ?thesis
              proof (rule close_dev_spec [OF b(2)])
                fix s7
                assume c': "close_dev E fd' s6 = Some s7" "held E Map.empty s7" "quiet s6 s7"
                have "round_does E s (?log, concat (fst ?log), False) ?fine (leave s7 buf')"
                  by (rule leave_works [OF c'(2) b(5) quiet_sends(2) [OF sent6 c'(3)]])
                     (use b(4,6,7) log5 rest quiet_stored [OF c'(3)] in simp_all)
                then show ?thesis unfolding spec2 seg2 by (simp add: o'(1) b(1) c'(1))
              qed
            qed
          qed
        qed
      qed
    qed
  qed
qed

text \<open>What has yet to arrive, after a segment of at most 1023 bytes is taken.\<close>

definition next_segment :: "(conn_errno + byte list) list \<Rightarrow> (conn_errno + byte list) \<times> (conn_errno + byte list) list" where
  "next_segment inc =
     (case inc of
        [] \<Rightarrow> (Inr [], [])
      | Inl err # rest \<Rightarrow> (Inl err, rest)
      | Inr bs # rest \<Rightarrow> (Inr (take 1023 bs), if 1023 < length bs then Inr (drop 1023 bs) # rest else rest))"

lemma recv_next:
  "next_segment (incoming s) = (r, rest) \<Longrightarrow>
   recv s (BUFFER_SIZE - 1) = (s\<lparr>incoming := rest, clock := Suc (clock s)\<rparr>, r)"
  by (auto simp: recv_def next_segment_def BUFFER_SIZE_def tick_def split: list.splits sum.splits if_splits)

lemma next_segment_length: "next_segment inc = (Inr bs, rest) \<Longrightarrow> length bs \<le> 1023"
  by (auto simp: next_segment_def split: list.splits sum.splits)

text \<open>The buffer with a segment and its final null, and what the comparison says of it.\<close>

lemma segment_stored:
  assumes "length bs \<le> 1023" and "length buf = unat BUFFER_SIZE"
  shows "store (bs @ [0]) buf = Some (bs @ 0 # drop (Suc (length bs)) buf)"
    and "length (bs @ 0 # drop (Suc (length bs)) buf) = unat BUFFER_SIZE"
    and "strncmp_eq (bs @ 0 # drop (Suc (length bs)) buf) (seekto_prefix @ [0]) 19 = Some (take 19 bs = seekto_prefix)"
proof -
  show "store (bs @ [0]) buf = Some (bs @ 0 # drop (Suc (length bs)) buf)"
    "length (bs @ 0 # drop (Suc (length bs)) buf) = unat BUFFER_SIZE"
    using assms by (simp_all add: store_def BUFFER_SIZE_def)
  have "0 \<notin> set seekto_prefix" "length seekto_prefix = 19" by (simp_all add: seekto_prefix_def)
  then show "strncmp_eq (bs @ 0 # drop (Suc (length bs)) buf) (seekto_prefix @ [0]) 19 =
      Some (take 19 bs = seekto_prefix)"
    using strncmp_eq_lit [of seekto_prefix bs] by metis
qed

lemma client_round_spec:
  assumes ok: "session_ok E s" and buf: "length buf = unat BUFFER_SIZE"
    and inc: "next_segment (incoming s) = (r, rest)"
  shows "round_does E (s\<lparr>incoming := rest\<rparr>)
    (case r of Inl err \<Rightarrow> (stored s, [], False)
     | Inr bs \<Rightarrow> if bs = [] then (stored s, [], False) else a_round E (stored s) bs)
    (case r of Inl err \<Rightarrow> True | Inr bs \<Rightarrow> length (snd (stored s)) + length bs < kmalloc_max)
    (client_round E s buf)"
proof -
  define s1 where s1: "s1 = (s\<lparr>incoming := rest\<rparr>)\<lparr>clock := Suc (clock s)\<rparr>"
  have rc: "recv s (BUFFER_SIZE - 1) = (s1, r)" using recv_next [OF inc] by (simp add: s1)
  let ?s = "s\<lparr>incoming := rest\<rparr>"
  have ok1: "session_ok E s1" and q: "quiet ?s s1" and stored: "stored s1 = stored s"
    using ok by (simp_all add: s1 session_ok_def quiet_def sends_def stored_def)
  have transfer: "round_does E ?s spec fine res" if "round_does E s1 spec fine res" for spec fine res
    using that q by (auto simp: round_does_def quiet_def sends_def split: prod.splits option.splits)
  have stop: "round_does E ?s (stored s, [], False) fine (Some (s1, buf, False))" for fine
    using round_fails [OF ok1 buf q] stored by (simp add: stored_def)
  show ?thesis
  proof (cases r)
    case (Inl err)
    then show ?thesis using stop by (simp add: client_round_def rc)
  next
    case (Inr bs)
    show ?thesis
    proof (cases "bs = []")
      case True
      then show ?thesis using stop Inr by (simp add: client_round_def rc)
    next
      case False
      let ?buf = "bs @ 0 # drop (Suc (length bs)) buf"
      note st = segment_stored [OF next_segment_length [OF inc [unfolded Inr]] buf]
      have run: "client_round E s buf =
          (if take 19 bs = seekto_prefix then seekto_segment E s1 ?buf else write_segment E s1 ?buf (of_nat (length bs)))"
        by (simp add: client_round_def rc Inr False st(1,3))
      have "round_does E s1 (a_round E (stored s1) bs) (length (snd (stored s1)) + length bs < kmalloc_max)
          (client_round E s buf)"
        using seekto_segment_spec [OF ok1 refl st(2)] write_segment_spec [OF ok1 refl st(2) False]
        by (simp add: run)
      from transfer [OF this] show ?thesis by (simp add: Inr False stored)
    qed
  qed
qed

section \<open>The whole session\<close>

text \<open>How much has yet to arrive; every segment with bytes makes it less.\<close>

fun traffic :: "(conn_errno + byte list) list \<Rightarrow> nat" where
  "traffic [] = 0"
| "traffic (Inl err # inc) = Suc (traffic inc)"
| "traffic (Inr bs # inc) = Suc (length bs + traffic inc)"

lemma next_segment_traffic:
  "next_segment inc = (Inr bs, rest) \<Longrightarrow> bs \<noteq> [] \<Longrightarrow> length bs + traffic rest \<le> traffic inc"
  by (cases inc rule: traffic.cases) (auto simp: next_segment_def split: if_splits)

text \<open>The abstract session: the log at its end, what was sent, and what was not received any more.\<close>

function a_session ::
  "surroundings \<Rightarrow> byte list list \<times> byte list \<Rightarrow> (conn_errno + byte list) list \<Rightarrow>
   (byte list list \<times> byte list) \<times> byte list \<times> (conn_errno + byte list) list" where
  "a_session E log inc =
     (case next_segment inc of
        (Inl err, rest) \<Rightarrow> (log, [], rest)
      | (Inr bs, rest) \<Rightarrow>
          if bs = [] then (log, [], rest)
          else (case a_round E log bs of
                  (log, out, go_on) \<Rightarrow>
                    if go_on then (case a_session E log rest of (log, out', rest) \<Rightarrow> (log, out @ out', rest))
                    else (log, out, rest)))"
  by pat_completeness auto

lemma next_segment_less: "next_segment inc = (Inr bs, rest) \<Longrightarrow> bs \<noteq> [] \<Longrightarrow> traffic rest < traffic inc"
  using next_segment_traffic [of inc bs rest] by (cases bs) auto

termination a_session
  by (relation "measure (\<lambda>(E, log, inc). traffic inc)") (simp, metis in_measure case_prod_conv next_segment_less)

declare a_session.simps [simp del]

lemma a_round_pending: "a_round E log bs = (log', out, g) \<Longrightarrow> length (snd log') \<le> length (snd log) + length bs"
  by (auto simp: a_round_def a_write_def Let_def split: if_splits option.splits)

text \<open>In every environment the session ends and leaves everything as a session has to.\<close>

lemma client_loop_safe:
  assumes "session_ok E s" and "length buf = unat BUFFER_SIZE"
  shows "\<exists>s' buf'. client_loop E s buf = Some (s', buf') \<and> session_ok E s' \<and>
    threads s' = threads s \<and> connected s' = connected s \<and> prefix (outgoing s) (outgoing s')"
  using assms
proof (induction "traffic (incoming s)" arbitrary: s buf rule: less_induct)
  case less
  obtain r rest where inc: "next_segment (incoming s) = (r, rest)" by (cases "next_segment (incoming s)")
  from client_round_spec [OF less.prems inc] obtain s1 buf1 go where
    run: "client_round E s buf = Some (s1, buf1, go)"
    by (auto simp: round_does_def split: prod.splits option.splits)
  have ok1: "session_ok E s1" "length buf1 = unat BUFFER_SIZE"
    and fr: "threads s1 = threads s" "connected s1 = connected s" "incoming s1 = rest" "prefix (outgoing s) (outgoing s1)"
    and go: "go \<Longrightarrow> \<exists>bs. r = Inr bs \<and> bs \<noteq> []"
    using client_round_spec [OF less.prems inc] run
    by (auto simp: round_does_def sends_def split: prod.splits option.splits sum.splits if_splits)
  show ?case
  proof (cases go)
    case False
    then have "client_loop E s buf = Some (s1, buf1)" by (subst client_loop.simps) (simp add: run)
    then show ?thesis using ok1 fr by blast
  next
    case True
    then obtain bs where "r = Inr bs" "bs \<noteq> []" using go by blast
    then have "traffic (incoming s1) < traffic (incoming s)"
      using next_segment_less inc fr(3) by simp
    from less.hyps [OF this ok1] obtain s' buf' where
      ih: "client_loop E s1 buf1 = Some (s', buf')" "session_ok E s'" "threads s' = threads s1"
        "connected s' = connected s1" "prefix (outgoing s1) (outgoing s')" by blast
    have "client_loop E s buf = Some (s', buf')" by (subst client_loop.simps) (simp add: run True ih(1))
    then show ?thesis using ih fr by (auto intro: prefix_order.trans)
  qed
qed

text \<open>In a quiet environment it is the abstract session.\<close>

lemma client_loop_refines:
  assumes "session_ok E s" and "length buf = unat BUFFER_SIZE" and "steady E"
    and "length (snd (stored s)) + traffic (incoming s) < kmalloc_max"
    and "a_session E (stored s) (incoming s) = (log, out, rest)"
  shows "\<exists>s' buf'. client_loop E s buf = Some (s', buf') \<and> session_ok E s' \<and>
    threads s' = threads s \<and> connected s' = connected s \<and>
    stored s' = log \<and> outgoing s' = outgoing s @ out \<and> incoming s' = rest"
  using assms
proof (induction "traffic (incoming s)" arbitrary: s buf log out rest rule: less_induct)
  case less
  obtain r rest1 where inc: "next_segment (incoming s) = (r, rest1)" by (cases "next_segment (incoming s)")
  obtain log1 out1 g where spec: "(case r of Inl err \<Rightarrow> (stored s, [], False)
      | Inr bs \<Rightarrow> if bs = [] then (stored s, [], False) else a_round E (stored s) bs) = (log1, out1, g)"
    by (rule prod_cases3)
  have fine: "case r of Inl err \<Rightarrow> True | Inr bs \<Rightarrow> length (snd (stored s)) + length bs < kmalloc_max"
  proof (cases r)
    case (Inr bs)
    show ?thesis
    proof (cases "bs = []")
      case True
      then show ?thesis using Inr less.prems(4) by simp
    next
      case False
      have "length bs \<le> traffic (incoming s)"
        using next_segment_traffic [of "incoming s" bs rest1] inc Inr False by simp
      then show ?thesis using Inr less.prems(4) by simp
    qed
  qed simp
  from client_round_spec [OF less.prems(1,2) inc] less.prems(3) fine obtain s1 buf1 where
    run: "client_round E s buf = Some (s1, buf1, g)"
    and ok1: "session_ok E s1" "length buf1 = unat BUFFER_SIZE"
    and s1: "sends (s\<lparr>incoming := rest1\<rparr>) out1 s1" "stored s1 = log1"
    unfolding spec by (cases "client_round E s buf") (auto simp: round_does_def)
  have fr: "threads s1 = threads s" "connected s1 = connected s" "incoming s1 = rest1"
    "outgoing s1 = outgoing s @ out1" using s1(1) by (simp_all add: sends_def)
  show ?case
  proof (cases g)
    case False
    have "a_session E (stored s) (incoming s) = (log1, out1, rest1)"
      by (subst a_session.simps) (use spec False in \<open>auto simp: inc split: sum.splits if_splits\<close>)
    moreover have "client_loop E s buf = Some (s1, buf1)" by (subst client_loop.simps) (simp add: run False)
    ultimately show ?thesis using ok1 fr s1(2) less.prems(5) by simp
  next
    case True
    then obtain bs where bs: "r = Inr bs" "bs \<noteq> []" "a_round E (stored s) bs = (log1, out1, True)"
      using spec by (auto split: sum.splits if_splits)
    obtain log2 out2 rest2 where more: "a_session E log1 rest1 = (log2, out2, rest2)" by (rule prod_cases3)
    have eq: "log = log2" "out = out1 @ out2" "rest = rest2"
      using less.prems(5) by (subst (asm) a_session.simps, simp add: inc bs more)+
    have tr: "length bs + traffic rest1 \<le> traffic (incoming s)"
      using next_segment_traffic [of "incoming s" bs rest1] inc bs by simp
    have "traffic (incoming s1) < traffic (incoming s)"
      using next_segment_less [of "incoming s" bs rest1] inc bs fr(3) by simp
    moreover have "length (snd (stored s1)) + traffic (incoming s1) < kmalloc_max"
      using a_round_pending [OF bs(3)] tr less.prems(4) by (simp add: s1(2) fr(3))
    moreover have "a_session E (stored s1) (incoming s1) = (log2, out2, rest2)" using more by (simp add: s1(2) fr(3))
    ultimately obtain s' buf' where
      ih: "client_loop E s1 buf1 = Some (s', buf')" "session_ok E s'" "threads s' = threads s1"
        "connected s' = connected s1" "stored s' = log2" "outgoing s' = outgoing s1 @ out2" "incoming s' = rest2"
      using less.hyps [of s1 buf1] ok1 less.prems(3) by blast
    have "client_loop E s buf = Some (s', buf')" by (subst client_loop.simps) (simp add: run True ih(1))
    then show ?thesis using ih fr eq by simp
  qed
qed

section \<open>The thread\<close>

definition block_ok_client :: "byte list option \<Rightarrow> bool" where
  "block_ok_client block \<longleftrightarrow> (\<forall>buf. block = Some buf \<longrightarrow> length buf = unat BUFFER_SIZE)"

text \<open>The clients after a thread has added itself to the list: none is added without memory.\<close>

definition with_client :: "addr option \<Rightarrow> nat \<Rightarrow> bool \<Rightarrow> client list \<Rightarrow> client list" where
  "with_client node t done cs = (case node of None \<Rightarrow> cs | Some a \<Rightarrow> (a, t, done) # cs)"

definition node_ptr :: "addr option \<Rightarrow> addr cptr" where
  "node_ptr node = (case node of None \<Rightarrow> NULL | Some a \<Rightarrow> Ptr a)"

lemma add_thread_client:
  assumes cl: "clients_are l cs" and ok: "list_op_ok (cs, joined l) (Add node t)"
  obtains l' where "add_thread_to_list node t l = Some (l', node_ptr node)"
    "clients_are l' (with_client node t False cs)" "joined l' = joined l"
proof (cases node)
  case None
  then show ?thesis using that cl by (simp add: add_thread_no_memory node_ptr_def with_client_def)
next
  case (Some a)
  from list_op_refined [OF cl ok] obtain l' where
    l': "map_option fst (add_thread_to_list node t l) = Some l'" "clients_are l' ((a, t, False) # cs)" "joined l' = joined l"
    by (auto simp: list_op_def run_list_op_def Some)
  then obtain q where "add_thread_to_list node t l = Some (l', q)" by auto
  moreover from this have "q = Ptr a"
    by (auto simp: add_thread_to_list_def Some Let_def bind_eq_Some_conv)
  ultimately show ?thesis using that l' by (simp add: Some node_ptr_def with_client_def)
qed

lemma mark_completed_client:
  assumes cl: "clients_are l cs" and a: "(a, t, done) \<in> set cs"
  obtains l' where "mark_completed (Ptr a) l = Some l'"
    "clients_are l' (map (\<lambda>c. if fst c = a then (a, fst (snd c), True) else c) cs)" "joined l' = joined l"
proof -
  have "list_op_ok (cs, joined l) (Mark (Ptr a))" using a by force
  from list_op_refined [OF cl this] show ?thesis
    using that by (auto simp: list_op_def run_list_op_def)
qed

lemma clients_distinct: "clients_are l cs \<Longrightarrow> distinct (map fst cs) \<and> distinct (joined l @ map (\<lambda>c. fst (snd c)) cs)"
proof -
  assume "clients_are l cs"
  then obtain as where as: "list_ok l as" and cs: "cs = map (client_of l) as" by (auto simp: clients_are_def)
  have "map fst cs = as" by (simp add: cs o_def)
  then show ?thesis unfolding cs clients_threads using as by (simp add: list_ok_def)
qed

lemma handle_client_ends:
  assumes cl: "clients_are (threads s) cs" and new: "list_op_ok (cs, joined (threads s)) (Add node t)"
    and run: "\<And>l. case block of None \<Rightarrow> P (s\<lparr>threads := l\<rparr>)
      | Some buf \<Rightarrow> \<exists>s1 buf1. client_loop E (s\<lparr>threads := l\<rparr>) buf = Some (s1, buf1) \<and> threads s1 = l \<and> P s1"
  obtains s1 l where "P s1" "handle_client E t node block s = Some (s1\<lparr>connected := False, threads := l\<rparr>)"
    "clients_are l (with_client node t True cs)" "joined l = joined (threads s)"
proof -
  from add_thread_client [OF cl new] obtain l where
    l: "add_thread_to_list node t (threads s) = Some (l, node_ptr node)" "clients_are l (with_client node t False cs)"
      "joined l = joined (threads s)" .
  let ?run = "case block of None \<Rightarrow> Some (s\<lparr>threads := l\<rparr>) | Some buf \<Rightarrow> map_option fst (client_loop E (s\<lparr>threads := l\<rparr>) buf)"
  obtain s1 where s1: "?run = Some s1" "threads s1 = l" "P s1"
    using run [of l] by (cases block) auto
  obtain l' where l': "mark_completed (node_ptr node) l = Some l'" "clients_are l' (with_client node t True cs)"
    "joined l' = joined l"
  proof (cases node)
    case None
    then show ?thesis using that l(2) by (simp add: node_ptr_def mark_completed_def with_client_def)
  next
    case (Some a)
    have cl1: "clients_are l ((a, t, False) # cs)" using l(2) by (simp add: Some with_client_def)
    have "(a, t, False) \<in> set ((a, t, False) # cs)" by simp
    from mark_completed_client [OF cl1 this] obtain l' where
      m: "mark_completed (Ptr a) l = Some l'"
        "clients_are l' (map (\<lambda>c. if fst c = a then (a, fst (snd c), True) else c) ((a, t, False) # cs))"
        "joined l' = joined l" .
    have "\<forall>c\<in>set cs. fst c \<noteq> a" using clients_distinct [OF cl1] by force
    then have "map (\<lambda>c. if fst c = a then (a, fst (snd c), True) else c) ((a, t, False) # cs) = (a, t, True) # cs"
      by (simp add: map_idI)
    then show ?thesis using that m by (simp add: Some node_ptr_def with_client_def)
  qed
  have "handle_client E t node block s = Some (s1\<lparr>connected := False, threads := l'\<rparr>)"
    using l(1) l'(1) s1(1,2) by (simp add: handle_client_def Let_def)
  then show ?thesis using that s1(3) l'(2,3) l(3) by simp
qed

end
