(* ===== verification/Server.thy ===== *)
theory Server
  imports Client_Session
begin

text \<open>
  The server as a whole (\<open>server/aesdsocket.c\<close>, \<open>signal_handler.c\<close>, \<open>setup_server_socket\<close>): the
  main thread that accepts clients and removes those that have ended, the threads of the
  clients with their steps in any order, and the clean-up at the end. A client holds
  \<open>file_mutex\<close> during all it does on the device in a round, so a round is one step.
\<close>

section \<open>The listening socket\<close>

text \<open>The global \<open>server_socket\<close> and the sockets of the process that are open.\<close>

record listener =
  server_socket :: int
  open_socks :: "int list"

text \<open>The answers of the system: of \<open>socket\<close>, \<open>setsockopt\<close>, \<open>bind\<close> and \<open>listen\<close>.\<close>

record setup_answers =
  ans_socket :: "errno + int"
  ans_setsockopt :: "errno option"
  ans_bind :: "errno option"
  ans_listen :: "errno option"

text \<open>Closing a descriptor that is not open is an error without effect.\<close>

definition close_sock :: "int \<Rightarrow> listener \<Rightarrow> listener" where
  "close_sock fd s = s\<lparr>open_socks := removeAll fd (open_socks s)\<rparr>"

definition setup_server_socket :: "'z setup_answers_scheme \<Rightarrow> listener \<Rightarrow> listener \<times> int" where
  "setup_server_socket a s =
     (case ans_socket a of
        Inl err \<Rightarrow> (s\<lparr>server_socket := - 1\<rparr>, - 1)
      | Inr fd \<Rightarrow>
          (let s = s\<lparr>server_socket := fd, open_socks := fd # open_socks s\<rparr> in
           if ans_setsockopt a \<noteq> None then (close_sock (server_socket s) s, - 1)
           else if ans_bind a \<noteq> None then (close_sock (server_socket s) s, - 1)
           else if ans_listen a \<noteq> None then (close_sock (server_socket s) s, - 1)
           else (s, 0)))"

section \<open>The state of the server\<close>

text \<open>
  A client thread: created by the main thread, receiving with its buffer, leaving its loop, and
  ended.
\<close>

datatype phase = Created | Receiving "byte list" | Leaving | Ended

record client_thread =
  phase :: phase
  my_node :: "addr cptr"
  inbox :: "(conn_errno + byte list) list"
  outbox :: "byte list"
  online :: bool

record server =
  keep_running :: bool
  listening :: listener
  sv_machine :: world
  sv_file_mutex :: pmutex
  sv_threads :: thread_list
  sv_clients :: "nat \<Rightarrow> client_thread option"
  sv_clock :: nat

text \<open>What a client thread sees, and what it leaves.\<close>

definition session_of :: "'z server_scheme \<Rightarrow> client_thread \<Rightarrow> session" where
  "session_of S c =
     \<lparr>machine = sv_machine S, file_mutex = sv_file_mutex S, threads = sv_threads S, connected = online c,
      incoming = inbox c, outgoing = outbox c, clock = sv_clock S\<rparr>"

definition put_session :: "nat \<Rightarrow> client_thread \<Rightarrow> 'y session_scheme \<Rightarrow> 'z server_scheme \<Rightarrow> 'z server_scheme" where
  "put_session t c s S =
     S\<lparr>sv_machine := machine s, sv_file_mutex := file_mutex s, sv_threads := threads s, sv_clock := clock s,
       sv_clients := (sv_clients S)(t \<mapsto> c\<lparr>inbox := incoming s, outbox := outgoing s, online := connected s\<rparr>)\<rparr>"

section \<open>The steps\<close>

text \<open>
  A turn of the loop of the main thread: \<open>accept\<close> fails, or it gives a connection, whose traffic is \<open>inc\<close>; then there
  is no memory for the data of the thread, no thread can be created, or the thread \<open>t\<close> is created. A client thread
  starts, makes a round or leaves. The main thread removes the clients that have ended.
\<close>

datatype accept_answer = No_connection | No_data | No_thread | Thread_created

datatype action =
    Accept nat "(conn_errno + byte list) list" accept_answer
  | Start nat "addr option" "byte list option"
  | Round nat
  | Finish nat
  | Remove

text \<open>
  Without a thread the loop goes on: the connection, if there is one, is closed unread and its data freed, which
  nothing else has seen.
\<close>

definition accept_client ::
  "nat \<Rightarrow> (conn_errno + byte list) list \<Rightarrow> accept_answer \<Rightarrow> 'z server_scheme \<Rightarrow> 'z server_scheme" where
  "accept_client t inc ans S =
     (case ans of
        No_connection \<Rightarrow> S
      | No_data \<Rightarrow> S
      | No_thread \<Rightarrow> S
      | Thread_created \<Rightarrow>
          S\<lparr>sv_clients := (sv_clients S)(t \<mapsto>
             \<lparr>phase = Created, my_node = NULL, inbox = inc, outbox = [], online = True\<rparr>)\<rparr>)"

text \<open>The beginning of \<open>handle_client\<close>, up to its loop.\<close>

definition start_client ::
  "nat \<Rightarrow> addr option \<Rightarrow> byte list option \<Rightarrow> client_thread \<Rightarrow> 'z server_scheme \<Rightarrow> 'z server_scheme option" where
  "start_client t node block c S = do {
     (l, q) \<leftarrow> add_thread_to_list node t (sv_threads S);
     let c = c\<lparr>my_node := q, phase := (case block of None \<Rightarrow> Leaving | Some buf \<Rightarrow> Receiving buf)\<rparr>;
     Some (S\<lparr>sv_threads := l, sv_clients := (sv_clients S)(t \<mapsto> c)\<rparr>)
   }"

definition round_client :: "surroundings \<Rightarrow> nat \<Rightarrow> byte list \<Rightarrow> client_thread \<Rightarrow> server \<Rightarrow> server option" where
  "round_client E t buf c S = do {
     (s, buf, go_on) \<leftarrow> client_round E (session_of S c) buf;
     Some (put_session t (c\<lparr>phase := (if go_on then Receiving buf else Leaving)\<rparr>) s S)
   }"

text \<open>The end of \<open>handle_client\<close>, from the label \<open>cleanup\<close> on.\<close>

definition finish_client :: "nat \<Rightarrow> client_thread \<Rightarrow> 'z server_scheme \<Rightarrow> 'z server_scheme option" where
  "finish_client t c S = do {
     l \<leftarrow> mark_completed (my_node c) (sv_threads S);
     Some (S\<lparr>sv_threads := l, sv_clients := (sv_clients S)(t \<mapsto> c\<lparr>phase := Ended, online := False\<rparr>)\<rparr>)
   }"

text \<open>
  A step, with \<open>round\<close> for what a round of a client does. An action of a thread that is not at that
  point does nothing.
\<close>

definition run_with ::
  "(nat \<Rightarrow> byte list \<Rightarrow> client_thread \<Rightarrow> 'z server_scheme \<Rightarrow> 'z server_scheme option) \<Rightarrow>
   action \<Rightarrow> 'z server_scheme \<Rightarrow> 'z server_scheme option" where
  "run_with round a S =
     (case a of
        Accept t inc ans \<Rightarrow> Some (if keep_running S then accept_client t inc ans S else S)
      | Start t node block \<Rightarrow>
          (case sv_clients S t of
             Some c \<Rightarrow> if phase c = Created then start_client t node block c S else Some S
           | None \<Rightarrow> Some S)
      | Round t \<Rightarrow>
          (case sv_clients S t of
             Some c \<Rightarrow> (case phase c of Receiving buf \<Rightarrow> round t buf c S | _ \<Rightarrow> Some S)
           | None \<Rightarrow> Some S)
      | Finish t \<Rightarrow>
          (case sv_clients S t of
             Some c \<Rightarrow> if phase c = Leaving then finish_client t c S else Some S
           | None \<Rightarrow> Some S)
      | Remove \<Rightarrow> map_option (\<lambda>l. S\<lparr>sv_threads := l\<rparr>) (remove_completed_threads (sv_threads S)))"

definition run_action :: "surroundings \<Rightarrow> action \<Rightarrow> server \<Rightarrow> server option" where
  "run_action E = run_with (round_client E)"

text \<open>
  What the system keeps to: a new thread is a new one, \<open>malloc\<close> gives a node that is not in use
  and a buffer of the size asked for.
\<close>

definition action_ok :: "action \<Rightarrow> 'z server_scheme \<Rightarrow> bool" where
  "action_ok a S =
     (case a of
        Accept t inc ans \<Rightarrow> sv_clients S t = None
      | Start t node block \<Rightarrow> (\<forall>p. node = Some p \<longrightarrow> nodes (sv_threads S) p = None) \<and> block_ok_client block
      | _ \<Rightarrow> True)"

text \<open>The server before its loop, on the loaded driver.\<close>

definition server_start :: "listener \<Rightarrow> world \<Rightarrow> server" where
  "server_start l w =
     \<lparr>keep_running = True, listening = l, sv_machine = w, sv_file_mutex = Free, sv_threads = no_threads,
      sv_clients = Map.empty, sv_clock = 0\<rparr>"

inductive server_reachable :: "surroundings \<Rightarrow> server \<Rightarrow> bool" for E where
  start: "booted w \<Longrightarrow> server_reachable E (server_start l w)"
| step: "server_reachable E S \<Longrightarrow> action_ok a S \<Longrightarrow> run_action E a S = Some S' \<Longrightarrow> server_reachable E S'"

section \<open>Shutting down\<close>

text \<open>Destroying a mutex that is locked, or a second time, is undefined.\<close>

definition pthread_mutex_destroy :: "pmutex \<Rightarrow> pmutex option" where
  "pthread_mutex_destroy m = (if m = Free then Some Destroyed else None)"

definition cleanup_on_signal :: "'z server_scheme \<Rightarrow> 'z server_scheme option" where
  "cleanup_on_signal S = do {
     let S = (if server_socket (listening S) \<noteq> - 1
              then S\<lparr>listening := close_sock (server_socket (listening S)) (listening S)\<rparr> else S);
     l \<leftarrow> cleanup_thread_list (sv_threads S);
     let S = S\<lparr>sv_threads := l\<rparr>;
     m \<leftarrow> pthread_mutex_destroy (sv_file_mutex S);
     let S = S\<lparr>sv_file_mutex := m\<rparr>;
     m \<leftarrow> pthread_mutex_destroy (thread_list_mutex (sv_threads S));
     Some (S\<lparr>sv_threads := (sv_threads S)\<lparr>thread_list_mutex := m\<rparr>\<rparr>)
   }"

lemma file_mutex_held_stuck: "sv_file_mutex S \<noteq> Free \<Longrightarrow> cleanup_on_signal S = None"
  by (auto simp: cleanup_on_signal_def pthread_mutex_destroy_def Let_def bind_eq_None_conv split: option.splits)

definition signal_handler :: "server \<Rightarrow> server option" where
  "signal_handler S = cleanup_on_signal (S\<lparr>keep_running := False\<rparr>)"

text \<open>
  A handler that runs in a thread that holds \<open>file_mutex\<close>, or while another does, has no defined end.
\<close>

lemma handler_in_holder: "sv_file_mutex S \<noteq> Free \<Longrightarrow> signal_handler S = None"
  by (simp add: signal_handler_def file_mutex_held_stuck)

text \<open>
  A signal while the main thread waits in \<open>accept\<close>: the handler runs, the call fails, the loop
  ends and the main thread cleans up.
\<close>

definition main_exit :: "server \<Rightarrow> server option" where
  "main_exit S = do { S \<leftarrow> signal_handler S; cleanup_on_signal S }"

text \<open>
  The start of \<open>main\<close>: the handlers that could be installed, and the running server, or \<open>-1\<close> when
  the socket cannot be set up or the process cannot become a daemon.
\<close>

datatype signal = SIGINT | SIGTERM

record start_answers = setup_answers +
  ans_sigaction :: "signal \<Rightarrow> errno option"
  ans_daemon :: "errno option"

definition init_signal_handlers :: "(signal \<Rightarrow> errno option) \<Rightarrow> signal list" where
  "init_signal_handlers ans = filter (\<lambda>sg. ans sg = None) [SIGINT, SIGTERM]"

definition daemon_mode :: "string list \<Rightarrow> bool" where
  "daemon_mode argv \<longleftrightarrow> length argv = 2 \<and> argv ! 1 = ''-d''"

definition main_start :: "string list \<Rightarrow> start_answers \<Rightarrow> world \<Rightarrow> (signal list \<times> server \<times> int) option" where
  "main_start argv a w =
     (let handled = init_signal_handlers (ans_sigaction a);
          (l, r) = setup_server_socket a \<lparr>server_socket = - 1, open_socks = []\<rparr>;
          S = server_start l w
      in if r \<noteq> 0 \<or> daemon_mode argv \<and> ans_daemon a \<noteq> None
         then map_option (\<lambda>S. (handled, S, - 1)) (cleanup_on_signal S)
         else Some (handled, S, 0))"

section \<open>The invariant\<close>

text \<open>A thread and its node: the node is in the list, not marked, while the thread can still use it.\<close>

definition listed :: "client list \<Rightarrow> nat \<Rightarrow> addr cptr \<Rightarrow> bool" where
  "listed cs t q \<longleftrightarrow> (\<forall>a d. (a, t, d) \<in> set cs \<longleftrightarrow> q = Ptr a \<and> \<not> d)"

definition client_fits :: "client list \<Rightarrow> nat list \<Rightarrow> nat \<Rightarrow> client_thread \<Rightarrow> bool" where
  "client_fits cs j t c \<longleftrightarrow>
     (case phase c of
        Created \<Rightarrow> t \<notin> set j \<and> (\<forall>a d. (a, t, d) \<notin> set cs)
      | Receiving buf \<Rightarrow> length buf = unat BUFFER_SIZE \<and> listed cs t (my_node c)
      | Leaving \<Rightarrow> listed cs t (my_node c)
      | Ended \<Rightarrow> (\<forall>a. (a, t, False) \<notin> set cs))"

definition clients_fit :: "client list \<Rightarrow> nat list \<Rightarrow> (nat \<Rightarrow> client_thread option) \<Rightarrow> bool" where
  "clients_fit cs j cl \<longleftrightarrow>
     set j \<union> (\<lambda>c. fst (snd c)) ` set cs \<subseteq> dom cl \<and> (\<forall>t c. cl t = Some c \<longrightarrow> client_fits cs j t c)"

definition threads_inv :: "'z server_scheme \<Rightarrow> bool" where
  "threads_inv S \<longleftrightarrow> (\<exists>cs. clients_are (sv_threads S) cs \<and> clients_fit cs (joined (sv_threads S)) (sv_clients S))"

text \<open>What a round on the device relies on.\<close>

definition world_free :: "server \<Rightarrow> bool" where
  "world_free S \<longleftrightarrow> world_inv (sv_machine S) \<and> files (sv_machine S) = Map.empty \<and> sv_file_mutex S = Free"

definition server_inv :: "server \<Rightarrow> bool" where
  "server_inv S \<longleftrightarrow> world_free S \<and> threads_inv S"

lemma threads_inv_I:
  "clients_are (sv_threads S) cs \<Longrightarrow> clients_fit cs (joined (sv_threads S)) (sv_clients S) \<Longrightarrow> threads_inv S"
  by (auto simp: threads_inv_def)

lemma threads_invE:
  assumes "threads_inv S"
  obtains cs where "clients_are (sv_threads S) cs" "clients_fit cs (joined (sv_threads S)) (sv_clients S)"
  using assms by (auto simp: threads_inv_def)

lemma start_threads: "threads_inv (server_start l w)"
  using no_threads_clients by (auto simp: threads_inv_def server_start_def clients_fit_def)

lemma start_inv: "booted w \<Longrightarrow> server_inv (server_start l w)"
  using booted_inv start_threads
  by (auto simp: server_inv_def world_free_def server_start_def booted_def)

lemma session_of_ok:
  "world_free S \<Longrightarrow> undisturbed E \<Longrightarrow> sane E \<Longrightarrow> session_ok E (session_of S c)"
  by (auto simp: world_free_def session_ok_def session_of_def)

lemma clients_fit_upd:
  assumes "clients_fit cs j cl" and "cl t \<noteq> None" and "client_fits cs j t c"
  shows "clients_fit cs j (cl(t \<mapsto> c))"
  using assms by (auto simp: clients_fit_def)

lemma clients_fitD:
  assumes "clients_fit cs j cl"
  shows "set j \<subseteq> dom cl" "(a, t, d) \<in> set cs \<Longrightarrow> t \<in> dom cl" "cl t = Some c \<Longrightarrow> client_fits cs j t c"
  using assms by (force simp: clients_fit_def)+

text \<open>A thread is not concerned by what happens to others.\<close>

lemma client_fits_other:
  assumes "client_fits cs j t c" and "\<And>a d. (a, t, d) \<in> set cs' \<longleftrightarrow> (a, t, d) \<in> set cs"
    and "t \<in> set j' \<Longrightarrow> t \<in> set j"
  shows "client_fits cs' j' t c"
  using assms by (auto simp: client_fits_def listed_def split: phase.splits)

lemma clients_fit_step:
  assumes fit: "clients_fit cs j cl" and c: "client_fits cs' j' t c"
    and other: "\<And>a t' d. t' \<noteq> t \<Longrightarrow> (a, t', d) \<in> set cs' \<longleftrightarrow> (a, t', d) \<in> set cs"
    and joined: "set j' \<subseteq> set j"
  shows "clients_fit cs' j' (cl(t \<mapsto> c))"
  unfolding clients_fit_def
proof (intro conjI allI impI)
  show "set j' \<union> (\<lambda>c. fst (snd c)) ` set cs' \<subseteq> dom (cl(t \<mapsto> c))"
    using joined other clients_fitD(1,2) [OF fit] by (fastforce simp: image_iff)
  show "client_fits cs' j' t' c'" if "(cl(t \<mapsto> c)) t' = Some c'" for t' c'
  proof (cases "t' = t")
    case True
    then show ?thesis using that c by simp
  next
    case False
    then show ?thesis
      using that client_fits_other [OF clients_fitD(3) [OF fit], of t' c' cs' j'] other joined by auto
  qed
qed

section \<open>Every step keeps the invariant\<close>

lemma accept_threads:
  assumes inv: "threads_inv S" and new: "sv_clients S t = None"
  shows "threads_inv (accept_client t inc ans S)"
proof (cases "ans = Thread_created")
  case False
  then have "accept_client t inc ans S = S" by (simp add: accept_client_def split: accept_answer.split)
  then show ?thesis using inv by simp
next
  case True
  from threads_invE [OF inv] obtain cs where cs: "clients_are (sv_threads S) cs"
    and fit: "clients_fit cs (joined (sv_threads S)) (sv_clients S)" .
  have "client_fits cs (joined (sv_threads S)) t
      \<lparr>phase = Created, my_node = NULL, inbox = inc, outbox = [], online = True\<rparr>"
    using clients_fitD(1,2) [OF fit] new by (auto simp: client_fits_def)
  from clients_fit_step [OF fit this] show ?thesis
    using cs by (auto simp: threads_inv_def accept_client_def True)
qed

lemma start_threads_inv:
  assumes inv: "threads_inv S" and c: "sv_clients S t = Some c" "phase c = Created"
    and ok: "action_ok (Start t node block) S"
  obtains l c' where "start_client t node block c S = Some (S\<lparr>sv_threads := l, sv_clients := (sv_clients S)(t \<mapsto> c')\<rparr>)"
    "threads_inv (S\<lparr>sv_threads := l, sv_clients := (sv_clients S)(t \<mapsto> c')\<rparr>)"
proof -
  from threads_invE [OF inv] obtain cs where cs: "clients_are (sv_threads S) cs"
    and fit: "clients_fit cs (joined (sv_threads S)) (sv_clients S)" .
  have fresh: "t \<notin> set (joined (sv_threads S))" "\<And>a d. (a, t, d) \<notin> set cs"
    using clients_fitD(3) [OF fit c(1)] c(2) by (auto simp: client_fits_def)
  obtain as where as: "list_ok (sv_threads S) as" "cs = map (client_of (sv_threads S)) as"
    using cs by (auto simp: clients_are_def)
  have "fst ` set cs = set as" by (simp add: as(2) image_image)
  then have "fst ` set cs = dom (nodes (sv_threads S))" using as(1) by (simp add: list_ok_def)
  then have new: "list_op_ok (cs, joined (sv_threads S)) (Add node t)"
    using ok fresh by (cases node) (auto simp: action_ok_def)
  from add_thread_client [OF cs new] obtain l where
    l: "add_thread_to_list node t (sv_threads S) = Some (l, node_ptr node)" "clients_are l (with_client node t False cs)"
      "joined l = joined (sv_threads S)" .
  let ?c = "c\<lparr>my_node := node_ptr node, phase := (case block of None \<Rightarrow> Leaving | Some buf \<Rightarrow> Receiving buf)\<rparr>"
  have "listed (with_client node t False cs) t (node_ptr node)"
    using fresh(2) by (auto simp: listed_def with_client_def node_ptr_def split: option.splits)
  then have "client_fits (with_client node t False cs) (joined l) t ?c"
    using ok by (auto simp: client_fits_def action_ok_def block_ok_client_def split: option.split)
  from clients_fit_step [OF fit this] have "clients_fit (with_client node t False cs) (joined l) ((sv_clients S)(t \<mapsto> ?c))"
    by (auto simp: with_client_def l(3) split: option.splits)
  with l(2) have "threads_inv (S\<lparr>sv_threads := l, sv_clients := (sv_clients S)(t \<mapsto> ?c)\<rparr>)"
    by (auto simp: threads_inv_def)
  then show ?thesis using that l(1) by (simp add: start_client_def Let_def)
qed

lemma finish_threads_inv:
  assumes inv: "threads_inv S" and c: "sv_clients S t = Some c" "phase c = Leaving"
  obtains l c' where "finish_client t c S = Some (S\<lparr>sv_threads := l, sv_clients := (sv_clients S)(t \<mapsto> c')\<rparr>)"
    "threads_inv (S\<lparr>sv_threads := l, sv_clients := (sv_clients S)(t \<mapsto> c')\<rparr>)"
proof -
  from threads_invE [OF inv] obtain cs where cs: "clients_are (sv_threads S) cs"
    and fit: "clients_fit cs (joined (sv_threads S)) (sv_clients S)" .
  have listed: "listed cs t (my_node c)" using clients_fitD(3) [OF fit c(1)] c(2) by (simp add: client_fits_def)
  let ?c = "c\<lparr>phase := Ended, online := False\<rparr>"
  obtain l cs' where l: "mark_completed (my_node c) (sv_threads S) = Some l" "clients_are l cs'"
    "joined l = joined (sv_threads S)" "client_fits cs' (joined l) t ?c"
    "\<And>a t' d. t' \<noteq> t \<Longrightarrow> (a, t', d) \<in> set cs' \<longleftrightarrow> (a, t', d) \<in> set cs"
  proof (cases "my_node c")
    case NULL
    then have "client_fits cs (joined (sv_threads S)) t ?c" using listed by (auto simp: client_fits_def listed_def)
    then show ?thesis using that [of "sv_threads S" cs] NULL cs by (simp add: mark_completed_def)
  next
    case (Ptr a)
    then have a: "(a, t, False) \<in> set cs" using listed by (simp add: listed_def)
    let ?cs = "map (\<lambda>c. if fst c = a then (a, fst (snd c), True) else c) cs"
    from mark_completed_client [OF cs a] obtain l where
      m: "mark_completed (Ptr a) (sv_threads S) = Some l" "clients_are l ?cs" "joined l = joined (sv_threads S)" .
    have only: "x = (a, t, False)" if "x \<in> set cs" "fst x = a" for x
      using that a clients_distinct [OF cs] by (auto simp: distinct_map inj_on_def)
    have "(b, t, False) \<notin> set ?cs" for b
    proof
      assume "(b, t, False) \<in> set ?cs"
      then have "b \<noteq> a" "(b, t, False) \<in> set cs" by (auto split: if_splits)
      then show False using listed Ptr by (simp add: listed_def)
    qed
    then have "client_fits ?cs (joined l) t ?c" by (simp add: client_fits_def)
    moreover have "(b, t', d) \<in> set ?cs \<longleftrightarrow> (b, t', d) \<in> set cs" if "t' \<noteq> t" for b t' d
    proof
      assume "(b, t', d) \<in> set ?cs"
      then obtain x where x: "x \<in> set cs" "(b, t', d) = (if fst x = a then (a, fst (snd x), True) else x)" by auto
      then have "fst x \<noteq> a" using only [OF x(1)] that by (auto split: if_splits)
      then show "(b, t', d) \<in> set cs" using x by simp
    next
      assume x: "(b, t', d) \<in> set cs"
      then have "b \<noteq> a" using only [OF x] that by auto
      then show "(b, t', d) \<in> set ?cs" using x by force
    qed
    ultimately show ?thesis using that m by (simp add: Ptr)
  qed
  have "clients_fit cs' (joined l) ((sv_clients S)(t \<mapsto> ?c))"
    by (rule clients_fit_step [OF fit l(4,5)]) (simp_all add: l(3))
  with l(2) have "threads_inv (S\<lparr>sv_threads := l, sv_clients := (sv_clients S)(t \<mapsto> ?c)\<rparr>)"
    by (auto simp: threads_inv_def)
  then show ?thesis using that l(1) by (simp add: finish_client_def)
qed

lemma remove_threads_inv:
  assumes inv: "threads_inv S"
  obtains l where "remove_completed_threads (sv_threads S) = Some l" "threads_inv (S\<lparr>sv_threads := l\<rparr>)"
proof -
  from threads_invE [OF inv] obtain cs where cs: "clients_are (sv_threads S) cs"
    and fit: "clients_fit cs (joined (sv_threads S)) (sv_clients S)" .
  let ?cs = "filter (\<lambda>c. \<not> ended c) cs"
  have "list_op_ok (cs, joined (sv_threads S)) Remove'" if "Remove' = Reap" for Remove' using that by simp
  from list_op_refined [OF cs this [OF refl]] obtain l where
    l: "remove_completed_threads (sv_threads S) = Some l" "clients_are l ?cs"
      "joined l = joined (sv_threads S) @ map (\<lambda>c. fst (snd c)) (filter ended cs)"
    by (auto simp: list_op_def run_list_op_def)
  have "clients_fit ?cs (joined l) (sv_clients S)"
    unfolding clients_fit_def
  proof (intro conjI allI impI)
    show "set (joined l) \<union> (\<lambda>c. fst (snd c)) ` set ?cs \<subseteq> dom (sv_clients S)"
      using fit by (auto simp: clients_fit_def l(3))
    show "client_fits ?cs (joined l) t c" if "sv_clients S t = Some c" for t c
      using clients_fitD(3) [OF fit that]
      by (auto simp: client_fits_def listed_def ended_def l(3) split: phase.splits)
  qed
  with l(2) have "threads_inv (S\<lparr>sv_threads := l\<rparr>)" by (auto simp: threads_inv_def)
  then show ?thesis using that l(1) by simp
qed

section \<open>Shutting down\<close>

definition running :: "client_thread \<Rightarrow> bool" where
  "running c \<longleftrightarrow> my_node c \<noteq> NULL \<and> (case phase c of Receiving buf \<Rightarrow> True | Leaving \<Rightarrow> True | _ \<Rightarrow> False)"

lemma cleanup_on_signal_spec:
  assumes inv: "threads_inv S" and w: "sv_file_mutex S = Free"
  shows "cleanup_on_signal S = None \<longleftrightarrow> (\<exists>t c. sv_clients S t = Some c \<and> running c)"
    and "cleanup_on_signal S = Some S' \<Longrightarrow>
      sv_file_mutex S' = Destroyed \<and> thread_list_mutex (sv_threads S') = Destroyed \<and>
      nodes (sv_threads S') = Map.empty \<and> server_socket (listening S') \<notin> set (open_socks (listening S')) - {- 1}"
proof -
  from threads_invE [OF inv] obtain cs where cs: "clients_are (sv_threads S) cs"
    and fit: "clients_fit cs (joined (sv_threads S)) (sv_clients S)" .
  have runs: "list_all ended cs \<longleftrightarrow> \<not> (\<exists>t c. sv_clients S t = Some c \<and> running c)"
  proof (rule iffI; rule ccontr)
    assume all: "list_all ended cs" and "\<not> \<not> (\<exists>t c. sv_clients S t = Some c \<and> running c)"
    then obtain t c where c: "sv_clients S t = Some c" "running c" by blast
    then obtain a where "my_node c = Ptr a" by (auto simp: running_def)
    then have "(a, t, False) \<in> set cs"
      using clients_fitD(3) [OF fit c(1)] c(2)
      by (auto simp: running_def client_fits_def listed_def split: phase.splits)
    then show False using all by (auto simp: list_all_iff ended_def)
  next
    assume none: "\<not> (\<exists>t c. sv_clients S t = Some c \<and> running c)" and "\<not> list_all ended cs"
    then obtain a t where a: "(a, t, False) \<in> set cs" by (auto simp: list_all_iff ended_def)
    then obtain c where c: "sv_clients S t = Some c" using clients_fitD(2) [OF fit] by blast
    then have "running c"
      using clients_fitD(3) [OF fit c] a by (auto simp: running_def client_fits_def listed_def split: phase.splits)
    then show False using none c by blast
  qed
  have "list_op_ok (cs, joined (sv_threads S)) Clean_up" by simp
  note clean = list_op_refined [OF cs this]
  have mutex: "thread_list_mutex l = Free" "nodes l = Map.empty" if "clients_are l []" for l
    using that by (auto simp: clients_are_def list_ok_def)
  have "cleanup_on_signal S = None \<longleftrightarrow> \<not> list_all ended cs"
    using clean w mutex
    by (auto simp: cleanup_on_signal_def list_op_def run_list_op_def Let_def pthread_mutex_destroy_def
        split: if_splits)
  then show "cleanup_on_signal S = None \<longleftrightarrow> (\<exists>t c. sv_clients S t = Some c \<and> running c)"
    using runs by blast
  show "sv_file_mutex S' = Destroyed \<and> thread_list_mutex (sv_threads S') = Destroyed \<and>
      nodes (sv_threads S') = Map.empty \<and> server_socket (listening S') \<notin> set (open_socks (listening S')) - {- 1}"
    if "cleanup_on_signal S = Some S'"
    using that clean w mutex
    by (auto simp: cleanup_on_signal_def list_op_def run_list_op_def Let_def pthread_mutex_destroy_def
        bind_eq_Some_conv close_sock_def split: if_splits)
qed

text \<open>The second clean-up locks a destroyed mutex.\<close>

lemma cleanup_destroyed:
  "thread_list_mutex (sv_threads S) = Destroyed \<Longrightarrow> cleanup_on_signal S = None"
  by (simp add: cleanup_on_signal_def cleanup_thread_list_def lock_list_def pthread_mutex_lock_def Let_def)

section \<open>Starting\<close>

lemma cleanup_start:
  obtains S where "cleanup_on_signal (server_start l w) = Some S"
    "listening S = (if server_socket l \<noteq> - 1 then close_sock (server_socket l) l else l)"
proof -
  have free: "sv_file_mutex (server_start l w) = Free" "sv_clients (server_start l w) = Map.empty"
    by (simp_all add: server_start_def)
  then have "cleanup_on_signal (server_start l w) \<noteq> None"
    using cleanup_on_signal_spec(1) [OF start_threads free(1)] by simp
  then obtain S where S: "cleanup_on_signal (server_start l w) = Some S" by blast
  then have "listening S = (if server_socket l \<noteq> - 1 then close_sock (server_socket l) l else l)"
    by (auto simp: cleanup_on_signal_def server_start_def Let_def bind_eq_Some_conv split: if_splits)
  then show ?thesis using that S by blast
qed

text \<open>When \<open>main\<close> fails: a call on the socket fails, or \<open>daemon\<close> in the mode \<open>-d\<close>.\<close>

definition start_fails :: "string list \<Rightarrow> start_answers \<Rightarrow> bool" where
  "start_fails argv a \<longleftrightarrow> (\<exists>err. ans_socket a = Inl err) \<or> ans_setsockopt a \<noteq> None \<or> ans_bind a \<noteq> None \<or>
     ans_listen a \<noteq> None \<or> daemon_mode argv \<and> ans_daemon a \<noteq> None"

text \<open>Then no socket stays open; otherwise the server runs with its one socket.\<close>

lemma main_start_spec:
  assumes "ans_socket a \<noteq> Inr (- 1)"
  obtains handled S where "main_start argv a w = Some (handled, S, if start_fails argv a then - 1 else 0)"
    "start_fails argv a \<Longrightarrow> open_socks (listening S) = []"
    "\<not> start_fails argv a \<Longrightarrow> \<exists>l. S = server_start l w \<and> open_socks l = [server_socket l]"
proof -
  let ?l0 = "\<lparr>server_socket = - 1, open_socks = []\<rparr>"
  obtain l r where lr: "setup_server_socket a ?l0 = (l, r)" by force
  have l: "open_socks l = [] \<or> open_socks l = [server_socket l]"
    "open_socks l = [server_socket l] \<or> r = - 1"
    "r = 0 \<longleftrightarrow> \<not> ((\<exists>err. ans_socket a = Inl err) \<or> ans_setsockopt a \<noteq> None \<or> ans_bind a \<noteq> None \<or> ans_listen a \<noteq> None)"
    "r = 0 \<or> r = - 1"
    "server_socket l \<noteq> - 1 \<or> open_socks l = []"
    using lr assms by (auto simp: setup_server_socket_def close_sock_def Let_def split: sum.splits if_splits)
  show ?thesis
  proof (cases "start_fails argv a")
    case False
    then have "main_start argv a w = Some (init_signal_handlers (ans_sigaction a), server_start l w, 0)" "r = 0"
      using lr l(3) by (auto simp: main_start_def start_fails_def Let_def)
    then show ?thesis using that False l(2) by auto
  next
    case True
    have "open_socks (listening S) = []"
      if "listening S = (if server_socket l \<noteq> - 1 then close_sock (server_socket l) l else l)" for S :: server
      using that l(1,5) by (auto simp: close_sock_def)
    moreover have "main_start argv a w =
        map_option (\<lambda>S. (init_signal_handlers (ans_sigaction a), S, - 1)) (cleanup_on_signal (server_start l w))"
      using True lr l(3) by (auto simp: main_start_def start_fails_def Let_def)
    moreover obtain S where "cleanup_on_signal (server_start l w) = Some S"
      "listening S = (if server_socket l \<noteq> - 1 then close_sock (server_socket l) l else l)" by (rule cleanup_start)
    ultimately show ?thesis using that True by simp
  qed
qed

end
