(* ===== verification/Server_Steps.thy ===== *)
theory Server_Steps
  imports Server
begin

text \<open>
  The threads of the server in any order. What a round of a client has to provide is the interface
  \<open>client_rounds\<close>; inside it every step keeps the invariant of the threads and does what the abstract
  server does. The rounds on the device are an instance.
\<close>

section \<open>The abstract server\<close>

text \<open>
  One log, and for each client where it is, what has yet to arrive and what it was sent. The
  steps of the clients are those of the abstract session, taken on the common log.
\<close>

datatype stage = A_Created | A_Receiving | A_Leaving | A_Ended

record a_client =
  a_stage :: stage
  a_inbox :: "(conn_errno + byte list) list"
  a_outbox :: "byte list"

record 'l a_server =
  a_log :: 'l
  a_clients :: "nat \<Rightarrow> a_client option"

definition stage_of :: "phase \<Rightarrow> stage" where
  "stage_of p = (case p of Created \<Rightarrow> A_Created | Receiving buf \<Rightarrow> A_Receiving | Leaving \<Rightarrow> A_Leaving | Ended \<Rightarrow> A_Ended)"

definition abs_client :: "client_thread \<Rightarrow> a_client" where
  "abs_client c = \<lparr>a_stage = stage_of (phase c), a_inbox = inbox c, a_outbox = outbox c\<rparr>"

definition abs_with :: "('z server_scheme \<Rightarrow> 'l) \<Rightarrow> 'z server_scheme \<Rightarrow> 'l a_server" where
  "abs_with log S = \<lparr>a_log = log S, a_clients = (\<lambda>t. map_option abs_client (sv_clients S t))\<rparr>"

definition put_a_client :: "nat \<Rightarrow> a_client \<Rightarrow> 'l a_server \<Rightarrow> 'l a_server" where
  "put_a_client t c A = A\<lparr>a_clients := (a_clients A)(t \<mapsto> c)\<rparr>"

text \<open>A step, with \<open>receive\<close> for what a segment does to the log, what is sent, and whether the client goes on.\<close>

definition a_step_with ::
  "('l \<Rightarrow> conn_errno + byte list \<Rightarrow> 'l \<times> byte list \<times> bool) \<Rightarrow> 'l a_server \<Rightarrow> action \<Rightarrow> 'l a_server" where
  "a_step_with receive A a =
     (case a of
        Accept t inc ans \<Rightarrow>
          if ans = Thread_created then put_a_client t \<lparr>a_stage = A_Created, a_inbox = inc, a_outbox = []\<rparr> A else A
      | Start t node block \<Rightarrow>
          (case a_clients A t of
             Some c \<Rightarrow>
               if a_stage c = A_Created
               then put_a_client t (c\<lparr>a_stage := (case block of None \<Rightarrow> A_Leaving | Some buf \<Rightarrow> A_Receiving)\<rparr>) A
               else A
           | None \<Rightarrow> A)
      | Round t \<Rightarrow>
          (case a_clients A t of
             Some c \<Rightarrow>
               if a_stage c = A_Receiving
               then (case next_segment (a_inbox c) of
                       (r, rest) \<Rightarrow>
                         (case receive (a_log A) r of
                            (log, out, go_on) \<Rightarrow>
                              put_a_client t \<lparr>a_stage = (if go_on then A_Receiving else A_Leaving), a_inbox = rest,
                                            a_outbox = a_outbox c @ out\<rparr> (A\<lparr>a_log := log\<rparr>)))
               else A
           | None \<Rightarrow> A)
      | Finish t \<Rightarrow>
          (case a_clients A t of
             Some c \<Rightarrow> if a_stage c = A_Leaving then put_a_client t (c\<lparr>a_stage := A_Ended\<rparr>) A else A
           | None \<Rightarrow> A)
      | Remove \<Rightarrow> A)"

lemma stage_of_simps [simp]:
  "stage_of Created = A_Created" "stage_of (Receiving buf) = A_Receiving" "stage_of Leaving = A_Leaving"
  "stage_of Ended = A_Ended"
  "stage_of p = A_Created \<longleftrightarrow> p = Created" "stage_of p = A_Leaving \<longleftrightarrow> p = Leaving"
  "stage_of p = A_Receiving \<longleftrightarrow> (\<exists>buf. p = Receiving buf)"
  by (simp_all add: stage_of_def split: phase.split)

section \<open>The interface of a round\<close>

text \<open>
  A round of the client \<open>t\<close> changes no other client and not the list of threads; it goes on with its
  buffer or leaves.
\<close>

definition only_client :: "nat \<Rightarrow> client_thread \<Rightarrow> 'z server_scheme \<Rightarrow> 'z server_scheme \<Rightarrow> bool" where
  "only_client t c S S' \<longleftrightarrow> sv_threads S' = sv_threads S \<and> sv_clients S' = (sv_clients S)(t \<mapsto> c) \<and>
     keep_running S' = keep_running S \<and> listening S' = listening S"

definition goes_on :: "client_thread \<Rightarrow> client_thread \<Rightarrow> bool" where
  "goes_on c c' \<longleftrightarrow> my_node c' = my_node c \<and>
     (case phase c' of Receiving buf \<Rightarrow> length buf = unat BUFFER_SIZE | Leaving \<Rightarrow> True | _ \<Rightarrow> False)"

lemma only_client_cong: "only_client t c S S' \<Longrightarrow> only_client t c' S S' \<Longrightarrow> c' = c"
  by (auto simp: only_client_def dest: map_upd_eqD1)

text \<open>The segment that a round will receive is one of those for which it does what the abstract round does.\<close>

definition segment_is ::
  "('l \<Rightarrow> conn_errno + byte list \<Rightarrow> bool) \<Rightarrow> ('z server_scheme \<Rightarrow> 'l) \<Rightarrow> action \<Rightarrow> 'z server_scheme \<Rightarrow> bool" where
  "segment_is ideal log a S =
     (case a of
        Round t \<Rightarrow> (case sv_clients S t of Some c \<Rightarrow> ideal (log S) (fst (next_segment (inbox c))) | None \<Rightarrow> True)
      | _ \<Rightarrow> True)"

locale client_rounds =
  fixes round :: "nat \<Rightarrow> byte list \<Rightarrow> client_thread \<Rightarrow> 'z server_scheme \<Rightarrow> 'z server_scheme option"
    and ready :: "'z server_scheme \<Rightarrow> bool"
    and log :: "'z server_scheme \<Rightarrow> 'l"
    and receive :: "'l \<Rightarrow> conn_errno + byte list \<Rightarrow> 'l \<times> byte list \<times> bool"
    and ideal :: "'l \<Rightarrow> conn_errno + byte list \<Rightarrow> bool"
  assumes round_returns: "ready S \<Longrightarrow> length buf = unat BUFFER_SIZE \<Longrightarrow>
      \<exists>S' c'. round t buf c S = Some S' \<and> ready S' \<and> only_client t c' S S' \<and> goes_on c c'"
    and round_refines: "ready S \<Longrightarrow> length buf = unat BUFFER_SIZE \<Longrightarrow> next_segment (inbox c) = (r, rest) \<Longrightarrow>
      ideal (log S) r \<Longrightarrow> receive (log S) r = (l, out, g) \<Longrightarrow> round t buf c S = Some S' \<Longrightarrow> only_client t c' S S' \<Longrightarrow>
      log S' = l \<and>
      abs_client c' = \<lparr>a_stage = (if g then A_Receiving else A_Leaving), a_inbox = rest, a_outbox = outbox c @ out\<rparr>"
    and ready_other: "ready (S\<lparr>sv_threads := ts\<rparr>) \<longleftrightarrow> ready S" "ready (S\<lparr>sv_clients := cl\<rparr>) \<longleftrightarrow> ready S"
    and log_other: "log (S\<lparr>sv_threads := ts\<rparr>) = log S" "log (S\<lparr>sv_clients := cl\<rparr>) = log S"
begin

lemma upd_threads [simp]:
  "ready (S\<lparr>sv_threads := ts, sv_clients := cl\<rparr>) \<longleftrightarrow> ready S"
  "log (S\<lparr>sv_threads := ts, sv_clients := cl\<rparr>) = log S"
  "ready (S\<lparr>sv_threads := ts\<rparr>) \<longleftrightarrow> ready S" "log (S\<lparr>sv_threads := ts\<rparr>) = log S"
  "ready (accept_client t inc ans S) \<longleftrightarrow> ready S" "log (accept_client t inc ans S) = log S"
  "keep_running (accept_client t inc ans S) = keep_running S"
  using ready_other(2) [where S = "S\<lparr>sv_threads := ts\<rparr>"] log_other(2) [where S = "S\<lparr>sv_threads := ts\<rparr>"]
  by (simp_all add: ready_other log_other accept_client_def split: accept_answer.split)

lemma round_threads:
  assumes w: "ready S" and inv: "threads_inv S" and c: "sv_clients S t = Some c" "phase c = Receiving buf"
  obtains S' c' where "round t buf c S = Some S'" "ready S'" "threads_inv S'" "only_client t c' S S'"
    "length buf = unat BUFFER_SIZE"
proof -
  from threads_invE [OF inv] obtain cs where cs: "clients_are (sv_threads S) cs"
    and fit: "clients_fit cs (joined (sv_threads S)) (sv_clients S)" .
  have here: "length buf = unat BUFFER_SIZE" "listed cs t (my_node c)"
    using clients_fitD(3) [OF fit c(1)] c(2) by (auto simp: client_fits_def)
  from round_returns [OF w here(1), of t c] obtain S' c' where
    S': "round t buf c S = Some S'" "ready S'" "only_client t c' S S'" "goes_on c c'" by blast
  have "client_fits cs (joined (sv_threads S)) t c'"
    using S'(4) here(2) by (auto simp: goes_on_def client_fits_def split: phase.splits)
  from clients_fit_step [OF fit this] have "clients_fit cs (joined (sv_threads S)) ((sv_clients S)(t \<mapsto> c'))" by simp
  then have "threads_inv S'" using cs S'(3) by (auto simp: threads_inv_def only_client_def)
  with S' here(1) that show ?thesis by blast
qed

text \<open>Every step returns and keeps what holds of the threads, and what the rounds rely on.\<close>

lemma run_inv:
  assumes w: "ready S" and inv: "threads_inv S" and ok: "action_ok a S"
  obtains S' where "run_with round a S = Some S'" "ready S'" "threads_inv S'" "keep_running S' = keep_running S"
proof (cases a)
  case (Accept t inc ans)
  then show ?thesis
    using that [of "if keep_running S then accept_client t inc ans S else S"] w inv accept_threads [OF inv, of t inc ans] ok
    by (simp add: run_with_def action_ok_def)
next
  case (Start t node block)
  show ?thesis
  proof (cases "\<exists>c. sv_clients S t = Some c \<and> phase c = Created")
    case True
    then obtain c where c: "sv_clients S t = Some c" "phase c = Created" by blast
    show ?thesis
      by (rule start_threads_inv [OF inv c ok [unfolded Start]]) (use that w c in \<open>auto simp: run_with_def Start\<close>)
  next
    case False
    then show ?thesis using that w inv by (cases "sv_clients S t") (auto simp: run_with_def Start)
  qed
next
  case (Round t)
  show ?thesis
  proof (cases "\<exists>c buf. sv_clients S t = Some c \<and> phase c = Receiving buf")
    case True
    then obtain c buf where c: "sv_clients S t = Some c" "phase c = Receiving buf" by blast
    show ?thesis
      by (rule round_threads [OF w inv c]) (use that c in \<open>auto simp: run_with_def Round only_client_def\<close>)
  next
    case False
    then have "run_with round a S = Some S"
      by (cases "sv_clients S t") (auto simp: run_with_def Round split: phase.split)
    then show ?thesis using that w inv by blast
  qed
next
  case (Finish t)
  show ?thesis
  proof (cases "\<exists>c. sv_clients S t = Some c \<and> phase c = Leaving")
    case True
    then obtain c where c: "sv_clients S t = Some c" "phase c = Leaving" by blast
    show ?thesis
      by (rule finish_threads_inv [OF inv c]) (use that w c in \<open>auto simp: run_with_def Finish\<close>)
  next
    case False
    then show ?thesis using that w inv by (cases "sv_clients S t") (auto simp: run_with_def Finish)
  qed
next
  case Remove
  show ?thesis
    by (rule remove_threads_inv [OF inv]) (use that w in \<open>auto simp: run_with_def Remove\<close>)
qed

text \<open>Every step is the abstract one, when the segment of a round is one for which the round is.\<close>

lemma round_abs:
  assumes w: "ready S" and inv: "threads_inv S" and c: "sv_clients S t = Some c" "phase c = Receiving buf"
    and fits: "segment_is ideal log (Round t) S" and run: "round t buf c S = Some S'"
  shows "abs_with log S' = a_step_with receive (abs_with log S) (Round t)"
proof -
  from round_threads [OF w inv c] run obtain c' where c': "only_client t c' S S'" and len: "length buf = unat BUFFER_SIZE"
    by auto
  obtain r rest where inc: "next_segment (inbox c) = (r, rest)" by (cases "next_segment (inbox c)")
  obtain l out g where spec: "receive (log S) r = (l, out, g)" by (rule prod_cases3)
  have "ideal (log S) r" using fits c(1) inc by (auto simp: segment_is_def)
  from round_refines [OF w len inc this spec run c'] show ?thesis
    using c c' inc spec
    by (auto simp: abs_with_def a_step_with_def put_a_client_def abs_client_def only_client_def fun_eq_iff)
qed

lemma run_refines:
  assumes w: "ready S" and inv: "threads_inv S" and on: "keep_running S"
    and ok: "action_ok a S" "segment_is ideal log a S"
  obtains S' where "run_with round a S = Some S'" "ready S'" "threads_inv S'" "keep_running S'"
    "abs_with log S' = a_step_with receive (abs_with log S) a"
proof -
  from run_inv [OF w inv ok(1)] on obtain S' where
    S': "run_with round a S = Some S'" "ready S'" "threads_inv S'" "keep_running S'" by metis
  have "abs_with log S' = a_step_with receive (abs_with log S) a"
  proof (cases a)
    case (Accept t inc ans)
    then show ?thesis
      using S'(1) on
      by (auto simp: run_with_def abs_with_def a_step_with_def put_a_client_def fun_eq_iff)
         (auto simp: accept_client_def abs_client_def split: accept_answer.splits)
  next
    case (Start t node block)
    then show ?thesis
      using S'(1)
      by (auto simp: run_with_def start_client_def abs_with_def abs_client_def a_step_with_def put_a_client_def fun_eq_iff
          bind_eq_Some_conv Let_def split: option.splits if_splits)
  next
    case (Round t)
    show ?thesis
    proof (cases "\<exists>c buf. sv_clients S t = Some c \<and> phase c = Receiving buf")
      case True
      then obtain c buf where c: "sv_clients S t = Some c" "phase c = Receiving buf" by blast
      then have "round t buf c S = Some S'" using S'(1) by (simp add: run_with_def Round)
      from round_abs [OF w inv c ok(2) [unfolded Round] this] show ?thesis by (simp add: Round)
    next
      case False
      then have "S' = S" using S'(1)
        by (cases "sv_clients S t") (auto simp: run_with_def Round split: phase.splits)
      then show ?thesis
        using False by (cases "sv_clients S t") (auto simp: Round a_step_with_def abs_with_def abs_client_def)
    qed
  next
    case (Finish t)
    then show ?thesis
      using S'(1)
      by (auto simp: run_with_def finish_client_def abs_with_def abs_client_def a_step_with_def put_a_client_def fun_eq_iff
          bind_eq_Some_conv Let_def split: option.splits if_splits)
  next
    case Remove
    then show ?thesis using S'(1) by (auto simp: run_with_def abs_with_def a_step_with_def)
  qed
  with S' show ?thesis using that by blast
qed

end

section \<open>The rounds on the device\<close>

definition sv_log :: "server \<Rightarrow> byte list list \<times> byte list" where
  "sv_log S = (contents (kern (sv_machine S)), pending (kern (sv_machine S)))"

definition abs_server :: "server \<Rightarrow> (byte list list \<times> byte list) a_server" where
  "abs_server = abs_with sv_log"

definition a_receive ::
  "surroundings \<Rightarrow> byte list list \<times> byte list \<Rightarrow> conn_errno + byte list \<Rightarrow> (byte list list \<times> byte list) \<times> byte list \<times> bool" where
  "a_receive E log r =
     (case r of Inl err \<Rightarrow> (log, [], False)
      | Inr bs \<Rightarrow> if bs = [] then (log, [], False) else a_round E log bs)"

definition a_step ::
  "surroundings \<Rightarrow> (byte list list \<times> byte list) a_server \<Rightarrow> action \<Rightarrow> (byte list list \<times> byte list) a_server" where
  "a_step E = a_step_with (a_receive E)"

text \<open>The memory for a segment is within the limit of the allocator.\<close>

definition bytes_fit :: "byte list list \<times> byte list \<Rightarrow> conn_errno + byte list \<Rightarrow> bool" where
  "bytes_fit log r \<longleftrightarrow> (case r of Inl err \<Rightarrow> True | Inr bs \<Rightarrow> length (snd log) + length bs < kmalloc_max)"

definition segment_fits :: "action \<Rightarrow> server \<Rightarrow> bool" where
  "segment_fits = segment_is bytes_fit sv_log"

lemma round_client_run:
  assumes E: "undisturbed E" "sane E" and w: "world_free S" and len: "length buf = unat BUFFER_SIZE"
    and inc: "next_segment (inbox c) = (r, rest)" and spec: "a_receive E (sv_log S) r = (l, out, g)"
  obtains S' c' where "round_client E t buf c S = Some S'" "world_free S'" "only_client t c' S S'" "goes_on c c'"
    "steady E \<Longrightarrow> bytes_fit (sv_log S) r \<Longrightarrow> sv_log S' = l \<and>
      abs_client c' = \<lparr>a_stage = (if g then A_Receiving else A_Leaving), a_inbox = rest, a_outbox = outbox c @ out\<rparr>"
proof -
  have view: "stored (session_of S c) = sv_log S" "outgoing (session_of S c) = outbox c"
    "next_segment (incoming (session_of S c)) = (r, rest)"
    by (simp_all add: stored_def session_of_def sv_log_def inc)
  note round = client_round_spec [OF session_of_ok [OF w E, of c] len view(3),
      unfolded view(1), folded a_receive_def bytes_fit_def, unfolded spec]
  obtain s buf' go where s: "client_round E (session_of S c) buf = Some (s, buf', go)"
    using round by (auto simp: round_does_def split: option.splits)
  have ok: "session_ok E s" "length buf' = unat BUFFER_SIZE" "threads s = sv_threads S" "incoming s = rest"
    and good: "steady E \<Longrightarrow> bytes_fit (sv_log S) r \<Longrightarrow> stored s = l \<and> outgoing s = outbox c @ out \<and> go = g"
    using round unfolding s by (auto simp: round_does_def sends_def session_of_def)
  let ?c = "c\<lparr>phase := (if go then Receiving buf' else Leaving)\<rparr>"
  let ?c' = "?c\<lparr>inbox := incoming s, outbox := outgoing s, online := connected s\<rparr>"
  show ?thesis
  proof (rule that)
    show "round_client E t buf c S = Some (put_session t ?c s S)" by (simp add: round_client_def s)
    show "world_free (put_session t ?c s S)" using ok(1) by (simp add: world_free_def put_session_def session_ok_def)
    show "only_client t ?c' S (put_session t ?c s S)" using ok(3) by (simp add: only_client_def put_session_def)
    show "goes_on c ?c'" using ok(2) by (simp add: goes_on_def)
    show "sv_log (put_session t ?c s S) = l \<and>
        abs_client ?c' = \<lparr>a_stage = (if g then A_Receiving else A_Leaving), a_inbox = rest, a_outbox = outbox c @ out\<rparr>"
      if "steady E" "bytes_fit (sv_log S) r"
      using good [OF that] ok(4) by (simp add: sv_log_def put_session_def stored_def abs_client_def)
  qed
qed

interpretation device: client_rounds "round_client E" "\<lambda>S. undisturbed E \<and> sane E \<and> world_free S" sv_log "a_receive E"
  "\<lambda>log r. steady E \<and> bytes_fit log r" for E
proof unfold_locales
  fix S :: server and buf :: "byte list" and t and c :: client_thread
  assume S: "undisturbed E \<and> sane E \<and> world_free S" and len: "length buf = unat BUFFER_SIZE"
  obtain r rest where inc: "next_segment (inbox c) = (r, rest)" by (cases "next_segment (inbox c)")
  obtain l out g where spec: "a_receive E (sv_log S) r = (l, out, g)" by (rule prod_cases3)
  show "\<exists>S' c'. round_client E t buf c S = Some S' \<and> (undisturbed E \<and> sane E \<and> world_free S') \<and>
      only_client t c' S S' \<and> goes_on c c'"
    by (rule round_client_run [OF _ _ _ len inc spec, of t]) (use S in auto)
next
  fix S :: server and buf :: "byte list" and t and c :: client_thread and r rest l out g S' c'
  assume S: "undisturbed E \<and> sane E \<and> world_free S" and len: "length buf = unat BUFFER_SIZE"
    and inc: "next_segment (inbox c) = (r, rest)" and fine: "steady E \<and> bytes_fit (sv_log S) r"
    and spec: "a_receive E (sv_log S) r = (l, out, g)"
    and run: "round_client E t buf c S = Some S'" and c': "only_client t c' S S'"
  show "sv_log S' = l \<and>
      abs_client c' = \<lparr>a_stage = (if g then A_Receiving else A_Leaving), a_inbox = rest, a_outbox = outbox c @ out\<rparr>"
    by (rule round_client_run [OF _ _ _ len inc spec, of t])
       (use S fine run only_client_cong [OF c'] in auto)
qed (simp_all add: world_free_def sv_log_def)

lemma run_action_inv:
  assumes "server_inv S" and "undisturbed E" "sane E" and "action_ok a S"
  obtains S' where "run_action E a S = Some S'" "server_inv S'"
  by (rule device.run_inv [of E S a]) (use assms that in \<open>auto simp: server_inv_def run_action_def\<close>)

lemma server_reachable_inv:
  assumes "server_reachable E S" and E: "undisturbed E" "sane E"
  shows "server_inv S"
  using assms(1)
proof (induction rule: server_reachable.induct)
  case (start w l)
  then show ?case by (rule start_inv)
next
  case (step S a S')
  from run_action_inv [OF step.IH E step.hyps(2)] step.hyps(3) show ?case by auto
qed

lemma action_refined:
  assumes inv: "server_inv S" "keep_running S" and E: "sane E" "steady E"
    and ok: "action_ok a S" "segment_fits a S"
  obtains S' where "run_action E a S = Some S'" "server_inv S'" "keep_running S'"
    "abs_server S' = a_step E (abs_server S) a"
proof -
  have "segment_is (\<lambda>log r. steady E \<and> bytes_fit log r) sv_log a S"
    using ok(2) E(2) by (simp add: segment_fits_def segment_is_def split: action.splits option.splits)
  from device.run_refines [OF _ _ inv(2) ok(1) this] show ?thesis
    using that inv(1) E steady_undisturbed [OF E(2)] by (auto simp: server_inv_def run_action_def abs_server_def a_step_def)
qed

fun actions_ok :: "surroundings \<Rightarrow> action list \<Rightarrow> server \<Rightarrow> bool" where
  "actions_ok E [] S = True"
| "actions_ok E (a # as) S \<longleftrightarrow>
     action_ok a S \<and> segment_fits a S \<and> (case run_action E a S of None \<Rightarrow> True | Some S' \<Rightarrow> actions_ok E as S')"

lemma actions_refined:
  assumes "server_inv S" "keep_running S" and E: "sane E" "steady E" and "actions_ok E as S"
  shows "\<exists>S'. foldM (\<lambda>S a. run_action E a S) S as = Some S' \<and> server_inv S' \<and>
    abs_server S' = foldl (a_step E) (abs_server S) as"
  using assms(1,2,5)
proof (induction as arbitrary: S)
  case (Cons a as)
  from Cons.prems(3) have ok: "action_ok a S" "segment_fits a S" by simp_all
  from action_refined [OF Cons.prems(1,2) E ok] obtain S1 where
    S1: "run_action E a S = Some S1" "server_inv S1" "keep_running S1" "abs_server S1 = a_step E (abs_server S) a" .
  have "actions_ok E as S1" using Cons.prems(3) S1(1) by simp
  from Cons.IH [OF S1(2,3) this] show ?case by (simp add: S1(1,4))
qed simp

end
