(* ===== verification/Server_Properties.thy ===== *)
theory Server_Properties
  imports Server_Steps Driver_Properties
begin

text \<open>
  The properties of the socket server (\<open>server/\<close>) on top of the driver: what a client gets, what
  holds in every interleaving of the clients, the list of threads, and the shutdown. Each
  comes with an instance in a concrete environment.
\<close>

section \<open>An environment\<close>

text \<open>
  An allocator that answers with the first address above all blocks of the device, as long as
  the limit allows; a network that takes one byte at a time.
\<close>

definition fresh_addr :: "kernel \<Rightarrow> addr" where
  "fresh_addr k = Suc (sum_list (owned (aesd_device k)))"

definition careful :: "kernel \<Rightarrow> size_t \<Rightarrow> op_env" where
  "careful k n =
     (if length (pending k) + unat n < kmalloc_max then calm (fresh_addr k) (Suc (fresh_addr k)) else no_memory)"

definition slow_network :: surroundings where
  "slow_network =
     \<lparr>choices = (\<lambda>t. careful), opens = (\<lambda>t. Inr 5), accepts = (\<lambda>t. Inr 1), lock_fails = (\<lambda>t. False),
      oversized = (\<lambda>n. 0)\<rparr>"

lemma fresh_addr: "kernel_inv k \<Longrightarrow> fresh_addr k \<le> a \<Longrightarrow> kheap k a = None"
proof -
  assume "kernel_inv k"
  then have dom: "dom (kheap k) = set (owned (aesd_device k))" by (auto simp: kernel_inv_def dev_inv_def)
  assume "fresh_addr k \<le> a"
  then have "a \<notin> set (owned (aesd_device k))"
    using member_le_sum_list [of a "owned (aesd_device k)"] by (auto simp: fresh_addr_def)
  then show "kheap k a = None" using dom by blast
qed

lemma careful_ok:
  assumes k: "kernel_inv k"
  shows "write_env_ok (careful k n) k n"
proof (cases "length (pending k) + unat n < kmalloc_max")
  case False
  then show ?thesis by (simp add: careful_def no_memory_def write_env_ok_def alloc_ok_def)
next
  case True
  let ?d = "aesd_device k" and ?a = "fresh_addr k"
  have small: "unat n < 2 ^ 32" using True by (simp add: kmalloc_max_def)
  have free: "kheap k ?a = None" "kheap k (Suc ?a) = None" using fresh_addr [OF k] by simp_all
  have one: "unat (n + 1) = Suc (unat n)" by (rule unat_plus_1) (use small in simp)
  have "write_alloc_ok \<lparr>at = Some (Suc ?a), junk = (\<lambda>_. 0)\<rparr> ((kheap k)(?a \<mapsto> [])) ?d n"
  proof (cases "write_buf ?d")
    case NULL
    then show ?thesis using True free one by (simp add: write_alloc_ok_def alloc_ok_def)
  next
    case (Ptr q)
    then have "block_ok (kheap k) (write_buf ?d) (write_buf_size ?d)"
      using k by (simp add: kernel_inv_def dev_inv_def)
    then have "unat (write_buf_size ?d) = length (pending k)" by (simp add: partial_def length_block_bytes)
    then have "unat (write_buf_size ?d + n) = length (pending k) + unat n"
      using True by (subst unat_add_size_t) (simp_all add: kmalloc_max_def)
    then have "unat (write_buf_size ?d + n + 1) = Suc (length (pending k) + unat n)"
      using True by (subst unat_plus_1) (simp_all add: kmalloc_max_def)
    then show ?thesis using True free Ptr by (simp add: write_alloc_ok_def realloc_ok_def)
  qed
  then show ?thesis
    using True free by (simp add: careful_def write_env_ok_def alloc_ok_def calm_def)
qed

lemma slow_network_fine: "undisturbed slow_network" "sane slow_network" "steady slow_network"
  by (auto simp: undisturbed_def sane_def steady_def obliging_def slow_network_def careful_ok)
     (auto simp: careful_def calm_def no_memory_def split: if_splits)

text \<open>A client on the loaded driver that sends ``ab'' and a newline in two segments.\<close>

definition first_client :: session where
  "first_client =
     \<lparr>machine = loaded_world, file_mutex = Free, threads = no_threads, connected = True,
      incoming = [Inr [97], Inr [98, 10]], outgoing = [], clock = 0\<rparr>"

lemma loaded_log: "contents loaded_kernel = []" "pending loaded_kernel = []" "world_inv loaded_world"
  using booted_inv [OF booted_loaded] by (simp_all add: abs_world_def loaded_world_def)

lemma first_client_ok: "session_ok slow_network first_client" "stored first_client = ([], [])"
  using loaded_log slow_network_fine
  by (simp_all add: session_ok_def first_client_def loaded_world_def stored_def)

section \<open>A client\<close>

lemma client_session_spec:
  assumes "session_ok E s" and "steady E" and "clients_are (threads s) cs"
    and "list_op_ok (cs, joined (threads s)) (Add node t)" and "length buf = unat BUFFER_SIZE"
    and "length (snd (stored s)) + traffic (incoming s) < kmalloc_max"
    and "a_session E (stored s) (incoming s) = (log, out, rest)"
  shows "\<exists>s'. handle_client E t node (Some buf) s = Some s' \<and> stored s' = log \<and> outgoing s' = outgoing s @ out \<and>
    incoming s' = rest \<and> \<not> connected s' \<and> session_ok E s' \<and> clients_are (threads s') (with_client node t True cs) \<and>
    joined (threads s') = joined (threads s)"
proof -
  let ?P = "\<lambda>s1. session_ok E s1 \<and> stored s1 = log \<and> outgoing s1 = outgoing s @ out \<and> incoming s1 = rest"
  have run: "\<exists>s1 buf1. client_loop E (s\<lparr>threads := l\<rparr>) buf = Some (s1, buf1) \<and> threads s1 = l \<and> ?P s1" for l
  proof -
    let ?s = "s\<lparr>threads := l\<rparr>"
    have "session_ok E ?s" "stored ?s = stored s" "incoming ?s = incoming s"
      using assms(1) by (simp_all add: session_ok_def stored_def)
    with client_loop_refines [of E ?s buf log out rest] assms(2,5-7) obtain s1 buf1 where
      "client_loop E ?s buf = Some (s1, buf1)" "session_ok E s1" "threads s1 = l" "stored s1 = log"
      "outgoing s1 = outgoing s @ out" "incoming s1 = rest" by auto
    then show ?thesis by blast
  qed
  show ?thesis
  proof (rule handle_client_ends [OF assms(3,4), where P = ?P and block = "Some buf" and E = E])
    fix s1 l
    assume "?P s1" "handle_client E t node (Some buf) s = Some (s1\<lparr>connected := False, threads := l\<rparr>)"
      "clients_are l (with_client node t True cs)" "joined l = joined (threads s)"
    then show ?thesis by (simp add: session_ok_def stored_def)
  qed (use run in simp)
qed

text \<open>C21. A client's thread is the abstract session on the log of the driver. In a quiet environment (no signal, no
  failing \<open>open\<close>, memory up to the allocator's limit, a network that may cut and delay but takes what it is given)
  \<open>handle_client\<close> returns; the stored commands and the partial one, and the bytes sent, are those of the abstract
  session on the segments that arrive; the connection is closed, the mutex free, no file left open, and the thread
  is in the list, marked.\<close>

theorem client_session_refines:
  assumes "session_ok E s" and "steady E" and "clients_are (threads s) cs"
    and "list_op_ok (cs, joined (threads s)) (Add node t)" and "length buf = unat BUFFER_SIZE"
    and "length (snd (stored s)) + traffic (incoming s) < kmalloc_max"
    and "a_session E (stored s) (incoming s) = (log, out, rest)"
  shows "\<exists>s'. handle_client E t node (Some buf) s = Some s' \<and> stored s' = log \<and> outgoing s' = outgoing s @ out \<and>
    incoming s' = rest \<and> \<not> connected s' \<and> session_ok E s' \<and> clients_are (threads s') (with_client node t True cs) \<and>
    joined (threads s') = joined (threads s)"
  using client_session_spec [OF assms] .

lemma first_client_session:
  "a_session slow_network ([], []) [Inr [97], Inr [98, 10]] = (([[97, 98, 10]], []), [97, 98, 10], [])"
  by (simp add: a_session.simps next_segment_def a_round_def seekto_prefix_def a_write_def)

lemma client_session_refines_witness:
  "\<exists>s'. handle_client slow_network 7 (Some 1) (Some (replicate 1024 0)) first_client = Some s' \<and>
    stored s' = ([[97, 98, 10]], []) \<and> outgoing s' = [97, 98, 10] \<and> \<not> connected s' \<and>
    clients_are (threads s') [(1, 7, True)]"
proof -
  have t: "threads first_client = no_threads" "incoming first_client = [Inr [97], Inr [98, 10]]" "outgoing first_client = []"
    by (simp_all add: first_client_def)
  have "\<exists>s'. handle_client slow_network 7 (Some 1) (Some (replicate 1024 0)) first_client = Some s' \<and>
      stored s' = ([[97, 98, 10]], []) \<and> outgoing s' = outgoing first_client @ [97, 98, 10] \<and> incoming s' = [] \<and>
      \<not> connected s' \<and> session_ok slow_network s' \<and> clients_are (threads s') (with_client (Some 1) 7 True []) \<and>
      joined (threads s') = joined (threads first_client)"
    by (rule client_session_refines [OF first_client_ok(1) slow_network_fine(3)])
       (simp_all add: t no_threads_clients first_client_ok(2) first_client_session BUFFER_SIZE_def kmalloc_max_def)
  then show ?thesis by (auto simp: t with_client_def)
qed

text \<open>A line that arrives in any segments, none of which looks like a seek command.\<close>

definition plain_segment :: "byte list \<Rightarrow> bool" where
  "plain_segment bs \<longleftrightarrow> bs \<noteq> [] \<and> length bs \<le> 1023 \<and> take 19 bs \<noteq> seekto_prefix"

lemma a_session_line:
  assumes "\<forall>bs\<in>set segs. plain_segment bs" and "concat segs = line @ [10]" and "10 \<notin> set line" and "10 \<notin> set p"
  shows "a_session E (cmds, p) (map Inr segs @ later) =
    ((keep_last 10 (cmds @ [p @ line @ [10]]), []), concat (keep_last 10 (cmds @ [p @ line @ [10]])), later)"
  using assms
proof (induction segs arbitrary: line p)
  case (Cons bs segs)
  from Cons.prems(1) have bs: "bs \<noteq> []" "length bs \<le> 1023" "take 19 bs \<noteq> seekto_prefix"
    by (simp_all add: plain_segment_def)
  show ?case
  proof (cases "segs = []")
    case True
    then show ?thesis
      using bs Cons.prems(2)
      by (subst a_session.simps) (simp add: next_segment_def a_round_def a_write_def Let_def)
  next
    case False
    then obtain b cs where "segs = b # cs" by (cases segs) auto
    then have "concat segs \<noteq> []" using Cons.prems(1) by (simp add: plain_segment_def)
    then obtain rest where rest: "concat segs = rest @ [10]" "line = bs @ rest"
      using Cons.prems(2) by (cases "concat segs" rule: rev_cases) auto
    have none: "10 \<notin> set (p @ bs)" "10 \<notin> set bs" "10 \<notin> set rest" using Cons.prems(3,4) rest(2) by auto
    have "a_session E (cmds, p) (map Inr (bs # segs) @ later) =
        (case a_session E (cmds, p @ bs) (map Inr segs @ later) of (log, out, r) \<Rightarrow> (log, [] @ out, r))"
      using bs none by (subst a_session.simps) (simp add: next_segment_def a_round_def a_write_def Let_def)
    with Cons.IH [of rest "p @ bs"] Cons.prems(1) rest none show ?thesis by simp
  qed
qed simp

text \<open>C11. What the server is for: a client that sends a line, cut into segments none of which begins with
  \<open>AESDCHAR_IOCSEEKTO:\<close> (such a segment is taken as a command, wherever in the line it begins) or is longer than the
  buffer, gets back, in a quiet environment, the log with that line as its last command: the stored commands, at most
  ten, each whole, in order. The partial command that was there before becomes the beginning of the line; what the
  client sends after the line is not received.\<close>

theorem line_is_echoed:
  assumes "session_ok E s" and "steady E" and "clients_are (threads s) cs"
    and "list_op_ok (cs, joined (threads s)) (Add node t)" and "length buf = unat BUFFER_SIZE"
    and "length (snd (stored s)) + traffic (incoming s) < kmalloc_max"
    and "incoming s = map Inr segs @ later" and "\<forall>bs\<in>set segs. plain_segment bs"
    and "concat segs = line @ [10]" and "10 \<notin> set line" and "10 \<notin> set (snd (stored s))"
  shows "\<exists>s'. handle_client E t node (Some buf) s = Some s' \<and>
    fst (stored s') = keep_last 10 (fst (stored s) @ [snd (stored s) @ line @ [10]]) \<and> snd (stored s') = [] \<and>
    outgoing s' = outgoing s @ concat (fst (stored s')) \<and> incoming s' = later"
proof -
  let ?log = "keep_last 10 (fst (stored s) @ [snd (stored s) @ line @ [10]])"
  have "a_session E (stored s) (incoming s) = ((?log, []), concat ?log, later)"
    using a_session_line [OF assms(8-11), of E "fst (stored s)" later] assms(7) by simp
  from client_session_spec [OF assms(1-6) this] show ?thesis by auto
qed

lemma line_is_echoed_witness:
  "\<exists>s'. handle_client slow_network 7 (Some 1) (Some (replicate 1024 0)) first_client = Some s' \<and>
    fst (stored s') = [[97, 98, 10]] \<and> outgoing s' = [97, 98, 10]"
proof -
  have t: "threads first_client = no_threads" "incoming first_client = [Inr [97], Inr [98, 10]]" "outgoing first_client = []"
    by (simp_all add: first_client_def)
  have "\<exists>s'. handle_client slow_network 7 (Some 1) (Some (replicate 1024 0)) first_client = Some s' \<and>
      fst (stored s') = keep_last 10 (fst (stored first_client) @ [snd (stored first_client) @ [97, 98] @ [10]]) \<and>
      snd (stored s') = [] \<and> outgoing s' = outgoing first_client @ concat (fst (stored s')) \<and> incoming s' = []"
    by (rule line_is_echoed [OF first_client_ok(1) slow_network_fine(3), where segs = "[[97], [98, 10]]" and cs = "[]"])
       (simp_all add: t no_threads_clients first_client_ok(2) BUFFER_SIZE_def kmalloc_max_def plain_segment_def
         seekto_prefix_def)
  then show ?thesis by (auto simp: t first_client_ok(2))
qed

text \<open>Numbers in decimal.\<close>

fun decimal :: "nat \<Rightarrow> byte list" where
  "decimal n = (if n < 10 then [48 + of_nat n] else decimal (n div 10) @ [48 + of_nat (n mod 10)])"

declare decimal.simps [simp del]

definition digit_byte :: "nat \<Rightarrow> byte" where
  "digit_byte d = 48 + of_nat d"

lemma digit_byte:
  assumes "d < 10"
  shows "is_digit (digit_byte d)" "uint (digit_byte d) = 48 + int d" "digit_byte d \<noteq> 0"
    "digit_byte d \<noteq> 45" "digit_byte d \<noteq> 43" "\<not> is_space (digit_byte d)"
proof -
  have "d \<in> {0, 1, 2, 3, 4, 5, 6, 7, 8, 9}" using assms by auto
  then show "is_digit (digit_byte d)" "uint (digit_byte d) = 48 + int d" "digit_byte d \<noteq> 0"
    "digit_byte d \<noteq> 45" "digit_byte d \<noteq> 43" "\<not> is_space (digit_byte d)"
    by (auto simp: digit_byte_def is_digit_def is_space_def)
qed

lemma decimal_digits:
  "decimal n \<noteq> [] \<and> (\<forall>b\<in>set (decimal n). is_digit b \<and> b \<noteq> 0) \<and>
   (hd (decimal n) \<noteq> 45 \<and> hd (decimal n) \<noteq> 43 \<and> \<not> is_space (hd (decimal n))) \<and>
   foldl (\<lambda>n d. 10 * n + (uint d - 48)) 0 (decimal n) = int n"
proof (induction n rule: decimal.induct)
  case (1 n)
  show ?case
  proof (cases "n < 10")
    case True
    then have "decimal n = [digit_byte n]" by (subst decimal.simps) (simp add: digit_byte_def)
    then show ?thesis using digit_byte [OF True] by simp
  next
    case False
    then have d: "decimal n = decimal (n div 10) @ [digit_byte (n mod 10)]"
      by (subst decimal.simps) (simp add: digit_byte_def)
    have digits: "10 * int (n div 10) + int (n mod 10) = int n"
      by (metis mult_div_mod_eq of_nat_add of_nat_mult of_nat_numeral)
    have "n mod 10 < 10" by simp
    from 1 [OF False] digit_byte [OF this] digits show ?thesis by (simp add: d hd_append)
  qed
qed

lemma scan_decimal:
  assumes "n < 2 ^ 32" and "rest = [] \<or> \<not> is_digit (hd rest)"
  shows "scan_u E (decimal n @ rest) = Some (of_nat n, rest)"
proof -
  note d = decimal_digits [of n]
  from d obtain b bs where b: "decimal n = b # bs" "b \<noteq> 45" "b \<noteq> 43" "\<not> is_space b" by (cases "decimal n") auto
  have all: "\<forall>b\<in>set (decimal n). is_digit b" using d by blast
  have tk: "takeWhile is_digit (decimal n @ rest) = decimal n" "dropWhile is_digit (decimal n @ rest) = rest"
    using assms(2) all by (cases rest; simp add: takeWhile_append2 dropWhile_append2)+
  have sp: "dropWhile is_space (decimal n @ rest) = decimal n @ rest" by (simp add: b)
  have sign: "(case decimal n @ rest of
       c # r \<Rightarrow> if c = 45 then (True, r) else if c = 43 then (False, r) else (False, decimal n @ rest)
     | [] \<Rightarrow> (False, decimal n @ rest)) = (False, decimal n @ rest)"
    by (simp add: b)
  show ?thesis
    using d assms(1) unfolding scan_u_def Let_def sp sign prod.case tk by simp
qed

lemma decimal_length: "n < 10 ^ k \<Longrightarrow> 0 < k \<Longrightarrow> length (decimal n) \<le> k"
proof (induction n arbitrary: k rule: decimal.induct)
  case (1 n)
  show ?case
  proof (cases "n < 10")
    case True
    then show ?thesis using "1.prems" by (subst decimal.simps) simp
  next
    case False
    then obtain m where m: "k = Suc m" "0 < m" using "1.prems" by (cases k; cases "k - 1") auto
    then have "n div 10 < 10 ^ m" using "1.prems"(1) by (simp add: less_mult_imp_div_less)
    from "1.IH" [OF False this m(2)] show ?thesis using False m by (subst decimal.simps) simp
  qed
qed

definition seek_text :: "nat \<Rightarrow> nat \<Rightarrow> byte list" where
  "seek_text i j = seekto_prefix @ decimal i @ [44] @ decimal j @ [10]"

lemma seek_text_length: "i < 2 ^ 32 \<Longrightarrow> j < 2 ^ 32 \<Longrightarrow> length (seek_text i j) \<le> 1023"
  using decimal_length [of i 10] decimal_length [of j 10] by (simp add: seek_text_def seekto_prefix_def)

lemma scan_seek_text:
  assumes "i < 2 ^ 32" and "j < 2 ^ 32"
  shows "scan_pair E (decimal i @ [44] @ decimal j @ [10]) =
    Some \<lparr>write_cmd = of_nat i, write_cmd_offset = of_nat j\<rparr>"
proof -
  have "\<not> is_digit 44" "\<not> is_digit 10" by (simp_all add: is_digit_def)
  then have "scan_u E (decimal i @ 44 # decimal j @ [10]) = Some (of_nat i, 44 # decimal j @ [10])"
    "scan_u E (decimal j @ [10]) = Some (of_nat j, [10])"
    using scan_decimal [OF assms(1), of "44 # decimal j @ [10]" E] scan_decimal [OF assms(2), of "[10]" E] by simp_all
  then show ?thesis by (simp add: scan_pair_def)
qed

lemma a_session_seek:
  assumes ij: "i < 2 ^ 32" "j < 2 ^ 32"
  shows "a_session E (cmds, p) [Inr (seek_text i j)] =
    ((cmds, p),
     if i < length cmds \<and> j < length (cmds ! i) then drop j (cmds ! i) @ concat (drop (Suc i) cmds) else [], [])"
proof -
  let ?st = "\<lparr>write_cmd = of_nat i, write_cmd_offset = of_nat j\<rparr> :: aesd_seekto"
  let ?str = "decimal i @ [44] @ decimal j @ [10]"
  have pre: "take 19 (seek_text i j) = seekto_prefix" "drop 19 (seek_text i j) = ?str" "seek_text i j \<noteq> []"
    by (simp_all add: seek_text_def seekto_prefix_def)
  have "\<forall>b\<in>set ?str. b \<noteq> 0" using decimal_digits [of i] decimal_digits [of j] by auto
  then have str: "takeWhile (\<lambda>b. b \<noteq> 0) ?str = ?str" unfolding takeWhile_eq_all_conv by blast
  have nseg: "next_segment [Inr (seek_text i j)] = (Inr (seek_text i j), [])"
    using seek_text_length [OF ij] by (simp add: next_segment_def)
  have scan: "scan_pair E (takeWhile (\<lambda>b. b \<noteq> 0) (drop 19 (seek_text i j))) = Some ?st"
    unfolding pre str by (rule scan_seek_text [OF ij])
  have un: "unat (of_nat i :: u32) = i" "unat (of_nat j :: u32) = j" using ij by (simp_all add: unat_of_nat)
  have seek: "a_seek cmds ?st =
      (if i < length cmds \<and> j < length (cmds ! i) then Some (length (concat (take i cmds)) + j) else None)"
    by (simp add: a_seek_def un)
  have stop: "a_session E log [] = (log, [], [])" for log by (subst a_session.simps) (simp add: next_segment_def)
  have rest: "drop (length (concat (take i cmds)) + j) (concat cmds) = drop j (cmds ! i) @ concat (drop (Suc i) cmds)"
    if "i < length cmds" "j < length (cmds ! i)"
  proof -
    have "concat cmds = concat (take i cmds) @ (cmds ! i) @ concat (drop (Suc i) cmds)"
      using id_take_nth_drop [OF that(1)] by (metis concat.simps(2) concat_append)
    then show ?thesis using that(2) by simp
  qed
  have round: "a_round E (cmds, p) (seek_text i j) =
      (if i < length cmds \<and> j < length (cmds ! i)
       then ((cmds, p), drop j (cmds ! i) @ concat (drop (Suc i) cmds), True) else ((cmds, p), [], False))"
    unfolding a_round_def if_P [OF pre(1)] scan option.case fst_conv seek using rest by auto
  show ?thesis
    by (subst a_session.simps) (simp add: nseg pre(3) round stop)
qed

text \<open>C20. The seek command as text: a client that sends \<open>AESDCHAR_IOCSEEKTO:i,j\<close>, the numbers in decimal, gets back the
  rest of command \<open>i\<close> from byte \<open>j\<close> on, followed by all later commands, and nothing when there is no such command or
  byte; the log is not changed, in particular the text is not stored. The numbers that \<open>sscanf\<close> reads are those that
  were printed, for every value of an \<open>unsigned int\<close>.\<close>

theorem seek_command_answered:
  assumes "session_ok E s" and "steady E" and "clients_are (threads s) cs"
    and "list_op_ok (cs, joined (threads s)) (Add node t)" and "length buf = unat BUFFER_SIZE"
    and "length (snd (stored s)) + traffic (incoming s) < kmalloc_max"
    and "incoming s = [Inr (seek_text i j)]" and "i < 2 ^ 32" and "j < 2 ^ 32" and "stored s = (cmds, p)"
  shows "\<exists>s'. handle_client E t node (Some buf) s = Some s' \<and> stored s' = (cmds, p) \<and>
    outgoing s' = outgoing s @
      (if i < length cmds \<and> j < length (cmds ! i) then drop j (cmds ! i) @ concat (drop (Suc i) cmds) else [])"
  using client_session_spec [OF assms(1-6)] a_session_seek [OF assms(8,9), of E cmds p] assms(7,10) by metis

text \<open>The client that seeks, after the first one has stored its line.\<close>

definition after_line :: session where
  "after_line = the (handle_client slow_network 7 (Some 1) (Some (replicate 1024 0)) first_client)"

lemma after_line:
  "session_ok slow_network after_line" "stored after_line = ([[97, 98, 10]], [])" "clients_are (threads after_line) [(1, 7, True)]"
  "joined (threads after_line) = []"
proof -
  have t: "threads first_client = no_threads" "incoming first_client = [Inr [97], Inr [98, 10]]"
    by (simp_all add: first_client_def)
  have "\<exists>s'. handle_client slow_network 7 (Some 1) (Some (replicate 1024 0)) first_client = Some s' \<and>
      stored s' = ([[97, 98, 10]], []) \<and> outgoing s' = outgoing first_client @ [97, 98, 10] \<and> incoming s' = [] \<and>
      \<not> connected s' \<and> session_ok slow_network s' \<and> clients_are (threads s') (with_client (Some 1) 7 True []) \<and>
      joined (threads s') = joined (threads first_client)"
    by (rule client_session_spec [OF first_client_ok(1) slow_network_fine(3)])
       (simp_all add: t no_threads_clients first_client_ok(2) first_client_session BUFFER_SIZE_def kmalloc_max_def)
  then show "session_ok slow_network after_line" "stored after_line = ([[97, 98, 10]], [])"
    "clients_are (threads after_line) [(1, 7, True)]" "joined (threads after_line) = []"
    by (auto simp: after_line_def with_client_def t no_threads_clients)
qed

lemma seek_command_answered_witness:
  "\<exists>s'. handle_client slow_network 8 (Some 2) (Some (replicate 1024 0))
      (after_line\<lparr>incoming := [Inr (seek_text 0 2)], outgoing := []\<rparr>) = Some s' \<and> outgoing s' = [10]"
proof -
  let ?s = "after_line\<lparr>incoming := [Inr (seek_text 0 2)], outgoing := []\<rparr>"
  have s: "session_ok slow_network ?s" "stored ?s = ([[97, 98, 10]], [])" "clients_are (threads ?s) [(1, 7, True)]"
    "joined (threads ?s) = []" "incoming ?s = [Inr (seek_text 0 2)]" "outgoing ?s = []"
    using after_line by (simp_all add: session_ok_def stored_def)
  have len: "length (seek_text 0 2) \<le> 1023" by (rule seek_text_length) simp_all
  have "\<exists>s'. handle_client slow_network 8 (Some 2) (Some (replicate 1024 0)) ?s = Some s' \<and>
      stored s' = ([[97, 98, 10]], []) \<and> outgoing s' = outgoing ?s @
        (if 0 < length [[97, 98, 10 :: byte]] \<and> 2 < length ([[97, 98, 10 :: byte]] ! 0)
         then drop 2 ([[97, 98, 10]] ! 0) @ concat (drop (Suc 0) [[97, 98, 10]]) else [])"
    by (rule seek_command_answered [OF s(1) slow_network_fine(3) s(3) _ _ _ s(5) _ _ s(2)])
       (use len in \<open>simp_all add: s after_line BUFFER_SIZE_def kmalloc_max_def\<close>)
  then show ?thesis by (auto simp: s(6))
qed




section \<open>All clients\<close>

text \<open>C4. The server serves its clients one segment at a time, in any order: for every sequence of steps of the main
  thread and the client threads that the system can make, in a quiet environment, every step returns, and the log of
  the driver, what each client was sent, what each has yet to send and where each is are those of the abstract
  server: one log, on which each segment is taken as a whole.\<close>

theorem server_refines:
  assumes "booted w" and "sane E" and "steady E" and "actions_ok E as (server_start l w)"
  shows "\<exists>S. foldM (\<lambda>S a. run_action E a S) (server_start l w) as = Some S \<and>
    abs_server S = foldl (a_step E) \<lparr>a_log = ([], []), a_clients = Map.empty\<rparr> as"
proof -
  have "abs_server (server_start l w) = \<lparr>a_log = ([], []), a_clients = Map.empty\<rparr>"
    using booted_inv [OF assms(1)]
    by (simp add: abs_server_def abs_with_def server_start_def sv_log_def abs_world_def fun_eq_iff)
  moreover have "keep_running (server_start l w)" by (simp add: server_start_def)
  ultimately show ?thesis using actions_refined [OF start_inv [OF assms(1)] _ assms(2-4)] by fastforce
qed

definition no_socket :: listener where
  "no_socket = \<lparr>server_socket = - 1, open_socks = []\<rparr>"

text \<open>Two clients are accepted; one sends ``a'' and a newline and is served.\<close>

definition one_served :: "action list" where
  "one_served = [Accept 7 [Inr [97, 10]] Thread_created, Accept 8 [] Thread_created, Start 7 (Some 1) (Some (replicate 1024 0)), Round 7]"

lemma server_refines_witness:
  "\<exists>S. foldM (\<lambda>S a. run_action slow_network a S) (server_start no_socket loaded_world) one_served = Some S \<and>
    abs_server S = \<lparr>a_log = ([[97, 10]], []), a_clients =
      [7 \<mapsto> \<lparr>a_stage = A_Leaving, a_inbox = [], a_outbox = [97, 10]\<rparr>,
       8 \<mapsto> \<lparr>a_stage = A_Created, a_inbox = [], a_outbox = []\<rparr>]\<rparr>"
proof -
  have ok: "actions_ok slow_network one_served (server_start no_socket loaded_world)"
    using loaded_log
    by (auto simp: one_served_def action_ok_def segment_fits_def segment_is_def bytes_fit_def block_ok_client_def server_start_def run_action_def run_with_def
        accept_client_def start_client_def add_thread_to_list_def no_threads_def lock_list_def unlock_list_def set_node_def
        pthread_mutex_lock_def pthread_mutex_unlock_def next_segment_def sv_log_def loaded_world_def BUFFER_SIZE_def
        kmalloc_max_def Let_def split: option.split)
  have "foldl (a_step slow_network) \<lparr>a_log = ([], []), a_clients = Map.empty\<rparr> one_served =
      \<lparr>a_log = ([[97, 10]], []), a_clients =
        [7 \<mapsto> \<lparr>a_stage = A_Leaving, a_inbox = [], a_outbox = [97, 10]\<rparr>,
         8 \<mapsto> \<lparr>a_stage = A_Created, a_inbox = [], a_outbox = []\<rparr>]\<rparr>"
    by (auto simp: one_served_def a_step_def a_step_with_def put_a_client_def a_receive_def a_round_def a_write_def next_segment_def seekto_prefix_def
        Let_def fun_eq_iff)
  with server_refines [OF booted_loaded slow_network_fine(2,3) ok] show ?thesis by simp
qed



section \<open>The list of threads\<close>

text \<open>C16. The linked list of threads implements a list of clients: for every sequence of additions, marks, removals and
  clean-ups, the pointer program follows the abstract operations. It removes exactly the clients that have ended and
  keeps the others in order, joins each removed thread once, frees its node once and no other, never uses a freed
  node, and the live nodes are those of the list; cleaning up while a client has not ended does not return.\<close>

theorem threads_refine_list:
  assumes "list_ops_ok ([], []) ps"
  shows "case foldM list_op ([], []) ps of
      None \<Rightarrow> foldM run_list_op no_threads ps = None
    | Some (cs, j) \<Rightarrow> \<exists>s. foldM run_list_op no_threads ps = Some s \<and> clients_are s cs \<and> joined s = j"
  using list_ops_refined [OF no_threads_clients(1)] assms by (simp add: no_threads_clients(2))

lemma threads_refine_list_witness:
  "\<exists>s. foldM run_list_op no_threads [Add (Some 1) 10, Add (Some 2) 20, Add (Some 3) 30, Mark (Ptr 2), Reap] = Some s \<and>
    clients_are s [(3, 30, False), (1, 10, False)] \<and> joined s = [20]"
  using threads_refine_list [of "[Add (Some 1) 10, Add (Some 2) 20, Add (Some 3) 30, Mark (Ptr 2), Reap]"]
  by (simp add: list_op_def ended_def)

section \<open>Shutting down\<close>

text \<open>C29. The clean-up on a signal is wrong in two ways. In every state that the server can reach before it, it does not return
  when a client in the list has not ended: it waits for the thread while it holds the mutex that the thread needs.
  And when it does return, the main thread, which the signal takes out of \<open>accept\<close>, runs it again, on mutexes that are
  destroyed: no run of the server ends in a defined way.\<close>

theorem shutdown_undefined:
  assumes "server_reachable E S" and "undisturbed E" and "sane E"
  shows "(signal_handler S = None \<longleftrightarrow> (\<exists>t c. sv_clients S t = Some c \<and> running c)) \<and> main_exit S = None"
proof -
  let ?S = "S\<lparr>keep_running := False\<rparr>"
  have inv: "threads_inv ?S" "sv_file_mutex ?S = Free"
    using server_reachable_inv [OF assms] by (simp_all add: server_inv_def world_free_def threads_inv_def)
  have "main_exit S = None"
  proof (cases "signal_handler S")
    case None
    then show ?thesis by (simp add: main_exit_def)
  next
    case (Some S1)
    then have "cleanup_on_signal ?S = Some S1" by (simp add: signal_handler_def)
    from cleanup_on_signal_spec(2) [OF inv this] have "cleanup_on_signal S1 = None"
      by (simp add: cleanup_destroyed)
    then show ?thesis by (simp add: main_exit_def Some)
  qed
  then show ?thesis using cleanup_on_signal_spec(1) [OF inv] by (simp add: signal_handler_def)
qed

lemma shutdown_undefined_witness:
  "(\<exists>S1. signal_handler (server_start no_socket loaded_world) = Some S1) \<and>
   main_exit (server_start no_socket loaded_world) = None"
proof -
  have "sv_clients (server_start no_socket loaded_world) = Map.empty" by (simp add: server_start_def)
  then show ?thesis
    using shutdown_undefined [OF server_reachable.start [OF booted_loaded, of slow_network no_socket] slow_network_fine(1,2)]
    by auto
qed

end
