(* ===== verification/File_Session.thy ===== *)
theory File_Session
  imports Client_Session
begin

text \<open>
  The thread of a client and the timer in the build without the device (\<open>USE_AESD_CHAR_DEVICE\<close> is 0):
  the data go to a regular file at \<open>/var/tmp/aesdsocketdata\<close>, to which the timer appends the time. The
  theorems relate a round of a client to an append-only log; what \<open>write_all\<close> relies on is again the
  interface \<open>sink\<close>, which the file provides.
\<close>

section \<open>The file\<close>

text \<open>
  The contents of the files, the one that the path is bound to, and the open descriptors with their
  file and position. A file keeps its contents while it is open, even when it is unlinked.
\<close>

record disk =
  inodes :: "byte list list"
  bound :: "nat option"
  handles :: "nat \<Rightarrow> (nat \<times> nat) option"

text \<open>
  What the file system decides at a time: how many bytes a \<open>write\<close> takes and a \<open>read\<close> gives at most,
  or the error it reports, and whether \<open>lseek\<close> fails.
\<close>

record disk_answers =
  takes :: "nat \<Rightarrow> errno + size_t"
  gives :: "nat \<Rightarrow> errno + size_t"
  seeks :: "nat \<Rightarrow> errno option"

record file_session = session +
  storage :: disk

definition path_bytes :: "disk \<Rightarrow> byte list" where
  "path_bytes d = (case bound d of None \<Rightarrow> [] | Some i \<Rightarrow> inodes d ! i)"

text \<open>\<open>open(FILE_PATH, O_RDWR | O_CREAT | O_APPEND, FILE_PERMISSIONS)\<close>.\<close>

definition create_path :: "disk \<Rightarrow> disk \<times> nat" where
  "create_path d =
     (case bound d of
        Some i \<Rightarrow> (d, i)
      | None \<Rightarrow> (d\<lparr>inodes := inodes d @ [[]], bound := Some (length (inodes d))\<rparr>, length (inodes d)))"

definition open_file :: "surroundings \<Rightarrow> file_session \<Rightarrow> file_session \<times> (errno + nat)" where
  "open_file E s =
     (case opens E (clock s) of
        Inl err \<Rightarrow> (tick s, Inl err)
      | Inr fd \<Rightarrow>
          (case create_path (storage s) of
             (d, i) \<Rightarrow> (tick (s\<lparr>storage := d\<lparr>handles := (handles d)(fd \<mapsto> (i, 0))\<rparr>\<rparr>), Inr fd)))"

definition close_file :: "nat \<Rightarrow> file_session \<Rightarrow> file_session" where
  "close_file fd s = tick (s\<lparr>storage := (storage s)\<lparr>handles := (handles (storage s))(fd := None)\<rparr>\<rparr>)"

text \<open>
  A write appends; it may take only a part of the bytes. As for the device, a call that a signal interrupts is one
  in which the handler has run, under \<open>file_mutex\<close>.
\<close>

definition append_at :: "nat \<Rightarrow> nat \<Rightarrow> byte list \<Rightarrow> disk \<Rightarrow> disk" where
  "append_at fd i bs d =
     d\<lparr>inodes := (inodes d)[i := inodes d ! i @ bs], handles := (handles d)(fd \<mapsto> (i, length (inodes d ! i @ bs)))\<rparr>"

definition file_write ::
  "disk_answers \<Rightarrow> nat \<Rightarrow> file_session \<Rightarrow> byte list \<Rightarrow> size_t \<Rightarrow> (file_session \<times> (errno + size_t)) option" where
  "file_write D fd s buf n =
     (case handles (storage s) fd of
        None \<Rightarrow> Some (tick s, Inl EBADF)
      | Some (i, pos) \<Rightarrow>
          (case takes D (clock s) of
             Inl err \<Rightarrow> if err = EINTR then None else Some (tick s, Inl err)
           | Inr m \<Rightarrow>
               (let k = min m n in
                if unat k \<le> length buf
                then Some (tick (s\<lparr>storage := append_at fd i (take (unat k) buf) (storage s)\<rparr>), Inr k) else None)))"

text \<open>A read into \<open>room\<close> bytes; it may give fewer bytes than there are.\<close>

definition file_read ::
  "disk_answers \<Rightarrow> nat \<Rightarrow> file_session \<Rightarrow> nat \<Rightarrow> size_t \<Rightarrow> (file_session \<times> byte list \<times> (errno + size_t)) option" where
  "file_read D fd s room n =
     (case handles (storage s) fd of
        None \<Rightarrow> Some (tick s, [], Inl EBADF)
      | Some (i, pos) \<Rightarrow>
          (case gives D (clock s) of
             Inl err \<Rightarrow> if err = EINTR then None else Some (tick s, [], Inl err)
           | Inr m \<Rightarrow>
               (let bs = take (unat (min m n)) (drop pos (inodes (storage s) ! i)) in
                if room < length bs then None
                else Some (tick (s\<lparr>storage := (storage s)\<lparr>handles := (handles (storage s))(fd \<mapsto> (i, pos + length bs))\<rparr>\<rparr>),
                           bs, Inr (of_nat (length bs))))))"

text \<open>\<open>lseek(fd, 0, SEEK_SET)\<close>.\<close>

definition lseek_start :: "disk_answers \<Rightarrow> nat \<Rightarrow> file_session \<Rightarrow> file_session \<times> errno option" where
  "lseek_start D fd s =
     (case handles (storage s) fd of
        None \<Rightarrow> (tick s, Some EBADF)
      | Some (i, pos) \<Rightarrow>
          (case seeks D (clock s) of
             Some err \<Rightarrow> (tick s, Some err)
           | None \<Rightarrow> (tick (s\<lparr>storage := (storage s)\<lparr>handles := (handles (storage s))(fd \<mapsto> (i, 0))\<rparr>\<rparr>), None)))"

section \<open>The thread\<close>

partial_function (option) file_send_back ::
  "surroundings \<Rightarrow> disk_answers \<Rightarrow> nat \<Rightarrow> file_session \<Rightarrow> byte list \<Rightarrow> (file_session \<times> byte list) option" where
  "file_send_back E D fd s buf = do {
     (s, out, r) \<leftarrow> file_read D fd s (length buf) (BUFFER_SIZE - 1);
     buf \<leftarrow> store out buf;
     (case r of
        Inl err \<Rightarrow> Some (s, buf)
      | Inr n \<Rightarrow>
          if n = 0 then Some (s, buf)
          else do {
            (s, sent) \<leftarrow> write_all (sock_write E) s buf n;
            if sent \<noteq> Inr n then Some (s, buf) else file_send_back E D fd s buf
          })
   }"

text \<open>A seek command is parsed, and nothing is done.\<close>

definition file_seekto_segment ::
  "surroundings \<Rightarrow> file_session \<Rightarrow> byte list \<Rightarrow> (file_session \<times> byte list \<times> bool) option" where
  "file_seekto_segment E s buf = do {
     command_str \<leftarrow> c_string (drop 19 buf);
     (case scan_pair E command_str of
        None \<Rightarrow> Some (s, buf, False)
      | Some seekto \<Rightarrow> do {
          (s, locked) \<leftarrow> lock_file E s;
          if \<not> locked then Some (s, buf, False)
          else do {
            s \<leftarrow> unlock_file s;
            Some (s, buf, True)
          }
        })
   }"

definition file_write_segment ::
  "surroundings \<Rightarrow> disk_answers \<Rightarrow> file_session \<Rightarrow> byte list \<Rightarrow> size_t \<Rightarrow> (file_session \<times> byte list \<times> bool) option" where
  "file_write_segment E D s buf bytes_received = do {
     (s, locked) \<leftarrow> lock_file E s;
     if \<not> locked then Some (s, buf, False)
     else
       (case open_file E s of
          (s, Inl err) \<Rightarrow> leave s buf
        | (s, Inr fd) \<Rightarrow> do {
            (s, written) \<leftarrow> write_all (file_write D fd) s buf bytes_received;
            if written \<noteq> Inr bytes_received then leave (close_file fd s) buf
            else do {
              newline \<leftarrow> memchr buf 10 (unat bytes_received);
              if newline
              then
                (case lseek_start D fd s of
                   (s, Some err) \<Rightarrow> leave (close_file fd s) buf
                 | (s, None) \<Rightarrow> do {
                     (s, buf) \<leftarrow> file_send_back E D fd s buf;
                     leave (close_file fd s) buf
                   })
              else do {
                s \<leftarrow> unlock_file (close_file fd s);
                Some (s, buf, True)
              }
            }
          })
   }"

definition file_client_round ::
  "surroundings \<Rightarrow> disk_answers \<Rightarrow> file_session \<Rightarrow> byte list \<Rightarrow> (file_session \<times> byte list \<times> bool) option" where
  "file_client_round E D s buf =
     (let (s, r) = recv s (BUFFER_SIZE - 1) in
      case r of
        Inl err \<Rightarrow> Some (s, buf, False)
      | Inr bs \<Rightarrow>
          if bs = [] then Some (s, buf, False)
          else do {
            buf \<leftarrow> store (bs @ [0]) buf;
            is_seekto \<leftarrow> strncmp_eq buf (seekto_prefix @ [0]) 19;
            if is_seekto then file_seekto_segment E s buf else file_write_segment E D s buf (of_nat (length bs))
          })"

section \<open>The timer\<close>

text \<open>
  The text of the time: \<open>localtime\<close> may give NULL, on which \<open>strftime\<close> is undefined, and a text that
  does not fit leaves the array without a defined content. \<open>cells\<close> is what is in the array.
\<close>

definition strftime :: "byte list option \<Rightarrow> byte list \<Rightarrow> byte list option" where
  "strftime time cells = do {
     txt \<leftarrow> time;
     if length txt < length cells then store (txt @ [0]) cells else None
   }"

text \<open>
  A round of the loop of \<open>timestamp_thread\<close>, up to \<open>nanosleep\<close>. The answers of the lock and of
  \<open>write_all\<close> are not looked at.
\<close>

definition timestamp_round ::
  "surroundings \<Rightarrow> disk_answers \<Rightarrow> byte list option \<Rightarrow> byte list \<Rightarrow> file_session \<Rightarrow> file_session option" where
  "timestamp_round E D time cells s = do {
     timestamp \<leftarrow> strftime time cells;
     (s, locked) \<leftarrow> lock_file E s;
     s \<leftarrow> (case open_file E s of
             (s, Inl err) \<Rightarrow> Some s
           | (s, Inr fd) \<Rightarrow> do {
               txt \<leftarrow> c_string timestamp;
               (s, written) \<leftarrow> write_all (file_write D fd) s timestamp (of_nat (length txt));
               Some (close_file fd s)
             });
     unlock_file s
   }"

end
