(* ===== verification/File_Rounds.thy ===== *)
theory File_Rounds
  imports File_Session
begin

text \<open>
  What a round of a client and of the timer does on the file (\<open>File_Session\<close>): every path returns, gives back
  the mutex and the descriptor and only appends; without failures the round is that of an append-only log.
\<close>

section \<open>The states of a round\<close>

text \<open>No call on the file is interrupted by a signal; a steady file system has no errors.\<close>

definition disk_undisturbed :: "disk_answers \<Rightarrow> bool" where
  "disk_undisturbed D \<longleftrightarrow> (\<forall>t. takes D t \<noteq> Inl EINTR \<and> gives D t \<noteq> Inl EINTR)"

definition disk_steady :: "disk_answers \<Rightarrow> bool" where
  "disk_steady D \<longleftrightarrow> (\<forall>t. \<exists>m. takes D t = Inr m \<and> m \<noteq> 0) \<and> (\<forall>t. \<exists>m. gives D t = Inr m \<and> m \<noteq> 0) \<and>
     (\<forall>t. seeks D t = None)"

definition file_steady :: "surroundings \<Rightarrow> disk_answers \<Rightarrow> bool" where
  "file_steady E D \<longleftrightarrow> undisturbed E \<and> obliging E \<and> (\<forall>t. \<not> lock_fails E t) \<and> (\<forall>t err. opens E t \<noteq> Inl err) \<and>
     disk_steady D"

lemma file_steady_undisturbed:
  assumes "file_steady E D"
  shows "undisturbed E" "disk_undisturbed D"
proof -
  have "disk_steady D" using assms by (simp add: file_steady_def)
  then show "disk_undisturbed D" unfolding disk_steady_def disk_undisturbed_def by (metis Inl_Inr_False)
qed (use assms in \<open>simp add: file_steady_def\<close>)

lemma file_steadyD:
  assumes "file_steady E D"
  shows "obliging E" "\<not> lock_fails E t" "opens E t \<noteq> Inl err" "disk_steady D" "seeks D t = None"
    "\<exists>m. gives D t = Inr m \<and> m \<noteq> 0"
  using assms by (simp_all add: file_steady_def disk_steady_def)

text \<open>At most one descriptor is open, \<open>fd\<close> at position \<open>p\<close> of the file at the path.\<close>

definition disk_holds :: "(nat \<times> nat) option \<Rightarrow> disk \<Rightarrow> bool" where
  "disk_holds h d \<longleftrightarrow> (\<forall>i. bound d = Some i \<longrightarrow> i < length (inodes d)) \<and>
     (case h of None \<Rightarrow> handles d = Map.empty | Some (fd, p) \<Rightarrow> (\<exists>i. bound d = Some i \<and> handles d = [fd \<mapsto> (i, p)]))"

definition file_state ::
  "surroundings \<Rightarrow> disk_answers \<Rightarrow> pmutex \<Rightarrow> (nat \<times> nat) option \<Rightarrow> file_session \<Rightarrow> bool" where
  "file_state E D m h s \<longleftrightarrow> undisturbed E \<and> disk_undisturbed D \<and> disk_holds h (storage s) \<and> file_mutex s = m"

text \<open>Between two rounds, and while the thread holds the mutex.\<close>

abbreviation file_ok :: "surroundings \<Rightarrow> disk_answers \<Rightarrow> file_session \<Rightarrow> bool" where
  "file_ok E D \<equiv> file_state E D Free None"

abbreviation file_held :: "surroundings \<Rightarrow> disk_answers \<Rightarrow> (nat \<times> nat) option \<Rightarrow> file_session \<Rightarrow> bool" where
  "file_held E D \<equiv> file_state E D Held"

definition file_bytes :: "file_session \<Rightarrow> byte list" where
  "file_bytes s = path_bytes (storage s)"

text \<open>Between two states \<open>out\<close> was sent and \<open>w\<close> was appended to the file.\<close>

definition adds :: "file_session \<Rightarrow> byte list \<Rightarrow> byte list \<Rightarrow> file_session \<Rightarrow> bool" where
  "adds s out w s' \<longleftrightarrow> sends s out s' \<and> file_bytes s' = file_bytes s @ w"

lemma adds_trans: "adds s out w s1 \<Longrightarrow> adds s1 out' w' s2 \<Longrightarrow> adds s (out @ out') (w @ w') s2"
  by (auto simp: adds_def intro: sends_trans)

lemma adds_more:
  "adds s [] [] s1 \<Longrightarrow> adds s1 out w s2 \<Longrightarrow> adds s out w s2"
  "adds s out w s1 \<Longrightarrow> adds s1 [] [] s2 \<Longrightarrow> adds s out w s2"
  using adds_trans by fastforce+

lemma adds_refl: "adds s [] [] s"
  by (simp add: adds_def sends_def)

lemma adds_bytes: "adds s out w s' \<Longrightarrow> file_bytes s' = file_bytes s @ w"
  by (simp add: adds_def)

section \<open>The calls\<close>

lemma file_lock_spec:
  assumes "file_ok E D s"
  obtains s' where "lock_file E s = Some (s', False)" "file_ok E D s'" "adds s [] [] s'" "\<not> file_steady E D"
  | s' where "lock_file E s = Some (s', True)" "file_held E D None s'" "adds s [] [] s'"
  using assms
  by (cases "lock_fails E (clock s)")
     (auto simp: lock_file_def file_state_def adds_def sends_def file_bytes_def tick_def pthread_mutex_lock_def
       dest: file_steadyD(2))

lemma file_unlock_spec:
  assumes "file_held E D None s"
  obtains s' where "unlock_file s = Some s'" "file_ok E D s'" "adds s [] [] s'"
  using assms
  by (auto simp: unlock_file_def file_state_def adds_def sends_def file_bytes_def pthread_mutex_unlock_def)

lemma open_file_spec:
  assumes h: "file_state E D m None s"
  obtains s' err where "open_file E s = (s', Inl err)" "file_state E D m None s'" "adds s [] [] s'" "\<not> file_steady E D"
  | s' fd where "open_file E s = (s', Inr fd)" "file_state E D m (Some (fd, 0)) s'" "adds s [] [] s'"
proof (cases "opens E (clock s)")
  case (Inl err)
  then show ?thesis
    using h that(1) [of "tick s" err]
    by (auto simp: open_file_def file_state_def adds_def sends_def file_bytes_def tick_def dest: file_steadyD(3))
next
  case (Inr fd)
  obtain d i where d: "create_path (storage s) = (d, i)" by (cases "create_path (storage s)")
  let ?s = "tick (s\<lparr>storage := d\<lparr>handles := (handles d)(fd \<mapsto> (i, 0))\<rparr>\<rparr>)"
  have "path_bytes d = path_bytes (storage s)" "bound d = Some i" "i < length (inodes d)" "handles d = Map.empty"
    using d h
    by (auto simp: create_path_def path_bytes_def file_state_def disk_holds_def nth_append split: option.splits)
  then show ?thesis
    using h that(2) [of ?s fd] Inr d
    by (auto simp: open_file_def file_state_def disk_holds_def adds_def sends_def file_bytes_def path_bytes_def tick_def)
qed

lemma close_file_spec:
  assumes "file_state E D m (Some (fd, p)) s"
  shows "file_state E D m None (close_file fd s)" "adds s [] [] (close_file fd s)"
  using assms
  by (auto simp: close_file_def file_state_def disk_holds_def adds_def sends_def file_bytes_def path_bytes_def tick_def)

lemma lseek_start_spec:
  assumes "file_held E D (Some (fd, p)) s"
  obtains s' err where "lseek_start D fd s = (s', Some err)" "file_held E D (Some (fd, p)) s'" "adds s [] [] s'"
    "\<not> file_steady E D"
  | s' where "lseek_start D fd s = (s', None)" "file_held E D (Some (fd, 0)) s'" "adds s [] [] s'"
proof -
  from assms obtain i where i: "handles (storage s) = [fd \<mapsto> (i, p)]" "bound (storage s) = Some i"
    by (auto simp: file_state_def disk_holds_def)
  show ?thesis
  proof (cases "seeks D (clock s)")
    case None
    then show ?thesis
      using that(2) [of "tick (s\<lparr>storage := (storage s)\<lparr>handles := [fd \<mapsto> (i, 0)]\<rparr>\<rparr>)"] assms i
      by (auto simp: lseek_start_def file_state_def disk_holds_def adds_def sends_def file_bytes_def path_bytes_def tick_def)
  next
    case (Some err)
    then show ?thesis
      using that(1) [of "tick s" err] assms i file_steadyD(5) [of E D "clock s"]
      by (auto simp: lseek_start_def file_state_def adds_def sends_def file_bytes_def tick_def)
  qed
qed

section \<open>The file as a sink\<close>

definition file_ready :: "disk_answers \<Rightarrow> nat \<Rightarrow> file_session \<Rightarrow> file_session \<Rightarrow> bool" where
  "file_ready D fd s0 s \<longleftrightarrow> disk_undisturbed D \<and> (\<exists>p. disk_holds (Some (fd, p)) (storage s)) \<and>
     (\<exists>d t. s = s0\<lparr>storage := d, clock := t\<rparr>)"

lemma file_ready_tick: "file_ready D fd s0 s \<Longrightarrow> disk_holds (Some (fd, p)) d \<Longrightarrow> file_ready D fd s0 (tick (s\<lparr>storage := d\<rparr>))"
  by (auto simp: file_ready_def tick_def intro!: exI [of _ d])

lemma file_write_run:
  assumes s: "file_ready D fd s0 s" and n: "unat n \<le> length buf"
  obtains s' err where "file_write D fd s buf n = Some (s', Inl err)" "file_ready D fd s0 s'" "file_bytes s' = file_bytes s"
    "takes D (clock s) = Inl err" "err \<noteq> EINTR"
  | s' m where "file_write D fd s buf n = Some (s', Inr (min m n))" "file_ready D fd s0 s'"
    "file_bytes s' = file_bytes s @ take (unat (min m n)) buf" "takes D (clock s) = Inr m"
proof -
  from s obtain i p where i: "handles (storage s) = [fd \<mapsto> (i, p)]" "bound (storage s) = Some i"
    "i < length (inodes (storage s))" by (auto simp: file_ready_def disk_holds_def)
  have here: "disk_holds (Some (fd, p)) (storage s)" using i by (simp add: disk_holds_def)
  show ?thesis
  proof (cases "takes D (clock s)")
    case (Inl err)
    have "err \<noteq> EINTR" using s Inl by (auto simp: file_ready_def disk_undisturbed_def)
    moreover have "file_ready D fd s0 (tick (s\<lparr>storage := storage s\<rparr>))" by (rule file_ready_tick [OF s here])
    ultimately show ?thesis using that(1) [of "tick s" err] Inl i by (simp add: file_write_def file_bytes_def tick_def)
  next
    case (Inr m)
    let ?bs = "take (unat (min m n)) buf" and ?d = "storage s"
    have k: "unat (min m n) \<le> length buf" using n by (auto simp: min_def word_le_nat_alt)
    have "disk_holds (Some (fd, length (inodes ?d ! i @ ?bs))) (append_at fd i ?bs ?d)"
      using i by (auto simp: disk_holds_def append_at_def)
    from file_ready_tick [OF s this] show ?thesis
      using that(2) [of "tick (s\<lparr>storage := append_at fd i ?bs ?d\<rparr>)" m] Inr i k
      by (simp add: file_write_def file_bytes_def path_bytes_def append_at_def tick_def Let_def)
  qed
qed

interpretation regular: sink "file_write D fd" "file_ready D fd s0" file_bytes "(@)" "\<lambda>s. 0" for D fd s0
proof unfold_locales
  fix s :: file_session and n :: size_t and buf :: "byte list" and s' m err
  assume s: "file_ready D fd s0 s" and n: "n \<noteq> 0" "unat n \<le> length buf"
  show "\<exists>s' r. file_write D fd s buf n = Some (s', r) \<and> file_ready D fd s0 s'"
    by (rule file_write_run [OF s n(2)]) auto
  show "unat m \<le> unat n \<and> (m \<noteq> 0 \<longrightarrow> file_bytes s' = file_bytes s @ take (unat m) buf) \<and>
      (m = 0 \<longrightarrow> file_bytes s' = file_bytes s)" if "file_write D fd s buf n = Some (s', Inr m)"
    by (rule file_write_run [OF s n(2)]) (use that in \<open>auto simp: min_def word_le_nat_alt\<close>)
  show "file_bytes s' = file_bytes s" if "file_write D fd s buf n = Some (s', Inl err)"
    by (rule file_write_run [OF s n(2)]) (use that in auto)
  show "(0 :: nat) < 0" if w: "file_write D fd s buf n = Some (s', Inl EINTR)"
    by (rule file_write_run [OF s n(2)]) (use w in auto)
qed

interpretation local_disk: steady_sink "file_write D fd" "\<lambda>s. disk_steady D \<and> file_ready D fd s0 s" file_bytes "(@)" "\<lambda>s. 0"
  for D fd s0
proof unfold_locales
  fix s :: file_session and n :: size_t and buf :: "byte list" and s' r
  assume s: "disk_steady D \<and> file_ready D fd s0 s" and n: "n \<noteq> 0" "unat n \<le> length buf"
  have fr: "file_ready D fd s0 s" using s by simp
  show "\<exists>s' r. file_write D fd s buf n = Some (s', r) \<and> disk_steady D \<and> file_ready D fd s0 s'"
    using s regular.put_returns [OF fr n] by blast
  show "r = Inl EINTR \<or> (\<exists>m. r = Inr m \<and> m \<noteq> 0)" if w: "file_write D fd s buf n = Some (s', r)"
  proof (rule file_write_run [OF fr n(2)])
    fix s1 err
    assume "takes D (clock s) = Inl err"
    moreover have "\<exists>m. takes D (clock s) = Inr m" using s by (auto simp: disk_steady_def)
    ultimately show ?thesis by simp
  next
    fix s1 m
    assume "file_write D fd s buf n = Some (s1, Inr (min m n))" "takes D (clock s) = Inr m"
    moreover have "\<exists>m. takes D (clock s) = Inr m \<and> m \<noteq> 0" using s by (auto simp: disk_steady_def)
    ultimately show ?thesis using w n by (auto simp: min_def)
  qed
  show "unat m \<le> unat n \<and> (m \<noteq> 0 \<longrightarrow> file_bytes s' = file_bytes s @ take (unat m) buf) \<and>
      (m = 0 \<longrightarrow> file_bytes s' = file_bytes s)" if "file_write D fd s buf n = Some (s', Inr m)" for m
    by (rule regular.put_takes [OF fr n that])
  show "file_bytes s' = file_bytes s" if "file_write D fd s buf n = Some (s', Inl err)" for err
    by (rule regular.put_fails [OF fr n that])
  show "(0 :: nat) < 0" if "file_write D fd s buf n = Some (s', Inl EINTR)"
    by (rule regular.put_waits [OF fr n that])
qed

text \<open>Appending: a beginning of the buffer is appended, all of it if no call fails.\<close>

lemma file_write_all:
  assumes h: "file_state E D m (Some (fd, p)) s" and n: "unat n \<le> length buf"
  obtains s' r w p' where "write_all (file_write D fd) s buf n = Some (s', r)" "file_state E D m (Some (fd, p')) s'"
    "adds s [] w s'" "prefix w (take (unat n) buf)" "r = Inr n \<Longrightarrow> w = take (unat n) buf"
    "file_steady E D \<Longrightarrow> r = Inr n"
proof -
  have ready: "file_ready D fd s s"
    using h unfolding file_ready_def file_state_def
    by (intro conjI exI [of _ p] exI [of _ "storage s"] exI [of _ "clock s"]) simp_all
  from regular.write_all_pieces [OF ready n] obtain s' r ps where
    w: "write_all (file_write D fd) s buf n = Some (s', r)" "file_ready D fd s s'"
      "file_bytes s' = foldl (@) (file_bytes s) ps" "prefix (concat ps) (take (unat n) buf)"
      "r = Inr n \<Longrightarrow> concat ps = take (unat n) buf" by blast
  obtain p' where p': "disk_holds (Some (fd, p')) (storage s')" using w(2) by (auto simp: file_ready_def)
  show ?thesis
  proof (rule that [OF w(1), of p' "concat ps"])
    show "file_state E D m (Some (fd, p')) s'" using h w(2) p' by (auto simp: file_state_def file_ready_def)
    show "adds s [] (concat ps) s'" using w(2,3) by (auto simp: adds_def sends_def file_ready_def foldl_append)
    show "prefix (concat ps) (take (unat n) buf)" by (rule w(4))
    show "concat ps = take (unat n) buf" if "r = Inr n" by (rule w(5) [OF that])
    show "r = Inr n" if "file_steady E D"
    proof -
      have "disk_steady D \<and> file_ready D fd s s" using ready file_steadyD(4) [OF that] by simp
      from local_disk.write_all_complete [OF this n] show ?thesis using w(1) by force
    qed
  qed
qed

text \<open>Reading: some of what is left, and something if there is anything and no call fails.\<close>

lemma file_read_spec:
  assumes h: "file_held E D (Some (fd, p)) s" and room: "unat n \<le> room"
  obtains s' err where "file_read D fd s room n = Some (s', [], Inl err)" "file_held E D (Some (fd, p)) s'"
    "adds s [] [] s'" "\<not> file_steady E D"
  | s' bs where "file_read D fd s room n = Some (s', bs, Inr (of_nat (length bs)))"
    "file_held E D (Some (fd, p + length bs)) s'" "adds s [] [] s'" "prefix bs (drop p (file_bytes s))"
    "length bs \<le> unat n" "file_steady E D \<Longrightarrow> n \<noteq> 0 \<Longrightarrow> bs = [] \<Longrightarrow> drop p (file_bytes s) = []"
proof -
  from h obtain i where i: "handles (storage s) = [fd \<mapsto> (i, p)]" "bound (storage s) = Some i"
    by (auto simp: file_state_def disk_holds_def)
  then have bytes: "inodes (storage s) ! i = file_bytes s" by (simp add: file_bytes_def path_bytes_def)
  show ?thesis
  proof (cases "gives D (clock s)")
    case (Inl err)
    then have "err \<noteq> EINTR" using h by (auto simp: file_state_def disk_undisturbed_def)
    then show ?thesis
      using Inl h i that(1) [of "tick s" err] file_steadyD(6) [of E D "clock s"]
      by (auto simp: file_read_def file_state_def adds_def sends_def file_bytes_def tick_def)
  next
    case (Inr m)
    let ?bs = "take (unat (min m n)) (drop p (file_bytes s))"
    let ?s = "tick (s\<lparr>storage := (storage s)\<lparr>handles := [fd \<mapsto> (i, p + length ?bs)]\<rparr>\<rparr>)"
    have le: "unat (min m n) \<le> unat n" by (auto simp: min_def word_le_nat_alt)
    then have len: "length ?bs \<le> unat n" by simp
    show ?thesis
    proof (rule that(2))
      have "\<not> room < length ?bs" using len room by linarith
      then show "file_read D fd s room n = Some (?s, ?bs, Inr (of_nat (length ?bs)))"
        using Inr i by (simp add: file_read_def bytes Let_def del: length_take length_drop)
      show "file_held E D (Some (fd, p + length ?bs)) ?s"
        using h i by (auto simp: file_state_def disk_holds_def tick_def)
      show "adds s [] [] ?s" using i by (simp add: adds_def sends_def file_bytes_def path_bytes_def tick_def)
      show "prefix ?bs (drop p (file_bytes s))" by (rule take_is_prefix)
      show "length ?bs \<le> unat n" by (rule len)
      show "drop p (file_bytes s) = []" if "file_steady E D" "n \<noteq> 0" "?bs = []"
      proof -
        have "m \<noteq> 0" using file_steadyD(6) [OF that(1), of "clock s"] Inr by simp
        then have "unat (min m n) \<noteq> 0" using that(2) by (simp add: min_def unat_eq_zero)
        then show ?thesis using that(3) by (simp add: take_eq_Nil)
      qed
    qed
  qed
qed

lemma prefix_drop: "prefix xs ys \<Longrightarrow> ys = xs @ drop (length xs) ys"
  by (auto simp: prefix_def)

lemma file_send_back_spec:
  assumes "file_held E D (Some (fd, p)) s" and "length buf = unat BUFFER_SIZE"
  shows "\<exists>s' buf' out p'. file_send_back E D fd s buf = Some (s', buf') \<and> file_held E D (Some (fd, p')) s' \<and>
    adds s out [] s' \<and> length buf' = unat BUFFER_SIZE \<and> prefix out (drop p (file_bytes s)) \<and>
    (file_steady E D \<longrightarrow> out = drop p (file_bytes s))"
  using assms
proof (induction "length (drop p (file_bytes s))" arbitrary: s buf p rule: less_induct)
  case less
  have n: "unat (BUFFER_SIZE - 1) = 1023" "unat BUFFER_SIZE = 1024" "BUFFER_SIZE - 1 \<noteq> 0"
    by (simp_all add: BUFFER_SIZE_def)
  have len: "length buf = 1024" using less.prems(2) n by simp
  have room: "unat (BUFFER_SIZE - 1) \<le> length buf" using n len by simp
  let ?rest = "drop p (file_bytes s)"
  show ?case
  proof (rule file_read_spec [OF less.prems(1) room])
    fix s1 err
    assume "file_read D fd s (length buf) (BUFFER_SIZE - 1) = Some (s1, [], Inl err)"
      "file_held E D (Some (fd, p)) s1" "adds s [] [] s1" "\<not> file_steady E D"
    then show ?thesis
      by (subst file_send_back.simps) (auto simp: store_def less.prems(2))
  next
    fix s1 bs
    assume read: "file_read D fd s (length buf) (BUFFER_SIZE - 1) = Some (s1, bs, Inr (of_nat (length bs)))"
      and h1: "file_held E D (Some (fd, p + length bs)) s1" and q: "adds s [] [] s1"
      and bs: "prefix bs ?rest" "length bs \<le> unat (BUFFER_SIZE - 1)"
      and all: "file_steady E D \<Longrightarrow> BUFFER_SIZE - 1 \<noteq> 0 \<Longrightarrow> bs = [] \<Longrightarrow> ?rest = []"
    have short: "length bs \<le> 1023" using bs(2) n by simp
    let ?buf = "bs @ drop (length bs) buf" and ?n = "of_nat (length bs) :: size_t"
    have st: "store bs buf = Some ?buf" and len1: "length ?buf = unat BUFFER_SIZE"
      using short len n by (simp_all add: store_def)
    have un: "unat ?n = length bs" using short by (simp add: unat_of_nat)
    have same: "file_bytes s1 = file_bytes s" using adds_bytes [OF q] by simp
    have "?rest = bs @ drop (length bs) ?rest" by (rule prefix_drop [OF bs(1)])
    then have rest: "?rest = bs @ drop (p + length bs) (file_bytes s)" by (simp only: drop_drop add.commute)
    show ?thesis
    proof (cases "bs = []")
      case True
      have "file_send_back E D fd s buf = Some (s1, buf)"
        by (subst file_send_back.simps) (use True st in \<open>simp add: read\<close>)
      moreover have "file_held E D (Some (fd, p)) s1" using h1 True by simp
      ultimately show ?thesis using q less.prems(2) all n(3) True by fastforce
    next
      case False
      have nz: "?n \<noteq> 0" using False un by (metis length_0_conv unat_0)
      have E: "undisturbed E" "unat ?n \<le> length ?buf" using h1 by (simp_all add: file_state_def un)
      from sock_write_sent [OF E, of s1] obtain r out t where
        w: "write_all (sock_write E) s1 ?buf ?n = Some (s1\<lparr>outgoing := outgoing s1 @ out, clock := t\<rparr>, r)"
          "prefix out bs" "r = Inr ?n \<Longrightarrow> out = bs" "obliging E \<Longrightarrow> r = Inr ?n"
        unfolding un by (simp add: un) blast
      let ?s2 = "s1\<lparr>outgoing := outgoing s1 @ out, clock := t\<rparr>"
      have h2: "file_held E D (Some (fd, p + length bs)) ?s2" using h1 by (simp add: file_state_def)
      have a2: "adds s out [] ?s2" using q by (simp add: adds_def sends_def file_bytes_def)
      show ?thesis
      proof (cases "r = Inr ?n")
        case False
        have "file_send_back E D fd s buf = Some (?s2, ?buf)"
          by (subst file_send_back.simps) (use False nz in \<open>simp add: read st w(1)\<close>)
        moreover have "prefix out ?rest" unfolding rest by (rule prefix_order.trans [OF w(2)]) simp
        moreover have "\<not> file_steady E D" using w(4) False file_steadyD(1) by blast
        ultimately show ?thesis using h2 a2 len1 by blast
      next
        case True
        have out: "out = bs" by (rule w(3) [OF True])
        have same2: "file_bytes ?s2 = file_bytes s" by (simp add: file_bytes_def same [unfolded file_bytes_def])
        have "length (drop (p + length bs) (file_bytes ?s2)) < length ?rest"
          unfolding rest same2 using False by simp
        from less.hyps [OF this h2 len1] obtain s' buf' more p' where
          ih: "file_send_back E D fd ?s2 ?buf = Some (s', buf')" "file_held E D (Some (fd, p')) s'" "adds ?s2 more [] s'"
            "length buf' = unat BUFFER_SIZE" "prefix more (drop (p + length bs) (file_bytes s))"
            "file_steady E D \<longrightarrow> more = drop (p + length bs) (file_bytes s)"
          unfolding same2 by blast
        have "file_send_back E D fd s buf = file_send_back E D fd ?s2 ?buf"
          by (subst (1) file_send_back.simps) (use True nz in \<open>simp add: read st w(1)\<close>)
        moreover have "adds s (out @ more) [] s'" using adds_trans [OF a2 ih(3)] by simp
        ultimately show ?thesis using ih unfolding rest out by auto
      qed
    qed
  qed
qed

section \<open>A round of a client\<close>

text \<open>What a segment does to the log, what is sent for it, and whether the client goes on.\<close>

definition a_file_round :: "surroundings \<Rightarrow> byte list \<Rightarrow> byte list \<Rightarrow> byte list \<times> byte list \<times> bool" where
  "a_file_round E log bs =
     (if take 19 bs = seekto_prefix
      then (log, [], scan_pair E (takeWhile (\<lambda>b. b \<noteq> 0) (drop 19 bs)) \<noteq> None)
      else (log @ bs, if 10 \<in> set bs then log @ bs else [], 10 \<notin> set bs))"

text \<open>
  A round does this, or fails on the way: then it appends a beginning of the segment, sends a beginning of the
  answer, and the client leaves.
\<close>

definition file_round_does ::
  "surroundings \<Rightarrow> disk_answers \<Rightarrow> file_session \<Rightarrow> byte list \<times> byte list \<times> bool \<Rightarrow>
   (file_session \<times> byte list \<times> bool) option \<Rightarrow> bool" where
  "file_round_does E D s spec result \<longleftrightarrow>
     (case (spec, result) of
        (_, None) \<Rightarrow> False
      | ((log, out, g), Some (s', buf, go)) \<Rightarrow>
          file_ok E D s' \<and> length buf = unat BUFFER_SIZE \<and>
          (\<exists>sent w. adds s sent w s' \<and> prefix (file_bytes s') log \<and> prefix sent out \<and>
             (go \<or> file_steady E D \<longrightarrow> file_bytes s' = log \<and> sent = out \<and> go = g)))"

lemma file_round_I:
  "file_ok E D s' \<Longrightarrow> length buf = unat BUFFER_SIZE \<Longrightarrow> adds s sent w s' \<Longrightarrow> prefix (file_bytes s @ w) log \<Longrightarrow>
   prefix sent out \<Longrightarrow> (go \<or> file_steady E D \<Longrightarrow> file_bytes s @ w = log \<and> sent = out \<and> go = g) \<Longrightarrow>
   file_round_does E D s (log, out, g) (Some (s', buf, go))"
  by (auto simp: file_round_does_def adds_bytes)

text \<open>Giving back the mutex at the end.\<close>

lemma file_leave:
  assumes "file_held E D None s1" "length buf = unat BUFFER_SIZE" "adds s sent w s1" "prefix (file_bytes s @ w) log"
    "prefix sent out" "file_steady E D \<Longrightarrow> file_bytes s @ w = log \<and> sent = out \<and> \<not> g"
  shows "file_round_does E D s (log, out, g) (leave s1 buf)"
proof (rule file_unlock_spec [OF assms(1)])
  fix s2
  assume u: "unlock_file s1 = Some s2" "file_ok E D s2" "adds s1 [] [] s2"
  show ?thesis
    unfolding leave_def u(1) bind.bind_lunit
    by (rule file_round_I [OF u(2) assms(2) adds_more(2) [OF assms(3) u(3)] assms(4,5)]) (use assms(6) in auto)
qed

lemma file_close_leave:
  assumes "file_held E D (Some (fd, p)) s1" "length buf = unat BUFFER_SIZE" "adds s sent w s1"
    "prefix (file_bytes s @ w) log" "prefix sent out"
    "file_steady E D \<Longrightarrow> file_bytes s @ w = log \<and> sent = out \<and> \<not> g"
  shows "file_round_does E D s (log, out, g) (leave (close_file fd s1) buf)"
  using file_leave [OF close_file_spec(1) [OF assms(1)] assms(2) adds_more(2) [OF assms(3) close_file_spec(2) [OF assms(1)]]
      assms(4-6)] .

lemma file_seekto_segment_spec:
  assumes ok: "file_ok E D s" and buf: "buf = bs @ 0 # rest" "length buf = unat BUFFER_SIZE"
    and pre: "take 19 bs = seekto_prefix"
  shows "file_round_does E D s (a_file_round E (file_bytes s) bs) (file_seekto_segment E s buf)"
proof -
  let ?str = "takeWhile (\<lambda>b. b \<noteq> 0) (drop 19 bs)"
  have "length (take 19 bs) = 19" unfolding pre by (simp add: seekto_prefix_def)
  then have "drop 19 buf = drop 19 bs @ 0 # rest" by (simp add: buf(1))
  then have str: "c_string (drop 19 buf) = Some ?str" by (simp add: c_string_store)
  have spec: "a_file_round E (file_bytes s) bs = (file_bytes s, [], scan_pair E ?str \<noteq> None)"
    by (simp add: a_file_round_def pre)
  show ?thesis
  proof (cases "scan_pair E ?str")
    case None
    then have "file_seekto_segment E s buf = Some (s, buf, False)" by (simp add: file_seekto_segment_def str)
    then show ?thesis using file_round_I [OF ok buf(2) adds_refl] None by (simp add: spec)
  next
    case (Some st)
    note seg = file_seekto_segment_def str Some
    show ?thesis
    proof (rule file_lock_spec [OF ok])
      fix s1
      assume l: "lock_file E s = Some (s1, False)" "file_ok E D s1" "adds s [] [] s1" "\<not> file_steady E D"
      show ?thesis using file_round_I [OF l(2) buf(2) l(3)] l(1,4) by (simp add: seg spec)
    next
      fix s1
      assume l: "lock_file E s = Some (s1, True)" "file_held E D None s1" "adds s [] [] s1"
      show ?thesis
      proof (rule file_unlock_spec [OF l(2)])
        fix s2
        assume u: "unlock_file s1 = Some s2" "file_ok E D s2" "adds s1 [] [] s2"
        show ?thesis
          using file_round_I [OF u(2) buf(2) adds_more(2) [OF l(3) u(3)]] l(1) u(1) by (simp add: seg spec)
      qed
    qed
  qed
qed

lemma file_write_segment_spec:
  assumes ok: "file_ok E D s" and buf: "buf = bs @ 0 # rest" "length buf = unat BUFFER_SIZE"
    and pre: "take 19 bs \<noteq> seekto_prefix"
  shows "file_round_does E D s (a_file_round E (file_bytes s) bs) (file_write_segment E D s buf (of_nat (length bs)))"
proof -
  let ?n = "of_nat (length bs) :: size_t" and ?old = "file_bytes s"
  have "length bs \<le> 1023" using buf by (simp add: BUFFER_SIZE_def)
  then have un: "unat ?n = length bs" by (simp add: unat_of_nat)
  have fits: "unat ?n \<le> length buf" "take (unat ?n) buf = bs" by (simp_all add: un buf(1))
  have nl: "memchr buf 10 (unat ?n) = Some (10 \<in> set bs)" using fits by (simp add: memchr_def)
  have spec: "a_file_round E ?old bs = (?old @ bs, if 10 \<in> set bs then ?old @ bs else [], 10 \<notin> set bs)"
    by (simp add: a_file_round_def pre)
  note seg = file_write_segment_def spec
  show ?thesis
  proof (rule file_lock_spec [OF ok])
    fix s1
    assume l: "lock_file E s = Some (s1, False)" "file_ok E D s1" "adds s [] [] s1" "\<not> file_steady E D"
    show ?thesis using file_round_I [OF l(2) buf(2) l(3)] l(1,4) by (simp add: seg)
  next
    fix s1
    assume l: "lock_file E s = Some (s1, True)" "file_held E D None s1" "adds s [] [] s1"
    show ?thesis
    proof (rule open_file_spec [OF l(2)])
      fix s2 err
      assume o: "open_file E s1 = (s2, Inl err)" "file_held E D None s2" "adds s1 [] [] s2" "\<not> file_steady E D"
      show ?thesis
        using file_leave [OF o(2) buf(2) adds_more(2) [OF l(3) o(3)]] l(1) o(1,4) by (simp add: seg)
    next
      fix s2 fd
      assume o: "open_file E s1 = (s2, Inr fd)" "file_held E D (Some (fd, 0)) s2" "adds s1 [] [] s2"
      note q2 = adds_more(2) [OF l(3) o(3)]
      show ?thesis
      proof (rule file_write_all [OF o(2) fits(1), unfolded fits(2)])
        fix s3 r w p
        assume w: "write_all (file_write D fd) s2 buf ?n = Some (s3, r)" "file_held E D (Some (fd, p)) s3"
          "adds s2 [] w s3" "prefix w bs" "r = Inr ?n \<Longrightarrow> w = bs" "file_steady E D \<Longrightarrow> r = Inr ?n"
        note q3 = adds_more(1) [OF q2 w(3)]
        have run: "file_write_segment E D s buf ?n =
            (if r \<noteq> Inr ?n then leave (close_file fd s3) buf
             else if 10 \<in> set bs
             then (case lseek_start D fd s3 of
                 (s, Some err) \<Rightarrow> leave (close_file fd s) buf
               | (s, None) \<Rightarrow> do { (s, buf) \<leftarrow> file_send_back E D fd s buf; leave (close_file fd s) buf })
             else do { s \<leftarrow> unlock_file (close_file fd s3); Some (s, buf, True) })"
          using l(1) o(1) w(1) nl by (simp add: seg)
        consider "r \<noteq> Inr ?n" | "r = Inr ?n" "10 \<notin> set bs" | "r = Inr ?n" "10 \<in> set bs" by blast
        then show ?thesis
        proof cases
          case 1
          have "file_round_does E D s (a_file_round E ?old bs) (leave (close_file fd s3) buf)"
            unfolding spec by (rule file_close_leave [OF w(2) buf(2) q3]) (use w(4,6) 1 in auto)
          then show ?thesis using 1 by (simp add: run)
        next
          case 2
          note c = close_file_spec [OF w(2)]
          show ?thesis
          proof (rule file_unlock_spec [OF c(1)])
            fix s4
            assume u: "unlock_file (close_file fd s3) = Some s4" "file_ok E D s4" "adds (close_file fd s3) [] [] s4"
            note q4 = adds_more(2) [OF adds_more(2) [OF q3 c(2)] u(3)]
            have "file_round_does E D s (a_file_round E ?old bs) (Some (s4, buf, True))"
              unfolding spec by (rule file_round_I [OF u(2) buf(2) q4]) (use w(5) 2 in auto)
            then show ?thesis using 2 u(1) by (simp add: run)
          qed
        next
          case 3
          have wbs: "w = bs" by (rule w(5) [OF 3(1)])
          show ?thesis
          proof (rule lseek_start_spec [OF w(2)])
            fix s4 err
            assume k: "lseek_start D fd s3 = (s4, Some err)" "file_held E D (Some (fd, p)) s4" "adds s3 [] [] s4"
              "\<not> file_steady E D"
            have "file_round_does E D s (a_file_round E ?old bs) (leave (close_file fd s4) buf)"
              unfolding spec by (rule file_close_leave [OF k(2) buf(2) adds_more(2) [OF q3 k(3)]]) (use k(4) wbs in auto)
            then show ?thesis using 3 k(1) by (simp add: run)
          next
            fix s4
            assume k: "lseek_start D fd s3 = (s4, None)" "file_held E D (Some (fd, 0)) s4" "adds s3 [] [] s4"
            note q4 = adds_more(2) [OF q3 k(3)]
            have now: "file_bytes s4 = ?old @ bs" using adds_bytes [OF q4] wbs by simp
            from file_send_back_spec [OF k(2) buf(2)] obtain s5 buf' out p' where
              b: "file_send_back E D fd s4 buf = Some (s5, buf')" "file_held E D (Some (fd, p')) s5" "adds s4 out [] s5"
                "length buf' = unat BUFFER_SIZE" "prefix out (?old @ bs)" "file_steady E D \<longrightarrow> out = ?old @ bs"
              by (auto simp: now)
            have q5: "adds s out bs s5" using adds_trans [OF q4 b(3)] wbs by simp
            have "file_round_does E D s (a_file_round E ?old bs) (leave (close_file fd s5) buf')"
              unfolding spec by (rule file_close_leave [OF b(2,4) q5]) (use b(5,6) 3 in auto)
            then show ?thesis using 3 k(1) b(1) by (simp add: run)
          qed
        qed
      qed
    qed
  qed
qed

definition a_file_receive :: "surroundings \<Rightarrow> byte list \<Rightarrow> conn_errno + byte list \<Rightarrow> byte list \<times> byte list \<times> bool" where
  "a_file_receive E log r =
     (case r of Inl err \<Rightarrow> (log, [], False)
      | Inr bs \<Rightarrow> if bs = [] then (log, [], False) else a_file_round E log bs)"

lemma file_client_round_spec:
  assumes ok: "file_ok E D s" and buf: "length buf = unat BUFFER_SIZE"
    and inc: "next_segment (incoming s) = (r, rest)"
  shows "file_round_does E D (s\<lparr>incoming := rest\<rparr>) (a_file_receive E (file_bytes s) r) (file_client_round E D s buf)"
proof -
  let ?s = "s\<lparr>incoming := rest\<rparr>"
  define s1 where s1: "s1 = ?s\<lparr>clock := Suc (clock s)\<rparr>"
  have rc: "recv s (BUFFER_SIZE - 1) = (s1, r)" using recv_next [OF inc] by (simp add: s1)
  have ok1: "file_ok E D s1" and q: "adds ?s [] [] s1" and same: "file_bytes s1 = file_bytes s"
    using ok by (simp_all add: s1 file_state_def adds_def sends_def file_bytes_def)
  have stop: "file_round_does E D ?s (file_bytes s, [], False) (Some (s1, buf, False))"
    by (rule file_round_I [OF ok1 buf q]) (simp_all add: file_bytes_def)
  have transfer: "file_round_does E D ?s spec res" if "file_round_does E D s1 spec res" for spec res
  proof -
    have "adds s1 = adds ?s" by (intro ext) (simp add: s1 adds_def sends_def file_bytes_def)
    with that show ?thesis unfolding file_round_does_def by (simp only:)
  qed
  show ?thesis
  proof (cases r)
    case (Inl err)
    then show ?thesis using stop by (simp add: file_client_round_def rc a_file_receive_def)
  next
    case (Inr bs)
    show ?thesis
    proof (cases "bs = []")
      case True
      then show ?thesis using stop Inr by (simp add: file_client_round_def rc a_file_receive_def)
    next
      case False
      let ?buf = "bs @ 0 # drop (Suc (length bs)) buf"
      note st = segment_stored [OF next_segment_length [OF inc [unfolded Inr]] buf]
      have run: "file_client_round E D s buf =
          (if take 19 bs = seekto_prefix then file_seekto_segment E s1 ?buf
           else file_write_segment E D s1 ?buf (of_nat (length bs)))"
        by (simp add: file_client_round_def rc Inr False st(1,3))
      have "file_round_does E D s1 (a_file_round E (file_bytes s) bs) (file_client_round E D s buf)"
        using file_seekto_segment_spec [OF ok1 refl st(2)] file_write_segment_spec [OF ok1 refl st(2)]
        by (simp add: run same)
      from transfer [OF this] show ?thesis by (simp add: Inr False a_file_receive_def)
    qed
  qed
qed

section \<open>A round of the timer\<close>

text \<open>
  The round appends the text, or a beginning of it, whatever the lock says; then it unlocks the mutex.
\<close>

lemma timestamp_round_run:
  assumes lock: "lock_file E s = Some (s1, b)" and s1: "file_state E D m None s1" "adds s [] [] s1"
    and sized: "length txt < length cells" "length cells = 100" "0 \<notin> set txt"
  obtains s2 w where "timestamp_round E D (Some txt) cells s = unlock_file s2" "file_state E D m None s2" "adds s [] w s2"
    "prefix w txt" "file_steady E D \<Longrightarrow> w = txt"
proof -
  let ?buf = "txt @ 0 # drop (Suc (length txt)) cells" and ?n = "of_nat (length txt) :: size_t"
  have st: "strftime (Some txt) cells = Some ?buf" using sized by (simp add: strftime_def store_def)
  have str: "c_string ?buf = Some txt" using sized(3) by (auto simp: c_string_store takeWhile_eq_all_conv)
  have un: "unat ?n = length txt" using sized by (simp add: unat_of_nat)
  have len: "unat ?n \<le> length ?buf" by (simp add: un)
  have taken: "take (unat ?n) ?buf = txt" by (simp add: un)
  show thesis
  proof (rule open_file_spec [OF s1(1)])
    fix s2 err
    assume o: "open_file E s1 = (s2, Inl err)" "file_state E D m None s2" "adds s1 [] [] s2" "\<not> file_steady E D"
    show thesis
      by (rule that [OF _ o(2) adds_more(2) [OF s1(2) o(3)]]) (use o(4) in \<open>simp_all add: timestamp_round_def st lock o(1)\<close>)
  next
    fix s2 fd
    assume o: "open_file E s1 = (s2, Inr fd)" "file_state E D m (Some (fd, 0)) s2" "adds s1 [] [] s2"
    show thesis
    proof (rule file_write_all [OF o(2) len, unfolded taken])
      fix s3 r w p
      assume w: "write_all (file_write D fd) s2 ?buf ?n = Some (s3, r)" "file_state E D m (Some (fd, p)) s3"
        "adds s2 [] w s3" "prefix w txt" "r = Inr ?n \<Longrightarrow> w = txt" "file_steady E D \<Longrightarrow> r = Inr ?n"
      note q = adds_more(1) [OF adds_more(2) [OF s1(2) o(3)] adds_more(2) [OF w(3) close_file_spec(2) [OF w(2)]]]
      show thesis
        by (rule that [OF _ close_file_spec(1) [OF w(2)] q])
           (use w(4-6) in \<open>simp_all add: timestamp_round_def st lock o(1) str w(1)\<close>)
    qed
  qed
qed

lemma timestamp_round_spec:
  assumes ok: "file_ok E D s" and sized: "length txt < length cells" "length cells = 100" "0 \<notin> set txt"
    and lock: "\<not> lock_fails E (clock s)"
  obtains s' w where "timestamp_round E D (Some txt) cells s = Some s'" "file_ok E D s'" "adds s [] w s'" "prefix w txt"
    "file_steady E D \<Longrightarrow> w = txt"
proof (rule file_lock_spec [OF ok])
  fix s1
  assume "lock_file E s = Some (s1, False)"
  then show ?thesis using lock by (auto simp: lock_file_def)
next
  fix s1
  assume l: "lock_file E s = Some (s1, True)" "file_held E D None s1" "adds s [] [] s1"
  from timestamp_round_run [OF l sized] obtain s2 w where
    s2: "timestamp_round E D (Some txt) cells s = unlock_file s2" "file_held E D None s2" "adds s [] w s2"
      "prefix w txt" "file_steady E D \<Longrightarrow> w = txt" by blast
  show ?thesis
  proof (rule file_unlock_spec [OF s2(2)])
    fix s3
    assume "unlock_file s2 = Some s3" "file_ok E D s3" "adds s2 [] [] s3"
    then show ?thesis using that s2 adds_more(2) [OF s2(3)] by metis
  qed
qed

text \<open>When the lock fails the round unlocks a mutex that is not locked, which is undefined.\<close>

lemma timestamp_round_unlocked:
  assumes ok: "file_ok E D s" and sized: "length txt < length cells" "length cells = 100" "0 \<notin> set txt"
    and lock: "lock_fails E (clock s)"
  shows "timestamp_round E D (Some txt) cells s = None"
proof -
  have l: "lock_file E s = Some (tick s, False)" using lock by (simp add: lock_file_def)
  have "file_ok E D (tick s)" "adds s [] [] (tick s)"
    using ok by (simp_all add: file_state_def adds_def sends_def file_bytes_def tick_def)
  from timestamp_round_run [OF l this sized] obtain s2 where
    "timestamp_round E D (Some txt) cells s = unlock_file s2" "file_ok E D s2" by blast
  then show ?thesis by (simp add: unlock_file_def file_state_def pthread_mutex_unlock_def)
qed

end
