(* ===== verification/File_Server.thy ===== *)
theory File_Server
  imports File_Rounds Server_Steps
begin

text \<open>
  The server in the build without the device: the clients of \<open>Server\<close> with their rounds on the file, the
  timer (\<open>timestamp_thread\<close>) as one more thread, and the shutdown, which cancels it and removes the file.
  The rounds on the file are an instance of \<open>client_rounds\<close>.
\<close>

section \<open>The state\<close>

text \<open>The global \<open>timer_thread\<close>: zero, the id of the running timer, or an id of no thread.\<close>

datatype timer = No_timer | Ticking | Stale

record file_server = server +
  sv_storage :: disk
  timer_thread :: timer

text \<open>What a client and the timer see.\<close>

definition file_session_of :: "file_server \<Rightarrow> client_thread \<Rightarrow> file_session" where
  "file_session_of S c =
     \<lparr>machine = sv_machine S, file_mutex = sv_file_mutex S, threads = sv_threads S, connected = online c,
      incoming = inbox c, outgoing = outbox c, clock = sv_clock S, storage = sv_storage S\<rparr>"

definition timer_session_of :: "file_server \<Rightarrow> file_session" where
  "timer_session_of S =
     \<lparr>machine = sv_machine S, file_mutex = sv_file_mutex S, threads = sv_threads S, connected = False,
      incoming = [], outgoing = [], clock = sv_clock S, storage = sv_storage S\<rparr>"

definition put_timer_session :: "file_session \<Rightarrow> file_server \<Rightarrow> file_server" where
  "put_timer_session s S = S\<lparr>sv_file_mutex := file_mutex s, sv_clock := clock s, sv_storage := storage s\<rparr>"

section \<open>The steps\<close>

text \<open>A step of a client or of the main thread, or a round of the timer with the text of the time.\<close>

datatype file_action = Client action | Stamp "byte list option" "byte list"

definition round_file_client ::
  "surroundings \<Rightarrow> disk_answers \<Rightarrow> nat \<Rightarrow> byte list \<Rightarrow> client_thread \<Rightarrow> file_server \<Rightarrow> file_server option" where
  "round_file_client E D t buf c S = do {
     (s, buf, go_on) \<leftarrow> file_client_round E D (file_session_of S c) buf;
     Some ((put_session t (c\<lparr>phase := (if go_on then Receiving buf else Leaving)\<rparr>) s S)\<lparr>sv_storage := storage s\<rparr>)
   }"

definition run_timer ::
  "surroundings \<Rightarrow> disk_answers \<Rightarrow> byte list option \<Rightarrow> byte list \<Rightarrow> file_server \<Rightarrow> file_server option" where
  "run_timer E D time cells S =
     (if keep_running S \<and> timer_thread S = Ticking
      then map_option (\<lambda>s. put_timer_session s S) (timestamp_round E D time cells (timer_session_of S))
      else Some S)"

definition run_file_action :: "surroundings \<Rightarrow> disk_answers \<Rightarrow> file_action \<Rightarrow> file_server \<Rightarrow> file_server option" where
  "run_file_action E D a S =
     (case a of
        Client a \<Rightarrow> run_with (round_file_client E D) a S
      | Stamp time cells \<Rightarrow> run_timer E D time cells S)"

text \<open>
  What the system keeps to, as for \<open>action_ok\<close>; and there is a time, whose text fits into the array of 100
  bytes and has no null.
\<close>

definition time_fits :: "byte list option \<Rightarrow> byte list \<Rightarrow> bool" where
  "time_fits time cells \<longleftrightarrow> length cells = 100 \<and> (\<exists>txt. time = Some txt \<and> length txt < 100 \<and> 0 \<notin> set txt)"

definition file_action_ok :: "file_action \<Rightarrow> file_server \<Rightarrow> bool" where
  "file_action_ok a S =
     (case a of
        Client a \<Rightarrow> action_ok a S
      | Stamp time cells \<Rightarrow> time_fits time cells)"

text \<open>A round of the timer that the lock fails for; the timer does not look at its answer.\<close>

definition unlocked_stamp :: "surroundings \<Rightarrow> file_action \<Rightarrow> file_server \<Rightarrow> bool" where
  "unlocked_stamp E a S = (case a of Client a \<Rightarrow> False | Stamp time cells \<Rightarrow> lock_fails E (sv_clock S))"

text \<open>The server before its loop; the file may be there from an earlier run.\<close>

definition file_server_start :: "listener \<Rightarrow> world \<Rightarrow> disk \<Rightarrow> file_server" where
  "file_server_start l w d =
     \<lparr>keep_running = True, listening = l, sv_machine = w, sv_file_mutex = Free, sv_threads = no_threads,
      sv_clients = Map.empty, sv_clock = 0, sv_storage = d, timer_thread = Ticking\<rparr>"

inductive file_reachable :: "surroundings \<Rightarrow> disk_answers \<Rightarrow> file_server \<Rightarrow> bool" for E D where
  start: "disk_holds None d \<Longrightarrow> file_reachable E D (file_server_start l w d)"
| step: "file_reachable E D S \<Longrightarrow> file_action_ok a S \<Longrightarrow> run_file_action E D a S = Some S' \<Longrightarrow>
    file_reachable E D S'"

section \<open>The rounds on the file\<close>

definition file_log :: "file_server \<Rightarrow> byte list" where
  "file_log S = path_bytes (sv_storage S)"

text \<open>What a round on the file relies on.\<close>

definition file_free :: "file_server \<Rightarrow> bool" where
  "file_free S \<longleftrightarrow> sv_file_mutex S = Free \<and> disk_holds None (sv_storage S)"

lemma round_file_run:
  assumes E: "undisturbed E" "disk_undisturbed D" and w: "file_free S" and len: "length buf = unat BUFFER_SIZE"
    and inc: "next_segment (inbox c) = (r, rest)" and spec: "a_file_receive E (file_log S) r = (l, out, g)"
  obtains S' c' where "round_file_client E D t buf c S = Some S'" "file_free S'" "only_client t c' S S'" "goes_on c c'"
    "prefix (file_log S) (file_log S')" "timer_thread S' = timer_thread S"
    "file_steady E D \<Longrightarrow> file_log S' = l \<and>
      abs_client c' = \<lparr>a_stage = (if g then A_Receiving else A_Leaving), a_inbox = rest, a_outbox = outbox c @ out\<rparr>"
proof -
  let ?s = "file_session_of S c"
  have ok: "file_ok E D ?s" using E w by (simp add: file_state_def file_session_of_def file_free_def)
  have view: "file_bytes ?s = file_log S" "next_segment (incoming ?s) = (r, rest)"
    by (simp_all add: file_bytes_def file_log_def file_session_of_def inc)
  note round = file_client_round_spec [OF ok len view(2), unfolded view(1) spec]
  obtain s buf' go where s: "file_client_round E D ?s buf = Some (s, buf', go)"
    using round by (auto simp: file_round_does_def split: option.splits)
  have ok': "file_ok E D s" "length buf' = unat BUFFER_SIZE" "threads s = sv_threads S" "incoming s = rest"
    and grows: "prefix (file_log S) (file_bytes s)"
    and good: "file_steady E D \<Longrightarrow> file_bytes s = l \<and> outgoing s = outbox c @ out \<and> go = g"
    using round view(1) unfolding s
    by (auto simp: file_round_does_def adds_def sends_def file_session_of_def file_bytes_def)
  let ?c = "c\<lparr>phase := (if go then Receiving buf' else Leaving)\<rparr>"
  let ?c' = "?c\<lparr>inbox := incoming s, outbox := outgoing s, online := connected s\<rparr>"
  let ?S = "(put_session t ?c s S)\<lparr>sv_storage := storage s\<rparr>"
  have log: "file_log ((put_session t c' s S)\<lparr>sv_storage := storage s\<rparr>) = file_bytes s" for c' by (simp add: file_log_def file_bytes_def)
  show ?thesis
  proof (rule that)
    show "round_file_client E D t buf c S = Some ?S" by (simp add: round_file_client_def s)
    show "file_free ?S" using ok'(1) by (simp add: file_free_def put_session_def file_state_def)
    show "only_client t ?c' S ?S" using ok'(3) by (simp add: only_client_def put_session_def)
    show "goes_on c ?c'" using ok'(2) by (simp add: goes_on_def)
    show "prefix (file_log S) (file_log ?S)" using grows by (simp add: log)
    show "timer_thread ?S = timer_thread S" by (simp add: put_session_def)
    show "file_log ?S = l \<and>
        abs_client ?c' = \<lparr>a_stage = (if g then A_Receiving else A_Leaving), a_inbox = rest, a_outbox = outbox c @ out\<rparr>"
      if "file_steady E D"
      using good [OF that] ok'(4) by (simp add: log abs_client_def)
  qed
qed

interpretation regular_file: client_rounds "round_file_client E D" "\<lambda>S. undisturbed E \<and> disk_undisturbed D \<and> file_free S"
  file_log "a_file_receive E" "\<lambda>log r. file_steady E D" for E D
proof unfold_locales
  fix S :: file_server and buf :: "byte list" and t and c :: client_thread
  assume S: "undisturbed E \<and> disk_undisturbed D \<and> file_free S" and len: "length buf = unat BUFFER_SIZE"
  obtain r rest where inc: "next_segment (inbox c) = (r, rest)" by (cases "next_segment (inbox c)")
  obtain l out g where spec: "a_file_receive E (file_log S) r = (l, out, g)" by (rule prod_cases3)
  show "\<exists>S' c'. round_file_client E D t buf c S = Some S' \<and> (undisturbed E \<and> disk_undisturbed D \<and> file_free S') \<and>
      only_client t c' S S' \<and> goes_on c c'"
    by (rule round_file_run [OF _ _ _ len inc spec, of D t]) (use S in auto)
next
  fix S :: file_server and buf :: "byte list" and t and c :: client_thread and r rest l out g S' c'
  assume S: "undisturbed E \<and> disk_undisturbed D \<and> file_free S" and len: "length buf = unat BUFFER_SIZE"
    and inc: "next_segment (inbox c) = (r, rest)" and fine: "file_steady E D"
    and spec: "a_file_receive E (file_log S) r = (l, out, g)"
    and run: "round_file_client E D t buf c S = Some S'" and c': "only_client t c' S S'"
  show "file_log S' = l \<and>
      abs_client c' = \<lparr>a_stage = (if g then A_Receiving else A_Leaving), a_inbox = rest, a_outbox = outbox c @ out\<rparr>"
    by (rule round_file_run [OF _ _ _ len inc spec, of D t])
       (use S fine run only_client_cong [OF c'] in auto)
qed (simp_all add: file_free_def file_log_def)

text \<open>The timer.\<close>

lemma run_timer_spec:
  assumes E: "undisturbed E" "disk_undisturbed D" and w: "file_free S" and ok: "time_fits time cells" "\<not> lock_fails E (sv_clock S)"
  obtains s w where "run_timer E D time cells S = Some (if keep_running S \<and> timer_thread S = Ticking then put_timer_session s S else S)"
    "file_free (put_timer_session s S)" "file_log (put_timer_session s S) = file_log S @ w" "prefix w (the time)"
    "file_steady E D \<Longrightarrow> w = the time"
proof -
  from ok(1) obtain stamp where time: "time = Some stamp" and sized: "length stamp < length cells" "length cells = 100" "0 \<notin> set stamp"
    by (auto simp: time_fits_def)
  have "file_ok E D (timer_session_of S)" "\<not> lock_fails E (clock (timer_session_of S))"
    using E w ok(2) by (simp_all add: file_state_def timer_session_of_def file_free_def)
  from timestamp_round_spec [OF this(1) sized this(2)] obtain s w where
    s: "timestamp_round E D (Some stamp) cells (timer_session_of S) = Some s" "file_ok E D s"
      "adds (timer_session_of S) [] w s" "prefix w stamp" "file_steady E D \<Longrightarrow> w = stamp" by blast
  show ?thesis
    by (rule that [of s w])
       (use s in \<open>simp_all add: run_timer_def time file_free_def file_log_def put_timer_session_def file_state_def
         adds_def file_bytes_def timer_session_of_def\<close>)
qed

lemma run_timer_unlocked:
  assumes E: "undisturbed E" "disk_undisturbed D" and w: "file_free S" and ok: "time_fits time cells" "lock_fails E (sv_clock S)"
    and on: "keep_running S" "timer_thread S = Ticking"
  shows "run_timer E D time cells S = None"
proof -
  from ok(1) obtain stamp where time: "time = Some stamp" and sized: "length stamp < length cells" "length cells = 100" "0 \<notin> set stamp"
    by (auto simp: time_fits_def)
  have "file_ok E D (timer_session_of S)" "lock_fails E (clock (timer_session_of S))"
    using E w ok(2) by (simp_all add: file_state_def timer_session_of_def file_free_def)
  from timestamp_round_unlocked [OF this(1) sized this(2)] show ?thesis using on by (simp add: run_timer_def time)
qed

section \<open>Every step keeps the invariant\<close>

definition file_inv :: "file_server \<Rightarrow> bool" where
  "file_inv S \<longleftrightarrow> file_free S \<and> threads_inv S \<and> keep_running S \<and> timer_thread S = Ticking"

lemma threads_inv_timer [simp]: "threads_inv (put_timer_session s S) \<longleftrightarrow> threads_inv S"
  by (simp add: threads_inv_def put_timer_session_def)

lemma run_with_other:
  assumes run: "run_with (round_file_client E D) a S = Some S'" and "\<And>t. a \<noteq> Round t"
  shows "sv_storage S' = sv_storage S \<and> timer_thread S' = timer_thread S"
  using assms
  by (auto simp: run_with_def accept_client_def start_client_def finish_client_def bind_eq_Some_conv Let_def
      split: action.splits accept_answer.splits option.splits if_splits)

lemma run_with_grows:
  assumes E: "undisturbed E" "disk_undisturbed D" and inv: "file_free S" "threads_inv S"
    and run: "run_with (round_file_client E D) a S = Some S'"
  shows "prefix (file_log S) (file_log S') \<and> timer_thread S' = timer_thread S"
proof (cases "\<exists>t. a = Round t")
  case False
  then show ?thesis using run_with_other [OF run] by (auto simp: file_log_def)
next
  case True
  then obtain t where a: "a = Round t" by blast
  show ?thesis
  proof (cases "\<exists>c buf. sv_clients S t = Some c \<and> phase c = Receiving buf")
    case False
    then have "S' = S" using run by (cases "sv_clients S t") (auto simp: run_with_def a split: phase.splits)
    then show ?thesis by simp
  next
    case True
    then obtain c buf where c: "sv_clients S t = Some c" "phase c = Receiving buf" by blast
    have round: "round_file_client E D t buf c S = Some S'" using run c by (simp add: run_with_def a)
    obtain r rest where inc: "next_segment (inbox c) = (r, rest)" by (cases "next_segment (inbox c)")
    obtain l out g where spec: "a_file_receive E (file_log S) r = (l, out, g)" by (rule prod_cases3)
    have len: "length buf = unat BUFFER_SIZE"
      by (rule regular_file.round_threads [of E D S t c buf]) (use E inv c in auto)
    show ?thesis
      by (rule round_file_run [OF E inv(1) len inc spec, of t]) (use round in auto)
  qed
qed

lemma run_file_action_inv:
  assumes inv: "file_inv S" and E: "undisturbed E" "disk_undisturbed D" and ok: "file_action_ok a S"
  obtains "unlocked_stamp E a S" "run_file_action E D a S = None"
  | S' where "\<not> unlocked_stamp E a S" "run_file_action E D a S = Some S'" "file_inv S'" "prefix (file_log S) (file_log S')"
proof (cases a)
  case (Client b)
  have S: "undisturbed E \<and> disk_undisturbed D \<and> file_free S" "threads_inv S" and on: "keep_running S" "timer_thread S = Ticking"
    and okb: "action_ok b S" using inv E ok by (simp_all add: file_inv_def file_action_ok_def Client)
  show ?thesis
  proof (rule regular_file.run_inv [OF S okb])
    fix S'
    assume S': "run_with (round_file_client E D) b S = Some S'" "undisturbed E \<and> disk_undisturbed D \<and> file_free S'" "threads_inv S'"
      "keep_running S' = keep_running S"
    have "prefix (file_log S) (file_log S') \<and> timer_thread S' = timer_thread S"
      by (rule run_with_grows [OF E _ S(2) S'(1)]) (use S(1) in simp)
    then show ?thesis
      using that(2) [of S'] S' on by (simp add: run_file_action_def Client file_inv_def unlocked_stamp_def)
  qed
next
  case (Stamp time cells)
  have S: "file_free S" and on: "threads_inv S" "keep_running S" "timer_thread S = Ticking"
    and t: "time_fits time cells"
    using inv ok by (simp_all add: file_inv_def file_action_ok_def Stamp)
  show ?thesis
  proof (cases "lock_fails E (sv_clock S)")
    case True
    then show ?thesis
      using that(1) run_timer_unlocked [OF E S t True on(2,3)]
      by (simp add: unlocked_stamp_def run_file_action_def Stamp)
  next
    case False
    show ?thesis
      by (rule run_timer_spec [OF E S t False])
         (use that(2) False on in \<open>auto simp: run_file_action_def Stamp unlocked_stamp_def file_inv_def put_timer_session_def threads_inv_def\<close>)
  qed
qed

lemma file_start_inv: "disk_holds None d \<Longrightarrow> file_inv (file_server_start l w d)"
  using no_threads_clients
  by (auto simp: file_inv_def file_free_def file_server_start_def threads_inv_def clients_fit_def)

lemma file_reachable_inv:
  assumes "file_reachable E D S" and E: "undisturbed E" "disk_undisturbed D"
  shows "file_inv S"
  using assms(1)
proof (induction rule: file_reachable.induct)
  case (start d l w)
  then show ?case by (rule file_start_inv)
next
  case (step S a S')
  from run_file_action_inv [OF step.IH E step.hyps(2)] step.hyps(3) show ?case by auto
qed

section \<open>The abstract server\<close>

definition a_file_step :: "surroundings \<Rightarrow> byte list a_server \<Rightarrow> file_action \<Rightarrow> byte list a_server" where
  "a_file_step E A a =
     (case a of
        Client a \<Rightarrow> a_step_with (a_file_receive E) A a
      | Stamp time cells \<Rightarrow> A\<lparr>a_log := a_log A @ the time\<rparr>)"

definition abs_file_server :: "file_server \<Rightarrow> byte list a_server" where
  "abs_file_server = abs_with file_log"

lemma file_action_refined:
  assumes inv: "file_inv S" and E: "file_steady E D" and ok: "file_action_ok a S"
  obtains S' where "run_file_action E D a S = Some S'" "file_inv S'"
    "abs_file_server S' = a_file_step E (abs_file_server S) a"
proof -
  note calm = file_steady_undisturbed [OF E]
  have "\<not> unlocked_stamp E a S" using E by (simp add: unlocked_stamp_def file_steady_def split: file_action.split)
  with run_file_action_inv [OF inv calm ok] obtain S' where
    S': "run_file_action E D a S = Some S'" "file_inv S'" by metis
  have "abs_file_server S' = a_file_step E (abs_file_server S) a"
  proof (cases a)
    case (Client b)
    have S: "undisturbed E \<and> disk_undisturbed D \<and> file_free S" "threads_inv S" "keep_running S" and okb: "action_ok b S"
      using inv calm ok by (simp_all add: file_inv_def file_action_ok_def Client)
    have "segment_is (\<lambda>log r. file_steady E D) file_log b S"
      using E by (simp add: segment_is_def split: action.split option.split)
    from regular_file.run_refines [OF S okb this] show ?thesis
      using S'(1) by (auto simp: run_file_action_def Client abs_file_server_def a_file_step_def)
  next
    case (Stamp time cells)
    have S: "file_free S" and on: "keep_running S" "timer_thread S = Ticking"
      and t: "time_fits time cells" "\<not> lock_fails E (sv_clock S)"
      using inv ok E by (simp_all add: file_inv_def file_action_ok_def Stamp file_steady_def)
    show ?thesis
    proof (rule run_timer_spec [OF calm S t])
      fix s w
      assume r: "run_timer E D time cells S = Some (if keep_running S \<and> timer_thread S = Ticking then put_timer_session s S else S)"
        "file_log (put_timer_session s S) = file_log S @ w" "file_steady E D \<Longrightarrow> w = the time"
      have "S' = put_timer_session s S" using S'(1) r(1) on by (simp add: run_file_action_def Stamp)
      moreover have "sv_clients (put_timer_session s S) = sv_clients S" by (simp add: put_timer_session_def)
      ultimately show ?thesis
        using r(2) r(3) [OF E] by (simp add: Stamp a_file_step_def abs_file_server_def abs_with_def)
    qed
  qed
  with S' show ?thesis using that by blast
qed

fun file_actions_ok :: "surroundings \<Rightarrow> disk_answers \<Rightarrow> file_action list \<Rightarrow> file_server \<Rightarrow> bool" where
  "file_actions_ok E D [] S = True"
| "file_actions_ok E D (a # as) S \<longleftrightarrow>
     file_action_ok a S \<and> (case run_file_action E D a S of None \<Rightarrow> True | Some S' \<Rightarrow> file_actions_ok E D as S')"

lemma file_actions_refined:
  assumes "file_inv S" and E: "file_steady E D" and "file_actions_ok E D as S"
  shows "\<exists>S'. foldM (\<lambda>S a. run_file_action E D a S) S as = Some S' \<and> file_inv S' \<and>
    abs_file_server S' = foldl (a_file_step E) (abs_file_server S) as"
  using assms(1,3)
proof (induction as arbitrary: S)
  case (Cons a as)
  from Cons.prems(2) have ok: "file_action_ok a S" by simp
  from file_action_refined [OF Cons.prems(1) E ok] obtain S1 where
    S1: "run_file_action E D a S = Some S1" "file_inv S1" "abs_file_server S1 = a_file_step E (abs_file_server S) a" .
  have "file_actions_ok E D as S1" using Cons.prems(2) S1(1) by simp
  from Cons.IH [OF S1(2) this] show ?case by (simp add: S1(1,3))
qed simp

section \<open>Start and shutdown\<close>

text \<open>
  Where the cancellation of the timer takes effect: asleep, or in a round, at the entry of \<open>open\<close>, of a
  \<open>write\<close> (the first one) or of \<open>close\<close>. The calls of the mutex are no cancellation points.
\<close>

datatype cancel_point = At_sleep | At_open | At_write | At_close

text \<open>What the timer has done when it ends; a round without a descriptor runs to its sleep.\<close>

definition timer_cancelled ::
  "surroundings \<Rightarrow> disk_answers \<Rightarrow> cancel_point \<Rightarrow> byte list option \<Rightarrow> byte list \<Rightarrow> file_session \<Rightarrow> file_session option" where
  "timer_cancelled E D p time cells s =
     (if p = At_sleep then Some s
      else do {
        timestamp \<leftarrow> strftime time cells;
        (s, locked) \<leftarrow> lock_file E s;
        if p = At_open then Some s
        else
          (case open_file E s of
             (s, Inl err) \<Rightarrow> unlock_file s
           | (s, Inr fd) \<Rightarrow>
               if p = At_write then Some s
               else do {
                 txt \<leftarrow> c_string timestamp;
                 (s, written) \<leftarrow> write_all (file_write D fd) s timestamp (of_nat (length txt));
                 Some s
               })
      })"

definition unlink_path :: "disk \<Rightarrow> disk" where
  "unlink_path d = d\<lparr>bound := None\<rparr>"

text \<open>Cancelling and joining a thread that is not there, or was joined, is undefined.\<close>

definition stop_timer ::
  "surroundings \<Rightarrow> disk_answers \<Rightarrow> cancel_point \<Rightarrow> byte list option \<Rightarrow> byte list \<Rightarrow> file_server \<Rightarrow> file_server option" where
  "stop_timer E D p time cells S =
     (case timer_thread S of
        No_timer \<Rightarrow> Some S
      | Stale \<Rightarrow> None
      | Ticking \<Rightarrow>
          map_option (\<lambda>s. (put_timer_session s S)\<lparr>timer_thread := Stale\<rparr>)
            (timer_cancelled E D p time cells (timer_session_of S)))"

definition file_cleanup_on_signal ::
  "surroundings \<Rightarrow> disk_answers \<Rightarrow> cancel_point \<Rightarrow> byte list option \<Rightarrow> byte list \<Rightarrow> file_server \<Rightarrow> file_server option" where
  "file_cleanup_on_signal E D p time cells S = do {
     S \<leftarrow> stop_timer E D p time cells S;
     S \<leftarrow> cleanup_on_signal S;
     Some (S\<lparr>sv_storage := unlink_path (sv_storage S)\<rparr>)
   }"

definition file_signal_handler ::
  "surroundings \<Rightarrow> disk_answers \<Rightarrow> cancel_point \<Rightarrow> byte list option \<Rightarrow> byte list \<Rightarrow> file_server \<Rightarrow> file_server option" where
  "file_signal_handler E D p time cells S = file_cleanup_on_signal E D p time cells (S\<lparr>keep_running := False\<rparr>)"

definition file_main_exit ::
  "surroundings \<Rightarrow> disk_answers \<Rightarrow> cancel_point \<Rightarrow> byte list option \<Rightarrow> byte list \<Rightarrow> file_server \<Rightarrow> file_server option" where
  "file_main_exit E D p time cells S = do {
     S \<leftarrow> file_signal_handler E D p time cells S;
     file_cleanup_on_signal E D p time cells S
   }"

text \<open>
  The start of \<open>main\<close> in this build: \<open>timer\<close> is whether the timer could not be created, and then whether
  \<open>pthread_create\<close> left something in \<open>timer_thread\<close>, which is zero before.
\<close>

definition file_main_start ::
  "string list \<Rightarrow> start_answers \<Rightarrow> bool option \<Rightarrow> surroundings \<Rightarrow> disk_answers \<Rightarrow> world \<Rightarrow> disk \<Rightarrow>
   (signal list \<times> file_server \<times> int) option" where
  "file_main_start argv a timer E D w d =
     (let handled = init_signal_handlers (ans_sigaction a);
          (l, r) = setup_server_socket a \<lparr>server_socket = - 1, open_socks = []\<rparr>;
          S = (file_server_start l w d)\<lparr>timer_thread := No_timer\<rparr>;
          failed = (\<lambda>S. map_option (\<lambda>S. (handled, S, - 1)) (file_cleanup_on_signal E D At_sleep None [] S))
      in if r \<noteq> 0 \<or> daemon_mode argv \<and> ans_daemon a \<noteq> None then failed S
         else
           (case timer of
              None \<Rightarrow> Some (handled, S\<lparr>timer_thread := Ticking\<rparr>, 0)
            | Some filled \<Rightarrow> failed (S\<lparr>timer_thread := (if filled then Stale else No_timer)\<rparr>)))"

text \<open>A timer that is cancelled in its round keeps \<open>file_mutex\<close>.\<close>

lemma timer_cancelled_held:
  assumes ok: "file_ok E D s" and fine: "file_steady E D" and time: "time_fits time cells" and p: "p \<noteq> At_sleep"
  shows "\<exists>s'. timer_cancelled E D p time cells s = Some s' \<and> file_mutex s' = Held"
proof -
  from time obtain stamp where stamp: "time = Some stamp" "length stamp < length cells" "length cells = 100" "0 \<notin> set stamp"
    by (auto simp: time_fits_def)
  let ?buf = "stamp @ 0 # drop (Suc (length stamp)) cells" and ?n = "of_nat (length stamp) :: size_t"
  have st: "strftime time cells = Some ?buf" using stamp by (simp add: strftime_def store_def)
  have str: "c_string ?buf = Some stamp" using stamp(4) by (auto simp: c_string_store takeWhile_eq_all_conv)
  have len: "unat ?n \<le> length ?buf" using stamp by (simp add: unat_of_nat)
  show ?thesis
  proof (rule file_lock_spec [OF ok])
    fix s1
    assume "\<not> file_steady E D"
    then show ?thesis using fine by blast
  next
    fix s1
    assume l: "lock_file E s = Some (s1, True)" "file_held E D None s1" "adds s [] [] s1"
    show ?thesis
    proof (cases "p = At_open")
      case True
      then show ?thesis using l by (simp add: timer_cancelled_def st file_state_def)
    next
      case False
      show ?thesis
      proof (rule open_file_spec [OF l(2)])
        fix s2 err
        assume "\<not> file_steady E D"
        then show ?thesis using fine by blast
      next
        fix s2 fd
        assume o: "open_file E s1 = (s2, Inr fd)" "file_held E D (Some (fd, 0)) s2"
        show ?thesis
          by (rule file_write_all [OF o(2) len])
             (use p False l(1) o in \<open>auto simp: timer_cancelled_def st str file_state_def\<close>)
      qed
    qed
  qed
qed

lemma stop_timer_spec:
  assumes inv: "file_inv S" and E: "file_steady E D" and time: "time_fits time cells"
  obtains s where "stop_timer E D p time cells (S\<lparr>keep_running := b\<rparr>) =
      Some ((put_timer_session s (S\<lparr>keep_running := b\<rparr>))\<lparr>timer_thread := Stale\<rparr>)"
    "file_mutex s = Free \<longleftrightarrow> p = At_sleep" "p = At_sleep \<Longrightarrow> s = timer_session_of (S\<lparr>keep_running := b\<rparr>)"
proof -
  let ?S = "S\<lparr>keep_running := b\<rparr>"
  have ok: "file_ok E D (timer_session_of ?S)" and on: "timer_thread ?S = Ticking"
    using inv file_steady_undisturbed [OF E] by (simp_all add: file_inv_def file_free_def file_state_def timer_session_of_def)
  show ?thesis
  proof (cases "p = At_sleep")
    case True
    then show ?thesis
      using that [of "timer_session_of ?S"] ok on by (simp add: stop_timer_def timer_cancelled_def file_state_def)
  next
    case False
    from timer_cancelled_held [OF ok E time this] obtain s where
      "timer_cancelled E D p time cells (timer_session_of ?S) = Some s" "file_mutex s = Held" by blast
    then show ?thesis using that [of s] False on by (simp add: stop_timer_def)
  qed
qed

lemma cleanup_keeps_timer: "cleanup_on_signal S = Some S' \<Longrightarrow> timer_thread S' = timer_thread S"
  by (auto simp: cleanup_on_signal_def Let_def bind_eq_Some_conv split: if_splits)

lemma file_signal_handler_spec:
  assumes inv: "file_inv S" and E: "file_steady E D" and time: "time_fits time cells"
  shows "file_signal_handler E D p time cells S = None \<longleftrightarrow> p \<noteq> At_sleep \<or> (\<exists>t c. sv_clients S t = Some c \<and> running c)"
    and "file_signal_handler E D p time cells S = Some S' \<Longrightarrow> timer_thread S' = Stale \<and> file_log S' = []"
proof -
  let ?S = "S\<lparr>keep_running := False\<rparr>"
  from stop_timer_spec [OF inv E time, of p False] obtain s where
    stop: "stop_timer E D p time cells ?S = Some ((put_timer_session s ?S)\<lparr>timer_thread := Stale\<rparr>)"
    and s: "file_mutex s = Free \<longleftrightarrow> p = At_sleep" by blast
  let ?T = "(put_timer_session s ?S)\<lparr>timer_thread := Stale\<rparr>"
  have T: "threads_inv ?T" "sv_clients ?T = sv_clients S" "sv_file_mutex ?T = file_mutex s"
    using inv by (simp_all add: file_inv_def threads_inv_def put_timer_session_def)
  have "cleanup_on_signal ?T = None \<longleftrightarrow> p \<noteq> At_sleep \<or> (\<exists>t c. sv_clients S t = Some c \<and> running c)"
  proof (cases "p = At_sleep")
    case True
    then have "sv_file_mutex ?T = Free" using s T(3) by simp
    from cleanup_on_signal_spec(1) [OF T(1) this] show ?thesis using True T(2) by simp
  next
    case False
    then have "sv_file_mutex ?T \<noteq> Free" using s T(3) by simp
    from file_mutex_held_stuck [OF this] show ?thesis using False by simp
  qed
  then show "file_signal_handler E D p time cells S = None \<longleftrightarrow>
      p \<noteq> At_sleep \<or> (\<exists>t c. sv_clients S t = Some c \<and> running c)"
    by (simp add: file_signal_handler_def file_cleanup_on_signal_def stop bind_eq_None_conv)
  show "timer_thread S' = Stale \<and> file_log S' = []" if "file_signal_handler E D p time cells S = Some S'"
    using that
    by (auto simp: file_signal_handler_def file_cleanup_on_signal_def stop bind_eq_Some_conv file_log_def path_bytes_def
        unlink_path_def dest!: cleanup_keeps_timer)
qed

end
