(* ===== verification/File_Properties.thy ===== *)
theory File_Properties
  imports File_Server Server_Properties
begin

text \<open>
  The properties of the server in its build without the device: what the clients and the timer do to the
  file in any order, what holds of every step in any environment, and the shutdown.
\<close>

section \<open>An environment\<close>

text \<open>A file system that takes and gives at most two bytes at a time, and one that is full.\<close>

definition slow_disk :: disk_answers where
  "slow_disk = \<lparr>takes = (\<lambda>t. Inr 2), gives = (\<lambda>t. Inr 2), seeks = (\<lambda>t. None)\<rparr>"

definition full_disk :: disk_answers where
  "full_disk = \<lparr>takes = (\<lambda>t. Inl (EOTHER 28)), gives = (\<lambda>t. Inr 2), seeks = (\<lambda>t. None)\<rparr>"

definition no_file :: disk where
  "no_file = \<lparr>inodes = [], bound = None, handles = Map.empty\<rparr>"

lemma slow_disk_fine: "disk_undisturbed slow_disk" "disk_steady slow_disk" "disk_undisturbed full_disk"
  by (auto simp: disk_undisturbed_def disk_steady_def slow_disk_def full_disk_def)

lemma slow_server_fine: "file_steady slow_network slow_disk"
  using slow_network_fine(1,3) slow_disk_fine(2) by (auto simp: file_steady_def steady_def)

lemma no_file_holds: "disk_holds None no_file" "path_bytes no_file = []"
  by (simp_all add: no_file_def disk_holds_def path_bytes_def)

section \<open>All clients and the timer\<close>

text \<open>C12. The build without the device serves an append-only log: for every sequence of steps of the main thread, the client
  threads and the timer that the system can make, when no call fails and none is interrupted (a read or a write may be cut), every
  step returns, and the file, what each client was sent, what each has yet to send and where each is are those of the
  abstract server: every segment but a seek command is appended as a whole, so is every time stamp, and a client that
  ends a line is sent the whole file, from its first byte, and leaves.\<close>

theorem file_server_refines:
  assumes "file_steady E D" and "disk_holds None d"
    and "file_actions_ok E D as (file_server_start l w d)"
  shows "\<exists>S. foldM (\<lambda>S a. run_file_action E D a S) (file_server_start l w d) as = Some S \<and>
    abs_file_server S = foldl (a_file_step E) \<lparr>a_log = path_bytes d, a_clients = Map.empty\<rparr> as"
proof -
  have "abs_file_server (file_server_start l w d) = \<lparr>a_log = path_bytes d, a_clients = Map.empty\<rparr>"
    by (simp add: abs_file_server_def abs_with_def file_server_start_def file_log_def fun_eq_iff)
  then show ?thesis using file_actions_refined [OF file_start_inv [OF assms(2)] assms(1,3)] by fastforce
qed

text \<open>The timer writes ``T''; then a client sends ``a'' and a newline.\<close>

definition one_stamp :: "file_action list" where
  "one_stamp = [Client (Accept 7 [Inr [97, 10]] Thread_created), Stamp (Some [84]) (replicate 100 0),
     Client (Start 7 (Some 1) (Some (replicate 1024 0))), Client (Round 7)]"

lemma file_server_refines_witness:
  "\<exists>S. foldM (\<lambda>S a. run_file_action slow_network slow_disk a S) (file_server_start no_socket loaded_world no_file) one_stamp = Some S \<and>
    abs_file_server S = \<lparr>a_log = [84, 97, 10], a_clients =
      [7 \<mapsto> \<lparr>a_stage = A_Leaving, a_inbox = [], a_outbox = [84, 97, 10]\<rparr>]\<rparr>"
proof -
  let ?S = "file_server_start no_socket loaded_world no_file"
  have cl: "sv_clients (put_timer_session s S) = sv_clients S" "sv_threads (put_timer_session s S) = sv_threads S" for s S
    by (simp_all add: put_timer_session_def)
  have ok: "file_actions_ok slow_network slow_disk one_stamp ?S"
    by (auto simp: one_stamp_def file_action_ok_def action_ok_def time_fits_def slow_network_def file_server_start_def
        run_file_action_def run_with_def run_timer_def accept_client_def block_ok_client_def BUFFER_SIZE_def
        no_threads_def cl split: option.split)
  have "foldl (a_file_step slow_network) \<lparr>a_log = path_bytes no_file, a_clients = Map.empty\<rparr> one_stamp =
      \<lparr>a_log = [84, 97, 10], a_clients = [7 \<mapsto> \<lparr>a_stage = A_Leaving, a_inbox = [], a_outbox = [84, 97, 10]\<rparr>]\<rparr>"
    by (auto simp: one_stamp_def a_file_step_def a_step_with_def put_a_client_def a_file_receive_def a_file_round_def
        next_segment_def seekto_prefix_def no_file_holds fun_eq_iff)
  with file_server_refines [OF slow_server_fine no_file_holds(1) ok] show ?thesis
    by simp
qed



section \<open>Shutting down\<close>

text \<open>C30. The shutdown with the timer is wrong even when nothing fails: in every state that this server can reach, the handler
  of a signal comes to a defined end exactly if the cancellation finds the timer asleep and no client of the list has
  started and not yet ended (a client that is only accepted is not in the list, and is not waited for); a timer that is
  cancelled at a call on the file keeps \<open>file_mutex\<close>, which is then destroyed while it is locked. And the main thread,
  which cleans up once more, cancels a timer that was joined: no run ends in a defined way.\<close>

theorem file_shutdown_undefined:
  assumes "file_reachable E D S" and "file_steady E D" and "time_fits time cells"
  shows "(file_signal_handler E D p time cells S = None \<longleftrightarrow>
      p \<noteq> At_sleep \<or> (\<exists>t c. sv_clients S t = Some c \<and> running c)) \<and>
    file_main_exit E D p time cells S = None"
proof -
  note spec = file_signal_handler_spec [OF file_reachable_inv [OF assms(1) file_steady_undisturbed [OF assms(2)]] assms(2,3)]
  have "file_main_exit E D p time cells S = None"
    using spec(2) [of p]
    by (auto simp: file_main_exit_def file_cleanup_on_signal_def stop_timer_def bind_eq_None_conv split: option.split)
  then show ?thesis using spec(1) by blast
qed

lemma file_shutdown_undefined_witness:
  "file_signal_handler slow_network slow_disk At_sleep (Some [84]) (replicate 100 0)
     (file_server_start no_socket loaded_world no_file) \<noteq> None \<and>
   file_signal_handler slow_network slow_disk At_write (Some [84]) (replicate 100 0)
     (file_server_start no_socket loaded_world no_file) = None"
proof -
  have t: "time_fits (Some [84]) (replicate 100 0)" by (simp add: time_fits_def)
  have "sv_clients (file_server_start no_socket loaded_world no_file) = Map.empty" by (simp add: file_server_start_def)
  then show ?thesis
    using file_shutdown_undefined [OF file_reachable.start [OF no_file_holds(1)] slow_server_fine t]
    by auto
qed

end
