(* ===== verification/Js_String.thy ===== *)
theory Js_String
  imports Prelude
begin

text \<open>
  The strings and numbers of JavaScript as the pages under \<open>docs/html\<close> use them. A string
  is a list of 16-bit code units; \<open>lit\<close> writes a literal. The pattern replacements of the
  scripts (stripping blanks, stripping a row prefix), \<open>toString(16)\<close>, number to string
  conversion, \<open>toLowerCase\<close> and \<open>unescape\<close> are functions on such lists. The Unicode case
  tables are a parameter: \<open>toLowerCase lc\<close> is exact on ASCII strings and is \<open>lc\<close>
  on the others.
\<close>

type_synonym jchar = "16 word"
type_synonym jstring = "jchar list"

section \<open>Literals\<close>

definition unit_of :: "char \<Rightarrow> jchar" where
  "unit_of c = of_nat (of_char c)"

definition lit :: "string \<Rightarrow> jstring" where
  "lit s = map unit_of s"

lemma unit_of_eq_iff [simp]: "unit_of c = unit_of d \<longleftrightarrow> c = d"
proof
  assume eq: "unit_of c = unit_of d"
  have "unat (unit_of c) = of_char c" for c
  proof -
    have "(of_char c :: nat) < 2 ^ LENGTH(16)"
      by (rule less_trans [OF nat_of_char_less_256]) simp
    then show ?thesis by (simp add: unit_of_def unat_of_nat)
  qed
  then have "(of_char c :: nat) = of_char d" using eq by metis
  then show "c = d" by simp
qed simp

lemma lit_eq_iff [simp]: "lit s = lit t \<longleftrightarrow> s = t"
  by (auto simp: lit_def inj_def dest!: map_inj_on intro: inj_onI)

lemma lit_Nil [simp]: "lit [] = []"
  by (simp add: lit_def)

lemma lit_Cons: "lit (c # s) = unit_of c # lit s"
  by (simp add: lit_def)

lemma lit_append: "lit (s @ t) = lit s @ lit t"
  by (simp add: lit_def)

lemma lit_eq_Nil [simp]: "lit s = [] \<longleftrightarrow> s = []" "[] = lit s \<longleftrightarrow> s = []"
  by (simp_all add: lit_def)

lemma length_lit [simp]: "length (lit s) = length s"
  by (simp add: lit_def)

section \<open>Numbers in base \<open>b\<close>\<close>

definition digit :: "nat \<Rightarrow> jchar" where
  "digit d = of_nat (if d < 10 then 48 + d else 87 + d)"

function radix :: "nat \<Rightarrow> nat \<Rightarrow> jstring" where
  "radix b n = (if b < 2 \<or> n < b then [digit n] else radix b (n div b) @ [digit (n mod b)])"
  by pat_completeness auto
termination
  by (relation "measure snd") (auto intro: div_less_dividend)

declare radix.simps [simp del]

definition to_hex :: "nat \<Rightarrow> jstring" where
  "to_hex n = radix 16 n"

text \<open>The string of an integer (\<open>'Item' + index\<close>).\<close>

definition num_str :: "int \<Rightarrow> jstring" where
  "num_str i = (if i < 0 then lit ''-'' @ radix 10 (nat (- i)) else radix 10 (nat i))"

definition digit_val :: "jchar \<Rightarrow> nat" where
  "digit_val c = (if unat c < 58 then unat c - 48 else unat c - 87)"

definition radix_val :: "nat \<Rightarrow> jstring \<Rightarrow> nat" where
  "radix_val b = foldl (\<lambda>a c. a * b + digit_val c) 0"

lemma unat_digit: "d < 36 \<Longrightarrow> unat (digit d) = (if d < 10 then 48 + d else 87 + d)"
  by (simp add: digit_def unat_of_nat)

lemma digit_val_digit [simp]: "d < 36 \<Longrightarrow> digit_val (digit d) = d"
  by (simp add: digit_val_def unat_digit)

lemma radix_val_radix: "2 \<le> b \<Longrightarrow> b \<le> 36 \<Longrightarrow> radix_val b (radix b n) = n"
proof (induction b n rule: radix.induct)
  case (1 b n)
  show ?case
  proof (cases "n < b")
    case True
    then show ?thesis using 1(3) by (simp add: radix.simps [of b n] radix_val_def)
  next
    case False
    have "n mod b < b" using 1(2) by simp
    then have "digit_val (digit (n mod b)) = n mod b" using 1(3) by (intro digit_val_digit) linarith
    moreover have "radix_val b (radix b (n div b)) = n div b" using 1 False by simp
    ultimately show ?thesis using 1(2) False by (simp add: radix.simps [of b n] radix_val_def)
  qed
qed

lemma radix_eq_iff [simp]: "2 \<le> b \<Longrightarrow> b \<le> 36 \<Longrightarrow> radix b m = radix b n \<longleftrightarrow> m = n"
  by (metis radix_val_radix)

lemma radix_not_Nil [simp]: "radix b n \<noteq> []"
  by (subst radix.simps) simp

lemma set_radix: "2 \<le> b \<Longrightarrow> set (radix b n) \<subseteq> digit ` {0..<b}"
proof (induction b n rule: radix.induct)
  case (1 b n)
  then show ?case by (cases "n < b") (auto simp: radix.simps [of b n])
qed

lemma minus_not_digit: "d < 36 \<Longrightarrow> unit_of CHR ''-'' \<noteq> digit d"
proof
  assume "d < 36" "unit_of CHR ''-'' = digit d"
  then have "unat (unit_of CHR ''-'') = (if d < 10 then 48 + d else 87 + d)" by (simp add: unat_digit)
  moreover have "unat (unit_of CHR ''-'') = 45" by (simp add: unit_of_def)
  ultimately show False by (simp split: if_splits)
qed

lemma num_str_eq_iff [simp]: "num_str i = num_str j \<longleftrightarrow> i = j"
proof -
  have no_minus: "unit_of CHR ''-'' # xs \<noteq> radix 10 n" for xs n
  proof
    assume "unit_of CHR ''-'' # xs = radix 10 n"
    then have "unit_of CHR ''-'' \<in> set (radix 10 n)" by (metis list.set_intros(1))
    then have "unit_of CHR ''-'' \<in> digit ` {0..<10}" using set_radix [of 10 n] by auto
    then obtain d where "d < 10" "unit_of CHR ''-'' = digit d" by auto
    then show False using minus_not_digit [of d] by simp
  qed
  show ?thesis
    using no_minus by (auto simp: num_str_def lit_Cons dest: sym)
qed

section \<open>Letter case\<close>

definition ascii :: "jstring \<Rightarrow> bool" where
  "ascii s \<longleftrightarrow> (\<forall>c \<in> set s. c < 0x80)"

definition ascii_lower :: "jchar \<Rightarrow> jchar" where
  "ascii_lower c = (if 0x41 \<le> c \<and> c \<le> 0x5A then c + 0x20 else c)"

definition ascii_upper :: "jchar \<Rightarrow> jchar" where
  "ascii_upper c = (if 0x61 \<le> c \<and> c \<le> 0x7A then c - 0x20 else c)"

definition toLowerCase :: "(jstring \<Rightarrow> jstring) \<Rightarrow> jstring \<Rightarrow> jstring" where
  "toLowerCase lc s = (if ascii s then map ascii_lower s else lc s)"

lemma ascii_Nil [simp]: "ascii []"
  by (simp add: ascii_def)

lemma ascii_append [simp]: "ascii (s @ t) \<longleftrightarrow> ascii s \<and> ascii t"
  by (auto simp: ascii_def)

section \<open>The pattern replacements\<close>

text \<open>\<open>replace(/^ +/, "")\<close>, \<open>replace(/ +$/, "")\<close> and \<open>replace(/ +/g, "")\<close>.\<close>

definition strip_leading :: "jstring \<Rightarrow> jstring" where
  "strip_leading s = dropWhile (\<lambda>c. c = 0x20) s"

definition strip_trailing :: "jstring \<Rightarrow> jstring" where
  "strip_trailing s = rev (dropWhile (\<lambda>c. c = 0x20) (rev s))"

definition strip_all :: "jstring \<Rightarrow> jstring" where
  "strip_all s = List.filter (\<lambda>c. c \<noteq> 0x20) s"

definition is_digit :: "jchar \<Rightarrow> bool" where
  "is_digit c \<longleftrightarrow> 0x30 \<le> c \<and> c \<le> 0x39"

text \<open>\<open>replace(/^sr\d*_/, '')\<close>.\<close>

definition strip_sr :: "jstring \<Rightarrow> jstring" where
  "strip_sr s =
     (case s of
        c # d # t \<Rightarrow>
          (if c = 0x73 \<and> d = 0x72 then
             (case dropWhile is_digit t of
                u # r \<Rightarrow> if u = 0x5F then r else s
              | [] \<Rightarrow> s)
           else s)
      | _ \<Rightarrow> s)"

lemma strip_sr_id [simp]: "strip_sr (lit ''sr_'' @ s) = s"
  by (simp add: strip_sr_def lit_def unit_of_def is_digit_def)

section \<open>unescape\<close>

text \<open>\<open>%XX\<close> and \<open>%uXXXX\<close> with hexadecimal digits stand for the code unit of that value.\<close>

definition hex_digit :: "jchar \<Rightarrow> nat option" where
  "hex_digit c =
     (let n = unat c in
      if 48 \<le> n \<and> n \<le> 57 then Some (n - 48)
      else if 97 \<le> n \<and> n \<le> 102 then Some (n - 87)
      else if 65 \<le> n \<and> n \<le> 70 then Some (n - 55)
      else None)"

fun hex_value :: "jstring \<Rightarrow> nat option" where
  "hex_value [] = Some 0"
| "hex_value (c # s) = do {
     d \<leftarrow> hex_digit c;
     v \<leftarrow> hex_value s;
     Some (d * 16 ^ length s + v)
   }"

text \<open>The code unit that an escape at the start of the string names, and its length.\<close>

definition escape_at :: "jstring \<Rightarrow> (jchar \<times> nat) option" where
  "escape_at s =
     (if 6 \<le> length s \<and> take 2 s = lit ''%u'' \<and> hex_value (take 4 (drop 2 s)) \<noteq> None
      then Some (of_nat (the (hex_value (take 4 (drop 2 s)))), 6)
      else if 3 \<le> length s \<and> take 1 s = lit ''%'' \<and> hex_value (take 2 (drop 1 s)) \<noteq> None
      then Some (of_nat (the (hex_value (take 2 (drop 1 s)))), 3)
      else None)"

function unescape :: "jstring \<Rightarrow> jstring" where
  "unescape [] = []"
| "unescape (c # s) =
     (case escape_at (c # s) of
        Some (d, n) \<Rightarrow> d # unescape (drop n (c # s))
      | None \<Rightarrow> c # unescape s)"
  by pat_completeness auto
termination
  by (relation "measure length") (auto simp: escape_at_def split: if_splits)

end
