(* ===== verification/Dom.thy ===== *)
theory Dom
  imports Js_String
begin

text \<open>
  The document that the scripts under \<open>docs/html\<close> read and change: a tree of elements and
  leaves (text, or markup that a script stored with \<open>innerHTML\<close> and never looks into). A
  node is identified by its path, the child indices from the node up to the root, so that
  \<open>firstChild\<close>, \<open>nextSibling\<close>, \<open>parentNode\<close> and \<open>getElementById\<close> are functions of the tree.
  Reading a property of a missing node is the value \<^term>\<open>None\<close>: the script throws a TypeError.
\<close>

section \<open>Nodes\<close>

text \<open>\<open>tag\<close> is the local name, in lower case; \<open>val\<close> is the \<open>value\<close> of an input.\<close>

record elem =
  tag :: string
  attrs :: "string \<Rightarrow> jstring option"
  style :: "string \<Rightarrow> jstring"
  val :: jstring

datatype dom = Leaf jstring | Elem elem "dom list"

type_synonym path = "nat list"

fun children :: "dom \<Rightarrow> dom list" where
  "children (Leaf s) = []"
| "children (Elem e ds) = ds"

text \<open>In a HTML document \<open>nodeName\<close> is the local name in upper case.\<close>

fun nodeName :: "dom \<Rightarrow> jstring" where
  "nodeName (Leaf s) = lit ''#text''"
| "nodeName (Elem e ds) = map ascii_upper (lit (tag e))"

definition elem_id :: "elem \<Rightarrow> jstring" where
  "elem_id e = (case attrs e ''id'' of None \<Rightarrow> [] | Some s \<Rightarrow> s)"

definition className :: "elem \<Rightarrow> jstring" where
  "className e = (case attrs e ''class'' of None \<Rightarrow> [] | Some s \<Rightarrow> s)"

definition display :: "elem \<Rightarrow> jstring" where
  "display e = style e ''display''"

definition set_style :: "string \<Rightarrow> jstring \<Rightarrow> elem \<Rightarrow> elem" where
  "set_style k v e = e\<lparr>style := (style e)(k := v)\<rparr>"

definition setAttribute :: "string \<Rightarrow> jstring \<Rightarrow> elem \<Rightarrow> elem" where
  "setAttribute k v e = e\<lparr>attrs := (attrs e)(k \<mapsto> v)\<rparr>"

definition createElement :: "string \<Rightarrow> elem" where
  "createElement t = \<lparr>tag = t, attrs = (\<lambda>k. None), style = (\<lambda>k. []), val = []\<rparr>"

section \<open>Navigation\<close>

fun node_at :: "dom \<Rightarrow> path \<Rightarrow> dom option" where
  "node_at d [] = Some d"
| "node_at d (i # p) =
     (case node_at d p of
        Some n \<Rightarrow> if i < length (children n) then Some (children n ! i) else None
      | None \<Rightarrow> None)"

fun elem_of :: "dom \<Rightarrow> elem option" where
  "elem_of (Leaf s) = None"
| "elem_of (Elem e ds) = Some e"

definition elem_at :: "dom \<Rightarrow> path \<Rightarrow> elem option" where
  "elem_at d p = node_at d p \<bind> elem_of"

definition firstChild :: "dom \<Rightarrow> path \<Rightarrow> path option" where
  "firstChild d p = (if node_at d (0 # p) = None then None else Some (0 # p))"

fun nextSibling :: "dom \<Rightarrow> path \<Rightarrow> path option" where
  "nextSibling d [] = None"
| "nextSibling d (i # p) = (if node_at d (Suc i # p) = None then None else Some (Suc i # p))"

fun parentNode :: "path \<Rightarrow> path option" where
  "parentNode [] = None"
| "parentNode (i # p) = Some p"

fun preorder :: "path \<Rightarrow> dom \<Rightarrow> path list"
  and preorder_list :: "path \<Rightarrow> nat \<Rightarrow> dom list \<Rightarrow> path list" where
  "preorder p (Leaf s) = [p]"
| "preorder p (Elem e ds) = p # preorder_list p 0 ds"
| "preorder_list p i [] = []"
| "preorder_list p i (d # ds) = preorder (i # p) d @ preorder_list p (Suc i) ds"

definition has_id :: "jstring \<Rightarrow> dom \<Rightarrow> path \<Rightarrow> bool" where
  "has_id i d p = (case elem_at d p of Some e \<Rightarrow> i \<noteq> [] \<and> attrs e ''id'' = Some i | None \<Rightarrow> False)"

definition getElementById :: "dom \<Rightarrow> jstring \<Rightarrow> path option" where
  "getElementById d i = List.find (has_id i d) (preorder [] d)"

definition has_tag :: "string \<Rightarrow> dom \<Rightarrow> path \<Rightarrow> bool" where
  "has_tag t d p = (case elem_at d p of Some e \<Rightarrow> tag e = t | None \<Rightarrow> False)"

definition getElementsByTagName :: "dom \<Rightarrow> string \<Rightarrow> path list" where
  "getElementsByTagName d t = List.filter (has_tag t d) (preorder [] d)"

section \<open>Updates\<close>

text \<open>Changing every element by its path, and one element.\<close>

fun map_elems :: "(path \<Rightarrow> elem \<Rightarrow> elem) \<Rightarrow> path \<Rightarrow> dom \<Rightarrow> dom"
  and map_elems_list :: "(path \<Rightarrow> elem \<Rightarrow> elem) \<Rightarrow> path \<Rightarrow> nat \<Rightarrow> dom list \<Rightarrow> dom list" where
  "map_elems g p (Leaf s) = Leaf s"
| "map_elems g p (Elem e ds) = Elem (g p e) (map_elems_list g p 0 ds)"
| "map_elems_list g p i [] = []"
| "map_elems_list g p i (d # ds) = map_elems g (i # p) d # map_elems_list g p (Suc i) ds"

definition upd_elem :: "path \<Rightarrow> (elem \<Rightarrow> elem) \<Rightarrow> dom \<Rightarrow> dom" where
  "upd_elem p f d = map_elems (\<lambda>q e. if q = p then f e else e) [] d"

text \<open>Replacing the node at a path: used to append and to remove children.\<close>

fun upd_child :: "nat \<Rightarrow> (dom \<Rightarrow> dom) \<Rightarrow> dom \<Rightarrow> dom" where
  "upd_child i f (Leaf s) = Leaf s"
| "upd_child i f (Elem e ds) = Elem e (if i < length ds then ds[i := f (ds ! i)] else ds)"

fun upd_node :: "path \<Rightarrow> (dom \<Rightarrow> dom) \<Rightarrow> dom \<Rightarrow> dom" where
  "upd_node [] f d = f d"
| "upd_node (i # p) f d = upd_node p (upd_child i f) d"

fun set_children :: "(dom list \<Rightarrow> dom list) \<Rightarrow> dom \<Rightarrow> dom" where
  "set_children f (Leaf s) = Leaf s"
| "set_children f (Elem e ds) = Elem e (f ds)"

definition appendChild :: "path \<Rightarrow> dom \<Rightarrow> dom \<Rightarrow> dom" where
  "appendChild p n d = upd_node p (set_children (\<lambda>ds. ds @ [n])) d"

text \<open>The same on a node that is not attached yet.\<close>

definition append_to :: "dom \<Rightarrow> dom \<Rightarrow> dom" where
  "append_to n m = set_children (\<lambda>ds. ds @ [m]) n"

text \<open>\<open>innerHTML = s\<close>: an empty string leaves no child, any other one leaf of markup.\<close>

definition innerHTML :: "jstring \<Rightarrow> dom list" where
  "innerHTML s = (if s = [] then [] else [Leaf s])"

text \<open>An element by its id, or a TypeError at the first use of the missing one.\<close>

definition style_by_id :: "dom \<Rightarrow> jstring \<Rightarrow> string \<Rightarrow> jstring \<Rightarrow> dom option" where
  "style_by_id d i k v = do {
     p \<leftarrow> getElementById d i;
     Some (upd_elem p (set_style k v) d)
   }"

section \<open>Facts\<close>

named_theorems dom_simps "reading a document after an update"

lemma node_at_append: "node_at d (s @ p) = node_at d p \<bind> (\<lambda>n. node_at n s)"
  by (induction s) (auto split: option.splits bind_splits)

lemma length_map_elems_list [simp]: "length (map_elems_list g p i ds) = length ds"
  by (induction ds arbitrary: i) simp_all

lemma nth_map_elems_list [simp]:
  "k < length ds \<Longrightarrow> map_elems_list g p i ds ! k = map_elems g ((i + k) # p) (ds ! k)"
  by (induction ds arbitrary: i k) (auto simp: nth_Cons split: nat.splits)

lemma children_map_elems [simp]: "children (map_elems g p d) = map_elems_list g p 0 (children d)"
  by (cases d) simp_all

lemma node_at_map_elems [dom_simps]:
  "node_at (map_elems g [] d) p = map_option (map_elems g p) (node_at d p)"
  by (induction p) (auto split: option.splits)

lemma elem_of_map_elems [simp]: "elem_of (map_elems g p d) = map_option (g p) (elem_of d)"
  by (cases d) simp_all

lemma elem_at_map_elems [dom_simps]:
  "elem_at (map_elems g [] d) p = map_option (g p) (elem_at d p)"
  by (cases "node_at d p") (simp_all add: elem_at_def dom_simps)

lemma preorder_map_elems [dom_simps]:
  "preorder p (map_elems g p d) = preorder p d"
  "preorder_list p i (map_elems_list g p i ds) = preorder_list p i ds"
  by (induction p d and p i ds rule: preorder_preorder_list.induct) simp_all

lemma map_elems_comp:
  "map_elems g p (map_elems h p d) = map_elems (\<lambda>q e. g q (h q e)) p d"
  "map_elems_list g p i (map_elems_list h p i ds) = map_elems_list (\<lambda>q e. g q (h q e)) p i ds"
  by (induction p d and p i ds rule: preorder_preorder_list.induct) simp_all

lemma map_elems_id:
  "map_elems (\<lambda>q e. e) p d = d"
  "map_elems_list (\<lambda>q e. e) p i ds = ds"
  by (induction p d and p i ds rule: preorder_preorder_list.induct) simp_all

lemma elem_at_upd_elem [dom_simps]:
  "elem_at (upd_elem p f d) q = (if q = p then map_option f (elem_at d p) else elem_at d q)"
  by (auto simp: upd_elem_def dom_simps option.map_ident)

lemma node_at_upd_None [dom_simps]: "node_at (upd_elem p f d) q = None \<longleftrightarrow> node_at d q = None"
  by (simp add: upd_elem_def dom_simps)

lemma preorder_upd_elem [dom_simps]: "preorder [] (upd_elem p f d) = preorder [] d"
  by (simp add: upd_elem_def dom_simps)

text \<open>Every node is in the pre-order list, once.\<close>

lemma preorder_paths:
  "q \<in> set (preorder p d) \<longleftrightarrow> (\<exists>s. q = s @ p \<and> node_at d s \<noteq> None)"
  "q \<in> set (preorder_list p i ds) \<longleftrightarrow>
   (\<exists>s j. q = s @ (i + j) # p \<and> j < length ds \<and> node_at (ds ! j) s \<noteq> None)"
proof (induction p d and p i ds rule: preorder_preorder_list.induct)
  case (1 p s)
  have "node_at (Leaf s) r \<noteq> None \<longleftrightarrow> r = []" for r
    by (induction r) (auto split: option.splits)
  then show ?case by auto
next
  case (2 p e ds)
  have nodes: "node_at (Elem e ds) r \<noteq> None \<longleftrightarrow>
      r = [] \<or> (\<exists>s j. r = s @ [j] \<and> j < length ds \<and> node_at (ds ! j) s \<noteq> None)" for r
  proof (cases r rule: rev_cases)
    case (snoc s j)
    then show ?thesis by (auto simp: node_at_append split: bind_splits)
  qed simp
  have "q \<in> set (preorder p (Elem e ds)) \<longleftrightarrow>
      q = p \<or> (\<exists>s j. q = s @ j # p \<and> j < length ds \<and> node_at (ds ! j) s \<noteq> None)"
    using 2 by simp
  also have "\<dots> \<longleftrightarrow> (\<exists>r. q = r @ p \<and> node_at (Elem e ds) r \<noteq> None)"
    unfolding nodes by (auto intro: exI [where x = "[]"])
  finally show ?case .
next
  case (4 p i d ds)
  show ?case (is "?L = ?R")
  proof
    assume ?L
    then consider s where "q = s @ i # p" "node_at d s \<noteq> None"
      | s j where "q = s @ (Suc i + j) # p" "j < length ds" "node_at (ds ! j) s \<noteq> None"
      using 4 by auto
    then show ?R
    proof cases
      case 1
      then show ?thesis by (intro exI [of _ s] exI [of _ 0]) simp
    next
      case 2
      then show ?thesis by (intro exI [of _ s] exI [of _ "Suc j"]) simp
    qed
  next
    assume ?R
    then obtain s j where q: "q = s @ (i + j) # p" "j < length (d # ds)" "node_at ((d # ds) ! j) s \<noteq> None"
      by blast
    show ?L
    proof (cases j)
      case 0
      then show ?thesis using q 4(1) by auto
    next
      case (Suc k)
      then have "q = s @ (Suc i + k) # p" "k < length ds" "node_at (ds ! k) s \<noteq> None"
        using q by simp_all
      then show ?thesis using 4(2) by auto
    qed
  qed
qed simp

lemma set_preorder: "set (preorder [] d) = {p. node_at d p \<noteq> None}"
  by (auto simp: preorder_paths(1) [of _ "[]"])

lemma getElementById_SomeD:
  assumes "getElementById d i = Some p"
  shows "\<exists>e. elem_at d p = Some e \<and> attrs e ''id'' = Some i"
  using assms by (auto simp: getElementById_def has_id_def find_Some_iff split: option.splits)

lemma getElementById_None_iff:
  "getElementById d i = None \<longleftrightarrow> (\<forall>p e. elem_at d p = Some e \<longrightarrow> i = [] \<or> attrs e ''id'' \<noteq> Some i)"
proof -
  have "p \<in> set (preorder [] d)" if "elem_at d p = Some e" for p e
    using that by (auto simp: set_preorder elem_at_def split: bind_splits)
  then show ?thesis
    by (auto simp: getElementById_def find_None_iff has_id_def split: option.splits)
qed

text \<open>An update that keeps the ids keeps what \<open>getElementById\<close> finds.\<close>

lemma has_id_upd_elem:
  "(\<And>e. attrs (f e) ''id'' = attrs e ''id'') \<Longrightarrow> has_id i (upd_elem p f d) = has_id i d"
  by (auto simp: has_id_def dom_simps fun_eq_iff split: option.splits)

lemma getElementById_upd_elem [dom_simps]:
  "(\<And>e. attrs (f e) ''id'' = attrs e ''id'') \<Longrightarrow> getElementById (upd_elem p f d) i = getElementById d i"
  by (simp add: getElementById_def dom_simps has_id_upd_elem)

lemma getElementById_map_elems:
  assumes "\<And>p e. attrs (g p e) ''id'' = attrs e ''id''"
  shows "getElementById (map_elems g [] d) i = getElementById d i"
proof -
  have "has_id i (map_elems g [] d) = has_id i d"
    using assms by (auto simp: has_id_def dom_simps fun_eq_iff split: option.splits)
  then show ?thesis by (simp add: getElementById_def dom_simps)
qed

lemma set_style_simps [simp]:
  "attrs (set_style k v e) = attrs e" "tag (set_style k v e) = tag e" "val (set_style k v e) = val e"
  "display (set_style ''display'' v e) = v"
  "k \<noteq> ''display'' \<Longrightarrow> display (set_style k v e) = display e"
  "className (set_style k v e) = className e" "elem_id (set_style k v e) = elem_id e"
  by (simp_all add: set_style_def display_def className_def elem_id_def)

lemma elem_id_keep: "attrs e' ''id'' = attrs e ''id'' \<Longrightarrow> elem_id e' = elem_id e"
  by (simp add: elem_id_def)

lemma setAttribute_simps [simp]:
  "attrs (setAttribute k v e) j = (if j = k then Some v else attrs e j)"
  "tag (setAttribute k v e) = tag e" "style (setAttribute k v e) = style e"
  "val (setAttribute k v e) = val e" "display (setAttribute k v e) = display e"
  by (simp_all add: setAttribute_def display_def)

text \<open>Updates that agree on the elements of a document have the same result.\<close>

lemma elem_at_Nil [simp]: "elem_at d [] = elem_of d"
  by (simp add: elem_at_def)

lemma elem_at_child: "j < length ds \<Longrightarrow> elem_at (ds ! j) s = Some e \<Longrightarrow> elem_at (Elem e' ds) (s @ [j]) = Some e"
  by (simp add: elem_at_def node_at_append)

lemma map_elems_cong_at:
  "(\<And>s e. elem_at d s = Some e \<Longrightarrow> g (s @ p) e = h (s @ p) e) \<Longrightarrow> map_elems g p d = map_elems h p d"
  "(\<And>j s e. j < length ds \<Longrightarrow> elem_at (ds ! j) s = Some e \<Longrightarrow> g (s @ (i + j) # p) e = h (s @ (i + j) # p) e) \<Longrightarrow>
   map_elems_list g p i ds = map_elems_list h p i ds"
proof (induction p d and p i ds rule: preorder_preorder_list.induct)
  case (2 p e ds)
  have "map_elems_list g p 0 ds = map_elems_list h p 0 ds"
  proof (rule 2(1))
    fix j s e'
    assume "j < length ds" "elem_at (ds ! j) s = Some e'"
    from 2(2) [OF elem_at_child [OF this]] show "g (s @ (0 + j) # p) e' = h (s @ (0 + j) # p) e'" by simp
  qed
  moreover have "g p e = h p e" using 2(2) [of "[]" e] by simp
  ultimately show ?case by simp
next
  case (4 p i d ds)
  have "map_elems g (i # p) d = map_elems h (i # p) d"
    using 4(3) [of 0] by (intro 4(1)) simp
  moreover have "map_elems_list g p (Suc i) ds = map_elems_list h p (Suc i) ds"
  proof (rule 4(2))
    fix j s e
    assume "j < length ds" "elem_at (ds ! j) s = Some e"
    with 4(3) [of "Suc j" s e] show "g (s @ (Suc i + j) # p) e = h (s @ (Suc i + j) # p) e" by simp
  qed
  ultimately show ?case by simp
qed simp_all

lemma map_elems_cong:
  "(\<And>q e. elem_at d q = Some e \<Longrightarrow> g q e = h q e) \<Longrightarrow> map_elems g [] d = map_elems h [] d"
  by (rule map_elems_cong_at(1)) simp

lemma distinct_preorder:
  "distinct (preorder p d)"
  "distinct (preorder_list p i ds)"
proof (induction p d and p i ds rule: preorder_preorder_list.induct)
  case (2 p e ds)
  then show ?case by (auto simp: preorder_paths(2))
next
  case (4 p i d ds)
  have "s @ i # p \<noteq> t @ (Suc i + j) # p" for s t j
    by (metis Suc_n_not_le_n le_add1 list.inject append_eq_append_conv length_Cons)
  then show ?case using 4 by (auto simp: preorder_paths)
qed simp_all

lemma set_getElementsByTagName:
  "set (getElementsByTagName d t) = {p. \<exists>e. elem_at d p = Some e \<and> tag e = t}"
  by (auto simp: getElementsByTagName_def set_preorder has_tag_def elem_at_def split: option.splits bind_splits)

lemma distinct_getElementsByTagName: "distinct (getElementsByTagName d t)"
  by (simp add: getElementsByTagName_def distinct_preorder)

text \<open>All elements of a tree, and an id that only one of them has.\<close>

fun elems :: "dom \<Rightarrow> elem list" where
  "elems (Leaf s) = []"
| "elems (Elem e ds) = e # concat (map elems ds)"

lemma elem_at_snoc: "elem_at (Elem e ds) (t @ [j]) = (if j < length ds then elem_at (ds ! j) t else None)"
  by (simp add: elem_at_def node_at_append)

lemma elem_at_elems: "elem_at d s = Some e \<Longrightarrow> e \<in> set (elems d)"
proof (induction d arbitrary: s)
  case (Leaf l)
  then show ?case by (cases s rule: rev_cases) (simp_all add: elem_at_def node_at_append)
next
  case (Elem e' ds)
  show ?case
  proof (cases s rule: rev_cases)
    case Nil
    then show ?thesis using Elem.prems by simp
  next
    case (snoc t j)
    then have "j < length ds" "elem_at (ds ! j) t = Some e"
      using Elem.prems by (simp_all add: elem_at_snoc split: if_splits)
    then show ?thesis using Elem.IH [of "ds ! j" t] by auto
  qed
qed

lemma elem_at_preorder: "elem_at d p = Some e \<Longrightarrow> p \<in> set (preorder [] d)"
  by (auto simp: set_preorder elem_at_def split: bind_splits)

lemma getElementById_unique:
  assumes "elem_at d p = Some e" "attrs e ''id'' = Some i" "i \<noteq> []"
    and uniq: "\<And>q e'. elem_at d q = Some e' \<Longrightarrow> attrs e' ''id'' = Some i \<Longrightarrow> q = p"
  shows "getElementById d i = Some p"
proof -
  have "getElementById d i \<noteq> None" using assms by (auto simp: getElementById_None_iff)
  then obtain q where q: "getElementById d i = Some q" by blast
  then show ?thesis using uniq getElementById_SomeD [OF q] by auto
qed

text \<open>Document order, on the paths read from the root.\<close>

definition before :: "path \<Rightarrow> path \<Rightarrow> bool" where
  "before p q \<longleftrightarrow> ord_class.lexordp (rev p) (rev q)"

lemma before_child: "before p (s @ i # p)"
  by (simp add: before_def lexordp_append_rightI)

lemma before_siblings: "i < j \<Longrightarrow> before (s @ i # p) (t @ j # p)"
  by (simp add: before_def lexordp_append_left_rightI)

lemma preorder_below:
  "q \<in> set (preorder p d) \<Longrightarrow> \<exists>s. q = s @ p"
  "q \<in> set (preorder_list p i ds) \<Longrightarrow> \<exists>s j. i \<le> j \<and> q = s @ j # p"
proof (induction p d and p i ds rule: preorder_preorder_list.induct)
  case (4 p i d ds)
  then show ?case by (fastforce dest: Suc_leD)
qed fastforce+

lemma preorder_sorted: "sorted_wrt before (preorder p d)" "sorted_wrt before (preorder_list p i ds)"
proof (induction p d and p i ds rule: preorder_preorder_list.induct)
  case (2 p e ds)
  then show ?case using preorder_below(2) before_child by fastforce
next
  case (4 p i d ds)
  have "before x y" if "x \<in> set (preorder (i # p) d)" "y \<in> set (preorder_list p (Suc i) ds)" for x y
    using preorder_below(1) [OF that(1)] preorder_below(2) [OF that(2)] before_siblings [of i] by (auto simp: Suc_le_eq)
  then show ?case using 4 by (simp add: sorted_wrt_append)
qed simp_all

end
