(* ===== verification/Page.thy ===== *)
theory Page
  imports Dom
begin

text \<open>
  The state of a documentation page that \<open>docs/html/search/search.js\<close> works on: the
  document, the focused element, the timers and script loads that are pending, and the two
  global objects \<open>searchBox\<close> and \<open>searchResults\<close>. This theory also holds the operations of
  the search box that the rest is built on: \<open>Activate\<close>, the focus handler, and closing the
  two popups. Giving or taking the focus of the search field runs its focus handler at once,
  as \<open>menu.js\<close> attaches it (\<open>onfocus\<close>, \<open>onblur\<close>); \<open>focus()\<close> is modelled for elements
  that can take the focus.
\<close>

section \<open>State\<close>

text \<open>The instance variables of \<open>SearchBox\<close>; a timer id 0 means no timer.\<close>

record search_box =
  box_name :: jstring
  resultsPath :: jstring
  keyTimeout :: nat
  keyTimeoutLength :: nat
  closeSelectionTimeout :: nat
  lastSearchValue :: jstring
  lastResultsPage :: jstring
  hideTimeout :: nat
  searchIndex :: int
  searchActive :: bool
  extension :: jstring

text \<open>The instance variables of \<open>SearchResults\<close>.\<close>

record search_results =
  lastMatchCount :: nat
  lastKey :: int
  repeatOn :: bool

datatype callback = Do_Search | Do_CloseSelectionWindow

record timer =
  timer_id :: nat
  callback :: callback
  delay :: nat

text \<open>
  One entry of \<open>searchData\<close>: the row id, the symbol, and for each place where it is
  documented the link, whether it opens in the parent frame, and the scope.
\<close>

record search_entry =
  entry_id :: jstring
  entry_symbol :: jstring
  entry_targets :: "(jstring \<times> bool \<times> jstring) list"

text \<open>
  An element that a closure holds: the value null, an element that was taken out of the document since, or one that
  is still there, at its path. The results window and the list in it are outside the places whose contents the scripts
  replace, so that their paths denote them for good.
\<close>

datatype captured = Null | Removed | Placed path

text \<open>The elements that \<open>Search\<close> looks up when it starts, for the closure \<open>handleResults\<close>.\<close>

record captures =
  cap_window :: "path option"
  cap_box :: captured
  cap_popup :: "path option"
  cap_close :: captured

text \<open>A script that was requested, with what its \<open>onload\<close> closure captured.\<close>

record script_load =
  load_url :: jstring
  load_idx :: "nat option"
  load_value :: jstring
  load_caps :: captures

record page =
  document :: dom
  activeElement :: "path option"
  timers :: "timer list"
  next_timer :: nat
  loading :: "script_load list"
  searchData :: "search_entry list option"
  searchBox :: search_box
  searchResults :: search_results
  stopped :: bool

text \<open>A keyboard event; \<open>stopped\<close> of the page records \<open>stopPropagation\<close>.\<close>

record key_event =
  ev_type :: string
  keyCode :: int
  shiftKey :: bool

text \<open>
  What the scripts read of their surroundings: the Unicode case table, whether a string
  converted to a number is greater than 1 (it is not when it has no number), the index that
  \<open>searchdata.js\<close> defines, the query of the URL, and the layout that the browser computed.
\<close>

record site =
  unicode_lower :: "jstring \<Rightarrow> jstring"
  exceeds_one :: "jstring \<Rightarrow> bool"
  indexSectionsWithContent :: "int \<Rightarrow> jstring option"
  indexSectionNames :: "int \<Rightarrow> jstring option"
  indexSectionLabels :: "(int \<times> jstring) list"
  location_search :: jstring
  offsetLeft :: "dom \<Rightarrow> path \<Rightarrow> int"
  offsetTop :: "dom \<Rightarrow> path \<Rightarrow> int"
  offsetWidth :: "dom \<Rightarrow> path \<Rightarrow> int"
  offsetHeight :: "dom \<Rightarrow> path \<Rightarrow> int"
  offsetParent :: "dom \<Rightarrow> path \<Rightarrow> path option"
  clientWidth :: int
  clientHeight :: int

section \<open>Elements of the page\<close>

definition by_id :: "page \<Rightarrow> string \<Rightarrow> path option" where
  "by_id pg s = getElementById (document pg) (lit s)"

definition set_elem :: "path \<Rightarrow> (elem \<Rightarrow> elem) \<Rightarrow> page \<Rightarrow> page" where
  "set_elem p f pg = pg\<lparr>document := upd_elem p f (document pg)\<rparr>"

definition elem_by_id :: "page \<Rightarrow> string \<Rightarrow> elem option" where
  "elem_by_id pg s = by_id pg s \<bind> elem_at (document pg)"

text \<open>Changing the element with an id; a TypeError when there is none.\<close>

definition on_id :: "string \<Rightarrow> (elem \<Rightarrow> elem) \<Rightarrow> page \<Rightarrow> page option" where
  "on_id s f pg = do {
     p \<leftarrow> by_id pg s;
     Some (set_elem p f pg)
   }"

definition set_style_of :: "string \<Rightarrow> string \<Rightarrow> jstring \<Rightarrow> page \<Rightarrow> page option" where
  "set_style_of s k v pg = on_id s (set_style k v) pg"

definition set_class_of :: "string \<Rightarrow> string \<Rightarrow> page \<Rightarrow> page option" where
  "set_class_of s c pg = on_id s (setAttribute ''class'' (lit c)) pg"

definition set_value_of :: "string \<Rightarrow> jstring \<Rightarrow> page \<Rightarrow> page option" where
  "set_value_of s v pg = on_id s (\<lambda>e. e\<lparr>val := v\<rparr>) pg"

definition upd_box :: "(search_box \<Rightarrow> search_box) \<Rightarrow> page \<Rightarrow> page" where
  "upd_box f pg = pg\<lparr>searchBox := f (searchBox pg)\<rparr>"

text \<open>The id at a place, empty where there is no element or no id.\<close>

definition id_at :: "dom \<Rightarrow> path \<Rightarrow> jstring" where
  "id_at d p = (case elem_at d p of None \<Rightarrow> [] | Some e \<Rightarrow> elem_id e)"

section \<open>Timers\<close>

definition setTimeout :: "callback \<Rightarrow> nat \<Rightarrow> page \<Rightarrow> page \<times> nat" where
  "setTimeout cb ms pg =
     (pg\<lparr>timers := timers pg @ [\<lparr>timer_id = next_timer pg, callback = cb, delay = ms\<rparr>],
        next_timer := next_timer pg + 1\<rparr>, next_timer pg)"

definition clearTimeout :: "nat \<Rightarrow> page \<Rightarrow> page" where
  "clearTimeout n pg = pg\<lparr>timers := List.filter (\<lambda>t. timer_id t \<noteq> n) (timers pg)\<rparr>"

section \<open>Activation\<close>

definition Activate :: "bool \<Rightarrow> page \<Rightarrow> page option" where
  "Activate isActive pg = do {
     opened \<leftarrow> (if isActive then Some True
                else do {
                  w \<leftarrow> elem_by_id pg ''MSearchResultsWindow'';
                  Some (display w = lit ''block'')
                });
     if opened
     then do {
       pg \<leftarrow> set_class_of ''MSearchBox'' ''MSearchBoxActive'' pg;
       Some (upd_box (\<lambda>b. b\<lparr>searchActive := True\<rparr>) pg)
     }
     else do {
       pg \<leftarrow> set_class_of ''MSearchBox'' ''MSearchBoxInactive'' pg;
       let pg = upd_box (\<lambda>b. b\<lparr>searchActive := False, lastSearchValue := [], lastResultsPage := []\<rparr>) pg;
       set_value_of ''MSearchField'' [] pg
     }
   }"

definition OnSearchFieldFocus :: "bool \<Rightarrow> page \<Rightarrow> page option" where
  "OnSearchFieldFocus isActive pg = Activate isActive pg"

definition CloseResultsWindow :: "page \<Rightarrow> page option" where
  "CloseResultsWindow pg = do {
     pg \<leftarrow> set_style_of ''MSearchResultsWindow'' ''display'' (lit ''none'') pg;
     pg \<leftarrow> set_style_of ''MSearchClose'' ''display'' (lit ''none'') pg;
     Activate False pg
   }"

definition CloseSelectionWindow :: "page \<Rightarrow> page option" where
  "CloseSelectionWindow pg = set_style_of ''MSearchSelectWindow'' ''display'' (lit ''none'') pg"

section \<open>Focus\<close>

definition blur_active :: "page \<Rightarrow> page option" where
  "blur_active pg =
     (case activeElement pg of
        None \<Rightarrow> Some pg
      | Some p \<Rightarrow>
          let pg = pg\<lparr>activeElement := None\<rparr> in
          if by_id pg ''MSearchField'' = Some p then OnSearchFieldFocus False pg else Some pg)"

definition blur_on :: "path \<Rightarrow> page \<Rightarrow> page option" where
  "blur_on p pg = (if activeElement pg = Some p then blur_active pg else Some pg)"

definition focus_on :: "path \<Rightarrow> page \<Rightarrow> page option" where
  "focus_on p pg =
     (if activeElement pg = Some p then Some pg
      else do {
        pg \<leftarrow> blur_active pg;
        let pg = pg\<lparr>activeElement := Some p\<rparr>;
        if by_id pg ''MSearchField'' = Some p then OnSearchFieldFocus True pg else Some pg
      })"

section \<open>Facts\<close>

text \<open>The elements that every page of the search has.\<close>

definition box_ids :: "string list" where
  "box_ids = [''MSearchField'', ''MSearchSelect'', ''MSearchSelectWindow'', ''MSearchResults'',
              ''MSearchResultsWindow'', ''MSearchClose'', ''MSearchBox'']"

definition page_ok :: "page \<Rightarrow> bool" where
  "page_ok pg \<longleftrightarrow> (\<forall>s \<in> set box_ids. by_id pg s \<noteq> None)"

text \<open>Two states of a page whose elements have the same ids in the same places.\<close>

definition same_ids :: "page \<Rightarrow> page \<Rightarrow> bool" where
  "same_ids pg pg' \<longleftrightarrow>
     (\<forall>i. getElementById (document pg') i = getElementById (document pg) i) \<and>
     (\<forall>p. map_option elem_id (elem_at (document pg') p) = map_option elem_id (elem_at (document pg) p))"

lemma same_ids_refl [simp]: "same_ids pg pg"
  by (simp add: same_ids_def)

lemma same_ids_trans: "same_ids a b \<Longrightarrow> same_ids b c \<Longrightarrow> same_ids a c"
  by (simp add: same_ids_def)

lemma same_ids_by_id: "same_ids pg pg' \<Longrightarrow> by_id pg' s = by_id pg s"
  by (simp add: same_ids_def by_id_def)

lemma same_ids_elem:
  assumes "same_ids pg pg'" "elem_at (document pg) r = Some e"
  shows "\<exists>e'. elem_at (document pg') r = Some e' \<and> elem_id e' = elem_id e"
proof -
  have "map_option elem_id (elem_at (document pg') r) = map_option elem_id (elem_at (document pg) r)"
    using assms(1) by (simp add: same_ids_def)
  then show ?thesis using assms(2) by auto
qed

lemma same_ids_ok: "same_ids pg pg' \<Longrightarrow> page_ok pg \<Longrightarrow> page_ok pg'"
  by (simp add: page_ok_def same_ids_by_id)

lemma same_ids_set_elem:
  assumes "\<And>e. attrs (f e) ''id'' = attrs e ''id''"
  shows "same_ids pg (set_elem p f pg)"
proof -
  have "elem_id (f e) = elem_id e" for e by (rule elem_id_keep) (rule assms)
  then show ?thesis using assms by (simp add: same_ids_def set_elem_def dom_simps option.map_comp comp_def)
qed

lemma by_id_updates [simp]:
  "by_id (upd_box g pg) s = by_id pg s"
  "by_id (pg\<lparr>activeElement := a\<rparr>) s = by_id pg s"
  "by_id (pg\<lparr>searchResults := r\<rparr>) s = by_id pg s"
  "by_id (pg\<lparr>timers := ts\<rparr>) s = by_id pg s"
  "by_id (pg\<lparr>next_timer := n\<rparr>) s = by_id pg s"
  "by_id (pg\<lparr>stopped := b\<rparr>) s = by_id pg s"
  "by_id (pg\<lparr>searchBox := bx\<rparr>) s = by_id pg s"
  by (simp_all add: by_id_def upd_box_def)

lemma by_id_set_elem [simp]:
  "(\<And>e. attrs (f e) ''id'' = attrs e ''id'') \<Longrightarrow> by_id (set_elem p f pg) s = by_id pg s"
  by (simp add: by_id_def set_elem_def dom_simps)

lemma set_elem_simps [simp]:
  "searchBox (set_elem p f pg) = searchBox pg" "searchResults (set_elem p f pg) = searchResults pg"
  "timers (set_elem p f pg) = timers pg" "activeElement (set_elem p f pg) = activeElement pg"
  "next_timer (set_elem p f pg) = next_timer pg" "loading (set_elem p f pg) = loading pg"
  "searchData (set_elem p f pg) = searchData pg" "stopped (set_elem p f pg) = stopped pg"
  "document (set_elem p f pg) = upd_elem p f (document pg)"
  by (simp_all add: set_elem_def)

lemma upd_box_simps [simp]:
  "searchBox (upd_box g pg) = g (searchBox pg)" "searchResults (upd_box g pg) = searchResults pg"
  "timers (upd_box g pg) = timers pg" "activeElement (upd_box g pg) = activeElement pg"
  "next_timer (upd_box g pg) = next_timer pg" "loading (upd_box g pg) = loading pg"
  "searchData (upd_box g pg) = searchData pg" "stopped (upd_box g pg) = stopped pg"
  "document (upd_box g pg) = document pg"
  by (simp_all add: upd_box_def)

lemma by_id_elem: "by_id pg s = Some p \<Longrightarrow> \<exists>e. elem_at (document pg) p = Some e \<and> elem_id e = lit s"
  by (auto simp: by_id_def elem_id_def dest: getElementById_SomeD)

lemma by_id_unique: "by_id pg s = Some p \<Longrightarrow> by_id pg t = Some p \<Longrightarrow> s = t"
  by (fastforce dest: by_id_elem)

lemma page_okD: "page_ok pg \<Longrightarrow> s \<in> set box_ids \<Longrightarrow> \<exists>p e. by_id pg s = Some p \<and> elem_at (document pg) p = Some e"
  by (fastforce simp: page_ok_def dest: by_id_elem)

lemmas box_id_simps = box_ids_def by_id_def

text \<open>What the popup windows and the search box show.\<close>

definition shown :: "page \<Rightarrow> string \<Rightarrow> bool" where
  "shown pg s \<longleftrightarrow> (\<exists>e. elem_by_id pg s = Some e \<and> display e = lit ''block'')"

definition field_value :: "page \<Rightarrow> jstring" where
  "field_value pg = (case elem_by_id pg ''MSearchField'' of None \<Rightarrow> [] | Some e \<Rightarrow> val e)"

lemma elem_by_id_ok: "page_ok pg \<Longrightarrow> s \<in> set box_ids \<Longrightarrow> \<exists>e. elem_by_id pg s = Some e"
  by (fastforce simp: elem_by_id_def dest: page_okD)

lemma elem_by_id_set_elem:
  assumes "\<And>e. attrs (f e) ''id'' = attrs e ''id''" "by_id pg s = Some p"
  shows "elem_by_id (set_elem p f pg) t = (if t = s then map_option f (elem_by_id pg t) else elem_by_id pg t)"
proof (cases "by_id pg t")
  case (Some q)
  then show ?thesis
    using assms by_id_unique [of pg s p t] by (auto simp: elem_by_id_def dom_simps)
qed (use assms in \<open>auto simp: elem_by_id_def\<close>)

lemma elem_by_id_updates [simp]:
  "elem_by_id (upd_box g pg) s = elem_by_id pg s"
  "elem_by_id (pg\<lparr>activeElement := a\<rparr>) s = elem_by_id pg s"
  "elem_by_id (pg\<lparr>searchResults := r\<rparr>) s = elem_by_id pg s"
  "elem_by_id (pg\<lparr>timers := ts\<rparr>) s = elem_by_id pg s"
  "elem_by_id (pg\<lparr>next_timer := n\<rparr>) s = elem_by_id pg s"
  "elem_by_id (pg\<lparr>stopped := b\<rparr>) s = elem_by_id pg s"
  "elem_by_id (pg\<lparr>searchBox := bx\<rparr>) s = elem_by_id pg s"
  by (simp_all add: elem_by_id_def)

text \<open>What an operation that only touches elements and the search box leaves alone.\<close>

definition ui_only :: "page \<Rightarrow> page \<Rightarrow> bool" where
  "ui_only pg pg' \<longleftrightarrow>
     same_ids pg pg' \<and> timers pg' = timers pg \<and> next_timer pg' = next_timer pg \<and>
     loading pg' = loading pg \<and> searchData pg' = searchData pg \<and> searchResults pg' = searchResults pg \<and>
     keyTimeout (searchBox pg') = keyTimeout (searchBox pg) \<and>
     hideTimeout (searchBox pg') = hideTimeout (searchBox pg) \<and>
     searchIndex (searchBox pg') = searchIndex (searchBox pg) \<and>
     resultsPath (searchBox pg') = resultsPath (searchBox pg)"

lemma ui_only_refl [simp, inv_intros]: "ui_only pg pg"
  by (simp add: ui_only_def)

lemma ui_only_trans: "ui_only a b \<Longrightarrow> ui_only b c \<Longrightarrow> ui_only a c"
  by (auto simp: ui_only_def intro: same_ids_trans)

lemma ui_only_ok: "ui_only pg pg' \<Longrightarrow> page_ok pg \<Longrightarrow> page_ok pg'"
  by (auto simp: ui_only_def intro: same_ids_ok)

lemma ui_only_by_id: "ui_only pg pg' \<Longrightarrow> by_id pg' s = by_id pg s"
  by (simp add: ui_only_def same_ids_by_id)

lemma ui_only_set_elem [inv_intros]:
  "(\<And>e. attrs (f e) ''id'' = attrs e ''id'') \<Longrightarrow> ui_only pg (set_elem p f pg)"
  by (simp add: ui_only_def same_ids_set_elem)

lemma on_id_spec:
  assumes ok: "page_ok pg" "s \<in> set box_ids" and f: "\<And>e. attrs (f e) ''id'' = attrs e ''id''"
  obtains pg' where "on_id s f pg = Some pg'" "ui_only pg pg'" "searchBox pg' = searchBox pg"
    "activeElement pg' = activeElement pg" "stopped pg' = stopped pg"
    "\<And>t. elem_by_id pg' t = (if t = s then map_option f (elem_by_id pg t) else elem_by_id pg t)"
proof -
  obtain p where p: "by_id pg s = Some p" using page_okD [OF ok] by blast
  show ?thesis
    by (rule that [of "set_elem p f pg"])
       (simp_all add: on_id_def p f ui_only_set_elem elem_by_id_set_elem)
qed

text \<open>
  Activation: the box becomes active when it is asked to or while results are shown, and is
  reset otherwise.
\<close>

lemma Activate_spec:
  assumes ok: "page_ok pg"
  defines "opened a \<equiv> a \<or> shown pg ''MSearchResultsWindow''"
  obtains pg' where "Activate a pg = Some pg'" "ui_only pg pg'"
    "activeElement pg' = activeElement pg" "stopped pg' = stopped pg"
    "searchBox pg' =
       (if opened a then (searchBox pg)\<lparr>searchActive := True\<rparr>
        else (searchBox pg)\<lparr>searchActive := False, lastSearchValue := [], lastResultsPage := []\<rparr>)"
    "\<And>t. t \<notin> {''MSearchBox'', ''MSearchField''} \<Longrightarrow> elem_by_id pg' t = elem_by_id pg t"
    "field_value pg' = (if opened a then field_value pg else [])"
proof -
  obtain w where w: "elem_by_id pg ''MSearchResultsWindow'' = Some w"
    using elem_by_id_ok [OF ok, of "''MSearchResultsWindow''"] by (auto simp: box_ids_def)
  define c where "c = (if opened a then ''MSearchBoxActive'' else ''MSearchBoxInactive'')"
  obtain pg1 where 1: "set_class_of ''MSearchBox'' c pg = Some pg1" "ui_only pg pg1"
    "searchBox pg1 = searchBox pg" "activeElement pg1 = activeElement pg" "stopped pg1 = stopped pg"
    "\<And>t. elem_by_id pg1 t = (if t = ''MSearchBox'' then map_option (setAttribute ''class'' (lit c)) (elem_by_id pg t)
        else elem_by_id pg t)"
    unfolding set_class_of_def
    by (rule on_id_spec [OF ok, of "''MSearchBox''" "setAttribute ''class'' (lit c)"]) (auto simp: box_ids_def)
  define g where "g = (\<lambda>b :: search_box. if opened a then b\<lparr>searchActive := True\<rparr>
    else b\<lparr>searchActive := False, lastSearchValue := [], lastResultsPage := []\<rparr>)"
  have ui: "ui_only pg (upd_box g pg1)"
    using 1(2) by (auto simp: ui_only_def same_ids_def g_def)
  show ?thesis
  proof (cases "opened a")
    case True
    have "Activate a pg = Some (upd_box g pg1)"
      using True 1(1) w by (auto simp: Activate_def c_def g_def opened_def shown_def)
    then show ?thesis
      using 1 ui True by (intro that [of "upd_box g pg1"]) (simp_all add: field_value_def g_def)
  next
    case False
    obtain pg2 where 2: "set_value_of ''MSearchField'' [] (upd_box g pg1) = Some pg2" "ui_only (upd_box g pg1) pg2"
      "searchBox pg2 = searchBox (upd_box g pg1)" "activeElement pg2 = activeElement (upd_box g pg1)"
      "stopped pg2 = stopped (upd_box g pg1)"
      "\<And>t. elem_by_id pg2 t = (if t = ''MSearchField'' then map_option (\<lambda>e. e\<lparr>val := []\<rparr>) (elem_by_id (upd_box g pg1) t)
          else elem_by_id (upd_box g pg1) t)"
      unfolding set_value_of_def
      by (rule on_id_spec [OF ui_only_ok [OF ui ok], of "''MSearchField''" "\<lambda>e. e\<lparr>val := []\<rparr>"])
         (auto simp: box_ids_def)
    have "Activate a pg = Some pg2"
      using False 1(1) 2(1) w by (simp add: Activate_def c_def g_def opened_def shown_def upd_box_def)
    then show ?thesis
      using 1 2 ui False
      by (intro that [of pg2])
         (auto simp: field_value_def g_def intro: ui_only_trans split: option.splits)
  qed
qed

lemma upd_box_ui_only [inv_intros]:
  "(\<And>b. keyTimeout (g b) = keyTimeout b \<and> hideTimeout (g b) = hideTimeout b \<and>
        searchIndex (g b) = searchIndex b \<and> resultsPath (g b) = resultsPath b) \<Longrightarrow>
   ui_only pg (upd_box g pg)"
  by (simp add: ui_only_def same_ids_def)

lemma CloseResultsWindow_spec:
  assumes ok: "page_ok pg"
  obtains pg' where "CloseResultsWindow pg = Some pg'" "ui_only pg pg'" "activeElement pg' = activeElement pg"
    "stopped pg' = stopped pg" "\<not> shown pg' ''MSearchResultsWindow''"
    "searchBox pg' = (searchBox pg)\<lparr>searchActive := False, lastSearchValue := [], lastResultsPage := []\<rparr>"
    "field_value pg' = []" "elem_by_id pg' ''MSearchSelect'' = elem_by_id pg ''MSearchSelect''"
proof -
  obtain pg1 where 1: "set_style_of ''MSearchResultsWindow'' ''display'' (lit ''none'') pg = Some pg1"
    "ui_only pg pg1" "searchBox pg1 = searchBox pg" "activeElement pg1 = activeElement pg" "stopped pg1 = stopped pg"
    "\<And>t. elem_by_id pg1 t = (if t = ''MSearchResultsWindow''
        then map_option (set_style ''display'' (lit ''none'')) (elem_by_id pg t) else elem_by_id pg t)"
    unfolding set_style_of_def
    by (rule on_id_spec [OF ok, of "''MSearchResultsWindow''" "set_style ''display'' (lit ''none'')"])
       (auto simp: box_ids_def)
  obtain pg2 where 2: "set_style_of ''MSearchClose'' ''display'' (lit ''none'') pg1 = Some pg2"
    "ui_only pg1 pg2" "searchBox pg2 = searchBox pg1" "activeElement pg2 = activeElement pg1" "stopped pg2 = stopped pg1"
    "\<And>t. elem_by_id pg2 t = (if t = ''MSearchClose''
        then map_option (set_style ''display'' (lit ''none'')) (elem_by_id pg1 t) else elem_by_id pg1 t)"
    unfolding set_style_of_def
    by (rule on_id_spec [OF ui_only_ok [OF 1(2) ok], of "''MSearchClose''" "set_style ''display'' (lit ''none'')"])
       (auto simp: box_ids_def)
  have hid: "\<not> shown pg2 ''MSearchResultsWindow''"
    by (auto simp: shown_def 1(6) 2(6))
  obtain pg3 where 3: "Activate False pg2 = Some pg3" "ui_only pg2 pg3"
    "activeElement pg3 = activeElement pg2" "stopped pg3 = stopped pg2"
    "searchBox pg3 = (searchBox pg2)\<lparr>searchActive := False, lastSearchValue := [], lastResultsPage := []\<rparr>"
    "\<And>t. t \<notin> {''MSearchBox'', ''MSearchField''} \<Longrightarrow> elem_by_id pg3 t = elem_by_id pg2 t"
    "field_value pg3 = []"
    using Activate_spec [OF ui_only_ok [OF 2(2) ui_only_ok [OF 1(2) ok]], of False] hid by force
  show ?thesis
  proof (rule that [of pg3])
    show "CloseResultsWindow pg = Some pg3" using 1(1) 2(1) 3(1) by (simp add: CloseResultsWindow_def)
    show "ui_only pg pg3" using 1(2) 2(2) 3(2) by (blast intro: ui_only_trans)
    show "elem_by_id pg3 ''MSearchSelect'' = elem_by_id pg ''MSearchSelect''" by (simp add: 1(6) 2(6) 3(6))
    show "\<not> shown pg3 ''MSearchResultsWindow''" using hid 3(6) by (simp add: shown_def)
  qed (simp_all add: 1 2 3)
qed

lemma blur_active_spec:
  assumes ok: "page_ok pg"
  obtains pg' where "blur_active pg = Some pg'" "ui_only pg pg'" "activeElement pg' = None" "stopped pg' = stopped pg"
    "shown pg' ''MSearchResultsWindow'' = shown pg ''MSearchResultsWindow''"
proof (cases "\<exists>p. activeElement pg = Some p \<and> by_id pg ''MSearchField'' = Some p")
  case True
  let ?pg = "pg\<lparr>activeElement := None\<rparr>"
  have ok': "page_ok ?pg" using ok by (simp add: page_ok_def)
  obtain pg' where "Activate False ?pg = Some pg'" "ui_only ?pg pg'" "activeElement pg' = None" "stopped pg' = stopped pg"
    "shown pg' ''MSearchResultsWindow'' = shown pg ''MSearchResultsWindow''"
    by (rule Activate_spec [OF ok', of False]) (auto simp: shown_def)
  then show ?thesis
    using True by (intro that [of pg']) (auto simp: blur_active_def OnSearchFieldFocus_def ui_only_def same_ids_def)
next
  case False
  then show ?thesis
    by (intro that [of "pg\<lparr>activeElement := None\<rparr>"])
       (auto simp: blur_active_def ui_only_def same_ids_def shown_def split: option.splits)
qed

lemma focus_on_spec:
  assumes ok: "page_ok pg"
  obtains pg' where "focus_on p pg = Some pg'" "ui_only pg pg'" "activeElement pg' = Some p" "stopped pg' = stopped pg"
    "shown pg' ''MSearchResultsWindow'' = shown pg ''MSearchResultsWindow''"
proof (cases "activeElement pg = Some p")
  case True
  then show ?thesis by (intro that [of pg]) (simp_all add: focus_on_def)
next
  case False
  obtain pg1 where 1: "blur_active pg = Some pg1" "ui_only pg pg1" "activeElement pg1 = None" "stopped pg1 = stopped pg"
    "shown pg1 ''MSearchResultsWindow'' = shown pg ''MSearchResultsWindow''"
    by (rule blur_active_spec [OF ok])
  let ?pg = "pg1\<lparr>activeElement := Some p\<rparr>"
  have ok': "page_ok ?pg" using ui_only_ok [OF 1(2) ok] by (simp add: page_ok_def)
  have ui: "ui_only pg ?pg" using 1(2) by (simp add: ui_only_def same_ids_def)
  show ?thesis
  proof (cases "by_id pg1 ''MSearchField'' = Some p")
    case True
    obtain pg2 where "Activate True ?pg = Some pg2" "ui_only ?pg pg2" "activeElement pg2 = Some p"
      "stopped pg2 = stopped pg" "shown pg2 ''MSearchResultsWindow'' = shown pg ''MSearchResultsWindow''"
      using 1(4,5) by (rule_tac Activate_spec [OF ok', of True]) (auto simp: shown_def)
    then show ?thesis
      using True False 1 ui
      by (intro that [of pg2]) (auto simp: focus_on_def OnSearchFieldFocus_def intro: ui_only_trans)
  next
    case False2: False
    then show ?thesis
      using False 1 ui by (intro that [of ?pg]) (simp_all add: focus_on_def shown_def)
  qed
qed

end
