(* ===== verification/Search_Id.thy ===== *)
theory Search_Id
  imports Js_String
begin

text \<open>
  \<open>convertToId\<close> of \<open>docs/html/search/search.js\<close>: a search word is rewritten to the form in
  which the ids of the result rows are written. Letters, digits and the code units from
  0x80 stand for themselves; any other unit becomes an underscore and two hexadecimal
  digits. This is a prefix code, so the search by prefix of ids is a search by prefix of
  names.
\<close>

section \<open>Model\<close>

text \<open>\<open>c.match(/[a-z0-9\u0080-\uFFFF]/)\<close>.\<close>

definition id_char :: "jchar \<Rightarrow> bool" where
  "id_char c \<longleftrightarrow> (0x61 \<le> c \<and> c \<le> 0x7A) \<or> (0x30 \<le> c \<and> c \<le> 0x39) \<or> 0x80 \<le> c"

definition id_unit :: "jchar \<Rightarrow> jstring" where
  "id_unit c =
     (if id_char c then [c]
      else if unat c < 16 then lit ''_0'' @ to_hex (unat c)
      else lit ''_'' @ to_hex (unat c))"

definition convertToId :: "jstring \<Rightarrow> jstring" where
  "convertToId search = foldl (\<lambda>result c. result @ id_unit c) [] search"

lemma foldl_append_units: "foldl (\<lambda>result c. result @ f c) acc s = acc @ concat (map f s)"
  by (induction s arbitrary: acc) simp_all

lemma convertToId_eq: "convertToId s = concat (map id_unit s)"
  by (simp add: convertToId_def foldl_append_units)

lemma convertToId_simps [simp]:
  "convertToId [] = []"
  "convertToId (c # s) = id_unit c @ convertToId s"
  "convertToId (s @ t) = convertToId s @ convertToId t"
  by (simp_all add: convertToId_eq)

section \<open>Codes with no ambiguous prefix\<close>

locale prefix_code =
  fixes enc :: "'a \<Rightarrow> 'b list"
  assumes enc_not_Nil: "enc c \<noteq> []"
    and enc_head: "enc c @ xs = enc d @ ys \<Longrightarrow> c = d"
begin

lemma prefix_encode_iff: "prefix (concat (map enc s)) (concat (map enc t)) \<longleftrightarrow> prefix s t"
proof (induction s arbitrary: t)
  case (Cons c s)
  show ?case
  proof (cases t)
    case Nil
    then show ?thesis by (simp add: enc_not_Nil)
  next
    case t: (Cons d t')
    have "prefix (enc c @ concat (map enc s)) (enc d @ concat (map enc t')) \<longleftrightarrow> c = d \<and> prefix s t'"
    proof
      assume pre: "prefix (enc c @ concat (map enc s)) (enc d @ concat (map enc t'))"
      then have "c = d" by (auto simp: prefix_def dest: enc_head [OF sym] enc_head)
      with pre Cons.IH show "c = d \<and> prefix s t'" by simp
    qed (simp add: Cons.IH)
    then show ?thesis by (simp add: t)
  qed
qed simp

lemma encode_inject: "concat (map enc s) = concat (map enc t) \<longleftrightarrow> s = t"
  using prefix_encode_iff [of s t] prefix_encode_iff [of t s]
  by (metis prefix_order.order_antisym prefix_order.order_refl)

text \<open>A code word followed by a suffix, as the ids of rows are.\<close>

lemma prefix_encode_append:
  "prefix (concat (map enc s)) (concat (map enc t) @ z) \<longleftrightarrow>
   prefix s t \<or> (\<exists>u. s = t @ u \<and> prefix (concat (map enc u)) z)"
proof (induction s arbitrary: t)
  case (Cons c s)
  show ?case
  proof (cases t)
    case t: (Cons d t')
    have "prefix (enc c @ concat (map enc s)) (enc d @ concat (map enc t') @ z) \<longleftrightarrow>
      c = d \<and> prefix (concat (map enc s)) (concat (map enc t') @ z)"
    proof
      assume pre: "prefix (enc c @ concat (map enc s)) (enc d @ concat (map enc t') @ z)"
      then have "c = d" by (auto simp: prefix_def dest: enc_head [OF sym] enc_head)
      with pre show "c = d \<and> prefix (concat (map enc s)) (concat (map enc t') @ z)" by simp
    qed simp
    then show ?thesis using Cons.IH [of t'] by (auto simp: t)
  qed simp
qed simp

end

section \<open>The escape of one unit\<close>

lemma small_unit: "\<not> id_char c \<Longrightarrow> unat c < 128"
  by (simp add: id_char_def word_le_nat_alt)

lemma two_digits: "16 \<le> n \<Longrightarrow> n < 256 \<Longrightarrow> to_hex n = [digit (n div 16), digit (n mod 16)]"
  by (simp add: to_hex_def radix.simps [of 16 n] radix.simps [of 16 "n div 16"] div_less_iff_less_mult)

lemma one_digit: "n < 16 \<Longrightarrow> to_hex n = [digit n]"
  by (simp add: to_hex_def radix.simps)

lemma digit_0: "unit_of CHR ''0'' = digit 0"
  by (simp add: unit_of_def digit_def)

lemma id_unit_escape:
  assumes "\<not> id_char c"
  shows "id_unit c = [unit_of CHR ''_'', digit (unat c div 16), digit (unat c mod 16)]"
  using assms small_unit [OF assms]
  by (simp add: id_unit_def lit_Cons digit_0 one_digit two_digits)

lemma underscore_escaped: "\<not> id_char (unit_of CHR ''_'')"
  by (simp add: id_char_def unit_of_def)

lemma id_unit_self: "id_char c \<Longrightarrow> id_unit c = [c]"
  by (simp add: id_unit_def)

lemma digit_eq_iff: "m < 36 \<Longrightarrow> n < 36 \<Longrightarrow> digit m = digit n \<longleftrightarrow> m = n"
  by (metis digit_val_digit)

lemma id_unit_head: "id_unit c @ xs = id_unit d @ ys \<Longrightarrow> c = d"
proof (cases "id_char c"; cases "id_char d")
  assume c: "\<not> id_char c" and d: "\<not> id_char d" and eq: "id_unit c @ xs = id_unit d @ ys"
  have "unat c div 16 < 36" "unat d div 16 < 36" "unat c mod 16 < 36" "unat d mod 16 < 36"
    using small_unit [OF c] small_unit [OF d] by (simp_all add: div_less_iff_less_mult less_trans [OF mod_less_divisor])
  then have "unat c div 16 = unat d div 16" "unat c mod 16 = unat d mod 16"
    using eq by (simp_all add: id_unit_escape c d digit_eq_iff)
  then have "unat c = unat d" by (metis div_mult_mod_eq)
  then show "c = d" by (simp only: word_unat_eq_iff)
qed (auto simp: id_unit_self id_unit_escape underscore_escaped)

interpretation ids: prefix_code id_unit
  by unfold_locales (auto simp: id_unit_def id_unit_head)

section \<open>Searching by prefix\<close>

lemma convertToId_prefix_iff: "prefix (convertToId s) (convertToId t) \<longleftrightarrow> prefix s t"
  by (simp add: convertToId_eq ids.prefix_encode_iff)

lemma convertToId_eq_iff: "convertToId s = convertToId t \<longleftrightarrow> s = t"
  by (simp add: convertToId_eq ids.encode_inject)

text \<open>The characters an id is made of: no upper-case letter, no blank, no quote.\<close>

lemma id_char_digit: "d < 16 \<Longrightarrow> id_char (digit d)"
  by (simp add: id_char_def word_le_nat_alt unat_digit)

lemma set_convertToId: "set (convertToId s) \<subseteq> insert (unit_of CHR ''_'') {c. id_char c}"
proof -
  have "set (id_unit c) \<subseteq> insert (unit_of CHR ''_'') {c. id_char c}" for c
  proof (cases "id_char c")
    case False
    then have "unat c div 16 < 16" "unat c mod 16 < 16"
      using small_unit by (simp_all add: div_less_iff_less_mult less_trans [of _ 128 256])
    then show ?thesis by (simp add: id_unit_escape False id_char_digit)
  qed (simp add: id_unit_def)
  then show ?thesis by (auto simp: convertToId_eq)
qed

end
