(* ===== verification/Search_Results.thy ===== *)
theory Search_Results
  imports Page Search_Id
begin

text \<open>
  The object \<open>SearchResults\<close> of \<open>docs/html/search/search.js\<close>: the walk that finds the
  children of a result, the search itself, which shows the rows whose id starts with the
  converted search word, and the keyboard navigation among the visible rows. The loops that
  the script writes with \<open>while\<close> are partial functions (\<^term>\<open>None\<close>: a TypeError, or no end); the
  theorems prove that each returns.
\<close>

section \<open>FindChildElement\<close>

definition is_div :: "(jstring \<Rightarrow> jstring) \<Rightarrow> dom \<Rightarrow> bool" where
  "is_div lc n \<longleftrightarrow> toLowerCase lc (nodeName n) = lit ''div''"

definition has_class :: "string \<Rightarrow> dom \<Rightarrow> bool" where
  "has_class c n \<longleftrightarrow> (case elem_of n of None \<Rightarrow> False | Some e \<Rightarrow> className e = lit c)"

text \<open>
  The inner loop, \<open>do element = element.parentNode while (...)\<close>: up to the first ancestor
  that has a next sibling, or to the root of the walk.
\<close>

fun climb :: "dom \<Rightarrow> path \<Rightarrow> path \<Rightarrow> path option" where
  "climb d r [] = None"
| "climb d r (i # p) = (if p \<noteq> r \<and> nextSibling d p = None then climb d r p else Some p)"

definition next_after :: "dom \<Rightarrow> path \<Rightarrow> path \<Rightarrow> path option" where
  "next_after d r q =
     (case nextSibling d q of
        Some s \<Rightarrow> Some s
      | None \<Rightarrow>
          (case climb d r q of
             None \<Rightarrow> None
           | Some p \<Rightarrow> if p \<noteq> r then nextSibling d p else Some p))"

definition next_element :: "(jstring \<Rightarrow> jstring) \<Rightarrow> dom \<Rightarrow> path \<Rightarrow> path \<Rightarrow> dom \<Rightarrow> path option" where
  "next_element lc d r q n =
     (if is_div lc n \<and> children n \<noteq> [] then firstChild d q else next_after d r q)"

partial_function (option) find_child_loop ::
  "(jstring \<Rightarrow> jstring) \<Rightarrow> dom \<Rightarrow> path \<Rightarrow> path \<Rightarrow> path option option" where
  "find_child_loop lc d r q =
     (if q = r then Some None
      else (case node_at d q of
              None \<Rightarrow> None
            | Some n \<Rightarrow>
                if is_div lc n \<and> has_class ''SRChildren'' n then Some (Some q)
                else (case next_element lc d r q n of
                        None \<Rightarrow> Some None
                      | Some q' \<Rightarrow> find_child_loop lc d r q')))"

definition FindChildElement :: "(jstring \<Rightarrow> jstring) \<Rightarrow> dom \<Rightarrow> jstring \<Rightarrow> path option option" where
  "FindChildElement lc d i = do {
     r \<leftarrow> getElementById d i;
     (case firstChild d r of
        None \<Rightarrow> Some None
      | Some q \<Rightarrow> find_child_loop lc d r q)
   }"

text \<open>\<open>Toggle\<close>: shows the children of a result, or hides them when they are shown.\<close>

definition Toggle :: "(jstring \<Rightarrow> jstring) \<Rightarrow> dom \<Rightarrow> jstring \<Rightarrow> dom option" where
  "Toggle lc d i = do {
     found \<leftarrow> FindChildElement lc d i;
     (case found of
        None \<Rightarrow> Some d
      | Some q \<Rightarrow> do {
          e \<leftarrow> elem_at d q;
          Some (if display e = lit ''block'' then upd_elem q (set_style ''display'' (lit ''none'')) d
                else upd_elem q (set_style ''display'' (lit ''block'')) d)
        })
   }"

section \<open>Search\<close>

text \<open>The search word: the argument, or the query of the URL when there is none.\<close>

definition search_word :: "site \<Rightarrow> jstring option \<Rightarrow> jstring" where
  "search_word w search =
     (let s = (case search of
                 Some s \<Rightarrow> if s = [] then unescape (drop 1 (location_search w)) else s
               | None \<Rightarrow> unescape (drop 1 (location_search w)))
      in convertToId (toLowerCase (unicode_lower w) (strip_trailing (strip_leading s))))"

definition row_match_name :: "(jstring \<Rightarrow> jstring) \<Rightarrow> elem \<Rightarrow> jstring" where
  "row_match_name lc e = strip_sr (toLowerCase lc (elem_id e))"

definition search_row :: "(jstring \<Rightarrow> jstring) \<Rightarrow> jstring \<Rightarrow> dom \<times> nat \<Rightarrow> path \<Rightarrow> dom \<times> nat" where
  "search_row lc search = (\<lambda>(d, matches) p.
     (case elem_at d p of
        None \<Rightarrow> (d, matches)
      | Some e \<Rightarrow>
          if className e = lit ''SRResult'' then
            (let rowMatchName = row_match_name lc e in
             if length search \<le> length rowMatchName \<and> take (length search) rowMatchName = search
             then (upd_elem p (set_style ''display'' (lit ''block'')) d, matches + 1)
             else (upd_elem p (set_style ''display'' (lit ''none'')) d, matches))
          else (d, matches)))"

definition results_Search :: "site \<Rightarrow> jstring option \<Rightarrow> page \<Rightarrow> (page \<times> bool) option" where
  "results_Search w search pg = do {
     let search = search_word w search;
     let resultRows = getElementsByTagName (document pg) ''div'';
     let (d, matches) = foldl (search_row (unicode_lower w) search) (document pg, 0) resultRows;
     let pg = pg\<lparr>document := d\<rparr>;
     pg \<leftarrow> set_style_of ''Searching'' ''display'' (lit ''none'') pg;
     pg \<leftarrow> (if matches = 0 then set_style_of ''NoMatches'' ''display'' (lit ''block'') pg
           else set_style_of ''NoMatches'' ''display'' (lit ''none'') pg);
     Some (pg\<lparr>searchResults := (searchResults pg)\<lparr>lastMatchCount := matches\<rparr>\<rparr>, True)
   }"

section \<open>Navigation\<close>

definition item_name :: "int \<Rightarrow> jstring" where
  "item_name index = lit ''Item'' @ num_str index"

definition child_name :: "int \<Rightarrow> int \<Rightarrow> jstring" where
  "child_name itemIndex n = lit ''Item'' @ num_str itemIndex @ lit ''_c'' @ num_str n"

text \<open>\<open>item.parentNode.parentNode\<close>, the row of an item.\<close>

definition row_of :: "dom \<Rightarrow> path \<Rightarrow> (path \<times> elem) option" where
  "row_of d p = do {
     q \<leftarrow> parentNode p;
     r \<leftarrow> parentNode q;
     e \<leftarrow> elem_at d r;
     Some (r, e)
   }"

partial_function (option) NavNext :: "dom \<Rightarrow> int \<Rightarrow> path option option" where
  "NavNext d index =
     (case getElementById d (item_name index) of
        None \<Rightarrow> Some None
      | Some focusItem \<Rightarrow>
          (case row_of d focusItem of
             None \<Rightarrow> None
           | Some (r, row) \<Rightarrow>
               if display row = lit ''block'' then Some (Some focusItem) else NavNext d (index + 1)))"

partial_function (option) NavPrev :: "dom \<Rightarrow> int \<Rightarrow> path option option" where
  "NavPrev d index =
     (case getElementById d (item_name index) of
        None \<Rightarrow> Some None
      | Some focusItem \<Rightarrow>
          (case row_of d focusItem of
             None \<Rightarrow> None
           | Some (r, row) \<Rightarrow>
               if display row = lit ''block'' then Some (Some focusItem) else NavPrev d (index - 1)))"

text \<open>
  Key repetition: the first \<open>keypress\<close> after a \<open>keydown\<close> is ignored, the following ones count.
\<close>

definition ProcessKeys :: "key_event \<Rightarrow> search_results \<Rightarrow> search_results \<times> bool" where
  "ProcessKeys e s =
     (if ev_type e = ''keydown'' then
        (let s = s\<lparr>repeatOn := False, lastKey := keyCode e\<rparr> in (s, lastKey s \<noteq> 0))
      else if ev_type e = ''keypress'' then
        (if \<not> repeatOn s
         then (if lastKey s \<noteq> 0 then s\<lparr>repeatOn := True\<rparr> else s, False)
         else (s, lastKey s \<noteq> 0))
      else if ev_type e = ''keyup'' then
        (let s = s\<lparr>lastKey := 0, repeatOn := False\<rparr> in (s, lastKey s \<noteq> 0))
      else (s, lastKey s \<noteq> 0))"

text \<open>The loop that searches the last child of an item.\<close>

partial_function (option) last_child :: "dom \<Rightarrow> int \<Rightarrow> int \<Rightarrow> path \<Rightarrow> path option" where
  "last_child d newIndex n focusItem =
     (case getElementById d (child_name newIndex n) of
        Some tmpElem \<Rightarrow> last_child d newIndex (n + 1) tmpElem
      | None \<Rightarrow> Some focusItem)"

definition focus_field :: "page \<Rightarrow> page option" where
  "focus_field pg = do {
     p \<leftarrow> by_id pg ''MSearchField'';
     focus_on p pg
   }"

definition escape_results :: "page \<Rightarrow> page option" where
  "escape_results pg = do {
     pg \<leftarrow> CloseResultsWindow (pg\<lparr>stopped := True\<rparr>);
     focus_field pg
   }"

definition nav_up :: "(jstring \<Rightarrow> jstring) \<Rightarrow> int \<Rightarrow> page \<Rightarrow> page option" where
  "nav_up lc itemIndex pg = do {
     let newIndex = itemIndex - 1;
     found \<leftarrow> NavPrev (document pg) newIndex;
     (case found of
        None \<Rightarrow> focus_field pg
      | Some focusItem \<Rightarrow> do {
          (r, row) \<leftarrow> row_of (document pg) focusItem;
          child \<leftarrow> FindChildElement lc (document pg) (elem_id row);
          focusItem \<leftarrow>
            (case child of
               None \<Rightarrow> Some focusItem
             | Some q \<Rightarrow> do {
                 e \<leftarrow> elem_at (document pg) q;
                 if display e = lit ''block'' then last_child (document pg) newIndex 0 focusItem
                 else Some focusItem
               });
          focus_on focusItem pg
        })
   }"

text \<open>The children of the row of an item: \<open>FindChildElement(item.parentNode.parentNode.id)\<close>.\<close>

definition item_children :: "(jstring \<Rightarrow> jstring) \<Rightarrow> dom \<Rightarrow> int \<Rightarrow> path option option" where
  "item_children lc d itemIndex = do {
     item \<leftarrow> getElementById d (item_name itemIndex);
     (r, row) \<leftarrow> row_of d item;
     FindChildElement lc d (elem_id row)
   }"

definition nav_down :: "(jstring \<Rightarrow> jstring) \<Rightarrow> int \<Rightarrow> page \<Rightarrow> page option" where
  "nav_down lc itemIndex pg = do {
     let newIndex = itemIndex + 1;
     child \<leftarrow> item_children lc (document pg) itemIndex;
     open_children \<leftarrow>
       (case child of
          None \<Rightarrow> Some False
        | Some q \<Rightarrow> do {
            e \<leftarrow> elem_at (document pg) q;
            Some (display e = lit ''block'')
          });
     let first = (if open_children then getElementById (document pg) (child_name itemIndex 0) else None);
     focusItem \<leftarrow> (case first of Some f \<Rightarrow> Some (Some f) | None \<Rightarrow> NavNext (document pg) newIndex);
     (case focusItem of None \<Rightarrow> Some pg | Some f \<Rightarrow> focus_on f pg)
   }"

definition nav_display :: "(jstring \<Rightarrow> jstring) \<Rightarrow> string \<Rightarrow> int \<Rightarrow> page \<Rightarrow> page option" where
  "nav_display lc v itemIndex pg = do {
     child \<leftarrow> item_children lc (document pg) itemIndex;
     (case child of
        None \<Rightarrow> Some pg
      | Some q \<Rightarrow> Some (set_elem q (set_style ''display'' (lit v)) pg))
   }"

definition Nav :: "(jstring \<Rightarrow> jstring) \<Rightarrow> key_event \<Rightarrow> int \<Rightarrow> page \<Rightarrow> (page \<times> bool) option" where
  "Nav lc e itemIndex pg =
     (if keyCode e = 13 then Some (pg, True)
      else
        let (s, go) = ProcessKeys e (searchResults pg); pg = pg\<lparr>searchResults := s\<rparr> in
        if \<not> go then Some (pg, False)
        else if lastKey s = 38 then do { pg \<leftarrow> nav_up lc itemIndex pg; Some (pg, False) }
        else if lastKey s = 40 then do { pg \<leftarrow> nav_down lc itemIndex pg; Some (pg, False) }
        else if lastKey s = 39 then do { pg \<leftarrow> nav_display lc ''block'' itemIndex pg; Some (pg, False) }
        else if lastKey s = 37 then do { pg \<leftarrow> nav_display lc ''none'' itemIndex pg; Some (pg, False) }
        else if lastKey s = 27 then do { pg \<leftarrow> escape_results pg; Some (pg, False) }
        else if lastKey s = 13 then Some (pg, True)
        else Some (pg, False))"

definition child_up :: "int \<Rightarrow> int \<Rightarrow> page \<Rightarrow> page option" where
  "child_up itemIndex childIndex pg =
     (if 0 < childIndex
      then do {
        p \<leftarrow> getElementById (document pg) (child_name itemIndex (childIndex - 1));
        focus_on p pg
      }
      else do {
        p \<leftarrow> getElementById (document pg) (item_name itemIndex);
        focus_on p pg
      })"

definition child_down :: "int \<Rightarrow> int \<Rightarrow> page \<Rightarrow> page option" where
  "child_down itemIndex childIndex pg = do {
     elem \<leftarrow>
       (case getElementById (document pg) (child_name itemIndex (childIndex + 1)) of
          Some p \<Rightarrow> Some (Some p)
        | None \<Rightarrow> NavNext (document pg) (itemIndex + 1));
     (case elem of None \<Rightarrow> Some pg | Some p \<Rightarrow> focus_on p pg)
   }"

definition NavChild :: "key_event \<Rightarrow> int \<Rightarrow> int \<Rightarrow> page \<Rightarrow> (page \<times> bool) option" where
  "NavChild e itemIndex childIndex pg =
     (if keyCode e = 13 then Some (pg, True)
      else
        let (s, go) = ProcessKeys e (searchResults pg); pg = pg\<lparr>searchResults := s\<rparr> in
        if \<not> go then Some (pg, False)
        else if lastKey s = 38 then do { pg \<leftarrow> child_up itemIndex childIndex pg; Some (pg, False) }
        else if lastKey s = 40 then do { pg \<leftarrow> child_down itemIndex childIndex pg; Some (pg, False) }
        else if lastKey s = 27 then do { pg \<leftarrow> escape_results pg; Some (pg, False) }
        else if lastKey s = 13 then Some (pg, True)
        else Some (pg, False))"

declare find_child_loop.simps [code] NavNext.simps [code] NavPrev.simps [code] last_child.simps [code]

section \<open>The rows that a search shows\<close>

definition row_matches :: "(jstring \<Rightarrow> jstring) \<Rightarrow> jstring \<Rightarrow> elem \<Rightarrow> bool" where
  "row_matches lc search e \<longleftrightarrow> prefix search (row_match_name lc e)"

definition is_row :: "elem \<Rightarrow> bool" where
  "is_row e \<longleftrightarrow> className e = lit ''SRResult''"

definition show_row :: "(jstring \<Rightarrow> jstring) \<Rightarrow> jstring \<Rightarrow> elem \<Rightarrow> elem" where
  "show_row lc search e =
     (if is_row e then set_style ''display'' (lit (if row_matches lc search e then ''block'' else ''none'')) e
      else e)"

definition matching :: "(jstring \<Rightarrow> jstring) \<Rightarrow> jstring \<Rightarrow> dom \<Rightarrow> path \<Rightarrow> bool" where
  "matching lc search d p \<longleftrightarrow> (\<exists>e. elem_at d p = Some e \<and> is_row e \<and> row_matches lc search e)"

lemma prefix_take_iff: "prefix s t \<longleftrightarrow> length s \<le> length t \<and> take (length s) t = s"
  by (metis append_eq_conv_conj append_take_drop_id prefixI prefixE prefix_length_le)

lemma show_row_simps [simp]:
  "attrs (show_row lc s e) = attrs e" "tag (show_row lc s e) = tag e"
  "is_row (show_row lc s e) = is_row e" "row_matches lc t (show_row lc s e) = row_matches lc t e"
  by (simp_all add: show_row_def is_row_def row_matches_def row_match_name_def elem_id_def)

lemma search_row_eq:
  "search_row lc search (d, m) p = (upd_elem p (show_row lc search) d, m + (if matching lc search d p then 1 else 0))"
proof (cases "elem_at d p")
  case None
  then have "upd_elem p (show_row lc search) d = map_elems (\<lambda>q e. e) [] d"
    unfolding upd_elem_def by (intro map_elems_cong) auto
  then show ?thesis using None by (simp add: search_row_def matching_def map_elems_id)
next
  case (Some e)
  have "upd_elem p (show_row lc search) d = upd_elem p (\<lambda>_. show_row lc search e) d"
    unfolding upd_elem_def using Some by (intro map_elems_cong) auto
  moreover have "upd_elem p (set_style k v) d = upd_elem p (\<lambda>_. set_style k v e) d" for k v
    unfolding upd_elem_def using Some by (intro map_elems_cong) auto
  moreover have "upd_elem p (\<lambda>_. e) d = map_elems (\<lambda>q e. e) [] d"
    unfolding upd_elem_def using Some by (intro map_elems_cong) auto
  ultimately show ?thesis
    using Some
    by (auto simp: search_row_def matching_def show_row_def is_row_def row_matches_def prefix_take_iff Let_def map_elems_id)
qed

lemma search_rows_eq:
  "distinct ps \<Longrightarrow>
   foldl (search_row lc search) (d, m) ps =
     (map_elems (\<lambda>q e. if q \<in> set ps then show_row lc search e else e) [] d,
      m + length (List.filter (matching lc search d) ps))"
proof (induction ps arbitrary: d m)
  case Nil
  then show ?case by (simp add: map_elems_id)
next
  case (Cons p ps)
  let ?d = "upd_elem p (show_row lc search) d"
  have "matching lc search ?d = matching lc search d"
    by (auto simp: matching_def dom_simps fun_eq_iff)
  moreover have "map_elems (\<lambda>q e. if q \<in> set ps then show_row lc search e else e) [] ?d =
      map_elems (\<lambda>q e. if q \<in> set (p # ps) then show_row lc search e else e) [] d"
    unfolding upd_elem_def map_elems_comp using Cons.prems by (intro map_elems_cong) auto
  ultimately show ?case
    using Cons by (simp add: search_row_eq)
qed

text \<open>The document after the loop: every row is shown or hidden, nothing else changes.\<close>

lemma search_loop_eq:
  "foldl (search_row lc search) (d, 0) (getElementsByTagName d ''div'') =
     (map_elems (\<lambda>q e. if tag e = ''div'' then show_row lc search e else e) [] d,
      length (List.filter (matching lc search d) (getElementsByTagName d ''div'')))"
proof -
  have "map_elems (\<lambda>q e. if q \<in> set (getElementsByTagName d ''div'') then show_row lc search e else e) [] d =
      map_elems (\<lambda>q e. if tag e = ''div'' then show_row lc search e else e) [] d"
    by (intro map_elems_cong) (simp add: set_getElementsByTagName)
  then show ?thesis by (simp add: search_rows_eq distinct_getElementsByTagName)
qed

lemma results_Search_spec:
  fixes pg :: page and w :: site and search :: "jstring option"
  assumes ids: "by_id pg ''Searching'' = Some ps" "by_id pg ''NoMatches'' = Some pn"
  defines "lc \<equiv> unicode_lower w" and "s \<equiv> search_word w search"
  defines "ms \<equiv> List.filter (matching lc s (document pg)) (getElementsByTagName (document pg) ''div'')"
  obtains pg' where "results_Search w search pg = Some (pg', True)"
    "lastMatchCount (searchResults pg') = length ms"
    "\<And>p e. elem_at (document pg) p = Some e \<Longrightarrow> p \<noteq> ps \<Longrightarrow> p \<noteq> pn \<Longrightarrow>
       elem_at (document pg') p = Some (if tag e = ''div'' then show_row lc s e else e)"
    "same_ids pg pg'" "searchBox pg' = searchBox pg"
    "map_option display (elem_at (document pg') pn) = Some (lit (if ms = [] then ''block'' else ''none''))"
proof -
  let ?d = "map_elems (\<lambda>q e. if tag e = ''div'' then show_row lc s e else e) [] (document pg)"
  let ?v = "lit (if ms = [] then ''block'' else ''none'')"
  have ne: "ps \<noteq> pn" using by_id_unique ids by fastforce
  have get: "getElementById ?d i = getElementById (document pg) i" for i
    by (rule getElementById_map_elems) simp
  define d' where "d' = upd_elem pn (set_style ''display'' ?v) (upd_elem ps (set_style ''display'' (lit ''none'')) ?d)"
  define pg' where "pg' = pg\<lparr>document := d', searchResults := (searchResults pg)\<lparr>lastMatchCount := length ms\<rparr>\<rparr>"
  obtain en where en: "elem_at (document pg) pn = Some en" using by_id_elem [OF ids(2)] by blast
  have run: "results_Search w search pg = Some (pg', True)"
    using ids ne
    by (simp add: results_Search_def search_loop_eq lc_def [symmetric] s_def [symmetric] ms_def [symmetric]
        set_style_of_def on_id_def by_id_def get dom_simps set_elem_def d'_def pg'_def)
  show ?thesis
  proof (rule that [OF run])
    show "same_ids pg pg'"
    proof -
      have "elem_id (if tag e = ''div'' then show_row lc s e else e) = elem_id e" for e
        by (rule elem_id_keep) simp
      then show ?thesis by (simp add: same_ids_def pg'_def d'_def dom_simps get option.map_comp comp_def)
    qed
    show "map_option display (elem_at (document pg') pn) = Some ?v"
      using en ne by (simp add: pg'_def d'_def dom_simps)
  qed (simp_all add: pg'_def d'_def dom_simps)
qed

section \<open>The walk to the children of a result\<close>

text \<open>
  The nodes below a result in the order of the walk: pre-order, without the inside of
  elements that are not \<open>div\<close>s.
\<close>

fun visit :: "(jstring \<Rightarrow> jstring) \<Rightarrow> path \<Rightarrow> dom \<Rightarrow> path list"
  and visit_list :: "(jstring \<Rightarrow> jstring) \<Rightarrow> path \<Rightarrow> nat \<Rightarrow> dom list \<Rightarrow> path list" where
  "visit lc p (Leaf s) = [p]"
| "visit lc p (Elem e ds) = p # (if is_div lc (Elem e ds) then visit_list lc p 0 ds else [])"
| "visit_list lc p i [] = []"
| "visit_list lc p i (d # ds) = visit lc (i # p) d @ visit_list lc p (Suc i) ds"

definition is_children :: "(jstring \<Rightarrow> jstring) \<Rightarrow> dom \<Rightarrow> path \<Rightarrow> bool" where
  "is_children lc d q \<longleftrightarrow>
     (case node_at d q of None \<Rightarrow> False | Some n \<Rightarrow> is_div lc n \<and> has_class ''SRChildren'' n)"

text \<open>How the walk goes on after the nodes below \<open>q\<close>.\<close>

definition continue :: "(jstring \<Rightarrow> jstring) \<Rightarrow> dom \<Rightarrow> path \<Rightarrow> path \<Rightarrow> path option option" where
  "continue lc d r q =
     (case next_after d r q of None \<Rightarrow> Some None | Some q' \<Rightarrow> find_child_loop lc d r q')"

definition first_of :: "(jstring \<Rightarrow> jstring) \<Rightarrow> dom \<Rightarrow> path list \<Rightarrow> path option option \<Rightarrow> path option option" where
  "first_of lc d ps rest = (case List.find (is_children lc d) ps of Some q \<Rightarrow> Some (Some q) | None \<Rightarrow> rest)"

lemma find_append:
  "List.find P (xs @ ys) = (case List.find P xs of None \<Rightarrow> List.find P ys | Some x \<Rightarrow> Some x)"
  by (induction xs) auto

lemma first_of_simps [simp]:
  "first_of lc d [] rest = rest"
  "first_of lc d (p # ps) rest = (if is_children lc d p then Some (Some p) else first_of lc d ps rest)"
  "first_of lc d (ps @ qs) rest = first_of lc d ps (first_of lc d qs rest)"
  by (auto simp: first_of_def find_append split: option.splits)

lemma continue_last:
  assumes "nextSibling d (i # p) = None"
  shows "continue lc d r (i # p) = (if p = r then Some None else continue lc d r p)"
proof (cases "p \<noteq> r \<and> nextSibling d p = None")
  case True
  then show ?thesis using assms by (simp add: continue_def next_after_def)
next
  case False
  then show ?thesis
    using assms by (auto simp: continue_def next_after_def find_child_loop.simps [of lc d r r])
qed

lemma find_child_step:
  assumes "node_at d q = Some n" "q \<noteq> r"
  shows "find_child_loop lc d r q =
    (if is_children lc d q then Some (Some q)
     else if is_div lc n \<and> children n \<noteq> [] then find_child_loop lc d r (0 # q)
     else continue lc d r q)"
  using assms
  by (auto simp: find_child_loop.simps [of lc d r q] is_children_def next_element_def continue_def firstChild_def)

lemma is_div_Leaf [simp]: "\<not> is_div lc (Leaf s)"
  by (simp add: is_div_def toLowerCase_def ascii_def lit_def unit_of_def ascii_lower_def)

lemma find_child_loop_visit:
  "node_at d p = Some n \<Longrightarrow> p \<noteq> r \<Longrightarrow> suffix r p \<Longrightarrow>
   find_child_loop lc d r p = first_of lc d (visit lc p n) (continue lc d r p)"
  "node_at d p = Some (Elem e (us @ ds)) \<Longrightarrow> length us = i \<Longrightarrow> ds \<noteq> [] \<Longrightarrow> suffix r p \<Longrightarrow>
   find_child_loop lc d r (i # p) =
     first_of lc d (visit_list lc p i ds) (if p = r then Some None else continue lc d r p)"
proof (induction lc p n and lc p i ds arbitrary: and e us rule: visit_visit_list.induct)
  case (1 lc p s)
  then show ?case by (simp add: find_child_step)
next
  case (2 lc p e ds)
  have "find_child_loop lc d r (0 # p) = first_of lc d (visit_list lc p 0 ds) (continue lc d r p)"
    if "is_div lc (Elem e ds)" "ds \<noteq> []"
    using 2(1) [OF that(1), of e "[]"] 2(2-4) that by simp
  then show ?case
    using find_child_step [OF 2(2,3), of lc] by (cases "ds = []") auto
next
  case (4 lc p i n ds)
  have at: "node_at d (i # p) = Some n" using 4(3,4) by (auto simp: nth_append)
  have below: "i # p \<noteq> r" "suffix r (i # p)"
    using 4(6) by (auto simp: suffix_def)
  have one: "find_child_loop lc d r (i # p) = first_of lc d (visit lc (i # p) n) (continue lc d r (i # p))"
    by (rule 4(1) [OF at below])
  have rest: "continue lc d r (i # p) =
      first_of lc d (visit_list lc p (Suc i) ds) (if p = r then Some None else continue lc d r p)"
  proof (cases "ds = []")
    case True
    then have "nextSibling d (i # p) = None" using 4(3,4) by simp
    then show ?thesis using continue_last True by simp
  next
    case False
    have "node_at d (Suc i # p) \<noteq> None" using 4(3,4) False by simp
    then have "continue lc d r (i # p) = find_child_loop lc d r (Suc i # p)"
      by (auto simp: continue_def next_after_def)
    also have "\<dots> = first_of lc d (visit_list lc p (Suc i) ds) (if p = r then Some None else continue lc d r p)"
      using 4(3,4,6) False by (intro 4(2) [of e "us @ [n]"]) simp_all
    finally show ?thesis .
  qed
  show ?case using one rest by simp
qed simp

lemma FindChildElement_spec:
  assumes "getElementById d i = Some r" "node_at d r = Some n"
  shows "FindChildElement lc d i = Some (List.find (is_children lc d) (visit_list lc r 0 (children n)))"
proof (cases "children n")
  case Nil
  then show ?thesis using assms by (simp add: FindChildElement_def firstChild_def)
next
  case (Cons m ms)
  then obtain e where n: "n = Elem e (m # ms)" by (cases n) auto
  have "find_child_loop lc d r (0 # r) = first_of lc d (visit_list lc r 0 (m # ms)) (Some None)"
    using find_child_loop_visit(2) [of d r e "[]" "m # ms" 0 r lc] assms(2) n by simp
  then show ?thesis
    using assms n by (auto simp: FindChildElement_def firstChild_def first_of_def split: option.splits)
qed

text \<open>
  What the walk is after, on the document: a \<open>div\<close> of the class \<open>SRChildren\<close> below the result, with nothing but
  \<open>div\<close>s between.
\<close>

definition div_at :: "(jstring \<Rightarrow> jstring) \<Rightarrow> dom \<Rightarrow> path \<Rightarrow> bool" where
  "div_at lc d p \<longleftrightarrow> (case node_at d p of None \<Rightarrow> False | Some n \<Rightarrow> is_div lc n)"

definition children_below :: "(jstring \<Rightarrow> jstring) \<Rightarrow> dom \<Rightarrow> path \<Rightarrow> path \<Rightarrow> bool" where
  "children_below lc d r q \<longleftrightarrow>
     strict_suffix r q \<and> div_at lc d q \<and> (\<exists>e. elem_at d q = Some e \<and> className e = lit ''SRChildren'') \<and>
     (\<forall>p. strict_suffix r p \<and> strict_suffix p q \<longrightarrow> div_at lc d p)"

text \<open>The paths that the walk visits, with the nodes above each of them.\<close>

definition through_divs :: "(jstring \<Rightarrow> jstring) \<Rightarrow> dom \<Rightarrow> path \<Rightarrow> bool" where
  "through_divs lc d s \<longleftrightarrow> node_at d s \<noteq> None \<and> (\<forall>t. strict_suffix t s \<longrightarrow> div_at lc d t)"

lemma strict_suffix_split: "strict_suffix p q \<Longrightarrow> \<exists>s. q = s @ p \<and> s \<noteq> []"
  by (auto simp: strict_suffix_def suffix_def)

lemma strict_suffix_snoc: "strict_suffix t (s @ [j]) \<longleftrightarrow> t = [] \<or> (\<exists>u. t = u @ [j] \<and> strict_suffix u s)"
  by (cases t rule: rev_cases) (auto simp: strict_suffix_def)

lemma through_divs_Elem:
  "through_divs lc (Elem e ds) (s @ [j]) \<longleftrightarrow> is_div lc (Elem e ds) \<and> j < length ds \<and> through_divs lc (ds ! j) s"
proof -
  have at: "node_at (Elem e ds) (u @ [j]) = (if j < length ds then node_at (ds ! j) u else None)" for u
    by (simp add: node_at_append)
  then have div: "div_at lc (Elem e ds) (u @ [j]) = (j < length ds \<and> div_at lc (ds ! j) u)" for u by (simp add: div_at_def)
  have root: "div_at lc (Elem e ds) [] = is_div lc (Elem e ds)" by (simp add: div_at_def)
  show ?thesis by (auto simp: through_divs_def at div root strict_suffix_snoc)
qed

lemma through_divs_Nil [simp]: "through_divs lc d []"
  by (simp add: through_divs_def)

lemma set_visit:
  "q \<in> set (visit lc p d) \<longleftrightarrow> (\<exists>s. q = s @ p \<and> through_divs lc d s)"
  "q \<in> set (visit_list lc p i ds) \<longleftrightarrow> (\<exists>s j. q = s @ (i + j) # p \<and> j < length ds \<and> through_divs lc (ds ! j) s)"
proof (induction lc p d and lc p i ds rule: visit_visit_list.induct)
  case (1 lc p l)
  have "s = []" if "through_divs lc (Leaf l) s" for s
    using that by (cases s rule: rev_cases) (auto simp: through_divs_def node_at_append)
  then show ?case by auto
next
  case (2 lc p e ds)
  have "q \<in> set (visit lc p (Elem e ds)) \<longleftrightarrow>
      q = p \<or> is_div lc (Elem e ds) \<and> (\<exists>s j. q = s @ j # p \<and> j < length ds \<and> through_divs lc (ds ! j) s)"
    using 2 by (cases "is_div lc (Elem e ds)") simp_all
  also have "\<dots> \<longleftrightarrow> (\<exists>s. q = s @ p \<and> through_divs lc (Elem e ds) s)" (is "?L \<longleftrightarrow> ?R")
  proof
    assume ?L
    then consider "q = p" | s j where "is_div lc (Elem e ds)" "q = s @ j # p" "j < length ds" "through_divs lc (ds ! j) s" by blast
    then show ?R
    proof cases
      case 1
      then show ?thesis by (intro exI [of _ "[]"]) simp
    next
      case 2
      then show ?thesis by (intro exI [of _ "s @ [j]"]) (simp add: through_divs_Elem)
    qed
  next
    assume ?R
    then obtain s where s: "q = s @ p" "through_divs lc (Elem e ds) s" by blast
    then show ?L by (cases s rule: rev_cases) (auto simp: through_divs_Elem)
  qed
  finally show ?case .
next
  case (4 lc p i d ds)
  have "q \<in> set (visit_list lc p i (d # ds)) \<longleftrightarrow>
      (\<exists>s. q = s @ i # p \<and> through_divs lc d s) \<or>
      (\<exists>s j. q = s @ (Suc i + j) # p \<and> j < length ds \<and> through_divs lc (ds ! j) s)" using 4 by simp
  also have "\<dots> \<longleftrightarrow> (\<exists>s j. q = s @ (i + j) # p \<and> j < length (d # ds) \<and> through_divs lc ((d # ds) ! j) s)" (is "?L \<longleftrightarrow> ?R")
  proof
    assume ?L
    then consider s where "q = s @ i # p" "through_divs lc d s"
      | s j where "q = s @ (Suc i + j) # p" "j < length ds" "through_divs lc (ds ! j) s" by blast
    then show ?R
    proof cases
      case 1
      then show ?thesis by (intro exI [of _ s] exI [of _ 0]) simp
    next
      case 2
      then show ?thesis by (intro exI [of _ s] exI [of _ "Suc j"]) simp
    qed
  next
    assume ?R
    then obtain s j where "q = s @ (i + j) # p" "j < length (d # ds)" "through_divs lc ((d # ds) ! j) s" by blast
    then show ?L by (cases j) auto
  qed
  finally show ?case .
qed simp

lemma visit_sorted: "sorted_wrt before (visit lc p d)" "sorted_wrt before (visit_list lc p i ds)"
proof (induction lc p d and lc p i ds rule: visit_visit_list.induct)
  case (2 lc p e ds)
  then show ?case using before_child by (fastforce simp: set_visit(2))
next
  case (4 lc p i d ds)
  have "before x y" if "x \<in> set (visit lc (i # p) d)" "y \<in> set (visit_list lc p (Suc i) ds)" for x y
    using that before_siblings [of i] by (fastforce simp: set_visit)
  then show ?case using 4 by (simp add: sorted_wrt_append)
qed simp_all

lemma children_below_visit:
  assumes n: "node_at d r = Some n"
  shows "children_below lc d r q \<longleftrightarrow> q \<in> set (visit_list lc r 0 (children n)) \<and> is_children lc d q"
proof -
  have kind: "is_children lc d q \<longleftrightarrow> div_at lc d q \<and> (\<exists>e. elem_at d q = Some e \<and> className e = lit ''SRChildren'')"
    by (auto simp: is_children_def div_at_def has_class_def elem_at_def split: option.splits)
  have below: "node_at d (s @ j # r) = (if j < length (children n) then node_at (children n ! j) s else None)" for s j
  proof -
    have "node_at d (s @ [j] @ r) = node_at n (s @ [j])" unfolding append_assoc [symmetric] node_at_append [of d "s @ [j]" r] by (simp add: n)
    then show ?thesis by (cases n) (auto simp: node_at_append)
  qed
  then have div: "div_at lc d (s @ j # r) = (j < length (children n) \<and> div_at lc (children n ! j) s)" for s j
    by (simp add: div_at_def)
  have mid: "strict_suffix r p \<and> strict_suffix p (s @ j # r) \<longleftrightarrow> (\<exists>t. p = t @ j # r \<and> strict_suffix t s)" for p s j
  proof
    assume p: "strict_suffix r p \<and> strict_suffix p (s @ j # r)"
    then have "strict_suffix r p" "strict_suffix p (s @ j # r)" by simp_all
    then obtain u v where u: "p = u @ r" "u \<noteq> []" and v: "s @ j # r = v @ p" "v \<noteq> []" by (meson strict_suffix_split)
    then have "s @ [j] = v @ u" by (metis append_Cons append_Nil append_assoc append_same_eq)
    with u(2) obtain t where "u = t @ [j]" "s = v @ t" by (cases u rule: rev_cases) auto
    then show "\<exists>t. p = t @ j # r \<and> strict_suffix t s" using u(1) v(2) by (intro exI [of _ t]) (auto simp: strict_suffix_def suffix_def)
  qed (auto simp: strict_suffix_def suffix_def)
  have "children_below lc d r q \<longleftrightarrow> (\<exists>s j. q = s @ j # r \<and> (\<forall>t. strict_suffix t s \<longrightarrow> div_at lc d (t @ j # r))) \<and> is_children lc d q"
  proof (cases "strict_suffix r q")
    case True
    then obtain u where u: "q = u @ r" "u \<noteq> []" using strict_suffix_split by blast
    then obtain s j where q: "q = s @ j # r" by (cases u rule: rev_cases) auto
    have only: "q = s' @ j' # r \<longleftrightarrow> s' = s \<and> j' = j" for s' j'
      unfolding q using append_same_eq [of "s @ [j]" r "s' @ [j']"] by auto
    have "(\<forall>p. strict_suffix r p \<and> strict_suffix p q \<longrightarrow> div_at lc d p) \<longleftrightarrow> (\<forall>t. strict_suffix t s \<longrightarrow> div_at lc d (t @ j # r))"
      unfolding q mid by blast
    then show ?thesis using True by (simp add: children_below_def kind only conj_ac)
  next
    case False
    then have "q \<noteq> s @ j # r" for s j by (auto simp: strict_suffix_def suffix_def)
    then show ?thesis using False by (simp add: children_below_def)
  qed
  also have "\<dots> \<longleftrightarrow> q \<in> set (visit_list lc r 0 (children n)) \<and> is_children lc d q"
  proof -
    have "(\<forall>t. strict_suffix t s \<longrightarrow> div_at lc d (t @ j # r)) \<longleftrightarrow> j < length (children n) \<and> through_divs lc (children n ! j) s"
      if "is_children lc d (s @ j # r)" for s j
    proof -
      have "node_at d (s @ j # r) \<noteq> None" using that by (auto simp: is_children_def split: option.splits)
      then have "j < length (children n)" "node_at (children n ! j) s \<noteq> None" by (auto simp: below split: if_splits)
      then show ?thesis by (simp add: through_divs_def div)
    qed
    then show ?thesis unfolding set_visit(2) add_0 by blast
  qed
  finally show ?thesis .
qed

text \<open>The walk finds the first of them, or nothing when there is none.\<close>

lemma FindChildElement_first:
  assumes r: "getElementById d i = Some r"
  shows "FindChildElement lc d i = Some None \<and> (\<forall>q. \<not> children_below lc d r q) \<or>
    (\<exists>q. FindChildElement lc d i = Some (Some q) \<and> children_below lc d r q \<and>
       (\<forall>p. children_below lc d r p \<longrightarrow> p = q \<or> before q p))"
proof -
  obtain n where n: "node_at d r = Some n" using r by (auto dest!: getElementById_SomeD simp: elem_at_def split: bind_splits)
  let ?xs = "visit_list lc r 0 (children n)"
  note spec = FindChildElement_spec [OF r n, of lc] and below = children_below_visit [OF n, of lc]
  show ?thesis
  proof (cases "List.find (is_children lc d) ?xs")
    case None
    then show ?thesis using spec below by (auto simp: find_None_iff)
  next
    case (Some q)
    then obtain k where k: "k < length ?xs" "?xs ! k = q" "is_children lc d q" "\<forall>l<k. \<not> is_children lc d (?xs ! l)"
      by (auto simp: find_Some_iff)
    have "p = q \<or> before q p" if p: "children_below lc d r p" for p
    proof -
      from p obtain j where j: "j < length ?xs" "?xs ! j = p" "is_children lc d p" by (auto simp: below in_set_conv_nth)
      then have "k \<le> j" using k(4) by (meson not_le)
      then show ?thesis using j k sorted_wrt_nth_less [OF visit_sorted(2), of k j lc r 0 "children n"] by (cases "k = j") auto
    qed
    then show ?thesis using Some spec below k by auto
  qed
qed

lemma FindChildElement_total:
  "getElementById d i \<noteq> None \<Longrightarrow> \<exists>f. FindChildElement lc d i = Some f"
proof -
  assume "getElementById d i \<noteq> None"
  then obtain r where r: "getElementById d i = Some r" by blast
  then have "node_at d r \<noteq> None" by (auto dest!: getElementById_SomeD simp: elem_at_def split: bind_splits)
  then show ?thesis using FindChildElement_spec [OF r] by blast
qed

lemma FindChildElement_elem:
  assumes "FindChildElement lc d i = Some (Some q)"
  shows "\<exists>e. elem_at d q = Some e \<and> className e = lit ''SRChildren''"
proof -
  obtain r where r: "getElementById d i = Some r"
    using assms by (auto simp: FindChildElement_def split: bind_splits)
  then obtain n where n: "node_at d r = Some n"
    by (auto dest!: getElementById_SomeD simp: elem_at_def split: bind_splits)
  have "is_children lc d q"
    using assms FindChildElement_spec [OF r n, of lc] by (auto simp: find_Some_iff)
  then show ?thesis
    by (auto simp: is_children_def has_class_def elem_at_def split: option.splits)
qed

section \<open>Walking over the items\<close>

definition item_hidden :: "dom \<Rightarrow> int \<Rightarrow> bool" where
  "item_hidden d i \<longleftrightarrow>
     (case getElementById d (item_name i) \<bind> row_of d of
        None \<Rightarrow> False
      | Some (r, row) \<Rightarrow> display row \<noteq> lit ''block'')"

definition item_shown :: "dom \<Rightarrow> int \<Rightarrow> bool" where
  "item_shown d i \<longleftrightarrow>
     (case getElementById d (item_name i) \<bind> row_of d of
        None \<Rightarrow> False
      | Some (r, row) \<Rightarrow> display row = lit ''block'')"

text \<open>Every item lies in a row, and the row has an id.\<close>

definition items_ok :: "dom \<Rightarrow> bool" where
  "items_ok d \<longleftrightarrow>
     (\<forall>i p. getElementById d (item_name i) = Some p \<longrightarrow>
        (\<exists>r row. row_of d p = Some (r, row) \<and> elem_id row \<noteq> []))"

lemma item_name_eq_iff [simp]: "item_name i = item_name j \<longleftrightarrow> i = j"
  by (simp add: item_name_def)

lemma child_name_eq_iff [simp]: "child_name i m = child_name i n \<longleftrightarrow> m = n"
  by (simp add: child_name_def)

text \<open>A document has finitely many elements, so a family of distinct ids ends.\<close>

lemma finite_ids:
  assumes "inj f"
  shows "finite {i :: int. getElementById d (f i) \<noteq> None}"
proof -
  let ?S = "{i. getElementById d (f i) \<noteq> None}" and ?g = "\<lambda>i. the (getElementById d (f i))"
  have "inj_on ?g ?S"
  proof (rule inj_onI)
    fix i j assume "i \<in> ?S" "j \<in> ?S" "?g i = ?g j"
    then obtain p where "getElementById d (f i) = Some p" "getElementById d (f j) = Some p" by auto
    then have "f i = f j" by (auto dest!: getElementById_SomeD)
    then show "i = j" using assms by (simp add: inj_def)
  qed
  moreover have "?g ` ?S \<subseteq> set (preorder [] d)"
  proof (rule image_subsetI)
    fix i assume "i \<in> ?S"
    then obtain p where p: "getElementById d (f i) = Some p" by auto
    then have "node_at d p \<noteq> None"
      by (auto simp: elem_at_def split: bind_splits dest!: getElementById_SomeD)
    then show "?g i \<in> set (preorder [] d)" using p by (simp add: set_preorder)
  qed
  ultimately show ?thesis by (meson List.finite_set finite_imageD finite_subset)
qed

lemma ids_end:
  assumes "inj f" "c \<noteq> 0"
  shows "\<exists>n. getElementById d (f (i + c * int n)) = None"
proof (rule ccontr)
  assume "\<nexists>n. getElementById d (f (i + c * int n)) = None"
  then have "range (\<lambda>n. i + c * int n) \<subseteq> {i. getElementById d (f i) \<noteq> None}" by auto
  then have "finite (range (\<lambda>n. i + c * int n))" using finite_ids [OF assms(1)] by (rule finite_subset)
  moreover have "inj (\<lambda>n. i + c * int n)" using assms(2) by (auto simp: inj_def)
  ultimately show False using finite_imageD by fastforce
qed

locale item_walk =
  fixes walk :: "dom \<Rightarrow> int \<Rightarrow> path option option"
    and step :: int
  assumes step: "step \<noteq> 0"
    and walk_eq: "walk d i =
      (case getElementById d (item_name i) of
         None \<Rightarrow> Some None
       | Some p \<Rightarrow>
           (case row_of d p of
              None \<Rightarrow> None
            | Some (r, row) \<Rightarrow> if display row = lit ''block'' then Some (Some p) else walk d (i + step)))"
begin

lemma walk_hidden: "item_hidden d i \<Longrightarrow> walk d i = walk d (i + step)"
  by (auto simp: walk_eq [of d i] item_hidden_def split: option.splits bind_splits)

lemma walk_skip: "\<forall>k < n. item_hidden d (i + step * int k) \<Longrightarrow> walk d i = walk d (i + step * int n)"
proof (induction n)
  case (Suc n)
  then have "walk d i = walk d (i + step * int n)" by simp
  also have "\<dots> = walk d (i + step * int (Suc n))"
    using walk_hidden [of d "i + step * int n"] Suc.prems by (simp add: algebra_simps)
  finally show ?case .
qed simp

lemma walk_finds:
  assumes "items_ok d"
  obtains n where "\<forall>k < n. item_hidden d (i + step * int k)" "\<not> item_hidden d (i + step * int n)"
    "walk d i = Some (getElementById d (item_name (i + step * int n)))"
    "getElementById d (item_name (i + step * int n)) = None \<or> item_shown d (i + step * int n)"
proof -
  have "inj item_name" by (simp add: inj_def)
  from ids_end [OF this step] obtain m where "getElementById d (item_name (i + step * int m)) = None" by blast
  then have m: "\<not> item_hidden d (i + step * int m)" by (simp add: item_hidden_def)
  define n where "n = (LEAST n. \<not> item_hidden d (i + step * int n))"
  have stop: "\<not> item_hidden d (i + step * int n)" unfolding n_def by (rule LeastI) (rule m)
  have before: "\<forall>k < n. item_hidden d (i + step * int k)" unfolding n_def using not_less_Least by blast
  let ?j = "i + step * int n"
  have "walk d ?j = Some (getElementById d (item_name ?j)) \<and>
      (getElementById d (item_name ?j) = None \<or> item_shown d ?j)"
  proof (cases "getElementById d (item_name ?j)")
    case (Some p)
    with assms obtain r row where "row_of d p = Some (r, row)" unfolding items_ok_def by blast
    then show ?thesis using Some stop by (simp add: walk_eq [of d ?j] item_hidden_def item_shown_def)
  qed (simp add: walk_eq [of d ?j])
  then show ?thesis using that before stop walk_skip [OF before] by auto
qed

lemma walk_total: "items_ok d \<Longrightarrow> \<exists>f. walk d i = Some f"
  by (erule walk_finds [where i = i]) blast

end

interpretation nx: item_walk NavNext 1
  by unfold_locales (simp_all add: NavNext.simps)

interpretation pv: item_walk NavPrev "- 1"
proof unfold_locales
  show "NavPrev d i =
      (case getElementById d (item_name i) of
         None \<Rightarrow> Some None
       | Some p \<Rightarrow>
           (case row_of d p of
              None \<Rightarrow> None
            | Some (r, row) \<Rightarrow> if display row = lit ''block'' then Some (Some p) else NavPrev d (i + - 1)))" for d i
    by (simp only: NavPrev.simps [of d i] add_uminus_conv_diff)
qed simp

text \<open>The last child of an item.\<close>

lemma last_child_ends:
  obtains n where "\<forall>k < n. getElementById d (child_name i (m + int k)) \<noteq> None"
    "getElementById d (child_name i (m + int n)) = None"
    "last_child d i m f = Some (if n = 0 then f else the (getElementById d (child_name i (m + int n - 1))))"
proof -
  have "inj (child_name i)" by (simp add: inj_def)
  from ids_end [OF this, of 1 d m] obtain n0 where "getElementById d (child_name i (m + int n0)) = None" by auto
  then have "\<exists>n. (\<forall>k < n. getElementById d (child_name i (m + int k)) \<noteq> None) \<and>
      getElementById d (child_name i (m + int n)) = None \<and>
      last_child d i m f = Some (if n = 0 then f else the (getElementById d (child_name i (m + int n - 1))))"
  proof (induction n0 arbitrary: m f)
    case 0
    then show ?case by (intro exI [of _ 0]) (simp add: last_child.simps)
  next
    case (Suc n0)
    show ?case
    proof (cases "getElementById d (child_name i m)")
      case None
      then show ?thesis by (intro exI [of _ 0]) (simp add: last_child.simps)
    next
      case (Some t)
      from Suc.prems have "getElementById d (child_name i (m + 1 + int n0)) = None" by (simp add: algebra_simps)
      from Suc.IH [OF this, of t] obtain n where n: "\<forall>k < n. getElementById d (child_name i (m + 1 + int k)) \<noteq> None"
        "getElementById d (child_name i (m + 1 + int n)) = None"
        "last_child d i (m + 1) t = Some (if n = 0 then t else the (getElementById d (child_name i (m + 1 + int n - 1))))"
        by blast
      have "\<forall>k < Suc n. getElementById d (child_name i (m + int k)) \<noteq> None"
        using n(1) Some by (auto simp: less_Suc_eq_0_disj algebra_simps)
      then show ?thesis
        using n Some by (intro exI [of _ "Suc n"]) (simp add: last_child.simps [of d i m] algebra_simps)
    qed
  qed
  then show ?thesis using that by blast
qed

section \<open>Toggle\<close>

lemma Toggle_spec:
  assumes "getElementById d i \<noteq> None"
  obtains "FindChildElement lc d i = Some None" "Toggle lc d i = Some d"
  | q e where "FindChildElement lc d i = Some (Some q)" "elem_at d q = Some e" "className e = lit ''SRChildren''"
      "Toggle lc d i =
         Some (upd_elem q (set_style ''display'' (lit (if display e = lit ''block'' then ''none'' else ''block''))) d)"
proof -
  obtain f where f: "FindChildElement lc d i = Some f" using FindChildElement_total [OF assms] by blast
  show ?thesis
  proof (cases f)
    case None
    then show ?thesis using f by (intro that(1)) (simp_all add: Toggle_def)
  next
    case (Some q)
    then obtain e where "elem_at d q = Some e" "className e = lit ''SRChildren''"
      using FindChildElement_elem f by blast
    then show ?thesis using f Some by (intro that(2) [of q e]) (simp_all add: Toggle_def)
  qed
qed

text \<open>A change of style is not seen by the walk.\<close>

lemma elem_of_upd_style:
  "elem_of (map_elems (\<lambda>q e. if q = p then set_style k v e else e) r n) =
   map_option (\<lambda>e. if r = p then set_style k v e else e) (elem_of n)"
  by (cases n) simp_all

lemma is_div_Elem: "is_div lc (Elem e ds) \<longleftrightarrow> toLowerCase lc (map ascii_upper (lit (tag e))) = lit ''div''"
  by (simp add: is_div_def)

lemma is_div_upd_style [simp]: "is_div lc (map_elems (\<lambda>q e. if q = p then set_style k v e else e) r n) = is_div lc n"
  by (cases n) (simp_all add: is_div_Elem)

lemma has_class_upd_style [simp]:
  "has_class c (map_elems (\<lambda>q e. if q = p then set_style k v e else e) r n) = has_class c n"
  by (cases n) (simp_all add: has_class_def)

lemma visit_upd_style [simp]:
  "visit lc r (map_elems (\<lambda>q e. if q = p then set_style k v e else e) r n) = visit lc r n"
  "visit_list lc r i (map_elems_list (\<lambda>q e. if q = p then set_style k v e else e) r i ns) = visit_list lc r i ns"
proof (induction r n and r i ns rule: preorder_preorder_list.induct)
  case (2 r e ds)
  then show ?case by (cases "r = p") (simp_all add: is_div_Elem)
qed simp_all

lemma is_children_upd_style: "is_children lc (upd_elem p (set_style k v) d) = is_children lc d"
  by (auto simp: is_children_def upd_elem_def dom_simps fun_eq_iff split: option.splits)

lemma FindChildElement_upd_style:
  "FindChildElement lc (upd_elem p (set_style k v) d) i = FindChildElement lc d i"
proof (cases "getElementById d i")
  case None
  then show ?thesis by (simp add: FindChildElement_def dom_simps)
next
  case (Some r)
  then obtain n where n: "node_at d r = Some n"
    by (auto dest!: getElementById_SomeD simp: elem_at_def split: bind_splits)
  let ?g = "\<lambda>q e. if q = p then set_style k v e else e"
  have get: "getElementById (upd_elem p (set_style k v) d) i = Some r" using Some by (simp add: dom_simps)
  have at: "node_at (upd_elem p (set_style k v) d) r = Some (map_elems ?g r n)"
    by (simp add: upd_elem_def dom_simps n)
  show ?thesis
    using FindChildElement_spec [OF get at, of lc] FindChildElement_spec [OF Some n, of lc]
    by (simp add: is_children_upd_style)
qed

section \<open>The key handlers return\<close>

lemma row_found:
  assumes "elem_at d r = Some row" "elem_id row \<noteq> []"
  shows "getElementById d (elem_id row) \<noteq> None"
  using assms by (auto simp: getElementById_None_iff elem_id_def split: option.splits)

lemma items_ok_same_ids:
  assumes "same_ids pg pg'" "items_ok (document pg)"
  shows "items_ok (document pg')"
  unfolding items_ok_def
proof (intro allI impI)
  fix i p assume "getElementById (document pg') (item_name i) = Some p"
  then have "getElementById (document pg) (item_name i) = Some p" using assms(1) by (simp add: same_ids_def)
  then obtain r row where "row_of (document pg) p = Some (r, row)" "elem_id row \<noteq> []"
    using assms(2) unfolding items_ok_def by blast
  then have q: "parentNode p \<bind> parentNode = Some r" "elem_at (document pg) r = Some row"
    by (auto simp: row_of_def split: bind_splits)
  then obtain row' where "elem_at (document pg') r = Some row'" "elem_id row' = elem_id row"
    using same_ids_elem [OF assms(1)] by blast
  then show "\<exists>r row. row_of (document pg') p = Some (r, row) \<and> elem_id row \<noteq> []"
    using q(1) \<open>elem_id row \<noteq> []\<close> by (auto simp: row_of_def split: bind_splits)
qed

lemma row_children_total:
  assumes "row_of d p = Some (r, row)" "elem_id row \<noteq> []"
  obtains "FindChildElement lc d (elem_id row) = Some None"
  | q e where "FindChildElement lc d (elem_id row) = Some (Some q)" "elem_at d q = Some e"
proof -
  have "elem_at d r = Some row" using assms(1) by (auto simp: row_of_def split: bind_splits)
  from FindChildElement_total [OF row_found [OF this assms(2)], of lc]
  obtain f where "FindChildElement lc d (elem_id row) = Some f" by blast
  then show ?thesis using that FindChildElement_elem by (cases f) blast+
qed

lemma item_children_total:
  assumes "items_ok d" "getElementById d (item_name i) \<noteq> None"
  obtains "item_children lc d i = Some None"
  | q e where "item_children lc d i = Some (Some q)" "elem_at d q = Some e"
proof -
  obtain p where p: "getElementById d (item_name i) = Some p" using assms(2) by blast
  then obtain r row where r: "row_of d p = Some (r, row)" "elem_id row \<noteq> []"
    using assms(1) unfolding items_ok_def by blast
  show ?thesis
    by (rule row_children_total [OF r, of lc]) (use that p r in \<open>auto simp: item_children_def\<close>)
qed

text \<open>What every handler keeps.\<close>

definition nav_keeps :: "page \<Rightarrow> page option \<Rightarrow> bool" where
  "nav_keeps pg res \<longleftrightarrow> (\<exists>pg'. res = Some pg' \<and> ui_only pg pg')"

lemma focus_on_safe [inv_intros]: "page_ok pg \<Longrightarrow> nav_keeps pg (focus_on p pg)"
  by (auto simp: nav_keeps_def elim: focus_on_spec [of pg p])

lemma focus_field_safe [inv_intros]: "page_ok pg \<Longrightarrow> nav_keeps pg (focus_field pg)"
  using page_okD [of pg "''MSearchField''"] focus_on_safe
  by (auto simp: focus_field_def box_ids_def nav_keeps_def)

lemma escape_results_safe [inv_intros]:
  assumes "page_ok pg"
  shows "nav_keeps pg (escape_results pg)"
proof -
  let ?pg = "pg\<lparr>stopped := True\<rparr>"
  have ok: "page_ok ?pg" and ui: "ui_only pg ?pg"
    using assms by (simp_all add: page_ok_def ui_only_def same_ids_def)
  obtain pg1 where 1: "CloseResultsWindow ?pg = Some pg1" "ui_only ?pg pg1"
    by (rule CloseResultsWindow_spec [OF ok])
  with focus_field_safe [OF ui_only_ok [OF 1(2) ok]] obtain pg2
    where "focus_field pg1 = Some pg2" "ui_only pg1 pg2" by (auto simp: nav_keeps_def)
  then show ?thesis using 1 ui by (auto simp: escape_results_def nav_keeps_def intro: ui_only_trans)
qed

lemma nav_up_keeps [inv_intros]:
  assumes ok: "page_ok pg" "items_ok (document pg)"
  shows "nav_keeps pg (nav_up lc i pg)"
proof -
  obtain f where f: "NavPrev (document pg) (i - 1) = Some f" using pv.walk_total ok(2) by blast
  show ?thesis
  proof (cases f)
    case None
    then show ?thesis using f focus_field_safe [OF ok(1)] by (simp add: nav_up_def)
  next
    case (Some p)
    from pv.walk_finds [OF ok(2), of "i - 1"] f Some obtain j where "getElementById (document pg) (item_name j) = Some p"
      by (metis option.inject)
    then obtain r row where r: "row_of (document pg) p = Some (r, row)" "elem_id row \<noteq> []"
      using ok(2) unfolding items_ok_def by blast
    show ?thesis
    proof (rule row_children_total [OF r, of lc])
      fix q e
      assume q: "FindChildElement lc (document pg) (elem_id row) = Some (Some q)" "elem_at (document pg) q = Some e"
      obtain t where "last_child (document pg) (i - 1) 0 p = Some t"
        by (rule last_child_ends [of "document pg" "i - 1" 0 p]) blast
      then show ?thesis
        using f Some r q focus_on_safe [OF ok(1)] by (simp add: nav_up_def)
    qed (use f Some r focus_on_safe [OF ok(1)] in \<open>simp add: nav_up_def\<close>)
  qed
qed

lemma nav_down_keeps [inv_intros]:
  assumes ok: "page_ok pg" "items_ok (document pg)" and item: "getElementById (document pg) (item_name i) \<noteq> None"
  shows "nav_keeps pg (nav_down lc i pg)"
proof -
  obtain f where f: "NavNext (document pg) (i + 1) = Some f" using nx.walk_total ok(2) by blast
  show ?thesis
    by (rule item_children_total [OF ok(2) item, of lc])
       (use f focus_on_safe [OF ok(1)] in
         \<open>auto simp: nav_down_def nav_keeps_def Let_def split: option.splits\<close>)
qed

lemma nav_display_keeps [inv_intros]:
  assumes ok: "page_ok pg" "items_ok (document pg)" and item: "getElementById (document pg) (item_name i) \<noteq> None"
  shows "nav_keeps pg (nav_display lc v i pg)"
  by (rule item_children_total [OF ok(2) item, of lc])
     (auto simp: nav_display_def nav_keeps_def ui_only_set_elem)

lemma nav_keeps_results:
  assumes "nav_keeps (pg\<lparr>searchResults := s\<rparr>) res"
  shows "\<exists>pg'. res = Some pg' \<and> same_ids pg pg' \<and> searchResults pg' = s"
  using assms by (auto simp: nav_keeps_def ui_only_def same_ids_def)

text \<open>Every key on a result is handled without an error, and the page keeps its elements.\<close>

lemma Nav_returns:
  assumes ok: "page_ok pg" "items_ok (document pg)" and item: "getElementById (document pg) (item_name i) \<noteq> None"
  shows "\<exists>pg' b. Nav lc e i pg = Some (pg', b) \<and> same_ids pg pg'"
proof (cases "keyCode e = 13")
  case False
  define s where "s = fst (ProcessKeys e (searchResults pg))"
  let ?pg = "pg\<lparr>searchResults := s\<rparr>"
  have ok': "page_ok ?pg" "items_ok (document ?pg)" "getElementById (document ?pg) (item_name i) \<noteq> None"
    using ok item by (simp_all add: page_ok_def)
  have same: "same_ids pg ?pg" by (simp add: same_ids_def)
  have keeps: "\<exists>pg'. res = Some pg' \<and> same_ids pg pg'" if "nav_keeps ?pg res" for res
    using nav_keeps_results [OF that] by blast
  have "\<exists>pg'. nav_up lc i ?pg = Some pg' \<and> same_ids pg pg'" "\<exists>pg'. nav_down lc i ?pg = Some pg' \<and> same_ids pg pg'"
    "\<exists>pg'. nav_display lc v i ?pg = Some pg' \<and> same_ids pg pg'" "\<exists>pg'. escape_results ?pg = Some pg' \<and> same_ids pg pg'" for v
    by (rule keeps, intro inv_intros ok')+
  then show ?thesis using False same
    by (simp add: Nav_def Let_def split_beta flip: s_def) (metis bind.bind_lunit option.distinct(1))
qed (auto simp: Nav_def)

end
