(* ===== verification/Dom_Edit.thy ===== *)
theory Dom_Edit
  imports Dom
begin

text \<open>
  Edits of a document by paths, as jQuery does them for the scripts: selecting elements in document
  order, replacing a node, inserting one after another. A node keeps its identity in the script while
  its path changes: \<open>moved\<close> says where a node is after an insertion.
\<close>

section \<open>Selection and insertion\<close>

definition select :: "(elem \<Rightarrow> bool) \<Rightarrow> dom \<Rightarrow> path list" where
  "select P d = List.filter (\<lambda>p. case elem_at d p of None \<Rightarrow> False | Some e \<Rightarrow> P e) (preorder [] d)"

text \<open>\<open>$(p).find(...)\<close>: the selected elements below \<open>p\<close>.\<close>

definition select_below :: "path \<Rightarrow> (elem \<Rightarrow> bool) \<Rightarrow> dom \<Rightarrow> path list" where
  "select_below p P d = List.filter (strict_suffix p) (select P d)"

text \<open>\<open>$(p).children().first()\<close>: the first child that is an element.\<close>

definition first_child :: "dom \<Rightarrow> path \<Rightarrow> path option" where
  "first_child d p =
     (case node_at d p of
        None \<Rightarrow> None
      | Some n \<Rightarrow> List.find (\<lambda>q. elem_at d q \<noteq> None) (map (\<lambda>i. i # p) [0..<length (children n)]))"

text \<open>\<open>$(p).after(n)\<close>; the root has no parent to insert into.\<close>

fun insert_after :: "path \<Rightarrow> dom \<Rightarrow> dom \<Rightarrow> dom" where
  "insert_after [] n d = d"
| "insert_after (i # p) n d = upd_node p (set_children (\<lambda>ds. take (Suc i) ds @ n # drop (Suc i) ds)) d"

primrec moved :: "nat \<Rightarrow> path \<Rightarrow> path \<Rightarrow> path" where
  "moved i p [] = []"
| "moved i p (j # q) = (if q = p \<and> i < j then Suc j # q else j # moved i p q)"

definition moved_after :: "path \<Rightarrow> path \<Rightarrow> path" where
  "moved_after p q = (case p of [] \<Rightarrow> q | i # p \<Rightarrow> moved i p q)"

section \<open>Updates of children\<close>

lemma node_at_upd_node: "node_at (upd_node p f d) p = map_option f (node_at d p)"
proof (induction p arbitrary: f)
  case (Cons i p)
  have "children (upd_child i f n) = (if i < length (children n) then (children n)[i := f (children n ! i)] else children n)"
    for n by (cases n) simp_all
  then show ?case using Cons by (auto split: option.splits)
qed simp

lemma node_at_upd_node_below:
  "node_at (upd_node p f d) (s @ p) = map_option f (node_at d p) \<bind> (\<lambda>n. node_at n s)"
  by (simp add: node_at_append node_at_upd_node)

lemma node_at_upd_child:
  "node_at (upd_child i f n) (t @ [j]) = (if j = i then node_at n [j] \<bind> (\<lambda>m. node_at (f m) t) else node_at n (t @ [j]))"
  by (cases n) (auto simp: node_at_append)

lemma elem_at_upd_node_other:
  assumes "\<And>n. elem_of (f n) = elem_of n" "\<not> strict_suffix p q"
  shows "elem_at (upd_node p f d) q = elem_at d q"
  using assms
proof (induction p arbitrary: f)
  case Nil
  then have "q = []" by (auto simp: strict_suffix_def)
  then show ?case using Nil by simp
next
  case (Cons i p)
  have keep: "elem_of (upd_child i f n) = elem_of n" for n by (cases n) simp_all
  show ?case
  proof (cases "strict_suffix p q")
    case False
    then show ?thesis using Cons.IH [OF keep] by simp
  next
    case True
    then obtain s where s: "q = s @ p" "s \<noteq> []" by (auto simp: strict_suffix_def suffix_def)
    then obtain t j where t: "q = (t @ [j]) @ p" by (cases s rule: rev_cases) auto
    have "j \<noteq> i \<or> t = []" using Cons.prems(2) t by (auto simp: strict_suffix_def suffix_def)
    then have child: "node_at (upd_child i f n) (t @ [j]) \<bind> elem_of = node_at n (t @ [j]) \<bind> elem_of" for n
      using Cons.prems(1) by (auto simp: node_at_upd_child simp del: node_at.simps(2) split: bind_splits)
    show ?thesis
      unfolding elem_at_def t upd_node.simps node_at_upd_node_below node_at_append [of d "t @ [j]" p]
      using child by (cases "node_at d p") simp_all
  qed
qed

lemma upd_node_upd_node: "upd_node p f (upd_node p g d) = upd_node p (f \<circ> g) d"
proof (induction p arbitrary: f g)
  case (Cons i p)
  have "upd_child i f \<circ> upd_child i g = upd_child i (f \<circ> g)"
  proof
    fix n show "(upd_child i f \<circ> upd_child i g) n = upd_child i (f \<circ> g) n" by (cases n) simp_all
  qed
  then show ?case using Cons [of "upd_child i f" "upd_child i g"] by (simp only: upd_node.simps)
qed simp

section \<open>Where a node goes\<close>

lemma moved_below: "moved i p (s @ j # p) = s @ (if i < j then Suc j else j) # p"
proof (induction s)
  case Nil
  have "length q \<le> length p \<Longrightarrow> moved i p q = q" for q by (induction q) auto
  then show ?case by simp
qed auto

lemma moved_other: "\<not> strict_suffix p q \<Longrightarrow> moved i p q = q"
proof (induction q)
  case (Cons j q)
  then have "\<not> strict_suffix p q" "q \<noteq> p" by (auto simp: strict_suffix_def suffix_Cons dest: suffix_length_le)
  then show ?case using Cons.IH by simp
qed simp

lemma strict_suffixE:
  assumes "strict_suffix p q"
  obtains s j where "q = s @ j # p"
proof -
  from assms obtain u where u: "q = u @ p" "u \<noteq> []" by (auto simp: strict_suffix_def suffix_def)
  then show ?thesis using that [of "butlast u" "last u"] by simp
qed

lemma moved_cases:
  obtains (below) s j where "q = s @ j # p" "moved i p q = s @ (if i < j then Suc j else j) # p"
    | (other) "\<not> strict_suffix p q" "moved i p q = q"
  using moved_below [of i p] moved_other [of p q i] strict_suffixE [of p q] by (cases "strict_suffix p q") metis+

lemma moved_Cons: "q \<noteq> p \<or> j \<le> i \<Longrightarrow> moved i p (j # q) = j # moved i p q"
  by auto

lemma moved_short: "length q \<le> Suc (length p) \<Longrightarrow> length q \<noteq> Suc (length p) \<or> q = i # p \<Longrightarrow> moved i p q = q"
  by (cases rule: moved_cases [of q p i]) auto

lemma moved_self [simp]: "moved i p (i # p) = i # p" "moved i p p = p"
  by (simp_all add: moved_short)

lemma length_moved [simp]: "length (moved i p q) = length q"
  by (induction q) auto

lemma moved_eq_Nil [simp]: "moved i p q = [] \<longleftrightarrow> q = []"
  by (metis length_moved length_0_conv)

text \<open>No node goes to the place of the new one, and an inner node stays above what it was above.\<close>

lemma moved_not_new: "\<not> suffix (Suc i # p) (moved i p q)"
proof
  assume s: "suffix (Suc i # p) (moved i p q)"
  show False
  proof (cases rule: moved_cases [of q p i])
    case (below s j)
    then obtain u where "s @ (if i < j then Suc j else j) # p = u @ Suc i # p" using s by (auto simp: suffix_def)
    moreover from this have "length s = length u" by (metis add_right_cancel length_Cons length_append)
    ultimately show False by (auto split: if_splits)
  next
    case other
    then show False using s by (auto simp: strict_suffix_def dest: suffix_ConsD suffix_length_le)
  qed
qed

lemma moved_inj: "moved i p q = moved i p r \<longleftrightarrow> q = r"
proof (induction q arbitrary: r)
  case Nil
  then show ?case by (metis moved_eq_Nil)
next
  case (Cons j q)
  show ?case
  proof (cases r)
    case Nil
    then show ?thesis by auto
  next
    case r: (Cons k r')
    have "moved i p p = p" by simp
    then show ?thesis using Cons.IH [of r'] Cons.IH [of p] r by (auto split: if_splits)
  qed
qed

lemma moved_suffix: "suffix (moved i p q) (moved i p r) \<longleftrightarrow> suffix q r"
proof (induction r)
  case Nil
  then show ?case by simp
next
  case (Cons k r)
  have "moved i p (k # r) = (if r = p \<and> i < k then Suc k else k) # moved i p r"
    by simp
  then show ?case using Cons.IH moved_inj [of i p q "k # r"] by (simp only: suffix_Cons)
qed

section \<open>Reading an edited document\<close>

lemma elem_at_node: "elem_at d (s @ p) = node_at d p \<bind> (\<lambda>n. elem_at n s)"
  by (cases "node_at d p") (simp_all add: elem_at_def node_at_append)

lemma elem_at_upd_node_away:
  assumes "\<not> suffix p q"
  shows "elem_at (upd_node p f d) q = elem_at d q"
proof (cases p)
  case Nil
  then show ?thesis using assms by simp
next
  case (Cons i p')
  have keep: "elem_of (upd_child i f n) = elem_of n" for n by (cases n) simp_all
  show ?thesis
  proof (cases "strict_suffix p' q")
    case False
    then show ?thesis using Cons elem_at_upd_node_other [OF keep] by simp
  next
    case True
    then obtain s j where q: "q = (s @ [j]) @ p'" by (auto elim: strict_suffixE)
    moreover have "j \<noteq> i" using assms Cons q by (auto simp: suffix_def)
    ultimately have "elem_at (upd_child i f m) (s @ [j]) = elem_at m (s @ [j])" for m
      by (simp only: elem_at_def node_at_upd_child if_False)
    then show ?thesis
      unfolding Cons upd_node.simps q elem_at_node by (cases "node_at d p'") (simp_all add: node_at_upd_node)
  qed
qed

lemma elem_at_replaced:
  assumes "node_at d r \<noteq> None"
  shows "elem_at (upd_node r (\<lambda>_. Elem b []) d) q = (if q = r then Some b else if strict_suffix r q then None else elem_at d q)"
proof (cases "suffix r q")
  case True
  then obtain s where q: "q = s @ r" by (auto simp: suffix_def)
  have "elem_at (Elem b []) s = (if s = [] then Some b else None)"
    by (cases s rule: rev_cases) (simp_all add: elem_at_snoc)
  then show ?thesis using assms unfolding q elem_at_node by (auto simp: node_at_upd_node strict_suffix_def suffix_def)
next
  case False
  then show ?thesis by (auto simp: elem_at_upd_node_away strict_suffix_def)
qed

lemma elem_at_appended:
  assumes "node_at d p = Some (Elem e ds)"
  shows "elem_at (appendChild p n d) (s @ length ds # p) = elem_at n s"
    and "(\<And>s. q \<noteq> s @ length ds # p) \<Longrightarrow> elem_at (appendChild p n d) q = elem_at d q"
proof -
  have below: "elem_at (appendChild p n d) (s @ j # p) =
      (if j = length ds then elem_at n s else if j < length ds then elem_at (ds ! j) s else None)" for s j
    using elem_at_node [of _ "s @ [j]" p] by (simp add: appendChild_def node_at_upd_node assms elem_at_snoc nth_append)
  show "elem_at (appendChild p n d) (s @ length ds # p) = elem_at n s" using below by simp
  show "elem_at (appendChild p n d) q = elem_at d q" if away: "\<And>s. q \<noteq> s @ length ds # p"
  proof (cases "strict_suffix p q")
    case True
    then obtain s j where q: "q = s @ j # p" by (rule strict_suffixE)
    then have "elem_at d q = (if j < length ds then elem_at (ds ! j) s else None)"
      using elem_at_node [of d "s @ [j]" p] by (simp add: assms elem_at_snoc)
    then show ?thesis using below [of s j] q away by auto
  next
    case False
    have "elem_of (set_children f m) = elem_of m" for f m by (cases m) simp_all
    then show ?thesis unfolding appendChild_def by (rule elem_at_upd_node_other) (rule False)
  qed
qed

lemma node_at_parent: "node_at d (i # p) \<noteq> None \<Longrightarrow> \<exists>e ds. node_at d p = Some (Elem e ds) \<and> i < length ds"
proof -
  assume "node_at d (i # p) \<noteq> None"
  then obtain n where "node_at d p = Some n" "i < length (children n)" by (auto split: option.splits if_splits)
  then show ?thesis by (cases n) auto
qed

lemma elem_at_insert_below:
  assumes "node_at d p = Some (Elem e ds)" "i < length ds"
  shows "elem_at (insert_after (i # p) n d) (s @ j # p) =
    (if j = Suc i then elem_at n s else elem_at d (s @ (if Suc i < j then j - 1 else j) # p))"
proof -
  have old: "elem_at d (s @ k # p) = (if k < length ds then elem_at (ds ! k) s else None)" for k
    using elem_at_node [of d "s @ [k]" p] by (simp add: assms elem_at_snoc)
  have len: "length (take (Suc i) ds @ n # drop (Suc i) ds) = Suc (length ds)" using assms by simp
  have nth: "(take (Suc i) ds @ n # drop (Suc i) ds) ! j = (if j = Suc i then n else ds ! (if Suc i < j then j - 1 else j))"
    if "j < Suc (length ds)"
  proof (cases "Suc i < j")
    case True
    then obtain k where "j = Suc (Suc i + k)" using less_imp_Suc_add by blast
    then show ?thesis using that assms by (simp add: nth_append)
  qed (use assms in \<open>auto simp: nth_append\<close>)
  show ?thesis
    using elem_at_node [of "insert_after (i # p) n d" "s @ [j]" p] assms
    by (simp add: node_at_upd_node elem_at_snoc old) (use nth len in \<open>auto split: if_splits\<close>)
qed

lemma elem_at_insert_away:
  assumes "\<not> strict_suffix p q"
  shows "elem_at (insert_after (i # p) n d) q = elem_at d q"
proof -
  have "elem_of (set_children f m) = elem_of m" for f m by (cases m) simp_all
  then show ?thesis unfolding insert_after.simps by (rule elem_at_upd_node_other) (rule assms)
qed

lemma elem_at_insert_new:
  "node_at d (i # p) \<noteq> None \<Longrightarrow> elem_at (insert_after (i # p) n d) (s @ Suc i # p) = elem_at n s"
  using node_at_parent [of d i p] by (auto simp: elem_at_insert_below simp del: insert_after.simps)

lemma elem_at_insert_moved:
  assumes "node_at d (i # p) \<noteq> None"
  shows "elem_at (insert_after (i # p) n d) (moved i p q) = elem_at d q"
proof (cases rule: moved_cases [of q p i])
  case (below s j)
  then show ?thesis
    using node_at_parent [OF assms] by (auto simp: elem_at_insert_below simp del: insert_after.simps)
next
  case other
  then show ?thesis by (simp add: elem_at_insert_away del: insert_after.simps)
qed

lemma elem_at_insert_cases:
  assumes "node_at d (i # p) \<noteq> None" "elem_at (insert_after (i # p) n d) t = Some e"
  obtains (new) s where "t = s @ Suc i # p" "elem_at n s = Some e"
    | (old) q where "t = moved i p q" "elem_at d q = Some e"
proof (cases "strict_suffix p t")
  case False
  then show ?thesis using assms(2) old [of t] moved_other [OF False, of i] by (simp add: elem_at_insert_away del: insert_after.simps)
next
  case True
  then obtain s j where t: "t = s @ j # p" by (rule strict_suffixE)
  obtain e' ds where p: "node_at d p = Some (Elem e' ds)" "i < length ds" using node_at_parent [OF assms(1)] by blast
  note read = assms(2) [unfolded t elem_at_insert_below [OF p]]
  consider "j = Suc i" | "Suc i < j" | "j \<le> i" by linarith
  then show ?thesis
  proof cases
    case 1
    then show ?thesis using read t new by simp
  next
    case 2
    then have "t = moved i p (s @ (j - 1) # p)" unfolding moved_below using t by simp
    from this show ?thesis by (rule old) (use 2 read in simp)
  next
    case 3
    then have "t = moved i p (s @ j # p)" unfolding moved_below using t by simp
    from this show ?thesis by (rule old) (use 3 read in simp)
  qed
qed

lemma upd_node_cong: "node_at d p = Some m \<Longrightarrow> f m = g m \<Longrightarrow> upd_node p f d = upd_node p g d"
proof (induction p arbitrary: m f g)
  case (Cons i p)
  then obtain n where n: "node_at d p = Some n" "i < length (children n)" "m = children n ! i"
    by (auto split: option.splits if_splits)
  have "upd_child i f n = upd_child i g n" using Cons.prems(2) n(2,3) by (cases n) simp_all
  then show ?case unfolding upd_node.simps by (rule Cons.IH [OF n(1)])
qed simp

text \<open>Changing the node that was inserted is inserting the changed node.\<close>

lemma upd_node_inserted:
  assumes "node_at d (i # p) \<noteq> None"
  shows "upd_node (Suc i # p) f (insert_after (i # p) n d) = insert_after (i # p) (f n) d"
proof -
  obtain e ds where p: "node_at d p = Some (Elem e ds)" "i < length ds" using node_at_parent [OF assms] by blast
  have "min (length ds) (Suc i) = Suc i" "i < Suc (length ds - Suc 0)" using p(2) by simp_all
  then show ?thesis
    unfolding upd_node.simps insert_after.simps upd_node_upd_node
    by (intro upd_node_cong [OF p(1)]) (simp add: p(2) nth_append list_update_append)
qed

section \<open>What is selected\<close>

lemma set_select: "p \<in> set (select P d) \<longleftrightarrow> (\<exists>e. elem_at d p = Some e \<and> P e)"
  by (auto simp: select_def elem_at_preorder split: option.splits)

lemma distinct_select: "distinct (select P d)"
  by (simp add: select_def distinct_preorder)

lemma first_child_iff:
  "first_child d p = Some q \<longleftrightarrow>
   (\<exists>i. q = i # p \<and> elem_at d q \<noteq> None \<and> (\<forall>j < i. elem_at d (j # p) = None))"
proof -
  have len: "i < length (children n)" if "elem_at d (i # p) \<noteq> None" "node_at d p = Some n" for i n
    using that by (auto simp: elem_at_def split: if_splits)
  have none: "node_at d p \<noteq> None" if "elem_at d (i # p) \<noteq> None" for i
    using that by (auto simp: elem_at_def split: option.splits)
  show ?thesis
  proof (cases "node_at d p")
    case None
    then have "elem_at d (i # p) = None" for i using none by blast
    then show ?thesis using None by (auto simp: first_child_def)
  next
    case (Some n)
    have "first_child d p = Some q \<longleftrightarrow> (\<exists>i < length (children n). q = i # p \<and> elem_at d q \<noteq> None \<and> (\<forall>j < i. elem_at d (j # p) = None))"
      unfolding first_child_def Some by (auto simp: find_Some_iff)
    then show ?thesis using len Some by blast
  qed
qed

end
