(* ===== verification/Search_Rows.thy ===== *)
theory Search_Rows
  imports Search_Results Dom_Edit
begin

text \<open>
  \<open>createResults\<close> of \<open>docs/html/search/search.js\<close>, which builds the result rows from the
  loaded \<open>searchData\<close>. The script appends a link before it sets the link's last attributes;
  the model sets them first, since it appends values and not references. The theorems place
  every row, link and child in the new document and connect the rows with the search and with
  the navigation.
\<close>

section \<open>Model\<close>

definition setKeyActions :: "jstring \<Rightarrow> elem \<Rightarrow> elem" where
  "setKeyActions action e =
     setAttribute ''onkeyup'' action (setAttribute ''onkeypress'' action (setAttribute ''onkeydown'' action e))"

text \<open>A HTML document keeps attribute names in lower case.\<close>

definition setClassAttr :: "string \<Rightarrow> elem \<Rightarrow> elem" where
  "setClassAttr attr e = setAttribute ''classname'' (lit attr) (setAttribute ''class'' (lit attr) e)"

definition set_target :: "bool \<Rightarrow> elem \<Rightarrow> elem" where
  "set_target parent e = setAttribute ''target'' (lit (if parent then ''_parent'' else ''_blank'')) e"

definition close_call :: jstring where
  "close_call = lit ''searchBox.CloseResultsWindow()''"

text \<open>The link of the entry with index \<open>e\<close>, before it gets its target.\<close>

definition srLink :: "nat \<Rightarrow> elem" where
  "srLink e =
     setClassAttr ''SRSymbol''
       (setKeyActions (lit ''return searchResults.Nav(event,'' @ num_str (int e) @ lit '')'')
          (setAttribute ''id'' (item_name (int e)) (createElement ''a'')))"

definition srChild :: "jstring \<Rightarrow> nat \<Rightarrow> nat \<Rightarrow> jstring \<times> bool \<times> jstring \<Rightarrow> dom" where
  "srChild rp e c = (\<lambda>(url, parent, scope).
     Elem (set_target parent
            (setAttribute ''onclick'' close_call
              (setAttribute ''href'' (rp @ url)
                (setClassAttr ''SRScope''
                  (setKeyActions
                    (lit ''return searchResults.NavChild(event,'' @ num_str (int e) @ lit '','' @ num_str (int c) @ lit '')'')
                    (setAttribute ''id'' (child_name (int e) (int c)) (createElement ''a'')))))))
       (innerHTML scope))"

definition srEntry :: "jstring \<Rightarrow> nat \<Rightarrow> search_entry \<Rightarrow> dom" where
  "srEntry rp e x =
     (case entry_targets x of
        [(url, parent, scope)] \<Rightarrow>
          append_to
            (append_to (Elem (setClassAttr ''SREntry'' (createElement ''div'')) [])
              (Elem (set_target parent
                      (setAttribute ''onclick'' close_call (setAttribute ''href'' (rp @ url) (srLink e))))
                 (innerHTML (entry_symbol x))))
            (Elem (setClassAttr ''SRScope'' (createElement ''span'')) (innerHTML scope))
      | targets \<Rightarrow>
          append_to
            (append_to (Elem (setClassAttr ''SREntry'' (createElement ''div'')) [])
              (Elem (setAttribute ''href''
                      (lit ''javascript:searchResults.Toggle(\"SR_'' @ entry_id x @ lit ''\")'') (srLink e))
                 (innerHTML (entry_symbol x))))
            (Elem (setClassAttr ''SRChildren'' (createElement ''div''))
               (map (\<lambda>(c, t). srChild rp e c t) (enumerate 0 targets))))"

definition srResult :: "jstring \<Rightarrow> nat \<Rightarrow> search_entry \<Rightarrow> dom" where
  "srResult rp e x =
     append_to
       (Elem (setClassAttr ''SRResult'' (setAttribute ''id'' (lit ''SR_'' @ entry_id x) (createElement ''div''))) [])
       (srEntry rp e x)"

text \<open>
  Emptying the list of results also takes the focus from an element in it. Without
  \<open>searchData\<close> the script throws a ReferenceError.
\<close>

definition createResults :: "jstring \<Rightarrow> page \<Rightarrow> page option" where
  "createResults rp pg = do {
     results \<leftarrow> by_id pg ''SRResults'';
     let d = upd_node results (set_children (\<lambda>_. [])) (document pg);
     data \<leftarrow> searchData pg;
     let d = foldl (\<lambda>d (e, x). appendChild results (srResult rp e x) d) d (enumerate 0 data);
     Some (pg\<lparr>document := d,
       activeElement :=
         (case activeElement pg of
            None \<Rightarrow> None
          | Some p \<Rightarrow> if strict_suffix results p then None else Some p)\<rparr>)
   }"

section \<open>Updates of children\<close>

lemma set_children_comp: "set_children f \<circ> set_children g = set_children (f \<circ> g)"
proof
  fix n show "(set_children f \<circ> set_children g) n = set_children (f \<circ> g) n" by (cases n) simp_all
qed

lemma set_children_const: "set_children (\<lambda>ds. ds @ xs) \<circ> set_children (\<lambda>_. us) = set_children (\<lambda>_. us @ xs)"
  unfolding set_children_comp by (simp add: comp_def)

section \<open>The document that is built\<close>

definition result_rows :: "jstring \<Rightarrow> search_entry list \<Rightarrow> dom list" where
  "result_rows rp data = map (\<lambda>(e, x). srResult rp e x) (enumerate 0 data)"

lemma length_result_rows [simp]: "length (result_rows rp data) = length data"
  by (simp add: result_rows_def)

lemma nth_result_rows [simp]: "e < length data \<Longrightarrow> result_rows rp data ! e = srResult rp e (data ! e)"
  by (simp add: result_rows_def nth_enumerate_eq)

lemma append_rows:
  "foldl (\<lambda>d (e, x). appendChild r (srResult rp e x) d) (upd_node r (set_children (\<lambda>_. us)) d) xs =
   upd_node r (set_children (\<lambda>_. us @ map (\<lambda>(e, x). srResult rp e x) xs)) d"
proof (induction xs arbitrary: us)
  case (Cons x xs)
  obtain e y where x: "x = (e, y)" by (cases x)
  have "appendChild r (srResult rp e y) (upd_node r (set_children (\<lambda>_. us)) d) =
      upd_node r (set_children (\<lambda>_. us @ [srResult rp e y])) d"
    by (simp only: appendChild_def upd_node_upd_node set_children_const)
  then show ?case using Cons.IH [of "us @ [srResult rp e y]"] by (simp add: x)
qed simp

lemma createResults_eq:
  assumes "by_id pg ''SRResults'' = Some r" "searchData pg = Some data"
  shows "createResults rp pg =
    Some (pg\<lparr>document := upd_node r (set_children (\<lambda>_. result_rows rp data)) (document pg),
      activeElement :=
        (case activeElement pg of
           None \<Rightarrow> None
         | Some p \<Rightarrow> if strict_suffix r p then None else Some p)\<rparr>)"
  using assms append_rows [of r rp "[]" "document pg" "enumerate 0 data"]
  by (simp add: createResults_def Let_def result_rows_def)

text \<open>The parts of a row.\<close>

definition row_elem :: "search_entry \<Rightarrow> elem" where
  "row_elem x = setClassAttr ''SRResult'' (setAttribute ''id'' (lit ''SR_'' @ entry_id x) (createElement ''div''))"

definition entry_elem :: elem where
  "entry_elem = setClassAttr ''SREntry'' (createElement ''div'')"

definition single :: "search_entry \<Rightarrow> bool" where
  "single x \<longleftrightarrow> length (entry_targets x) = 1"

definition scope_elem :: elem where
  "scope_elem = setClassAttr ''SRScope'' (createElement ''span'')"

definition children_elem :: elem where
  "children_elem = setClassAttr ''SRChildren'' (createElement ''div'')"

lemma className_setClassAttr [simp]: "className (setClassAttr c e) = lit c"
  by (simp add: className_def setClassAttr_def)

lemma className_setAttribute [simp]: "k \<noteq> ''class'' \<Longrightarrow> className (setAttribute k v e) = className e"
  by (simp add: className_def)

lemma elem_id_setAttribute [simp]: "elem_id (setAttribute k v e) = (if k = ''id'' then v else elem_id e)"
  by (simp add: elem_id_def)

lemma built_simps [simp]:
  "elem_id (setClassAttr c e) = elem_id e" "tag (setClassAttr c e) = tag e" "display (setClassAttr c e) = display e"
  "elem_id (setKeyActions a e) = elem_id e" "elem_id (set_target b e) = elem_id e"
  "className (set_target b e) = className e" "tag (set_target b e) = tag e" "tag (setKeyActions a e) = tag e"
  "elem_id (createElement t) = []" "tag (createElement t) = t" "display (createElement t) = []"
  by (simp_all add: setClassAttr_def setKeyActions_def set_target_def createElement_def elem_id_def display_def
      className_def setAttribute_def)

lemma srEntry_cases:
  obtains link second where "srEntry rp e x = Elem entry_elem [Elem link (innerHTML (entry_symbol x)), second]"
    "elem_id link = item_name (int e)" "className link = lit ''SRSymbol''" "tag link = ''a''"
    "single x \<Longrightarrow> \<exists>scope. second = Elem scope_elem (innerHTML scope)"
    "\<not> single x \<Longrightarrow> second = Elem children_elem
       (map (\<lambda>(c, t). srChild rp e c t) (enumerate 0 (entry_targets x)))"
proof (cases "single x")
  case True
  then obtain url parent scope where "entry_targets x = [(url, parent, scope)]"
    by (auto simp: single_def length_Suc_conv)
  then have row: "srEntry rp e x = Elem entry_elem
      [Elem (set_target parent
               (setAttribute ''onclick'' close_call (setAttribute ''href'' (rp @ url) (srLink e))))
         (innerHTML (entry_symbol x)),
       Elem scope_elem (innerHTML scope)]"
    by (simp add: srEntry_def append_to_def entry_elem_def scope_elem_def)
  show ?thesis by (rule that [OF row]) (use True in \<open>auto simp: srLink_def\<close>)
next
  case False
  then have row: "srEntry rp e x = Elem entry_elem
      [Elem (setAttribute ''href'' (lit ''javascript:searchResults.Toggle(\"SR_'' @ entry_id x @ lit ''\")'') (srLink e))
         (innerHTML (entry_symbol x)),
       Elem children_elem (map (\<lambda>(c, t). srChild rp e c t) (enumerate 0 (entry_targets x)))]"
    by (auto simp: srEntry_def append_to_def entry_elem_def children_elem_def single_def split: list.splits)
  show ?thesis by (rule that [OF row]) (use False in \<open>auto simp: srLink_def\<close>)
qed

lemma srResult_eq: "srResult rp e x = Elem (row_elem x) [srEntry rp e x]"
  by (simp add: srResult_def append_to_def row_elem_def)

lemma row_elem_simps [simp]:
  "className (row_elem x) = lit ''SRResult''" "elem_id (row_elem x) = lit ''SR_'' @ entry_id x"
  "tag (row_elem x) = ''div''" "is_row (row_elem x)"
  "attrs (row_elem x) ''id'' = Some (lit ''SR_'' @ entry_id x)"
  by (simp_all add: row_elem_def is_row_def) (simp add: setClassAttr_def)

text \<open>The ids inside an entry.\<close>

lemma underscore_not_num: "unit_of CHR ''_'' \<notin> set (num_str i)"
proof -
  have "unat (unit_of CHR ''_'') = 95" by (simp add: unit_of_def)
  moreover have "unat (digit d) < 95" if "d < 10" for d using that by (simp add: unat_digit)
  ultimately have "unit_of CHR ''_'' \<notin> digit ` {0..<10}" by fastforce
  then show ?thesis using set_radix [of 10] by (auto simp: num_str_def lit_Cons)
qed

lemma child_not_item: "child_name i n \<noteq> item_name j"
proof
  assume "child_name i n = item_name j"
  then have "num_str j = num_str i @ lit ''_c'' @ num_str n" by (simp add: child_name_def item_name_def)
  then have "unit_of CHR ''_'' \<in> set (num_str j)" by (simp add: lit_Cons)
  then show False using underscore_not_num by simp
qed

lemma elems_innerHTML [simp]: "concat (map elems (innerHTML s)) = []"
  by (simp add: innerHTML_def)

lemma srEntry_elems:
  assumes "el \<in> set (elems (srEntry rp e x))"
  shows "className el \<noteq> lit ''SRResult''" and "elem_id el = item_name j \<Longrightarrow> j = int e"
proof -
  have child: "className el \<noteq> lit ''SRResult'' \<and> elem_id el \<noteq> item_name j"
    if "el \<in> set (elems (srChild rp e c t))" for c t
    using that by (cases t) (auto simp: srChild_def child_not_item)
  obtain link second where s: "srEntry rp e x = Elem entry_elem [Elem link (innerHTML (entry_symbol x)), second]"
    "elem_id link = item_name (int e)" "className link = lit ''SRSymbol''"
    "single x \<Longrightarrow> \<exists>scope. second = Elem scope_elem (innerHTML scope)"
    "\<not> single x \<Longrightarrow> second = Elem children_elem
       (map (\<lambda>(c, t). srChild rp e c t) (enumerate 0 (entry_targets x)))"
    by (rule srEntry_cases [of rp e x]) (rule that; assumption)
  have "el = entry_elem \<or> el = link \<or> el = scope_elem \<or> el = children_elem \<or>
      (\<exists>c t. el \<in> set (elems (srChild rp e c t)))"
    using assms s(1) s(4,5) by (cases "single x") auto
  then have "className el \<noteq> lit ''SRResult'' \<and> (elem_id el = item_name j \<longrightarrow> j = int e)"
    using s(2,3) child by (auto simp: entry_elem_def scope_elem_def children_elem_def item_name_def)
  then show "className el \<noteq> lit ''SRResult''" "elem_id el = item_name j \<Longrightarrow> j = int e" by auto
qed

section \<open>Where everything is\<close>

text \<open>The page without the list of results: no row and no item.\<close>

definition clean_page :: "path \<Rightarrow> dom \<Rightarrow> bool" where
  "clean_page r d \<longleftrightarrow>
     (\<forall>q el. elem_at d q = Some el \<and> \<not> strict_suffix r q \<longrightarrow>
        \<not> is_row el \<and> (\<forall>i. elem_id el \<noteq> item_name i))"

text \<open>The half of it that concerns ids.\<close>

definition items_below :: "path \<Rightarrow> dom \<Rightarrow> bool" where
  "items_below r d \<longleftrightarrow>
     (\<forall>q el. elem_at d q = Some el \<and> \<not> strict_suffix r q \<longrightarrow> (\<forall>i. elem_id el \<noteq> item_name i))"

lemma clean_items: "clean_page r d \<Longrightarrow> items_below r d"
  unfolding clean_page_def items_below_def by blast

definition built :: "path \<Rightarrow> jstring \<Rightarrow> search_entry list \<Rightarrow> dom \<Rightarrow> dom" where
  "built r rp data d = upd_node r (set_children (\<lambda>_. result_rows rp data)) d"

lemma elem_of_set_children [simp]: "elem_of (set_children f n) = elem_of n"
  by (cases n) simp_all

lemma built_outside: "\<not> strict_suffix r q \<Longrightarrow> elem_at (built r rp data d) q = elem_at d q"
  unfolding built_def by (rule elem_at_upd_node_other) simp_all

lemma built_at:
  assumes "elem_at d r \<noteq> None"
  shows "elem_at (built r rp data d) (s @ e # r) =
    (if e < length data then elem_at (srResult rp e (data ! e)) s else None)"
proof -
  obtain el ds where n: "node_at d r = Some (Elem el ds)"
    using assms by (auto simp: elem_at_def split: bind_splits elim: elem_of.elims)
  have "node_at (built r rp data d) ((s @ [e]) @ r) = node_at (Elem el (result_rows rp data)) (s @ [e])"
    unfolding built_def node_at_upd_node_below by (simp add: n)
  then show ?thesis by (simp add: elem_at_def node_at_append)
qed

lemma built_below:
  assumes "elem_at d r \<noteq> None" "elem_at (built r rp data d) q = Some el" "strict_suffix r q"
  obtains s e where "q = s @ e # r" "e < length data" "elem_at (srResult rp e (data ! e)) s = Some el"
proof -
  obtain t where t: "q = t @ r" "t \<noteq> []" using assms(3) by (auto simp: strict_suffix_def suffix_def)
  then obtain s e where "q = s @ e # r" by (cases t rule: rev_cases) auto
  then show ?thesis using assms(2) built_at [OF assms(1)] that by (auto split: if_splits)
qed

lemma row_inside:
  assumes "elem_at (srResult rp e x) s = Some el"
  obtains "s = []" "el = row_elem x"
  | "s \<noteq> []" "el \<in> set (elems (srEntry rp e x))"
proof (cases s rule: rev_cases)
  case Nil
  then show ?thesis using assms that(1) by (simp add: srResult_eq)
next
  case (snoc t j)
  then have "j = 0" "elem_at (srEntry rp e x) t = Some el"
    using assms by (auto simp: srResult_eq elem_at_snoc split: if_splits)
  then show ?thesis using snoc elem_at_elems that(2) by blast
qed

lemma built_rows:
  assumes r: "elem_at d r \<noteq> None" and clean: "clean_page r d"
  shows "elem_at (built r rp data d) q = Some el \<and> is_row el \<longleftrightarrow>
    (\<exists>e < length data. q = e # r \<and> el = row_elem (data ! e))"
proof
  assume el: "elem_at (built r rp data d) q = Some el \<and> is_row el"
  then have "strict_suffix r q" using clean built_outside unfolding clean_page_def by metis
  from built_below [OF r conjunct1 [OF el] this] obtain s e
    where s: "q = s @ e # r" "e < length data" "elem_at (srResult rp e (data ! e)) s = Some el" .
  from s(3) have "s = [] \<and> el = row_elem (data ! e)"
    by (rule row_inside) (use el srEntry_elems(1) in \<open>auto simp: is_row_def\<close>)
  then show "\<exists>e < length data. q = e # r \<and> el = row_elem (data ! e)" using s by auto
next
  assume "\<exists>e < length data. q = e # r \<and> el = row_elem (data ! e)"
  then obtain e where "e < length data" "q = e # r" "el = row_elem (data ! e)" by blast
  then show "elem_at (built r rp data d) q = Some el \<and> is_row el"
    using built_at [OF r, of rp data "[]" e] by (simp add: srResult_eq)
qed

lemma item_name_not_Nil [simp]: "item_name i \<noteq> []" "[] \<noteq> item_name i"
  by (simp_all add: item_name_def)

lemma sr_not_item: "lit ''SR_'' @ s \<noteq> item_name i"
  by (simp add: item_name_def lit_Cons)

lemma built_item_at:
  assumes r: "elem_at d r \<noteq> None" and clean: "items_below r d"
    and q: "elem_at (built r rp data d) q = Some el" "elem_id el = item_name j"
  shows "0 \<le> j \<and> nat j < length data \<and> q = 0 # 0 # nat j # r"
proof -
  note id = q(2)
  then have "strict_suffix r q" using clean built_outside q(1) unfolding items_below_def by metis
  from built_below [OF r q(1) this] obtain s e
    where s: "q = s @ e # r" "e < length data" "elem_at (srResult rp e (data ! e)) s = Some el" .
  obtain link second where x: "srEntry rp e (data ! e) = Elem entry_elem [Elem link (innerHTML (entry_symbol (data ! e))), second]"
    "\<not> single (data ! e) \<Longrightarrow> second = Elem children_elem
       (map (\<lambda>(c, t). srChild rp e c t) (enumerate 0 (entry_targets (data ! e))))"
    "single (data ! e) \<Longrightarrow> \<exists>scope. second = Elem scope_elem (innerHTML scope)"
    by (rule srEntry_cases [of rp e "data ! e"]) (rule that; assumption)
  from s(3) have "s \<noteq> []" "el \<in> set (elems (srEntry rp e (data ! e)))"
    using id by (auto simp: sr_not_item elim: row_inside)
  then have j: "j = int e" using srEntry_elems(2) id by blast
  have second: "elem_id el' \<noteq> item_name j" if "el' \<in> set (elems second)" for el'
    using that x(2,3) by (cases "single (data ! e)")
      (auto simp: scope_elem_def children_elem_def item_name_def srChild_def child_not_item [unfolded item_name_def])
  have sub: "elem_at (srEntry rp e (data ! e)) t = Some el \<Longrightarrow> t = [0]" for t
  proof (cases t rule: rev_cases)
    case Nil
    then show "elem_at (srEntry rp e (data ! e)) t = Some el \<Longrightarrow> t = [0]"
      using id x(1) by (auto simp: entry_elem_def item_name_def)
  next
    case (snoc u k)
    assume t: "elem_at (srEntry rp e (data ! e)) t = Some el"
    then have "k = 0 \<or> k = 1 \<and> elem_at second u = Some el"
      using snoc x(1) by (auto simp: elem_at_snoc nth_Cons split: if_splits nat.splits)
    then have k: "k = 0" using second id elem_at_elems by blast
    then have u: "elem_at (Elem link (innerHTML (entry_symbol (data ! e)))) u = Some el"
      using t snoc x(1) by (simp add: elem_at_snoc)
    have "u = []"
    proof (cases u rule: rev_cases)
      case (snoc v l)
      then show ?thesis using u
        by (cases v rule: rev_cases) (auto simp: elem_at_snoc innerHTML_def elem_at_def node_at_append split: if_splits)
    qed simp
    then show "t = [0]" using k snoc by simp
  qed
  obtain t where "s = t @ [0]" "elem_at (srEntry rp e (data ! e)) t = Some el"
    using s(3) \<open>s \<noteq> []\<close> by (cases s rule: rev_cases) (auto simp: srResult_eq elem_at_snoc split: if_splits)
  then show ?thesis using sub s j by auto
qed

lemma built_item_link:
  assumes r: "elem_at d r \<noteq> None" and e: "e < length data"
  shows "\<exists>link. elem_at (built r rp data d) (0 # 0 # e # r) = Some link \<and> elem_id link = item_name (int e)"
proof -
  obtain link second where x: "srEntry rp e (data ! e) = Elem entry_elem [Elem link (innerHTML (entry_symbol (data ! e))), second]"
    "elem_id link = item_name (int e)"
    by (rule srEntry_cases [of rp e "data ! e"]) (rule that; assumption)
  have "elem_at (built r rp data d) ([0, 0] @ e # r) = Some link"
    unfolding built_at [OF r] using e x(1) by (simp add: srResult_eq elem_at_def)
  then show ?thesis using x(2) by simp
qed

lemma built_item:
  assumes r: "elem_at d r \<noteq> None" and clean: "items_below r d"
  shows "getElementById (built r rp data d) (item_name j) =
    (if 0 \<le> j \<and> nat j < length data then Some (0 # 0 # nat j # r) else None)"
proof -
  have at: "0 \<le> j \<and> nat j < length data \<and> q = 0 # 0 # nat j # r"
    if "elem_at (built r rp data d) q = Some el" "attrs el ''id'' = Some (item_name j)" for q el
    by (rule built_item_at [OF r clean that(1)]) (simp add: elem_id_def that(2))
  show ?thesis
  proof (cases "0 \<le> j \<and> nat j < length data")
    case False
    then have "getElementById (built r rp data d) (item_name j) = None"
      using at unfolding getElementById_None_iff by blast
    then show ?thesis using False by auto
  next
    case True
    then obtain link where link: "elem_at (built r rp data d) (0 # 0 # nat j # r) = Some link" "elem_id link = item_name j"
      using built_item_link [OF r, of "nat j" data rp] by auto
    then have "attrs link ''id'' = Some (item_name j)" by (auto simp: elem_id_def split: option.splits)
    with link(1) have "getElementById (built r rp data d) (item_name j) = Some (0 # 0 # nat j # r)"
    proof (rule getElementById_unique)
      fix q el assume "elem_at (built r rp data d) q = Some el" "attrs el ''id'' = Some (item_name j)"
      from at [OF this] show "q = 0 # 0 # nat j # r" by simp
    qed simp
    then show ?thesis using True by simp
  qed
qed

text \<open>The children that are built: those of the entries with several places, one for each place.\<close>

lemma child_name_inj: "child_name i m = child_name j n \<longleftrightarrow> i = j \<and> m = n"
proof
  assume "child_name i m = child_name j n"
  then have eq: "num_str i @ lit ''_c'' @ num_str m = num_str j @ lit ''_c'' @ num_str n" by (simp add: child_name_def)
  have cut: "takeWhile (\<lambda>u. u \<noteq> unit_of CHR ''_'') (num_str k @ lit ''_c'' @ s) = num_str k" for k s
    using underscore_not_num [of k] by (subst takeWhile_append2) (auto simp: lit_Cons)
  from arg_cong [OF eq, of "takeWhile (\<lambda>u. u \<noteq> unit_of CHR ''_'')"] have "i = j" by (simp only: cut num_str_eq_iff)
  then show "i = j \<and> m = n" using eq by simp
qed simp

lemma built_child_at:
  assumes r: "elem_at d r \<noteq> None" and out: "\<And>q el. elem_at d q = Some el \<Longrightarrow> \<not> strict_suffix r q \<Longrightarrow> elem_id el \<noteq> child_name i c"
    and q: "elem_at (built r rp data d) q = Some el" "elem_id el = child_name i c"
  shows "\<exists>e m. i = int e \<and> c = int m \<and> e < length data \<and> \<not> single (data ! e) \<and> m < length (entry_targets (data ! e))"
proof -
  have "strict_suffix r q" using out built_outside q by metis
  from built_below [OF r q(1) this] obtain s e
    where s: "q = s @ e # r" "e < length data" "elem_at (srResult rp e (data ! e)) s = Some el" .
  have "lit ''SR_'' @ t \<noteq> child_name i c" for t by (simp add: child_name_def lit_Cons)
  then have el: "el \<in> set (elems (srEntry rp e (data ! e)))"
    using s(3) q(2) by (metis row_inside row_elem_simps(2))
  obtain link second where x: "srEntry rp e (data ! e) = Elem entry_elem [Elem link (innerHTML (entry_symbol (data ! e))), second]"
    "elem_id link = item_name (int e)"
    "single (data ! e) \<Longrightarrow> \<exists>scope. second = Elem scope_elem (innerHTML scope)"
    "\<not> single (data ! e) \<Longrightarrow> second = Elem children_elem
       (map (\<lambda>(c, t). srChild rp e c t) (enumerate 0 (entry_targets (data ! e))))"
    by (rule srEntry_cases [of rp e "data ! e"]) (rule that; assumption)
  have ne: "elem_id entry_elem \<noteq> child_name i c" "elem_id scope_elem \<noteq> child_name i c"
    "elem_id children_elem \<noteq> child_name i c" "elem_id link \<noteq> child_name i c"
    using x(2) child_not_item by (simp_all add: entry_elem_def scope_elem_def children_elem_def child_name_def) metis
  have "\<not> single (data ! e)" using el x(1,3) ne q(2) by auto
  moreover from this obtain m t where "(m, t) \<in> set (enumerate 0 (entry_targets (data ! e)))" "el \<in> set (elems (srChild rp e m t))"
    using el x(1,4) ne q(2) by auto
  moreover from this(2) have "elem_id el = child_name (int e) (int m)" by (cases t) (auto simp: srChild_def)
  ultimately show ?thesis using q(2) s(2) by (auto simp: child_name_inj in_set_enumerate_eq)
qed

lemma built_child:
  assumes r: "elem_at d r \<noteq> None" and e: "e < length data" "\<not> single (data ! e)" "m < length (entry_targets (data ! e))"
  shows "\<exists>el. elem_at (built r rp data d) (m # 1 # 0 # e # r) = Some el \<and> elem_id el = child_name (int e) (int m)"
proof -
  obtain link second where x: "srEntry rp e (data ! e) = Elem entry_elem [Elem link (innerHTML (entry_symbol (data ! e))), second]"
    "\<not> single (data ! e) \<Longrightarrow> second = Elem children_elem
       (map (\<lambda>(c, t). srChild rp e c t) (enumerate 0 (entry_targets (data ! e))))"
    by (rule srEntry_cases [of rp e "data ! e"]) (rule that; assumption)
  let ?t = "entry_targets (data ! e) ! m"
  have "elem_at (built r rp data d) ([m, 1, 0] @ e # r) = elem_of (srChild rp e m ?t)"
    unfolding built_at [OF r] using e x(1) x(2) [OF e(2)]
    by (simp add: srResult_eq elem_at_def nth_enumerate_eq)
  then show ?thesis by (cases ?t) (simp add: srChild_def)
qed

lemma built_row_of:
  assumes "elem_at d r \<noteq> None" "e < length data"
  shows "row_of (built r rp data d) (0 # 0 # e # r) = Some (e # r, row_elem (data ! e))"
  using built_at [OF assms(1), of rp data "[]" e] assms(2)
  by (simp add: row_of_def srResult_eq)

lemma built_items_ok:
  assumes "elem_at d r \<noteq> None" "items_below r d"
  shows "items_ok (built r rp data d)"
  unfolding items_ok_def built_item [OF assms]
  using built_row_of [OF assms(1)] by (auto split: if_splits)

section \<open>Searching in the rows that were built\<close>

lemma row_match_name_ascii:
  assumes "ascii (entry_id x)"
  shows "row_match_name lc (row_elem x) = map ascii_lower (entry_id x)"
proof -
  have "toLowerCase lc (lit ''SR_'' @ entry_id x) = lit ''sr_'' @ map ascii_lower (entry_id x)"
    using assms
    by (simp add: toLowerCase_def ascii_def lit_def unit_of_def ascii_lower_def)
  then show ?thesis by (simp add: row_match_name_def)
qed

lemma createResults_built:
  assumes "by_id pg ''SRResults'' = Some r" "createResults rp pg = Some pg1"
  obtains data where "searchData pg = Some data" "document pg1 = built r rp data (document pg)"
    "elem_at (document pg) r \<noteq> None" "searchBox pg1 = searchBox pg"
proof -
  obtain data where data: "searchData pg = Some data"
    using assms by (auto simp: createResults_def Let_def split: bind_splits)
  have "elem_at (document pg) r \<noteq> None" using by_id_elem [OF assms(1)] by auto
  then show ?thesis
    using that [OF data] createResults_eq [OF assms(1) data, of rp] assms(2)
    by (auto simp: built_def)
qed

text \<open>The rows of a document are those of the data, at their places below \<open>r\<close>.\<close>

definition rows_in :: "path \<Rightarrow> search_entry list \<Rightarrow> dom \<Rightarrow> bool" where
  "rows_in r data d \<longleftrightarrow>
     (\<forall>q el. elem_at d q = Some el \<and> is_row el \<longleftrightarrow> (\<exists>e < length data. q = e # r \<and> el = row_elem (data ! e)))"

lemma rows_in_built: "elem_at d r \<noteq> None \<Longrightarrow> clean_page r d \<Longrightarrow> rows_in r data (built r rp data d)"
  by (simp add: rows_in_def built_rows)

lemma rows_in_upd:
  assumes "rows_in r data d" "elem_at d p = Some e0" "\<not> is_row e0"
  shows "rows_in r data (upd_elem p (set_style k v) d)"
  unfolding rows_in_def
proof (intro allI)
  fix q el
  have "\<not> is_row (set_style k v e0)" using assms(3) by (simp add: is_row_def)
  then have "elem_at (upd_elem p (set_style k v) d) q = Some el \<and> is_row el \<longleftrightarrow> elem_at d q = Some el \<and> is_row el"
    using assms(2,3) by (auto simp: dom_simps)
  then show "elem_at (upd_elem p (set_style k v) d) q = Some el \<and> is_row el \<longleftrightarrow>
      (\<exists>e < length data. q = e # r \<and> el = row_elem (data ! e))"
    using assms(1) by (simp add: rows_in_def)
qed

lemma search_rows_in:
  fixes w :: site
  assumes in_d: "rows_in r data (document pg1)"
    and ids: "by_id pg1 ''Searching'' \<noteq> None" "by_id pg1 ''NoMatches'' \<noteq> None"
  defines "lc \<equiv> unicode_lower w"
  obtains pg2 where "results_Search w (Some q) pg1 = Some (pg2, True)"
    "\<And>e. e < length data \<Longrightarrow>
       elem_at (document pg2) (e # r) = Some (show_row lc (search_word w (Some q)) (row_elem (data ! e)))"
    "lastMatchCount (searchResults pg2) =
       length (List.filter (\<lambda>x. row_matches lc (search_word w (Some q)) (row_elem x)) data)"
    "same_ids pg1 pg2"
proof -
  let ?s = "search_word w (Some q)" and ?d = "document pg1"
  obtain ps pn where p: "by_id pg1 ''Searching'' = Some ps" "by_id pg1 ''NoMatches'' = Some pn" using ids by blast
  note rows = in_d [unfolded rows_in_def, rule_format]
  have ne: "e # r \<noteq> ps" "e # r \<noteq> pn" if "e < length data" for e
  proof -
    have "elem_at ?d (e # r) = Some (row_elem (data ! e))"
      using that rows [of "e # r" "row_elem (data ! e)"] by blast
    then show "e # r \<noteq> ps" "e # r \<noteq> pn"
      using by_id_elem [OF p(1)] by_id_elem [OF p(2)] by (auto simp: lit_Cons)
  qed
  let ?ms = "List.filter (matching lc ?s ?d) (getElementsByTagName ?d ''div'')"
  have count: "length ?ms = length (List.filter (\<lambda>x. row_matches lc ?s (row_elem x)) data)"
  proof -
    let ?I = "{e. e < length data \<and> row_matches lc ?s (row_elem (data ! e))}"
    have "set ?ms = (\<lambda>e. e # r) ` ?I"
    proof (intro set_eqI iffI)
      fix q' assume "q' \<in> set ?ms"
      then obtain el where "elem_at ?d q' = Some el \<and> is_row el" "row_matches lc ?s el"
        by (auto simp: matching_def)
      then show "q' \<in> (\<lambda>e. e # r) ` ?I" unfolding rows by auto
    next
      fix q' assume "q' \<in> (\<lambda>e. e # r) ` ?I"
      then obtain e where e: "e < length data" "row_matches lc ?s (row_elem (data ! e))" "q' = e # r" by blast
      then have "elem_at ?d q' = Some (row_elem (data ! e))" using rows [of q' "row_elem (data ! e)"] by blast
      then show "q' \<in> set ?ms" using e(2) by (simp add: matching_def set_getElementsByTagName)
    qed
    then have "length ?ms = card ((\<lambda>e. e # r) ` ?I)"
      using distinct_card [of ?ms] distinct_getElementsByTagName [of ?d "''div''"] by simp
    also have "\<dots> = card ?I" by (rule card_image) (simp add: inj_on_def)
    finally show ?thesis by (simp add: length_filter_conv_card)
  qed
  show ?thesis
  proof (rule results_Search_spec [OF p, of w "Some q", folded lc_def])
    fix pg2
    assume run: "results_Search w (Some q) pg1 = Some (pg2, True)"
      and cnt: "lastMatchCount (searchResults pg2) =
          length (List.filter (matching lc ?s (document pg1)) (getElementsByTagName (document pg1) ''div''))"
      and el: "\<And>p e. elem_at (document pg1) p = Some e \<Longrightarrow> p \<noteq> ps \<Longrightarrow> p \<noteq> pn \<Longrightarrow>
          elem_at (document pg2) p = Some (if tag e = ''div'' then show_row lc ?s e else e)"
      and ids2: "same_ids pg1 pg2"
    show ?thesis
    proof (rule that [OF run _ _ ids2])
      fix e assume "e < length data"
      then have "elem_at (document pg1) (e # r) = Some (row_elem (data ! e))"
        using rows [of "e # r" "row_elem (data ! e)"] by auto
      from el [OF this ne] \<open>e < length data\<close>
      show "elem_at (document pg2) (e # r) = Some (show_row lc ?s (row_elem (data ! e)))" by simp
    qed (simp add: cnt count)
  qed
qed

section \<open>Ids that the rows do not disturb\<close>

text \<open>The one element with the id \<open>s\<close> lies outside the list of results.\<close>

definition fixed_id :: "path \<Rightarrow> dom \<Rightarrow> string \<Rightarrow> bool" where
  "fixed_id r d s \<longleftrightarrow>
     (\<exists>p e. \<not> strict_suffix r p \<and> elem_at d p = Some e \<and> elem_id e = lit s \<and>
        (\<forall>q e'. elem_at d q = Some e' \<and> elem_id e' = lit s \<longrightarrow> q = p))"

definition own_id :: "string \<Rightarrow> bool" where
  "own_id s \<longleftrightarrow> s \<noteq> [] \<and> \<not> prefix (lit ''SR_'') (lit s) \<and> \<not> prefix (lit ''Item'') (lit s)"

lemma row_ids:
  assumes "el \<in> set (elems (srResult rp e x))" "own_id s"
  shows "elem_id el \<noteq> lit s"
proof -
  have child: "elem_id el \<noteq> lit s" if "el \<in> set (elems (srChild rp e c t))" for c t
    using that assms(2) by (cases t) (auto simp: srChild_def child_name_def own_id_def dest: sym)
  obtain link second where s: "srEntry rp e x = Elem entry_elem [Elem link (innerHTML (entry_symbol x)), second]"
    "elem_id link = item_name (int e)"
    "single x \<Longrightarrow> \<exists>scope. second = Elem scope_elem (innerHTML scope)"
    "\<not> single x \<Longrightarrow> second = Elem children_elem
       (map (\<lambda>(c, t). srChild rp e c t) (enumerate 0 (entry_targets x)))"
    by (rule srEntry_cases [of rp e x]) (rule that; assumption)
  have "el = row_elem x \<or> el = entry_elem \<or> el = link \<or> el = scope_elem \<or> el = children_elem \<or>
      (\<exists>c t. el \<in> set (elems (srChild rp e c t)))"
    using assms(1) s(1) s(3,4) by (cases "single x") (auto simp: srResult_eq)
  then show ?thesis
    using s(2) child assms(2)
    by (auto simp: entry_elem_def scope_elem_def children_elem_def item_name_def own_id_def dest: sym)
qed

lemma fixed_id_built:
  assumes fixed: "fixed_id r d s" and own: "own_id s" and r: "elem_at d r \<noteq> None"
  shows "fixed_id r (built r rp data d) s"
proof -
  obtain p e where p: "\<not> strict_suffix r p" "elem_at d p = Some e" "elem_id e = lit s"
    and uniq: "\<And>q e'. elem_at d q = Some e' \<Longrightarrow> elem_id e' = lit s \<Longrightarrow> q = p"
    using fixed unfolding fixed_id_def by blast
  have "q = p" if q: "elem_at (built r rp data d) q = Some e'" "elem_id e' = lit s" for q e'
  proof (cases "strict_suffix r q")
    case True
    from built_below [OF r q(1) True] obtain t i where "elem_at (srResult rp i (data ! i)) t = Some e'" by blast
    then show ?thesis using row_ids [OF elem_at_elems own] q(2) by blast
  next
    case False
    then show ?thesis using q uniq built_outside by metis
  qed
  then show ?thesis using p built_outside unfolding fixed_id_def by metis
qed

lemma fixed_id_found:
  assumes "fixed_id r (document pg) s" "s \<noteq> []"
  obtains p e where "by_id pg s = Some p" "elem_at (document pg) p = Some e" "elem_id e = lit s"
proof -
  obtain p e where "elem_at (document pg) p = Some e" "elem_id e = lit s"
    using assms(1) unfolding fixed_id_def by blast
  then have "attrs e ''id'' = Some (lit s)"
    using assms(2) by (auto simp: elem_id_def split: option.splits)
  then have "by_id pg s \<noteq> None"
    using \<open>elem_at (document pg) p = Some e\<close> assms(2) by (auto simp: by_id_def getElementById_None_iff)
  then show ?thesis using that by_id_elem by blast
qed

lemma fixed_id_same:
  assumes "same_ids pg pg'" "fixed_id r (document pg) s"
  shows "fixed_id r (document pg') s"
proof -
  have ids: "map_option elem_id (elem_at (document pg') q) = map_option elem_id (elem_at (document pg) q)" for q
    using assms(1) by (simp add: same_ids_def)
  obtain p e where p: "\<not> strict_suffix r p" "elem_at (document pg) p = Some e" "elem_id e = lit s"
    and uniq: "\<And>q e'. elem_at (document pg) q = Some e' \<Longrightarrow> elem_id e' = lit s \<Longrightarrow> q = p"
    using assms(2) unfolding fixed_id_def by blast
  have "q = p" if "elem_at (document pg') q = Some e'" "elem_id e' = lit s" for q e'
    using ids [of q] that uniq by (cases "elem_at (document pg) q") auto
  moreover obtain e' where "elem_at (document pg') p = Some e'" "elem_id e' = lit s"
    using same_ids_elem [OF assms(1) p(2)] p(3) by auto
  ultimately show ?thesis using p(1) unfolding fixed_id_def by blast
qed

lemma clean_page_upd:
  assumes "clean_page r d"
  shows "clean_page r (upd_elem p (set_style k v) d)"
proof -
  have "\<not> is_row (set_style k v e) \<longleftrightarrow> \<not> is_row e" for e by (simp add: is_row_def)
  then show ?thesis using assms by (auto simp: clean_page_def dom_simps split: if_splits)
qed

end
