(* ===== verification/Search_Box.thy ===== *)
theory Search_Box
  imports Search_Rows
begin

text \<open>
  The object \<open>SearchBox\<close> of \<open>docs/html/search/search.js\<close> and \<open>init_search\<close>: the constructor,
  the handlers of the search field and of the filter popup, the search with its deferred part
  that runs when the index script has loaded, and the events of a page as a step relation.
\<close>

section \<open>Positions\<close>

definition is_body :: "dom \<Rightarrow> path \<Rightarrow> bool" where
  "is_body d p \<longleftrightarrow> (case elem_at d p of None \<Rightarrow> False | Some e \<Rightarrow> tag e = ''body'')"

text \<open>The loop of \<open>getXPos\<close> and \<open>getYPos\<close>; \<open>off\<close> is the offset that is added up.\<close>

partial_function (option) pos_loop ::
  "site \<Rightarrow> (dom \<Rightarrow> path \<Rightarrow> int) \<Rightarrow> dom \<Rightarrow> path \<Rightarrow> int \<Rightarrow> int option" where
  "pos_loop w off d item x =
     (if is_body d item then Some x
      else (case offsetParent w d item of
              None \<Rightarrow> Some (x + off d item)
            | Some parent \<Rightarrow> pos_loop w off d parent (x + off d item)))"

declare pos_loop.simps [code]

definition getXPos :: "site \<Rightarrow> dom \<Rightarrow> path \<Rightarrow> int option" where
  "getXPos w d item = (if offsetWidth w d item \<noteq> 0 then pos_loop w (offsetLeft w) d item 0 else Some 0)"

definition getYPos :: "site \<Rightarrow> dom \<Rightarrow> path \<Rightarrow> int option" where
  "getYPos w d item = (if offsetWidth w d item \<noteq> 0 then pos_loop w (offsetTop w) d item 0 else Some 0)"

definition px :: "int \<Rightarrow> jstring" where
  "px n = num_str n @ lit ''px''"

section \<open>The constructor\<close>

definition new_SearchBox :: "jstring \<Rightarrow> jstring \<Rightarrow> jstring \<Rightarrow> search_box" where
  "new_SearchBox name path ext =
     \<lparr>box_name = name, resultsPath = path, keyTimeout = 0, keyTimeoutLength = 500,
      closeSelectionTimeout = 300, lastSearchValue = [], lastResultsPage = [], hideTimeout = 0,
      searchIndex = 0, searchActive = False, extension = (if ext = [] then lit ''.html'' else ext)\<rparr>"

definition new_SearchResults :: search_results where
  "new_SearchResults = \<lparr>lastMatchCount = 0, lastKey = 0, repeatOn = False\<rparr>"

section \<open>The filter popup\<close>

definition OnSearchSelectShow :: "site \<Rightarrow> page \<Rightarrow> page option" where
  "OnSearchSelectShow w pg = do {
     field \<leftarrow> by_id pg ''MSearchSelect'';
     left \<leftarrow> getXPos w (document pg) field;
     top \<leftarrow> getYPos w (document pg) field;
     let top = top + offsetHeight w (document pg) field;
     pg \<leftarrow> set_style_of ''MSearchSelectWindow'' ''display'' (lit ''block'') pg;
     pg \<leftarrow> set_style_of ''MSearchSelectWindow'' ''left'' (px left) pg;
     pg \<leftarrow> set_style_of ''MSearchSelectWindow'' ''top'' (px top) pg;
     Some (if hideTimeout (searchBox pg) \<noteq> 0
           then upd_box (\<lambda>b. b\<lparr>hideTimeout := 0\<rparr>) (clearTimeout (hideTimeout (searchBox pg)) pg)
           else pg)
   }"

definition OnSearchSelectHide :: "page \<Rightarrow> page" where
  "OnSearchSelectHide pg =
     (let (pg, t) = setTimeout Do_CloseSelectionWindow (closeSelectionTimeout (searchBox pg)) pg
      in upd_box (\<lambda>b. b\<lparr>hideTimeout := t\<rparr>) pg)"

text \<open>The nodes of the popup, \<open>DOMSearchSelectWindow().childNodes\<close>.\<close>

definition select_nodes :: "page \<Rightarrow> (path \<times> dom list) option" where
  "select_nodes pg = do {
     win \<leftarrow> by_id pg ''MSearchSelectWindow'';
     n \<leftarrow> node_at (document pg) win;
     Some (win, children n)
   }"

definition SelectItemCount :: "page \<Rightarrow> int option" where
  "SelectItemCount pg = do {
     (win, nodes) \<leftarrow> select_nodes pg;
     Some (int (length (List.filter (has_class ''SelectItem'') nodes)))
   }"

text \<open>Setting the mark of one item; an item without a child would be a TypeError.\<close>

fun mark_items :: "int \<Rightarrow> int \<Rightarrow> dom list \<Rightarrow> dom list option" where
  "mark_items i j [] = Some []"
| "mark_items i j (c # cs) =
     (if has_class ''SelectItem'' c then
        (case children c of
           [] \<Rightarrow> None
         | n # ns \<Rightarrow> do {
             cs \<leftarrow> mark_items i (j + 1) cs;
             let mark = innerHTML (lit (if j = i then ''&#8226;'' else ''&#160;''));
             Some (set_children (\<lambda>_. set_children (\<lambda>_. mark) n # ns) c # cs)
           })
      else do {
        cs \<leftarrow> mark_items i j cs;
        Some (c # cs)
      })"

definition SelectItemSet :: "int \<Rightarrow> page \<Rightarrow> page option" where
  "SelectItemSet i pg = do {
     (win, nodes) \<leftarrow> select_nodes pg;
     nodes \<leftarrow> mark_items i 0 nodes;
     Some (pg\<lparr>document := upd_node win (set_children (\<lambda>_. nodes)) (document pg)\<rparr>)
   }"

section \<open>Search\<close>

text \<open>\<open>s.indexOf(t)\<close>, with \<^term>\<open>None\<close> for -1.\<close>

fun index_of :: "jstring \<Rightarrow> jstring \<Rightarrow> nat option" where
  "index_of [] t = (if t = [] then Some 0 else None)"
| "index_of (c # s) t = (if prefix t (c # s) then Some 0 else map_option Suc (index_of s t))"

text \<open>
  The character that selects the index file. \<open>searchValue > 1\<close> compares a string with a
  number, so the string is converted; it is \<open>exceeds_one\<close> of the site.
\<close>

definition idx_char :: "site \<Rightarrow> jstring \<Rightarrow> jstring" where
  "idx_char w searchValue =
     (let lower = toLowerCase (unicode_lower w) searchValue in
      if lower \<noteq> [] \<and> 0xD800 \<le> hd lower \<and> hd lower \<le> 0xDBFF \<and> exceeds_one w searchValue
      then take 2 searchValue
      else toLowerCase (unicode_lower w) (take 1 searchValue))"

definition js_file :: "site \<Rightarrow> search_box \<Rightarrow> nat \<Rightarrow> jstring" where
  "js_file w b idx =
     resultsPath b @
     (case indexSectionNames w (searchIndex b) of None \<Rightarrow> lit ''undefined'' | Some s \<Rightarrow> s) @
     lit ''_'' @ to_hex idx @ lit ''.js''"

text \<open>Where the results window goes: its top, left, width and height.\<close>

definition results_box :: "site \<Rightarrow> int \<Rightarrow> int \<Rightarrow> int \<Rightarrow> int \<times> int \<times> int \<times> int" where
  "results_box w x y popupWidth =
     (let left = x + 150; top = y + 20;
          left = left - popupWidth;
          maxWidth = clientWidth w; maxHeight = clientHeight w;
          left = (if left < 10 then 10 else left);
          width = (if 300 + left + 8 > maxWidth then maxWidth - left - 8 else 300);
          height = (if 400 + top + 8 > maxHeight then maxHeight - top - 8 else 400)
      in (top, left, width, height))"

text \<open>
  \<open>Search\<close> looks up four elements when it starts, and its closure \<open>handleResults\<close> works on them when the file has
  arrived, even if the box was written anew since: a style set on a removed element changes nothing that is seen, and
  such an element has no layout, so that its position is 0.
\<close>

definition capture :: "page \<Rightarrow> string \<Rightarrow> captured" where
  "capture pg s = (case by_id pg s of None \<Rightarrow> Null | Some p \<Rightarrow> Placed p)"

definition capture_elements :: "page \<Rightarrow> captures" where
  "capture_elements pg =
     \<lparr>cap_window = by_id pg ''MSearchResultsWindow'', cap_box = capture pg ''MSearchBox'',
      cap_popup = by_id pg ''MSearchResults'', cap_close = capture pg ''MSearchClose''\<rparr>"

fun style_captured :: "captured \<Rightarrow> string \<Rightarrow> jstring \<Rightarrow> page \<Rightarrow> page option" where
  "style_captured Null k v pg = None"
| "style_captured Removed k v pg = Some pg"
| "style_captured (Placed p) k v pg = Some (set_elem p (set_style k v) pg)"

fun captured_pos :: "(path \<Rightarrow> int option) \<Rightarrow> captured \<Rightarrow> int option" where
  "captured_pos pos Null = None"
| "captured_pos pos Removed = Some 0"
| "captured_pos pos (Placed p) = pos p"

definition show_results :: "site \<Rightarrow> captures \<Rightarrow> page \<Rightarrow> page option" where
  "show_results w c pg = do {
     pg \<leftarrow> style_captured (cap_close c) ''display'' (lit ''inline-block'') pg;
     x \<leftarrow> captured_pos (getXPos w (document pg)) (cap_box c);
     y \<leftarrow> captured_pos (getYPos w (document pg)) (cap_box c);
     window \<leftarrow> cap_window c;
     let pg = set_elem window (set_style ''display'' (lit ''block'')) pg;
     popup \<leftarrow> cap_popup c;
     let (top, left, width, height) = results_box w x y (offsetWidth w (document pg) popup);
     let pg = set_elem window (set_style ''top'' (px top)) pg;
     let pg = set_elem window (set_style ''left'' (px left)) pg;
     let pg = set_elem window (set_style ''width'' (px width)) pg;
     Some (set_elem window (set_style ''height'' (px height)) pg)
   }"

text \<open>The closure that runs at once without an index file, or when the file has loaded.\<close>

definition handleResults :: "site \<Rightarrow> nat option \<Rightarrow> jstring \<Rightarrow> captures \<Rightarrow> page \<Rightarrow> page option" where
  "handleResults w idx searchValue c pg = do {
     pg \<leftarrow> set_style_of ''Loading'' ''display'' (lit ''none'') pg;
     pg \<leftarrow> (if searchData pg \<noteq> None
           then do {
             pg \<leftarrow> createResults (resultsPath (searchBox pg)) pg;
             set_style_of ''NoMatches'' ''display'' (lit ''none'') pg
           }
           else Some pg);
     (pg, _) \<leftarrow> (if idx \<noteq> None then results_Search w (Some searchValue) pg
               else results_Search w (Some (lit ''===='')) pg);
     win \<leftarrow> cap_window c \<bind> elem_at (document pg);
     if display win \<noteq> lit ''block'' then show_results w c pg else Some pg
   }"

definition loadJS :: "jstring \<Rightarrow> nat option \<Rightarrow> jstring \<Rightarrow> captures \<Rightarrow> page \<Rightarrow> page option" where
  "loadJS url idx searchValue c pg = do {
     loc \<leftarrow> by_id pg ''MSearchResultsWindow'';
     Some (pg\<lparr>document := appendChild loc (Elem (setAttribute ''src'' url (createElement ''script'')) []) (document pg),
       loading := loading pg @ [\<lparr>load_url = url, load_idx = idx, load_value = searchValue, load_caps = c\<rparr>]\<rparr>)
   }"

definition box_Search :: "site \<Rightarrow> page \<Rightarrow> page option" where
  "box_Search w pg = do {
     let pg = upd_box (\<lambda>b. b\<lparr>keyTimeout := 0\<rparr>) pg;
     field \<leftarrow> elem_by_id pg ''MSearchField'';
     let searchValue = strip_leading (val field);
     section \<leftarrow> indexSectionsWithContent w (searchIndex (searchBox pg));
     let idx = index_of section (idx_char w searchValue);
     let c = capture_elements pg;
     pg \<leftarrow> (case idx of
              Some i \<Rightarrow> loadJS (js_file w (searchBox pg) i) idx searchValue c pg
            | None \<Rightarrow> handleResults w idx searchValue c pg);
     Some (upd_box (\<lambda>b. b\<lparr>lastSearchValue := searchValue\<rparr>) pg)
   }"

section \<open>Handlers\<close>

definition OnSelectItem :: "site \<Rightarrow> int \<Rightarrow> page \<Rightarrow> page option" where
  "OnSelectItem w i pg = do {
     pg \<leftarrow> SelectItemSet i (upd_box (\<lambda>b. b\<lparr>searchIndex := i\<rparr>) pg);
     field \<leftarrow> elem_by_id pg ''MSearchField'';
     if strip_all (val field) \<noteq> [] \<and> searchActive (searchBox pg) then box_Search w pg else Some pg
   }"

definition OnSearchSelectKey :: "site \<Rightarrow> key_event \<Rightarrow> page \<Rightarrow> page option" where
  "OnSearchSelectKey w e pg = do {
     let i = searchIndex (searchBox pg);
     down \<leftarrow> (if keyCode e = 40 then do { cnt \<leftarrow> SelectItemCount pg; Some (i < cnt) } else Some False);
     if down then OnSelectItem w (i + 1) (upd_box (\<lambda>b. b\<lparr>searchIndex := i + 1\<rparr>) pg)
     else if keyCode e = 38 \<and> 0 < i then OnSelectItem w (i - 1) (upd_box (\<lambda>b. b\<lparr>searchIndex := i - 1\<rparr>) pg)
     else if keyCode e = 13 \<or> keyCode e = 27 then do {
       pg \<leftarrow> OnSelectItem w i (pg\<lparr>stopped := True\<rparr>);
       pg \<leftarrow> CloseSelectionWindow pg;
       focus_field pg
     }
     else Some pg
   }"

definition hide_results :: "page \<Rightarrow> page option" where
  "hide_results pg = do {
     pg \<leftarrow> set_style_of ''MSearchResultsWindow'' ''display'' (lit ''none'') pg;
     pg \<leftarrow> set_style_of ''MSearchClose'' ''display'' (lit ''none'') pg;
     Some (upd_box (\<lambda>b. b\<lparr>lastSearchValue := []\<rparr>) pg)
   }"

text \<open>With shift: the focus goes to the first item of the popup.\<close>

definition focus_first_item :: "page \<Rightarrow> page option" where
  "focus_first_item pg = do {
     (win, nodes) \<leftarrow> select_nodes pg;
     (case List.find (\<lambda>i. has_class ''SelectItem'' (nodes ! i)) [0..<length nodes] of
        Some i \<Rightarrow> focus_on (i # win) pg
      | None \<Rightarrow> Some pg)
   }"

text \<open>The end of the handler: a changed value starts the search timer, an empty one hides the results.\<close>

definition field_changed :: "page \<Rightarrow> page option" where
  "field_changed pg = do {
     field \<leftarrow> elem_by_id pg ''MSearchField'';
     let searchValue = strip_all (val field);
     if searchValue \<noteq> lastSearchValue (searchBox pg)
     then
       (if searchValue \<noteq> []
        then (let (pg, t) = setTimeout Do_Search (keyTimeoutLength (searchBox pg)) pg
              in Some (upd_box (\<lambda>b. b\<lparr>keyTimeout := t\<rparr>) pg))
        else hide_results pg)
     else Some pg
   }"

definition field_escape :: "page \<Rightarrow> page option" where
  "field_escape pg = do {
     let pg = pg\<lparr>stopped := True\<rparr>;
     field \<leftarrow> by_id pg ''MSearchField'';
     pg \<leftarrow> blur_on field pg;
     pg \<leftarrow> hide_results pg;
     Activate False pg
   }"

definition kill_key_timer :: "page \<Rightarrow> page" where
  "kill_key_timer pg =
     (if keyTimeout (searchBox pg) \<noteq> 0
      then upd_box (\<lambda>b. b\<lparr>keyTimeout := 0\<rparr>) (clearTimeout (keyTimeout (searchBox pg)) pg)
      else pg)"

definition OnSearchFieldChange :: "site \<Rightarrow> key_event \<Rightarrow> page \<Rightarrow> page option" where
  "OnSearchFieldChange w e pg =
     (let pg = kill_key_timer pg in
      if keyCode e = 40 \<or> keyCode e = 13 then
        (if shiftKey e
         then do {
           pg \<leftarrow> OnSearchSelectShow w pg;
           focus_first_item pg
         }
         else do {
           elem \<leftarrow> NavNext (document pg) 0;
           pg \<leftarrow> (case elem of None \<Rightarrow> Some pg | Some p \<Rightarrow> focus_on p pg);
           field_changed pg
         })
      else if keyCode e = 27 then field_escape pg
      else field_changed pg)"

section \<open>Initialisation\<close>

definition select_item :: "int \<times> jstring \<Rightarrow> dom" where
  "select_item = (\<lambda>(key, label).
     Elem (setAttribute ''href'' (lit ''javascript:void(0)'')
            (setAttribute ''onclick'' (lit ''searchBox.OnSelectItem('' @ num_str key @ lit '')'')
              (setAttribute ''class'' (lit ''SelectItem'') (createElement ''a''))))
       (Elem (setAttribute ''class'' (lit ''SelectionMark'') (createElement ''span'')) (innerHTML (lit ''&#160;''))
        # innerHTML label))"

definition init_search :: "site \<Rightarrow> page \<Rightarrow> page option" where
  "init_search w pg = do {
     results \<leftarrow> by_id pg ''MSearchSelectWindow'';
     let pg = set_elem results (setAttribute ''tabindex'' (lit ''0'')) pg;
     let pg = pg\<lparr>document :=
       foldl (\<lambda>d item. appendChild results (select_item item) d) (document pg) (indexSectionLabels w)\<rparr>;
     pg \<leftarrow> OnSelectItem w 0 pg;
     input \<leftarrow> by_id pg ''MSearchSelect'';
     Some (set_elem input (setAttribute ''tabindex'' (lit ''0'')) pg)
   }"

text \<open>The listener that \<open>init_search\<close> adds to the selector.\<close>

definition select_keydown :: "site \<Rightarrow> key_event \<Rightarrow> page \<Rightarrow> page option" where
  "select_keydown w e pg =
     (if keyCode e = 13 \<or> keyCode e = 40
      then do {
        win \<leftarrow> elem_by_id pg ''MSearchSelectWindow'';
        if display win = lit ''block'' then CloseSelectionWindow pg
        else do {
          pg \<leftarrow> OnSearchSelectShow w pg;
          p \<leftarrow> by_id pg ''MSearchSelectWindow'';
          focus_on p pg
        }
      }
      else Some pg)"

section \<open>Deferred work\<close>

definition run_callback :: "site \<Rightarrow> callback \<Rightarrow> page \<Rightarrow> page option" where
  "run_callback w cb pg = (case cb of Do_Search \<Rightarrow> box_Search w pg | Do_CloseSelectionWindow \<Rightarrow> CloseSelectionWindow pg)"

text \<open>A timer that is due leaves the list and runs.\<close>

definition fire :: "site \<Rightarrow> timer \<Rightarrow> page \<Rightarrow> page option" where
  "fire w t pg = run_callback w (callback t) (clearTimeout (timer_id t) pg)"

text \<open>An index file that arrives defines \<open>searchData\<close> and runs its \<open>onload\<close>.\<close>

definition script_loaded :: "site \<Rightarrow> nat \<Rightarrow> search_entry list \<Rightarrow> page \<Rightarrow> page option" where
  "script_loaded w k data pg = do {
     let l = loading pg ! k;
     let pg = pg\<lparr>loading := take k (loading pg) @ drop (Suc k) (loading pg), searchData := Some data\<rparr>;
     handleResults w (load_idx l) (load_value l) (load_caps l) pg
   }"

section \<open>Positions are computed\<close>

text \<open>The offset parent of an element is one of its ancestors.\<close>

definition layout_ok :: "site \<Rightarrow> dom \<Rightarrow> bool" where
  "layout_ok w d \<longleftrightarrow> (\<forall>p q. offsetParent w d p = Some q \<longrightarrow> strict_suffix q p)"

lemma pos_loop_returns: "layout_ok w d \<Longrightarrow> \<exists>y. pos_loop w off d p x = Some y"
proof (induction "length p" arbitrary: p x rule: less_induct)
  case less
  show ?case
  proof (cases "is_body d p \<or> offsetParent w d p = None")
    case False
    then obtain q where q: "offsetParent w d p = Some q" by auto
    then have "strict_suffix q p" using less.prems unfolding layout_ok_def by blast
    then have "length q < length p" by (auto simp: strict_suffix_def suffix_def)
    from less.hyps [OF this less.prems, of "x + off d p"] show ?thesis
      using q False by (simp add: pos_loop.simps [of w off d p])
  qed (auto simp: pos_loop.simps [of w off d p])
qed

lemma getPos_returns:
  "layout_ok w d \<Longrightarrow> \<exists>x. getXPos w d p = Some x"
  "layout_ok w d \<Longrightarrow> \<exists>y. getYPos w d p = Some y"
  using pos_loop_returns by (auto simp: getXPos_def getYPos_def)

section \<open>Timers\<close>

text \<open>
  The timers of a page: ids are positive and not reused, and the only pending search is the
  one that \<open>keyTimeout\<close> names.
\<close>

definition timers_inv :: "timer list \<Rightarrow> nat \<Rightarrow> nat \<Rightarrow> bool" where
  "timers_inv ts n k \<longleftrightarrow>
     distinct (map timer_id ts) \<and> (\<forall>t \<in> set ts. 0 < timer_id t \<and> timer_id t < n) \<and> 0 < n \<and> k < n \<and>
     (\<forall>t \<in> set ts. callback t = Do_Search \<longleftrightarrow> timer_id t = k)"

definition timers_ok :: "page \<Rightarrow> bool" where
  "timers_ok pg \<longleftrightarrow> timers_inv (timers pg) (next_timer pg) (keyTimeout (searchBox pg))"

text \<open>With at most \<open>m\<close> pending searches that \<open>keyTimeout\<close> does not name.\<close>

definition searches :: "timer list \<Rightarrow> timer list" where
  "searches ts = List.filter (\<lambda>t. callback t = Do_Search) ts"

definition orphans :: "timer list \<Rightarrow> nat \<Rightarrow> timer list" where
  "orphans ts k = List.filter (\<lambda>t. timer_id t \<noteq> k) (searches ts)"

definition upto_inv :: "nat \<Rightarrow> timer list \<Rightarrow> nat \<Rightarrow> nat \<Rightarrow> bool" where
  "upto_inv m ts n k \<longleftrightarrow>
     distinct (map timer_id ts) \<and> (\<forall>t \<in> set ts. 0 < timer_id t \<and> timer_id t < n) \<and> 0 < n \<and> k < n \<and>
     (\<forall>t \<in> set ts. timer_id t = k \<longrightarrow> callback t = Do_Search) \<and> length (orphans ts k) \<le> m"

definition timers_upto :: "nat \<Rightarrow> page \<Rightarrow> bool" where
  "timers_upto m pg \<longleftrightarrow> upto_inv m (timers pg) (next_timer pg) (keyTimeout (searchBox pg))"

lemma distinct_map_filter_timers: "distinct (map f xs) \<Longrightarrow> distinct (map f (List.filter P xs))"
  by (induction xs) auto

lemma upto_inv_0: "upto_inv 0 ts n k \<longleftrightarrow> timers_inv ts n k"
  by (auto simp: upto_inv_def timers_inv_def orphans_def searches_def filter_empty_conv)

lemma timers_upto_0: "timers_upto 0 pg \<longleftrightarrow> timers_ok pg"
  by (simp add: timers_upto_def timers_ok_def upto_inv_0)

lemma orphans_filter: "length (orphans (List.filter P ts) k) \<le> length (orphans ts k)"
  by (induction ts) (auto simp: orphans_def searches_def)

lemma upto_inv_filter: "upto_inv m ts n k \<Longrightarrow> upto_inv m (List.filter (\<lambda>t. timer_id t \<noteq> j) ts) n k"
  using orphans_filter [of "\<lambda>t. timer_id t \<noteq> j" ts k] by (simp add: upto_inv_def distinct_map_filter_timers)

text \<open>Of the pending searches, one at most is not counted, so that one more is when \<open>keyTimeout\<close> is cleared.\<close>

lemma distinct_filter_one:
  "distinct (map f xs) \<Longrightarrow> length (List.filter P xs) \<le> Suc (length (List.filter (\<lambda>x. f x \<noteq> k) (List.filter P xs)))"
proof (induction xs)
  case (Cons x xs)
  have "List.filter (\<lambda>y. f y \<noteq> k) (List.filter P xs) = List.filter P xs" if "f x = k"
    using Cons.prems that by (intro filter_True) (force simp: image_iff)
  then show ?case using Cons by auto
qed simp

lemma upto_inv_searches: "upto_inv m ts n k \<Longrightarrow> length (searches ts) \<le> Suc m"
  using distinct_filter_one [of timer_id ts "\<lambda>t. callback t = Do_Search" k]
  by (simp add: upto_inv_def orphans_def searches_def)

lemma orphans_none: "\<forall>t \<in> set ts. timer_id t \<noteq> k \<Longrightarrow> orphans ts k = searches ts"
  unfolding orphans_def by (rule filter_True) (simp add: searches_def)

lemma orphans_0: "upto_inv m ts n k \<Longrightarrow> orphans ts 0 = searches ts"
  by (rule orphans_none) (auto simp: upto_inv_def)

lemma upto_inv_0_key: "upto_inv m ts n k \<Longrightarrow> upto_inv (Suc m) ts n 0"
  using upto_inv_searches [of m ts n k] orphans_0 [of m ts n k] by (auto simp: upto_inv_def)

text \<open>A search that is due leaves the list, and with it \<open>keyTimeout\<close> is cleared.\<close>

lemma upto_inv_due:
  assumes inv: "upto_inv m ts n k" and t: "t \<in> set ts" "callback t = Do_Search"
  shows "upto_inv m (List.filter (\<lambda>s. timer_id s \<noteq> timer_id t) ts) n 0"
proof -
  let ?ts = "List.filter (\<lambda>s. timer_id s \<noteq> timer_id t) ts"
  have inv': "upto_inv m ?ts n k" by (rule upto_inv_filter [OF inv])
  have "length (List.filter (\<lambda>s. timer_id s \<noteq> timer_id t) (searches ts)) < length (searches ts)"
    using t by (intro length_filter_less [of t]) (simp_all add: searches_def)
  moreover have "searches ?ts = List.filter (\<lambda>s. timer_id s \<noteq> timer_id t) (searches ts)"
    by (simp add: searches_def conj_commute)
  ultimately have "length (orphans ?ts 0) \<le> m" using upto_inv_searches [OF inv] orphans_0 [OF inv'] by simp
  then show ?thesis using inv' by (auto simp: upto_inv_def)
qed

lemma upto_inv_kill:
  assumes "upto_inv m ts n k"
  shows "upto_inv m (List.filter (\<lambda>t. timer_id t \<noteq> k) ts) n 0"
proof -
  let ?ts = "List.filter (\<lambda>t. timer_id t \<noteq> k) ts"
  have inv: "upto_inv m ?ts n k" by (rule upto_inv_filter [OF assms])
  have "searches ?ts = orphans ts k" by (simp add: searches_def orphans_def conj_commute)
  then show ?thesis using inv orphans_0 [OF inv] assms by (auto simp: upto_inv_def)
qed

lemma upto_inv_add_search:
  assumes "upto_inv m ts n 0"
  shows "upto_inv m (ts @ [\<lparr>timer_id = n, callback = Do_Search, delay = d\<rparr>]) (Suc n) n"
proof -
  have below: "\<forall>t \<in> set ts. 0 < timer_id t \<and> timer_id t < n" using assms by (simp add: upto_inv_def)
  then have "orphans ts n = searches ts" by (intro orphans_none) auto
  then show ?thesis
    using assms orphans_0 [OF assms] below by (fastforce simp: upto_inv_def orphans_def searches_def)
qed

lemma upto_inv_add_close:
  "upto_inv m ts n k \<Longrightarrow>
   upto_inv m (ts @ [\<lparr>timer_id = n, callback = Do_CloseSelectionWindow, delay = d\<rparr>]) (Suc n) k"
  unfolding upto_inv_def by (fastforce simp: orphans_def searches_def)

definition same_timers :: "page \<Rightarrow> page \<Rightarrow> bool" where
  "same_timers pg pg' \<longleftrightarrow>
     timers pg' = timers pg \<and> next_timer pg' = next_timer pg \<and>
     keyTimeout (searchBox pg') = keyTimeout (searchBox pg)"

lemma same_timers_upto: "same_timers pg pg' \<Longrightarrow> timers_upto m pg \<Longrightarrow> timers_upto m pg'"
  by (simp add: same_timers_def timers_upto_def)

text \<open>
  A part of the page that the operations on elements, on the focus and on the results leave
  alone. What such an operation keeps is proved once for every part.
\<close>

locale ui_frame =
  fixes f :: "page \<Rightarrow> 'a"
  assumes keeps_document: "f (pg\<lparr>document := d\<rparr>) = f pg"
    and keeps_built: "f (pg\<lparr>document := d, activeElement := a\<rparr>) = f pg"
    and keeps_active: "f (pg\<lparr>activeElement := a\<rparr>) = f pg"
    and keeps_results: "f (pg\<lparr>searchResults := r\<rparr>) = f pg"
    and keeps_stopped: "f (pg\<lparr>stopped := b\<rparr>) = f pg"
    and keeps_searchActive: "f (upd_box (\<lambda>b. b\<lparr>searchActive := x\<rparr>) pg) = f pg"
    and keeps_reset: "f (upd_box (\<lambda>b. b\<lparr>searchActive := x, lastSearchValue := v, lastResultsPage := y\<rparr>) pg) = f pg"
    and keeps_last: "f (upd_box (\<lambda>b. b\<lparr>lastSearchValue := v\<rparr>) pg) = f pg"
begin

lemmas keeps = keeps_document keeps_built keeps_active keeps_results keeps_stopped keeps_searchActive keeps_reset keeps_last

lemma on_id_keeps: "on_id s g pg = Some pg' \<Longrightarrow> f pg' = f pg"
  by (auto simp: on_id_def set_elem_def keeps split: bind_splits)

lemma style_keeps: "set_style_of s k v pg = Some pg' \<Longrightarrow> f pg' = f pg"
  unfolding set_style_of_def by (rule on_id_keeps)

lemma class_keeps: "set_class_of s c pg = Some pg' \<Longrightarrow> f pg' = f pg"
  unfolding set_class_of_def by (rule on_id_keeps)

lemma value_keeps: "set_value_of s v pg = Some pg' \<Longrightarrow> f pg' = f pg"
  unfolding set_value_of_def by (rule on_id_keeps)

lemma Activate_keeps: "Activate a pg = Some pg' \<Longrightarrow> f pg' = f pg"
  by (auto simp: Activate_def keeps split: bind_splits if_splits dest!: class_keeps value_keeps)

lemma blur_active_keeps: "blur_active pg = Some pg' \<Longrightarrow> f pg' = f pg"
  by (auto simp: blur_active_def OnSearchFieldFocus_def Let_def keeps split: option.splits if_splits
      dest!: Activate_keeps)

lemma focus_on_keeps: "focus_on p pg = Some pg' \<Longrightarrow> f pg' = f pg"
  by (auto simp: focus_on_def OnSearchFieldFocus_def Let_def keeps split: bind_splits if_splits
      dest!: Activate_keeps blur_active_keeps)

lemma CloseResultsWindow_keeps: "CloseResultsWindow pg = Some pg' \<Longrightarrow> f pg' = f pg"
  by (auto simp: CloseResultsWindow_def split: bind_splits dest!: Activate_keeps style_keeps)

lemma CloseSelectionWindow_keeps: "CloseSelectionWindow pg = Some pg' \<Longrightarrow> f pg' = f pg"
  unfolding CloseSelectionWindow_def by (rule style_keeps)

lemma focus_field_keeps: "focus_field pg = Some pg' \<Longrightarrow> f pg' = f pg"
  by (auto simp: focus_field_def split: bind_splits dest: focus_on_keeps)

lemma hide_results_keeps: "hide_results pg = Some pg' \<Longrightarrow> f pg' = f pg"
  by (auto simp: hide_results_def keeps split: bind_splits dest!: style_keeps)

lemma field_escape_keeps: "field_escape pg = Some pg' \<Longrightarrow> f pg' = f pg"
  by (auto simp: field_escape_def blur_on_def Let_def keeps split: bind_splits if_splits
      dest!: Activate_keeps hide_results_keeps blur_active_keeps)

lemma createResults_keeps: "createResults rp pg = Some pg' \<Longrightarrow> f pg' = f pg"
  by (auto simp: createResults_def Let_def keeps split: bind_splits)

lemma results_Search_keeps: "results_Search w s pg = Some (pg', b) \<Longrightarrow> f pg' = f pg"
  by (auto simp: results_Search_def Let_def keeps split: bind_splits prod.splits if_splits dest!: style_keeps)

lemma set_elem_keeps: "f (set_elem p g pg) = f pg"
  by (simp add: set_elem_def keeps)

lemma style_captured_keeps: "style_captured c k v pg = Some pg' \<Longrightarrow> f pg' = f pg"
  by (cases c) (auto simp: set_elem_keeps)

lemma show_results_keeps: "show_results w c pg = Some pg' \<Longrightarrow> f pg' = f pg"
  by (auto simp: show_results_def Let_def set_elem_keeps split: bind_splits prod.splits dest!: style_captured_keeps)

lemma handleResults_keeps: "handleResults w idx s c pg = Some pg' \<Longrightarrow> f pg' = f pg"
  by (auto simp: handleResults_def split: bind_splits if_splits prod.splits
      dest!: style_keeps createResults_keeps results_Search_keeps show_results_keeps)

lemma escape_results_keeps: "escape_results pg = Some pg' \<Longrightarrow> f pg' = f pg"
  by (auto simp: escape_results_def keeps split: bind_splits dest!: focus_field_keeps CloseResultsWindow_keeps)

lemma nav_keeps:
  "nav_up lc i pg = Some pg' \<Longrightarrow> f pg' = f pg"
  "nav_down lc i pg = Some pg' \<Longrightarrow> f pg' = f pg"
  "nav_display lc v i pg = Some pg' \<Longrightarrow> f pg' = f pg"
  "child_up i c pg = Some pg' \<Longrightarrow> f pg' = f pg"
  "child_down i c pg = Some pg' \<Longrightarrow> f pg' = f pg"
  by (auto simp: nav_up_def Let_def split: bind_splits option.splits dest: focus_on_keeps focus_field_keeps)
     (auto simp: nav_down_def Let_def split: bind_splits option.splits dest!: focus_on_keeps,
      auto simp: nav_display_def set_elem_def keeps split: bind_splits option.splits,
      auto simp: child_up_def split: bind_splits if_splits dest: focus_on_keeps,
      auto simp: child_down_def split: bind_splits option.splits dest!: focus_on_keeps)

lemma Nav_keeps:
  assumes run: "Nav lc e i pg = Some (pg', b)"
  shows "f pg' = f pg"
proof -
  obtain s go where pk: "ProcessKeys e (searchResults pg) = (s, go)" by (cases "ProcessKeys e (searchResults pg)")
  let ?pg = "pg\<lparr>searchResults := s\<rparr>"
  have "pg' = pg \<or> pg' = ?pg \<or> nav_up lc i ?pg = Some pg' \<or> nav_down lc i ?pg = Some pg' \<or>
      nav_display lc ''block'' i ?pg = Some pg' \<or> nav_display lc ''none'' i ?pg = Some pg' \<or> escape_results ?pg = Some pg'"
    using run by (auto simp: Nav_def pk Let_def bind_eq_Some_conv split: if_splits)
  then show ?thesis
    by (elim disjE) (auto simp: keeps dest: nav_keeps escape_results_keeps)
qed

lemma NavChild_keeps:
  assumes run: "NavChild e i c pg = Some (pg', b)"
  shows "f pg' = f pg"
proof -
  obtain s go where pk: "ProcessKeys e (searchResults pg) = (s, go)" by (cases "ProcessKeys e (searchResults pg)")
  let ?pg = "pg\<lparr>searchResults := s\<rparr>"
  have "pg' = pg \<or> pg' = ?pg \<or> child_up i c ?pg = Some pg' \<or> child_down i c ?pg = Some pg' \<or>
      escape_results ?pg = Some pg'"
    using run by (auto simp: NavChild_def pk Let_def bind_eq_Some_conv split: if_splits)
  then show ?thesis
    by (elim disjE) (auto simp: keeps dest: nav_keeps escape_results_keeps)
qed

lemma SelectItemSet_keeps: "SelectItemSet i pg = Some pg' \<Longrightarrow> f pg' = f pg"
  by (auto simp: SelectItemSet_def keeps split: bind_splits)

lemma focus_first_item_keeps: "focus_first_item pg = Some pg' \<Longrightarrow> f pg' = f pg"
  by (auto simp: focus_first_item_def split: bind_splits option.splits dest!: focus_on_keeps)

end

text \<open>The same for a part that the requests of index files leave alone, too.\<close>

locale request_frame = ui_frame +
  assumes keeps_loading: "f (pg\<lparr>document := d, loading := l\<rparr>) = f pg"
    and keeps_loaded: "f (pg\<lparr>loading := l, searchData := s\<rparr>) = f pg"
begin

lemma script_loaded_keeps: "script_loaded w k data pg = Some pg' \<Longrightarrow> f pg' = f pg"
  by (auto simp: script_loaded_def Let_def keeps_loaded dest!: handleResults_keeps)

lemma box_Search_keeps:
  "box_Search w pg = Some pg' \<Longrightarrow> f pg' = f (upd_box (\<lambda>b. b\<lparr>keyTimeout := 0\<rparr>) pg)"
  by (auto simp: box_Search_def loadJS_def Let_def keeps keeps_loading split: bind_splits option.splits
      dest!: handleResults_keeps)

end

definition timer_view :: "page \<Rightarrow> timer list \<times> nat \<times> nat" where
  "timer_view pg = (timers pg, next_timer pg, keyTimeout (searchBox pg))"

definition choice_view :: "page \<Rightarrow> int \<times> jstring" where
  "choice_view pg = (searchIndex (searchBox pg), resultsPath (searchBox pg))"

interpretation tm: request_frame timer_view
  by unfold_locales (simp_all add: timer_view_def upd_box_def)

interpretation ch: request_frame choice_view
  by unfold_locales (simp_all add: choice_view_def upd_box_def)

text \<open>The requests that are pending.\<close>

interpretation ld: ui_frame loading
  by unfold_locales (simp_all add: upd_box_def)

lemma same_timers_iff: "same_timers pg pg' \<longleftrightarrow> timer_view pg' = timer_view pg"
  by (auto simp: same_timers_def timer_view_def)

lemma same_timers_trans: "same_timers a b \<Longrightarrow> same_timers b c \<Longrightarrow> same_timers a c"
  by (simp add: same_timers_def)

lemmas style_timers = tm.style_keeps [folded same_timers_iff]
lemmas blur_active_timers = tm.blur_active_keeps [folded same_timers_iff]
lemmas focus_on_timers = tm.focus_on_keeps [folded same_timers_iff]
lemmas focus_field_timers = tm.focus_field_keeps [folded same_timers_iff]
lemmas focus_first_item_timers = tm.focus_first_item_keeps [folded same_timers_iff]
lemmas CloseResultsWindow_timers = tm.CloseResultsWindow_keeps [folded same_timers_iff]
lemmas hide_results_timers = tm.hide_results_keeps [folded same_timers_iff]
lemmas field_escape_timers = tm.field_escape_keeps [folded same_timers_iff]
lemmas script_loaded_timers = tm.script_loaded_keeps [folded same_timers_iff]
lemmas Nav_timers = tm.Nav_keeps [folded same_timers_iff]
lemmas NavChild_timers = tm.NavChild_keeps [folded same_timers_iff]

lemma SelectItemSet_timers: "SelectItemSet i pg = Some pg' \<Longrightarrow> same_timers pg pg' \<and> searchBox pg' = searchBox pg"
  by (auto simp: SelectItemSet_def same_timers_def split: bind_splits)

lemma box_Search_timers:
  "box_Search w pg = Some pg' \<Longrightarrow>
   timers pg' = timers pg \<and> next_timer pg' = next_timer pg \<and> keyTimeout (searchBox pg') = 0"
  using tm.box_Search_keeps [of w pg pg'] by (simp add: timer_view_def)

text \<open>Choosing a filter keeps the timers, but may clear \<open>keyTimeout\<close>.\<close>

definition kept_timers :: "page \<Rightarrow> page \<Rightarrow> bool" where
  "kept_timers pg pg' \<longleftrightarrow>
     timers pg' = timers pg \<and> next_timer pg' = next_timer pg \<and>
     keyTimeout (searchBox pg') \<in> {keyTimeout (searchBox pg), 0}"

lemma kept_timers_upto:
  "kept_timers pg pg' \<Longrightarrow> timers_upto m pg \<Longrightarrow> timers_upto (if keyTimeout (searchBox pg) = 0 then m else Suc m) pg'"
  using upto_inv_0_key by (auto simp: kept_timers_def timers_upto_def) (simp add: upto_inv_def)

lemma OnSelectItem_timers:
  "OnSelectItem w i pg = Some pg' \<Longrightarrow> kept_timers pg pg'"
  by (auto simp: OnSelectItem_def same_timers_def kept_timers_def split: bind_splits if_splits
      dest!: SelectItemSet_timers box_Search_timers)

lemma OnSearchSelectKey_timers:
  assumes "OnSearchSelectKey w e pg = Some pg'"
  shows "kept_timers pg pg'"
proof -
  have *: "kept_timers pg pg'" if "OnSelectItem w j (upd_box (\<lambda>b. b\<lparr>searchIndex := j\<rparr>) pg) = Some pg'" for j
    using OnSelectItem_timers [OF that] by (simp add: kept_timers_def)
  show ?thesis
    using assms
    by (auto simp: OnSearchSelectKey_def CloseSelectionWindow_def Let_def kept_timers_def [of _ pg']
        split: bind_splits if_splits dest!: * OnSelectItem_timers focus_field_timers style_timers)
      (simp_all add: same_timers_def kept_timers_def)
qed

section \<open>The events of a page\<close>

text \<open>
  One event: the user types, presses a key, moves the focus or the mouse, chooses a filter, a timer is due, or an index
  file arrives. The label of a step tells whether a filter is chosen, by mouse or by key, while \<open>keyTimeout\<close> names a
  search.
\<close>

inductive box_step :: "site \<Rightarrow> bool \<Rightarrow> page \<Rightarrow> page \<Rightarrow> bool" for w where
  typed: "by_id pg ''MSearchField'' = Some p \<Longrightarrow> box_step w False pg (set_elem p (\<lambda>e. e\<lparr>val := v\<rparr>) pg)"
| field_key: "OnSearchFieldChange w e pg = Some pg' \<Longrightarrow> box_step w False pg pg'"
| focus: "focus_on p pg = Some pg' \<Longrightarrow> box_step w False pg pg'"
| blur: "blur_active pg = Some pg' \<Longrightarrow> box_step w False pg pg'"
| select_show: "OnSearchSelectShow w pg = Some pg' \<Longrightarrow> box_step w False pg pg'"
| select_hide: "box_step w False pg (OnSearchSelectHide pg)"
| select: "OnSelectItem w i pg = Some pg' \<Longrightarrow> box_step w (keyTimeout (searchBox pg) \<noteq> 0) pg pg'"
| select_key: "OnSearchSelectKey w e pg = Some pg' \<Longrightarrow> box_step w (keyTimeout (searchBox pg) \<noteq> 0) pg pg'"
| open_key: "select_keydown w e pg = Some pg' \<Longrightarrow> box_step w False pg pg'"
| close: "CloseResultsWindow pg = Some pg' \<Longrightarrow> box_step w False pg pg'"
| timer: "t \<in> set (timers pg) \<Longrightarrow> fire w t pg = Some pg' \<Longrightarrow> box_step w False pg pg'"
| load: "k < length (loading pg) \<Longrightarrow> script_loaded w k data pg = Some pg' \<Longrightarrow> box_step w False pg pg'"
| nav: "Nav (unicode_lower w) e i pg = Some (pg', b) \<Longrightarrow> box_step w False pg pg'"
| nav_child: "NavChild e i c pg = Some (pg', b) \<Longrightarrow> box_step w False pg pg'"

text \<open>A run with \<open>m\<close> such choices.\<close>

inductive box_run :: "site \<Rightarrow> nat \<Rightarrow> page \<Rightarrow> page \<Rightarrow> bool" for w where
  stay: "box_run w 0 pg pg"
| step: "box_run w m pg pg1 \<Longrightarrow> box_step w b pg1 pg2 \<Longrightarrow> box_run w (if b then Suc m else m) pg pg2"

lemma clearTimeout_simps [simp]:
  "timers (clearTimeout n pg) = List.filter (\<lambda>t. timer_id t \<noteq> n) (timers pg)"
  "next_timer (clearTimeout n pg) = next_timer pg" "searchBox (clearTimeout n pg) = searchBox pg"
  by (simp_all add: clearTimeout_def)

lemma clearTimeout_ok: "timers_upto m pg \<Longrightarrow> timers_upto m (clearTimeout n pg)"
  by (simp add: timers_upto_def upto_inv_filter)

lemma OnSearchSelectShow_timers:
  assumes run: "OnSearchSelectShow w pg = Some pg'" and ok: "timers_upto m pg"
  shows "timers_upto m pg'"
proof -
  obtain p1 p2 p3 v1 v2 v3 where 1: "set_style_of ''MSearchSelectWindow'' ''display'' v1 pg = Some p1"
    and 2: "set_style_of ''MSearchSelectWindow'' ''left'' v2 p1 = Some p2"
    and 3: "set_style_of ''MSearchSelectWindow'' ''top'' v3 p2 = Some p3"
    and pg': "pg' = (if hideTimeout (searchBox p3) \<noteq> 0
           then upd_box (\<lambda>b. b\<lparr>hideTimeout := 0\<rparr>) (clearTimeout (hideTimeout (searchBox p3)) p3) else p3)"
    using run unfolding OnSearchSelectShow_def Let_def by (fastforce split: bind_splits)
  have "same_timers pg p3" using style_timers [OF 1] style_timers [OF 2] style_timers [OF 3] same_timers_trans by blast
  then have "timers_upto m p3" using ok same_timers_upto by blast
  then show ?thesis using clearTimeout_ok [of m p3 "hideTimeout (searchBox p3)"] pg'
    by (simp add: timers_upto_def)
qed

lemma setTimeout_hide_ok: "timers_upto m pg \<Longrightarrow> timers_upto m (OnSearchSelectHide pg)"
  by (simp add: timers_upto_def OnSearchSelectHide_def setTimeout_def Let_def upto_inv_add_close)

lemma kill_key_timer_ok:
  assumes "timers_upto m pg"
  shows "timers_upto m (kill_key_timer pg) \<and> keyTimeout (searchBox (kill_key_timer pg)) = 0"
  using assms upto_inv_kill by (auto simp: kill_key_timer_def timers_upto_def)

lemma field_changed_ok:
  assumes "timers_upto m pg" "keyTimeout (searchBox pg) = 0" "field_changed pg = Some pg'"
  shows "timers_upto m pg'"
proof -
  have "same_timers pg pg' \<or>
      pg' = upd_box (\<lambda>b. b\<lparr>keyTimeout := next_timer pg\<rparr>) (fst (setTimeout Do_Search (keyTimeoutLength (searchBox pg)) pg))"
    using assms(3) hide_results_timers [of pg pg']
    by (auto simp: field_changed_def Let_def setTimeout_def same_timers_def split: bind_splits if_splits)
  moreover have "upto_inv m (timers pg) (next_timer pg) 0"
    using assms(1,2) unfolding timers_upto_def by metis
  ultimately show ?thesis
    using same_timers_upto [OF _ assms(1)] by (auto simp: setTimeout_def timers_upto_def upto_inv_add_search)
qed

lemma OnSearchFieldChange_ok:
  assumes run: "OnSearchFieldChange w e pg = Some pg'" and ok: "timers_upto m pg"
  shows "timers_upto m pg'"
proof -
  let ?pg = "kill_key_timer pg"
  note k = kill_key_timer_ok [OF ok]
  consider p where "same_timers ?pg p" "field_changed p = Some pg'" | "field_escape ?pg = Some pg'"
    | p where "OnSearchSelectShow w ?pg = Some p" "focus_first_item p = Some pg'"
  proof (cases "keyCode e = 40 \<or> keyCode e = 13")
    case True
    show ?thesis
    proof (cases "shiftKey e")
      case True2: True
      then show ?thesis using run True that(3) by (auto simp: OnSearchFieldChange_def Let_def split: bind_splits)
    next
      case False
      then obtain f p where "NavNext (document ?pg) 0 = Some f"
        "(case f of None \<Rightarrow> Some ?pg | Some q \<Rightarrow> focus_on q ?pg) = Some p" "field_changed p = Some pg'"
        using run True by (auto simp: OnSearchFieldChange_def Let_def split: bind_splits)
      then show ?thesis using that(1) [of p] focus_on_timers by (cases f) (auto simp: same_timers_def)
    qed
  next
    case False
    then show ?thesis
      using run that(1) [of ?pg] that(2)
      by (auto simp: OnSearchFieldChange_def Let_def same_timers_def split: if_splits)
  qed
  then show ?thesis
  proof cases
    case 1
    have "timers_upto m p" using same_timers_upto [OF 1(1)] k by blast
    moreover have "keyTimeout (searchBox p) = 0" using 1(1) k by (simp add: same_timers_def)
    ultimately show ?thesis using 1(2) field_changed_ok by blast
  next
    case 2
    then show ?thesis using field_escape_timers k same_timers_upto by blast
  next
    case 3
    then show ?thesis using OnSearchSelectShow_timers [OF 3(1)] k focus_first_item_timers same_timers_upto by blast
  qed
qed

lemma fire_ok:
  assumes t: "t \<in> set (timers pg)" and run: "fire w t pg = Some pg'" and ok: "timers_upto m pg"
  shows "timers_upto m pg'"
proof (cases "callback t")
  case Do_Search
  then have "timers pg' = List.filter (\<lambda>s. timer_id s \<noteq> timer_id t) (timers pg) \<and>
      next_timer pg' = next_timer pg \<and> keyTimeout (searchBox pg') = 0"
    using run box_Search_timers by (fastforce simp: fire_def run_callback_def)
  then show ?thesis using upto_inv_due [OF _ t Do_Search] ok by (simp add: timers_upto_def)
next
  case Do_CloseSelectionWindow
  then have "same_timers (clearTimeout (timer_id t) pg) pg'"
    using run style_timers by (simp add: fire_def run_callback_def CloseSelectionWindow_def)
  then show ?thesis using clearTimeout_ok [OF ok] same_timers_upto by blast
qed

lemma select_keydown_timers:
  assumes "select_keydown w e pg = Some pg'" "timers_upto m pg"
  shows "timers_upto m pg'"
proof -
  have "pg' = pg \<or> CloseSelectionWindow pg = Some pg' \<or>
      (\<exists>p q. OnSearchSelectShow w pg = Some p \<and> focus_on q p = Some pg')"
    using assms(1)
    by (cases "elem_by_id pg ''MSearchSelectWindow''"; cases "OnSearchSelectShow w pg")
       (auto simp: select_keydown_def bind_eq_Some_conv split: if_splits)
  then consider "pg' = pg" | "CloseSelectionWindow pg = Some pg'"
    | p q where "OnSearchSelectShow w pg = Some p" "focus_on q p = Some pg'" by blast
  then show ?thesis
  proof cases
    case 2
    then show ?thesis using assms(2) style_timers same_timers_upto unfolding CloseSelectionWindow_def by blast
  next
    case 3
    then show ?thesis using OnSearchSelectShow_timers [OF 3(1) assms(2)] focus_on_timers same_timers_upto by blast
  qed (use assms in simp)
qed

lemma box_step_timers: "box_step w b pg pg' \<Longrightarrow> timers_upto m pg \<Longrightarrow> timers_upto (if b then Suc m else m) pg'"
proof (induction rule: box_step.induct)
  case (typed pg p v)
  then show ?case by (simp add: timers_upto_def)
next
  case (field_key e pg pg')
  then show ?case using OnSearchFieldChange_ok by simp
next
  case (select_show pg pg')
  then show ?case using OnSearchSelectShow_timers by simp
next
  case (select_hide pg)
  then show ?case using setTimeout_hide_ok by simp
next
  case (select i pg pg')
  then show ?case using kept_timers_upto [OF OnSelectItem_timers [OF select.hyps]] by auto
next
  case (select_key e pg pg')
  then show ?case using kept_timers_upto [OF OnSearchSelectKey_timers [OF select_key.hyps]] by auto
next
  case (open_key e pg pg')
  then show ?case using select_keydown_timers by simp
next
  case (timer t pg pg')
  then show ?case using fire_ok by simp
qed (simp, blast intro: same_timers_upto
      dest: focus_on_timers blur_active_timers CloseResultsWindow_timers Nav_timers NavChild_timers script_loaded_timers)+

lemma box_run_timers: "box_run w m pg pg' \<Longrightarrow> timers_upto 0 pg \<Longrightarrow> timers_upto m pg'"
proof (induction rule: box_run.induct)
  case (step m pg pg1 b pg2)
  then show ?case using box_step_timers [OF step.hyps(2)] by simp
qed

section \<open>The filter index\<close>

lemma OnSelectItem_index:
  assumes "OnSelectItem w i pg = Some pg'"
  shows "searchIndex (searchBox pg') = i"
proof -
  obtain p where p: "SelectItemSet i (upd_box (\<lambda>b. b\<lparr>searchIndex := i\<rparr>) pg) = Some p"
    and rest: "pg' = p \<or> box_Search w p = Some pg'"
    using assms by (auto simp: OnSelectItem_def split: bind_splits if_splits)
  have "choice_view p = choice_view (upd_box (\<lambda>b. b\<lparr>searchIndex := i\<rparr>) pg)"
    by (rule ch.SelectItemSet_keeps [OF p])
  moreover have "choice_view pg' = choice_view p"
    using rest ch.box_Search_keeps by (auto simp: choice_view_def)
  ultimately show ?thesis by (simp add: choice_view_def)
qed

lemma OnSearchSelectKey_index:
  assumes run: "OnSearchSelectKey w e pg = Some pg'" and cnt: "SelectItemCount pg = Some n"
  shows "searchIndex (searchBox pg') =
    (if keyCode e = 40 \<and> searchIndex (searchBox pg) < n then searchIndex (searchBox pg) + 1
     else if keyCode e = 38 \<and> 0 < searchIndex (searchBox pg) then searchIndex (searchBox pg) - 1
     else searchIndex (searchBox pg))"
proof -
  let ?i = "searchIndex (searchBox pg)"
  have enter: "searchIndex (searchBox pg') = ?i"
    if sel: "OnSelectItem w ?i (pg\<lparr>stopped := True\<rparr>) = Some p1" and "CloseSelectionWindow p1 = Some p2"
      and "focus_field p2 = Some pg'" for p1 p2
    using OnSelectItem_index [OF sel] that(2,3) ch.CloseSelectionWindow_keeps ch.focus_field_keeps
    by (fastforce simp: choice_view_def)
  show ?thesis
    using run cnt
    by (auto simp: OnSearchSelectKey_def Let_def bind_eq_Some_conv split: if_splits
        dest: OnSelectItem_index enter)
qed

text \<open>The mark of the items: a bullet for the chosen one, a blank for the others.\<close>

definition item_rank :: "dom list \<Rightarrow> nat \<Rightarrow> int" where
  "item_rank cs m = int (length (List.filter (has_class ''SelectItem'') (take m cs)))"

definition marked :: "bool \<Rightarrow> dom \<Rightarrow> dom" where
  "marked b c =
     set_children (\<lambda>ns. set_children (\<lambda>_. innerHTML (lit (if b then ''&#8226;'' else ''&#160;''))) (hd ns) # tl ns) c"

lemma mark_items_spec:
  "mark_items i j cs = Some cs' \<Longrightarrow>
   length cs' = length cs \<and>
   (\<forall>m < length cs. cs' ! m =
     (if has_class ''SelectItem'' (cs ! m) then marked (i = j + item_rank cs m) (cs ! m) else cs ! m))"
proof (induction i j cs arbitrary: cs' rule: mark_items.induct)
  case (2 i j c cs)
  show ?case
  proof (cases "has_class ''SelectItem'' c")
    case True
    then obtain n ns where ns: "children c = n # ns" using 2(3) by (cases "children c") auto
    then obtain e where c: "c = Elem e (n # ns)" by (cases c) auto
    obtain us where us: "mark_items i (j + 1) cs = Some us" and cs': "cs' = marked (i = j) c # us"
      using 2(3) True ns c by (auto simp: marked_def bind_eq_Some_conv)
    from 2(1) [OF True ns us] show ?thesis
      using True cs' by (auto simp: nth_Cons item_rank_def algebra_simps split: nat.splits)
  next
    case False
    then obtain us where us: "mark_items i j cs = Some us" and cs': "cs' = c # us"
      using 2(3) by (auto simp: bind_eq_Some_conv)
    from 2(2) [OF False us] show ?thesis
      using False cs' by (auto simp: nth_Cons item_rank_def split: nat.splits)
  qed
qed simp

lemma mark_items_total:
  assumes "\<forall>c \<in> set cs. has_class ''SelectItem'' c \<longrightarrow> children c \<noteq> []"
  shows "\<exists>cs'. mark_items i j cs = Some cs'"
  using assms
proof (induction cs arbitrary: j)
  case (Cons c cs)
  from Cons.IH [of j] Cons.IH [of "j + 1"] Cons.prems obtain a b
    where "mark_items i j cs = Some a" "mark_items i (j + 1) cs = Some b" by auto
  then show ?case using Cons.prems by (cases "children c") auto
qed simp

section \<open>What a search does\<close>

text \<open>The index file is requested, or the search runs at once without one.\<close>

lemma box_Search_loads:
  assumes ok: "page_ok pg" and sec: "indexSectionsWithContent w (searchIndex (searchBox pg)) = Some sec"
    and idx: "index_of sec (idx_char w (strip_leading (field_value pg))) = Some i"
  obtains pg' where "box_Search w pg = Some pg'"
    "loading pg' = loading pg @ [\<lparr>load_url = js_file w (searchBox pg) i, load_idx = Some i,
       load_value = strip_leading (field_value pg), load_caps = capture_elements pg\<rparr>]"
    "lastSearchValue (searchBox pg') = strip_leading (field_value pg)" "keyTimeout (searchBox pg') = 0"
proof -
  obtain field where f: "elem_by_id pg ''MSearchField'' = Some field"
    using elem_by_id_ok [OF ok, of "''MSearchField''"] by (auto simp: box_ids_def)
  obtain win where win: "by_id pg ''MSearchResultsWindow'' = Some win"
    using page_okD [OF ok, of "''MSearchResultsWindow''"] by (auto simp: box_ids_def)
  have v: "field_value pg = val field" by (simp add: field_value_def f)
  show ?thesis
    using f win sec idx
    by (intro that) (simp add: box_Search_def loadJS_def js_file_def Let_def v upd_box_def,
        simp_all add: js_file_def v capture_elements_def capture_def)
qed

lemma box_Search_no_section:
  "indexSectionsWithContent w (searchIndex (searchBox pg)) = None \<Longrightarrow> box_Search w pg = None"
  by (auto simp: box_Search_def Let_def split: bind_splits)

lemma results_box_fits:
  assumes "results_box w x y popupWidth = (t, l, wd, ht)"
  shows "10 \<le> l" "l + wd + 8 \<le> clientWidth w" "t + ht + 8 \<le> clientHeight w" "wd \<le> 300" "ht \<le> 400"
  using assms by (auto simp: results_box_def Let_def split: if_splits)

text \<open>A position and four styles: the results window becomes visible.\<close>

lemma set_style_spec:
  assumes "by_id pg s \<noteq> None"
  obtains pg' where "set_style_of s k v pg = Some pg'" "same_ids pg pg'" "searchResults pg' = searchResults pg"
    "elem_by_id pg' s = map_option (set_style k v) (elem_by_id pg s)"
    "\<And>q e. elem_at (document pg) q = Some e \<Longrightarrow> elem_id e \<noteq> lit s \<Longrightarrow> elem_at (document pg') q = Some e"
proof -
  obtain p where p: "by_id pg s = Some p" using assms by blast
  show ?thesis
  proof (rule that [of "set_elem p (set_style k v) pg"])
    show "set_style_of s k v pg = Some (set_elem p (set_style k v) pg)" by (simp add: set_style_of_def on_id_def p)
    show "elem_by_id (set_elem p (set_style k v) pg) s = map_option (set_style k v) (elem_by_id pg s)"
      using elem_by_id_set_elem [OF _ p, of "set_style k v" s] by simp
    fix q e assume "elem_at (document pg) q = Some e" "elem_id e \<noteq> lit s"
    then show "elem_at (document (set_elem p (set_style k v) pg)) q = Some e"
      using by_id_elem [OF p] by (auto simp: dom_simps)
  qed (simp_all add: same_ids_set_elem)
qed

text \<open>An operation on the popup leaves the elements outside it, and the results object.\<close>

definition popup_ids :: "string list" where
  "popup_ids = [''MSearchClose'', ''MSearchResultsWindow'']"

definition popup_only :: "page \<Rightarrow> page \<Rightarrow> bool" where
  "popup_only pg pg' \<longleftrightarrow>
     same_ids pg pg' \<and> searchResults pg' = searchResults pg \<and>
     (\<forall>q e. elem_at (document pg) q = Some e \<and> elem_id e \<notin> lit ` set popup_ids \<longrightarrow>
        elem_at (document pg') q = Some e)"

lemma popup_only_refl [simp]: "popup_only pg pg"
  by (simp add: popup_only_def)

lemma popup_only_style:
  assumes p: "popup_only pg g" and id: "id_at (document pg) p \<in> lit ` set popup_ids"
  shows "popup_only pg (set_elem p (set_style k v) g)"
  unfolding popup_only_def
proof (intro conjI allI impI)
  have "same_ids g (set_elem p (set_style k v) g)" by (simp add: same_ids_set_elem)
  then show "same_ids pg (set_elem p (set_style k v) g)" using p same_ids_trans unfolding popup_only_def by blast
  show "searchResults (set_elem p (set_style k v) g) = searchResults pg" using p by (simp add: popup_only_def)
  fix q e assume e: "elem_at (document pg) q = Some e \<and> elem_id e \<notin> lit ` set popup_ids"
  then have "q \<noteq> p" using id by (auto simp: id_at_def)
  moreover have "elem_at (document g) q = Some e" using e p unfolding popup_only_def by blast
  ultimately show "elem_at (document (set_elem p (set_style k v) g)) q = Some e" by (simp add: dom_simps)
qed

text \<open>What a closure holds, on a document where all of it was there when it was captured.\<close>

definition captures_ok :: "dom \<Rightarrow> captures \<Rightarrow> bool" where
  "captures_ok d c \<longleftrightarrow>
     (\<exists>p. cap_window c = Some p \<and> id_at d p = lit ''MSearchResultsWindow'') \<and> cap_popup c \<noteq> None \<and>
     cap_box c \<noteq> Null \<and> cap_close c \<noteq> Null \<and> (\<forall>p. cap_close c = Placed p \<longrightarrow> id_at d p = lit ''MSearchClose'')"

lemma captures_ok_cong:
  "(\<And>q. id_at d' q = id_at d q) \<Longrightarrow> captures_ok d' c = captures_ok d c"
  by (simp add: captures_ok_def)

lemma captures_ok_keep:
  assumes "captures_ok d c" "\<And>q s. s \<in> {''MSearchResultsWindow'', ''MSearchClose''} \<Longrightarrow> id_at d q = lit s \<Longrightarrow> id_at d' q = lit s"
  shows "captures_ok d' c"
  using assms unfolding captures_ok_def by blast

lemma same_ids_id_at:
  assumes "same_ids pg pg'"
  shows "id_at (document pg') q = id_at (document pg) q"
proof -
  have "map_option elem_id (elem_at (document pg') q) = map_option elem_id (elem_at (document pg) q)"
    using assms by (simp add: same_ids_def)
  then show ?thesis by (auto simp: id_at_def split: option.splits)
qed

lemma captures_ok_same: "same_ids pg pg' \<Longrightarrow> captures_ok (document pg') c = captures_ok (document pg) c"
  by (rule captures_ok_cong) (rule same_ids_id_at)

lemma by_id_id_at: "by_id pg s = Some p \<Longrightarrow> id_at (document pg) p = lit s"
  by (auto simp: id_at_def dest: by_id_elem)

lemma capture_elements_ok:
  assumes ok: "page_ok pg"
  shows "captures_ok (document pg) (capture_elements pg)"
proof -
  have "by_id pg ''MSearchResultsWindow'' \<noteq> None" "by_id pg ''MSearchResults'' \<noteq> None"
    "by_id pg ''MSearchBox'' \<noteq> None" "by_id pg ''MSearchClose'' \<noteq> None"
    using ok by (simp_all add: page_ok_def box_ids_def)
  then obtain a b c d where at: "by_id pg ''MSearchResultsWindow'' = Some a" "by_id pg ''MSearchResults'' = Some b"
    "by_id pg ''MSearchBox'' = Some c" "by_id pg ''MSearchClose'' = Some d" by blast
  show ?thesis
    using by_id_id_at [OF at(1)] by_id_id_at [OF at(4)] by (simp add: captures_ok_def capture_elements_def capture_def at)
qed

definition popup_open :: "page \<Rightarrow> captures \<Rightarrow> page \<Rightarrow> bool" where
  "popup_open pg c pg' \<longleftrightarrow> popup_only pg pg' \<and>
     (\<exists>p e. cap_window c = Some p \<and> elem_at (document pg') p = Some e \<and> display e = lit ''block'')"

lemma popup_open_style:
  assumes "popup_open pg c g" "captures_ok (document pg) c" "cap_window c = Some p" "k \<noteq> ''display''"
  shows "popup_open pg c (set_elem p (set_style k v) g)"
proof -
  have "id_at (document pg) p \<in> lit ` set popup_ids" using assms(2,3) by (simp add: captures_ok_def popup_ids_def)
  then show ?thesis
    using assms popup_only_style [of pg g p k v] by (auto simp: popup_open_def dom_simps)
qed

text \<open>The closure returns, whether the elements it holds are still there or not.\<close>

lemma captured_pos_returns:
  assumes "c \<noteq> Null" "\<And>p. \<exists>x. pos p = Some x"
  obtains x where "captured_pos pos c = Some x"
  using assms by (cases c) auto

lemma show_results_open:
  assumes ok: "captures_ok (document pg) c" and layout: "\<And>d. layout_ok w d"
  obtains pg' where "show_results w c pg = Some pg'" "popup_open pg c pg'"
proof -
  obtain win popup where win: "cap_window c = Some win" "id_at (document pg) win = lit ''MSearchResultsWindow''"
    and popup: "cap_popup c = Some popup" and box: "cap_box c \<noteq> Null" using ok by (auto simp: captures_ok_def)
  have named: "id_at (document pg) win \<in> lit ` set popup_ids" using win(2) by (simp add: popup_ids_def)
  obtain p1 where 1: "style_captured (cap_close c) ''display'' (lit ''inline-block'') pg = Some p1" "popup_only pg p1"
  proof (cases "cap_close c")
    case (Placed p)
    then have "id_at (document pg) p \<in> lit ` set popup_ids" using ok by (simp add: captures_ok_def popup_ids_def)
    then show ?thesis using that Placed popup_only_style [OF popup_only_refl] by simp
  qed (use ok that in \<open>auto simp: captures_ok_def\<close>)
  have pos: "\<exists>x. getXPos w (document p1) p = Some x" "\<exists>y. getYPos w (document p1) p = Some y" for p
    using getPos_returns [OF layout] by blast+
  obtain x where x: "captured_pos (getXPos w (document p1)) (cap_box c) = Some x" by (rule captured_pos_returns [OF box pos(1)])
  obtain y where y: "captured_pos (getYPos w (document p1)) (cap_box c) = Some y" by (rule captured_pos_returns [OF box pos(2)])
  let ?p2 = "set_elem win (set_style ''display'' (lit ''block'')) p1"
  have "id_at (document p1) win = lit ''MSearchResultsWindow''"
    using 1(2) win(2) same_ids_id_at unfolding popup_only_def by metis
  then obtain e where "elem_at (document p1) win = Some e" by (auto simp: id_at_def split: option.splits)
  then have 2: "popup_open pg c ?p2"
    using popup_only_style [OF 1(2) named] win(1) by (simp add: popup_open_def dom_simps)
  obtain t l wd ht where size: "results_box w x y (offsetWidth w (document ?p2) popup) = (t, l, wd, ht)"
    by (metis prod_cases4)
  note step = popup_open_style [OF _ ok win(1)]
  show ?thesis
    by (rule that) (simp add: show_results_def 1(1) x y win(1) popup size [simplified] Let_def, intro step 2, simp_all)
qed

section \<open>The results of a loaded index\<close>

text \<open>
  A page with everything a search uses, each id once and outside the list of results; the searches that wait for a
  file hold elements that were there when they started.
\<close>

definition page_ids :: "string list" where
  "page_ids = box_ids @ [''Loading'', ''Searching'', ''NoMatches'', ''SRResults'']"

definition search_page :: "path \<Rightarrow> page \<Rightarrow> bool" where
  "search_page r pg \<longleftrightarrow>
     by_id pg ''SRResults'' = Some r \<and> clean_page r (document pg) \<and>
     (\<forall>s \<in> set page_ids. fixed_id r (document pg) s) \<and>
     (\<forall>l \<in> set (loading pg). captures_ok (document pg) (load_caps l))"

lemma own_page_ids: "s \<in> set page_ids \<Longrightarrow> own_id s"
  by (auto simp: page_ids_def box_ids_def own_id_def lit_Cons)

lemma page_ids_elem:
  assumes "\<forall>s \<in> set page_ids. fixed_id r (document pg) s" "s \<in> set page_ids"
  obtains p e where "by_id pg s = Some p" "elem_at (document pg) p = Some e" "elem_id e = lit s"
  using fixed_id_found [of r pg s] assms own_page_ids [of s] by (auto simp: own_id_def)

lemma search_page_style:
  assumes "search_page r pg" "s \<in> set page_ids"
  obtains pg' where "set_style_of s k v pg = Some pg'" "search_page r pg'" "searchData pg' = searchData pg"
    "searchBox pg' = searchBox pg" "same_ids pg pg'"
proof -
  obtain p where p: "by_id pg s = Some p"
    using page_ids_elem assms unfolding search_page_def by blast
  have same: "same_ids pg (set_elem p (set_style k v) pg)" by (simp add: same_ids_set_elem)
  have "search_page r (set_elem p (set_style k v) pg)"
    using assms(1) fixed_id_same [OF same] clean_page_upd same_ids_by_id [OF same] captures_ok_same [OF same]
    by (simp add: search_page_def)
  then show ?thesis
    using p same by (intro that [of "set_elem p (set_style k v) pg"]) (simp_all add: set_style_of_def on_id_def)
qed

lemma fixed_id_by_id:
  assumes "fixed_id r (document pg) s" "s \<noteq> []" "id_at (document pg) p = lit s"
  shows "by_id pg s = Some p" "\<not> strict_suffix r p"
proof -
  obtain e where e: "elem_at (document pg) p = Some e" "elem_id e = lit s"
    using assms(2,3) by (auto simp: id_at_def split: option.splits)
  obtain q e' where q: "by_id pg s = Some q" "elem_at (document pg) q = Some e'" "elem_id e' = lit s"
    by (rule fixed_id_found [OF assms(1,2)])
  have "q = p" using assms(1) e q unfolding fixed_id_def by blast
  then show "by_id pg s = Some p" using q(1) by simp
  show "\<not> strict_suffix r p" using assms(1) e unfolding fixed_id_def by blast
qed

lemma captures_ok_built:
  fixes pg :: page
  assumes ok: "captures_ok (document pg) c" and fixed: "\<forall>s \<in> set page_ids. fixed_id r (document pg) s"
  shows "captures_ok (built r rp data (document pg)) c"
proof (rule captures_ok_keep [OF ok])
  fix q s assume s: "s \<in> {''MSearchResultsWindow'', ''MSearchClose''}" and q: "id_at (document pg) q = lit s"
  then have "fixed_id r (document pg) s" "s \<noteq> []" using fixed by (auto simp: page_ids_def box_ids_def)
  then have "\<not> strict_suffix r q" using q by (rule fixed_id_by_id(2))
  then show "id_at (built r rp data (document pg)) q = lit s" using q by (simp add: id_at_def built_outside)
qed

lemma row_not_page_id:
  assumes "rows_in r data (document pg)" "by_id pg s = Some p" "own_id s"
  shows "\<exists>e. elem_at (document pg) p = Some e \<and> \<not> is_row e"
proof -
  obtain e where e: "elem_at (document pg) p = Some e" "elem_id e = lit s" using by_id_elem [OF assms(2)] by blast
  have "\<not> is_row e"
  proof
    assume "is_row e"
    then obtain i where "e = row_elem (data ! i)" using assms(1) e(1) unfolding rows_in_def by blast
    then show False using e(2) assms(3) by (auto simp: own_id_def dest: sym)
  qed
  then show ?thesis using e by blast
qed

definition entry_matches :: "site \<Rightarrow> jstring \<Rightarrow> search_entry \<Rightarrow> bool" where
  "entry_matches w v x \<longleftrightarrow> row_matches (unicode_lower w) (search_word w (Some v)) (row_elem x)"

definition rows_shown :: "path \<Rightarrow> search_entry list \<Rightarrow> (search_entry \<Rightarrow> bool) \<Rightarrow> dom \<Rightarrow> bool" where
  "rows_shown r data P d \<longleftrightarrow>
     (\<forall>e < length data. \<exists>row. elem_at d (e # r) = Some row \<and> elem_id row = lit ''SR_'' @ entry_id (data ! e) \<and>
        display row = lit (if P (data ! e) then ''block'' else ''none''))"

lemma rows_shown_popup:
  assumes "rows_shown r data P (document pg)" "popup_only pg pg'"
  shows "rows_shown r data P (document pg')"
  unfolding rows_shown_def
proof (intro allI impI)
  fix e assume "e < length data"
  then obtain row where row: "elem_at (document pg) (e # r) = Some row" "elem_id row = lit ''SR_'' @ entry_id (data ! e)"
    "display row = lit (if P (data ! e) then ''block'' else ''none'')"
    using assms(1) unfolding rows_shown_def by blast
  then have "elem_id row \<notin> lit ` set popup_ids" by (auto simp: popup_ids_def lit_Cons)
  then have "elem_at (document pg') (e # r) = Some row"
    using row(1) assms(2) unfolding popup_only_def by blast
  then show "\<exists>row. elem_at (document pg') (e # r) = Some row \<and> elem_id row = lit ''SR_'' @ entry_id (data ! e) \<and>
      display row = lit (if P (data ! e) then ''block'' else ''none'')" using row by blast
qed

lemma show_row_row_elem:
  "elem_id (show_row lc s (row_elem x)) = lit ''SR_'' @ entry_id x"
  "display (show_row lc s (row_elem x)) = lit (if row_matches lc s (row_elem x) then ''block'' else ''none'')"
  by (simp_all add: show_row_def)

lemma handleResults_shows:
  assumes page: "search_page r pg" and data: "searchData pg = Some data" and layout: "\<And>d. layout_ok w d"
    and caps: "captures_ok (document pg) c"
  obtains pg' where "handleResults w (Some i) v c pg = Some pg'" "shown pg' ''MSearchResultsWindow''"
    "rows_shown r data (entry_matches w v) (document pg')"
    "lastMatchCount (searchResults pg') = length (List.filter (entry_matches w v) data)"
proof -
  have ids: "''Loading'' \<in> set page_ids" "''Searching'' \<in> set page_ids" "''NoMatches'' \<in> set page_ids"
    "''MSearchResultsWindow'' \<in> set page_ids"
    by (simp_all add: page_ids_def box_ids_def)
  obtain p1 where 1: "set_style_of ''Loading'' ''display'' (lit ''none'') pg = Some p1" "search_page r p1"
    "searchData p1 = Some data" "same_ids pg p1"
    using search_page_style [OF page ids(1), of "''display''" "lit ''none''"] data by metis
  have rs: "by_id p1 ''SRResults'' = Some r" using 1(2) by (simp add: search_page_def)
  obtain p2 where 2: "createResults (resultsPath (searchBox p1)) p1 = Some p2"
    using createResults_eq [OF rs 1(3)] by blast
  obtain b2: "document p2 = built r (resultsPath (searchBox p1)) data (document p1)" and r: "elem_at (document p1) r \<noteq> None"
    using createResults_built [OF rs 2] 1(3) by auto
  then have rows2: "rows_in r data (document p2)" and fixed2: "\<forall>s \<in> set page_ids. fixed_id r (document p2) s"
    using 1(2) rows_in_built fixed_id_built own_page_ids by (simp_all add: search_page_def)
  have caps2: "captures_ok (document p2) c"
    unfolding b2 using captures_ok_same [OF 1(4)] 1(2) caps by (intro captures_ok_built) (simp_all add: search_page_def)
  obtain n where n: "by_id p2 ''NoMatches'' = Some n" using page_ids_elem [OF fixed2 ids(3)] by blast
  let ?p3 = "set_elem n (set_style ''display'' (lit ''none'')) p2"
  have 3: "set_style_of ''NoMatches'' ''display'' (lit ''none'') p2 = Some ?p3"
    by (simp add: set_style_of_def on_id_def n)
  have rows3: "rows_in r data (document ?p3)"
    using row_not_page_id [OF rows2 n own_page_ids [OF ids(3)]] rows_in_upd [OF rows2] by auto
  have same3: "same_ids p2 ?p3" by (simp add: same_ids_set_elem)
  have fixed3: "\<forall>s \<in> set page_ids. fixed_id r (document ?p3) s" using fixed2 fixed_id_same [OF same3] by blast
  have found3: "by_id ?p3 s \<noteq> None" if "s \<in> set page_ids" for s
    using page_ids_elem [OF fixed3 that] by blast
  obtain p4 where 4: "results_Search w (Some v) ?p3 = Some (p4, True)"
    "\<And>e. e < length data \<Longrightarrow> elem_at (document p4) (e # r) =
       Some (show_row (unicode_lower w) (search_word w (Some v)) (row_elem (data ! e)))"
    "lastMatchCount (searchResults p4) = length (List.filter (entry_matches w v) data)" "same_ids ?p3 p4"
    unfolding entry_matches_def
    using search_rows_in [OF rows3 found3 [OF ids(2)] found3 [OF ids(3)], of w v] by blast
  have shown4: "rows_shown r data (entry_matches w v) (document p4)"
    using 4(2) by (simp add: rows_shown_def show_row_row_elem entry_matches_def)
  have caps4: "captures_ok (document p4) c" using caps2 captures_ok_same [OF same3] captures_ok_same [OF 4(4)] by simp
  then obtain q where q: "cap_window c = Some q" "id_at (document p4) q = lit ''MSearchResultsWindow''"
    unfolding captures_ok_def by blast
  have by4: "by_id p4 ''MSearchResultsWindow'' = Some q"
    using fixed3 ids(4) fixed_id_same [OF 4(4)] by (intro fixed_id_by_id(1) [OF _ _ q(2)]) auto
  then obtain win where win: "elem_at (document p4) q = Some win" using by_id_elem by blast
  have run: "handleResults w (Some i) v c pg =
      (if display win \<noteq> lit ''block'' then show_results w c p4 else Some p4)"
    by (simp add: handleResults_def 1(1,3) 2 3 4(1) win q(1))
  show ?thesis
  proof (cases "display win = lit ''block''")
    case True
    then show ?thesis using run shown4 4(3) win by4 by (intro that [of p4]) (auto simp: shown_def elem_by_id_def)
  next
    case False
    obtain p5 where 5: "show_results w c p4 = Some p5" "popup_open p4 c p5" by (rule show_results_open [OF caps4 layout])
    then have "rows_shown r data (entry_matches w v) (document p5)" "searchResults p5 = searchResults p4"
      using rows_shown_popup [OF shown4] by (auto simp: popup_open_def popup_only_def)
    moreover have "shown p5 ''MSearchResultsWindow''"
      using 5(2) by4 q(1) same_ids_by_id by (auto simp: shown_def elem_by_id_def popup_open_def popup_only_def)
    ultimately show ?thesis using run False 4(3) 5 by (intro that [of p5]) simp_all
  qed
qed

text \<open>For entries with ASCII ids the test is on the lower-case id itself.\<close>

lemma entry_matches_ascii:
  "ascii (entry_id x) \<Longrightarrow> entry_matches w v x \<longleftrightarrow> prefix (search_word w (Some v)) (map ascii_lower (entry_id x))"
  by (simp add: entry_matches_def row_matches_def row_match_name_ascii)

text \<open>The id of an entry is its name, converted, and a number that makes it unique.\<close>

lemma search_word_ascii:
  assumes "v \<noteq> []" "ascii v" "hd v \<noteq> 0x20" "last v \<noteq> 0x20"
  shows "search_word w (Some v) = convertToId (map ascii_lower v)"
proof -
  have "strip_leading v = v" using assms by (cases v) (simp_all add: strip_leading_def)
  moreover have "strip_trailing v = v"
    using assms(1,4) by (cases v rule: rev_cases) (simp_all add: strip_trailing_def)
  ultimately show ?thesis using assms(1,2) by (simp add: search_word_def toLowerCase_def)
qed

section \<open>Escape\<close>

lemma hide_results_spec:
  assumes ok: "page_ok pg"
  obtains pg' where "hide_results pg = Some pg'" "ui_only pg pg'" "activeElement pg' = activeElement pg"
    "stopped pg' = stopped pg" "\<not> shown pg' ''MSearchResultsWindow''" "lastSearchValue (searchBox pg') = []"
proof -
  obtain pg1 where 1: "set_style_of ''MSearchResultsWindow'' ''display'' (lit ''none'') pg = Some pg1"
    "ui_only pg pg1" "activeElement pg1 = activeElement pg" "stopped pg1 = stopped pg"
    "\<And>t. elem_by_id pg1 t = (if t = ''MSearchResultsWindow''
        then map_option (set_style ''display'' (lit ''none'')) (elem_by_id pg t) else elem_by_id pg t)"
    unfolding set_style_of_def
    by (rule on_id_spec [OF ok, of "''MSearchResultsWindow''" "set_style ''display'' (lit ''none'')"])
       (auto simp: box_ids_def)
  obtain pg2 where 2: "set_style_of ''MSearchClose'' ''display'' (lit ''none'') pg1 = Some pg2"
    "ui_only pg1 pg2" "activeElement pg2 = activeElement pg1" "stopped pg2 = stopped pg1"
    "\<And>t. elem_by_id pg2 t = (if t = ''MSearchClose''
        then map_option (set_style ''display'' (lit ''none'')) (elem_by_id pg1 t) else elem_by_id pg1 t)"
    unfolding set_style_of_def
    by (rule on_id_spec [OF ui_only_ok [OF 1(2) ok], of "''MSearchClose''" "set_style ''display'' (lit ''none'')"])
       (auto simp: box_ids_def)
  let ?p = "upd_box (\<lambda>b. b\<lparr>lastSearchValue := []\<rparr>) pg2"
  show ?thesis
  proof (rule that [of ?p])
    show "hide_results pg = Some ?p" by (simp add: hide_results_def 1(1) 2(1))
    have "ui_only pg2 ?p" by (rule upd_box_ui_only) simp
    then show "ui_only pg ?p" using 1(2) 2(2) ui_only_trans by blast
  qed (auto simp: shown_def 1 2)
qed

lemma field_escape_spec:
  assumes ok: "page_ok pg" and focus: "by_id pg ''MSearchField'' = activeElement pg"
  obtains pg' where "field_escape pg = Some pg'" "stopped pg'" "activeElement pg' = None"
    "\<not> shown pg' ''MSearchResultsWindow''" "\<not> searchActive (searchBox pg')"
    "field_value pg' = []" "lastSearchValue (searchBox pg') = []" "ui_only pg pg'"
proof -
  let ?pg = "pg\<lparr>stopped := True\<rparr>"
  obtain f where f: "by_id pg ''MSearchField'' = Some f"
    using page_okD [OF ok, of "''MSearchField''"] by (auto simp: box_ids_def)
  have ok0: "page_ok ?pg" and ui0: "ui_only pg ?pg" using ok by (simp_all add: page_ok_def ui_only_def same_ids_def)
  obtain p1 where 1: "blur_active ?pg = Some p1" "ui_only ?pg p1" "activeElement p1 = None" "stopped p1"
    by (rule blur_active_spec [OF ok0]) simp
  have ok1: "page_ok p1" by (rule ui_only_ok [OF 1(2) ok0])
  obtain p2 where 2: "hide_results p1 = Some p2" "ui_only p1 p2" "activeElement p2 = None" "stopped p2"
    "\<not> shown p2 ''MSearchResultsWindow''"
    by (rule hide_results_spec [OF ok1]) (simp add: 1(3,4))
  obtain p3 where 3: "Activate False p2 = Some p3" "ui_only p2 p3" "activeElement p3 = None" "stopped p3"
    "searchBox p3 = (searchBox p2)\<lparr>searchActive := False, lastSearchValue := [], lastResultsPage := []\<rparr>"
    "\<And>t. t \<notin> {''MSearchBox'', ''MSearchField''} \<Longrightarrow> elem_by_id p3 t = elem_by_id p2 t" "field_value p3 = []"
    using Activate_spec [OF ui_only_ok [OF 2(2) ok1], of False] 2(3-5) by force
  show ?thesis
  proof (rule that [of p3])
    show "field_escape pg = Some p3"
      using f focus by (simp add: field_escape_def blur_on_def 1(1) 2(1) 3(1))
    show "\<not> shown p3 ''MSearchResultsWindow''" using 2(5) 3(6) by (simp add: shown_def)
    show "ui_only pg p3" using ui0 1(2) 2(2) 3(2) ui_only_trans by blast
  qed (simp_all add: 3)
qed

end
