(* ===== verification/Demo_Page.thy ===== *)
theory Demo_Page
  imports Search_Box
begin

text \<open>
  The page \<open>docs/html/index.html\<close> as it stands after \<open>initMenu\<close> has placed the search box: the
  elements that the search uses, with their ids, and an index with one section. The properties
  of the search are instantiated on it.
\<close>

section \<open>The document\<close>

definition id_elem :: "string \<Rightarrow> string \<Rightarrow> elem" where
  "id_elem t i = setAttribute ''id'' (lit i) (createElement t)"

definition class_elem :: "string \<Rightarrow> string \<Rightarrow> elem" where
  "class_elem t c = setAttribute ''class'' (lit c) (createElement t)"

definition node :: "string \<Rightarrow> string \<Rightarrow> dom list \<Rightarrow> dom" where
  "node t i ds = Elem (id_elem t i) ds"

definition plain_node :: "string \<Rightarrow> string \<Rightarrow> dom list \<Rightarrow> dom" where
  "plain_node t c ds = Elem (class_elem t c) ds"

definition search_box_nodes :: dom where
  "search_box_nodes =
     node ''div'' ''MSearchBox''
       [plain_node ''span'' ''left'' [node ''span'' ''MSearchSelect'' [], node ''input'' ''MSearchField'' []],
        plain_node ''span'' ''right'' [node ''a'' ''MSearchClose'' [node ''img'' ''MSearchCloseImg'' []]]]"

definition results_nodes :: dom where
  "results_nodes =
     node ''div'' ''MSearchResultsWindow''
       [node ''div'' ''MSearchResults''
          [plain_node ''div'' ''SRPage''
             [node ''div'' ''SRIndex''
                [node ''div'' ''SRResults'' [],
                 node ''div'' ''Loading'' [], node ''div'' ''Searching'' [], node ''div'' ''NoMatches'' []]]]]"

definition index_document :: dom where
  "index_document =
     Elem (createElement ''body'')
       [search_box_nodes, node ''div'' ''MSearchSelectWindow'' [], results_nodes]"

definition index_page :: page where
  "index_page =
     \<lparr>document = index_document, activeElement = None, timers = [], next_timer = 1, loading = [],
      searchData = None, searchBox = new_SearchBox (lit ''searchBox'') (lit ''search/'') (lit ''.html''),
      searchResults = new_SearchResults, stopped = False\<rparr>"

text \<open>The index: one section with two initial letters.\<close>

definition index_site :: site where
  "index_site =
     \<lparr>unicode_lower = (\<lambda>s. s), exceeds_one = (\<lambda>s. False),
      indexSectionsWithContent = (\<lambda>i. if i = 0 then Some (lit ''dm'') else None),
      indexSectionNames = (\<lambda>i. if i = 0 then Some (lit ''all'') else None),
      indexSectionLabels = [(0, lit ''All'')], location_search = [],
      offsetLeft = (\<lambda>d p. 5), offsetTop = (\<lambda>d p. 7), offsetWidth = (\<lambda>d p. 100), offsetHeight = (\<lambda>d p. 20),
      offsetParent = (\<lambda>d p. parentNode p), clientWidth = 1200, clientHeight = 800\<rparr>"

lemma index_layout: "layout_ok index_site d"
proof -
  have "strict_suffix q p" if "parentNode p = Some q" for p q
    using that by (cases p) (auto simp: strict_suffix_def suffix_def)
  then show ?thesis by (simp add: layout_ok_def index_site_def)
qed

lemmas doc_simps = index_document_def search_box_nodes_def results_nodes_def node_def plain_node_def

lemma index_paths:
  "preorder [] index_document =
     [[], [0], [0, 0], [0, 0, 0], [1, 0, 0], [1, 0], [0, 1, 0], [0, 0, 1, 0], [1], [2], [0, 2], [0, 0, 2],
      [0, 0, 0, 2], [0, 0, 0, 0, 2], [1, 0, 0, 0, 2], [2, 0, 0, 0, 2], [3, 0, 0, 0, 2]]"
  by (simp add: doc_simps)

lemma index_elems:
  "elem_at index_document [] = Some (createElement ''body'')"
  "elem_at index_document [0] = Some (id_elem ''div'' ''MSearchBox'')"
  "elem_at index_document [0, 0] = Some (class_elem ''span'' ''left'')"
  "elem_at index_document [0, 0, 0] = Some (id_elem ''span'' ''MSearchSelect'')"
  "elem_at index_document [1, 0, 0] = Some (id_elem ''input'' ''MSearchField'')"
  "elem_at index_document [1, 0] = Some (class_elem ''span'' ''right'')"
  "elem_at index_document [0, 1, 0] = Some (id_elem ''a'' ''MSearchClose'')"
  "elem_at index_document [0, 0, 1, 0] = Some (id_elem ''img'' ''MSearchCloseImg'')"
  "elem_at index_document [1] = Some (id_elem ''div'' ''MSearchSelectWindow'')"
  "elem_at index_document [2] = Some (id_elem ''div'' ''MSearchResultsWindow'')"
  "elem_at index_document [0, 2] = Some (id_elem ''div'' ''MSearchResults'')"
  "elem_at index_document [0, 0, 2] = Some (class_elem ''div'' ''SRPage'')"
  "elem_at index_document [0, 0, 0, 2] = Some (id_elem ''div'' ''SRIndex'')"
  "elem_at index_document [0, 0, 0, 0, 2] = Some (id_elem ''div'' ''SRResults'')"
  "elem_at index_document [1, 0, 0, 0, 2] = Some (id_elem ''div'' ''Loading'')"
  "elem_at index_document [2, 0, 0, 0, 2] = Some (id_elem ''div'' ''Searching'')"
  "elem_at index_document [3, 0, 0, 0, 2] = Some (id_elem ''div'' ''NoMatches'')"
  by (simp_all add: elem_at_def doc_simps)

lemmas index_at = index_elems [simplified]

lemma node_elem_simps [simp]:
  "attrs (id_elem t i) ''id'' = Some (lit i)" "attrs (class_elem t c) ''id'' = None"
  "elem_id (id_elem t i) = lit i" "elem_id (class_elem t c) = []" "elem_id (createElement t) = []"
  "className (id_elem t i) = []" "className (class_elem t c) = lit c" "className (createElement t) = []"
  "attrs (createElement t) k = None" "val (id_elem t i) = []" "display (id_elem t i) = []"
  by (simp_all add: id_elem_def class_elem_def elem_id_def className_def setAttribute_def createElement_def display_def)

lemma index_ids:
  "by_id index_page ''MSearchBox'' = Some [0]"
  "by_id index_page ''MSearchSelect'' = Some [0, 0, 0]"
  "by_id index_page ''MSearchField'' = Some [1, 0, 0]"
  "by_id index_page ''MSearchClose'' = Some [0, 1, 0]"
  "by_id index_page ''MSearchCloseImg'' = Some [0, 0, 1, 0]"
  "by_id index_page ''MSearchSelectWindow'' = Some [1]"
  "by_id index_page ''MSearchResultsWindow'' = Some [2]"
  "by_id index_page ''MSearchResults'' = Some [0, 2]"
  "by_id index_page ''SRIndex'' = Some [0, 0, 0, 2]"
  "by_id index_page ''SRResults'' = Some [0, 0, 0, 0, 2]"
  "by_id index_page ''Loading'' = Some [1, 0, 0, 0, 2]"
  "by_id index_page ''Searching'' = Some [2, 0, 0, 0, 2]"
  "by_id index_page ''NoMatches'' = Some [3, 0, 0, 0, 2]"
  by (simp_all add: by_id_def index_page_def getElementById_def has_id_def index_paths index_at)

lemma index_page_ok: "page_ok index_page"
  by (simp add: page_ok_def box_ids_def index_ids)

text \<open>Every id occurs once, and no row is in the document yet.\<close>

lemma index_elem:
  assumes "elem_at index_document q = Some e"
  shows "elem_id e = [] \<or> (\<exists>s. by_id index_page s = Some q \<and> elem_id e = lit s \<and> hd s \<noteq> CHR ''I'' \<and> s \<noteq> [])"
    and "\<not> is_row e"
  using elem_at_preorder [OF assms] assms unfolding index_paths is_row_def
  by (auto simp: index_at index_ids)

lemma index_search_page: "search_page [0, 0, 0, 0, 2] index_page"
proof -
  let ?r = "[0, 0, 0, 0, 2] :: path"
  have doc: "document index_page = index_document" by (simp add: index_page_def)
  have item: "elem_id e \<noteq> item_name i" if "elem_at index_document q = Some e" for q e i
    using index_elem(1) [OF that] by (auto simp: item_name_def lit_Cons neq_Nil_conv)
  have "fixed_id ?r index_document s" if "s \<in> set page_ids" for s
  proof -
    have s: "s \<noteq> []" using own_page_ids [OF that] by (simp add: own_id_def)
    have "\<exists>p. by_id index_page s = Some p \<and> length p \<le> 5"
      using that by (auto simp: page_ids_def box_ids_def index_ids)
    then obtain p where p: "by_id index_page s = Some p" "length p \<le> 5" by blast
    have short: "\<not> strict_suffix ?r p" using p(2) by (auto dest: suffix_length_less)
    then obtain e where e: "elem_at index_document p = Some e" "elem_id e = lit s"
      using by_id_elem [OF p(1)] doc by auto
    have "q = p" if "elem_at index_document q = Some e'" "elem_id e' = lit s" for q e'
      using index_elem(1) [OF that(1)] that(2) p(1) s by auto
    then show ?thesis using short e unfolding fixed_id_def by blast
  qed
  moreover have "clean_page ?r index_document"
    using item index_elem(2) unfolding clean_page_def by blast
  moreover have "loading index_page = []" by (simp add: index_page_def)
  ultimately show ?thesis using doc index_ids by (simp add: search_page_def)
qed

end
