(* ===== verification/Search_Flow.thy ===== *)
theory Search_Flow
  imports Search_Box
begin

text \<open>
  From the typed word to the rows (\<open>docs/html/search/search.js\<close>): the search that the timer starts
  requests the index file by a \<open>script\<close> element in the results window, and the handler of the
  file, when it has arrived, builds the rows and shows those that match.
\<close>

section \<open>A new element without an id\<close>

lemma elem_at_appendChild:
  assumes "node_at d p = Some (Elem pe ds)"
  shows "elem_at (appendChild p (Elem e []) d) q = (if q = length ds # p then Some e else elem_at d q)"
proof (cases "strict_suffix p q")
  case False
  then have "q \<noteq> length ds # p" by (auto simp: strict_suffix_def suffix_def)
  then show ?thesis
    unfolding appendChild_def using False by (subst elem_at_upd_node_other) simp_all
next
  case True
  then obtain t where t: "q = t @ p" "t \<noteq> []" by (auto simp: strict_suffix_def suffix_def)
  then obtain s j where q: "q = (s @ [j]) @ p" by (cases t rule: rev_cases) auto
  have new: "node_at (appendChild p (Elem e []) d) q = node_at (Elem pe (ds @ [Elem e []])) (s @ [j])"
    unfolding appendChild_def q node_at_upd_node_below by (simp add: assms)
  have old: "node_at d q = node_at (Elem pe ds) (s @ [j])" unfolding q node_at_append [of d "s @ [j]" p] by (simp add: assms)
  consider "j < length ds" | "j = length ds" "s = []" | "j = length ds" "s \<noteq> []" | "length ds < j" by force
  then show ?thesis
  proof cases
    case 3
    then obtain u i where "s = u @ [i]" by (cases s rule: rev_cases) auto
    then show ?thesis using new old 3 q by (auto simp: elem_at_def node_at_append nth_append)
  qed (use new old q in \<open>auto simp: elem_at_def node_at_append nth_append\<close>)
qed

lemma clean_page_append:
  assumes "clean_page r d" "node_at d p = Some (Elem pe ds)" "\<not> is_row e" "elem_id e = []"
  shows "clean_page r (appendChild p (Elem e []) d)"
  using assms by (simp add: clean_page_def elem_at_appendChild)

lemma fixed_id_append:
  assumes "fixed_id r d s" "node_at d p = Some (Elem pe ds)" "elem_id e = []" "s \<noteq> []"
  shows "fixed_id r (appendChild p (Elem e []) d) s"
proof -
  obtain q e1 where q: "\<not> strict_suffix r q" "elem_at d q = Some e1" "elem_id e1 = lit s"
    and uniq: "\<And>q' e'. elem_at d q' = Some e' \<Longrightarrow> elem_id e' = lit s \<Longrightarrow> q' = q"
    using assms(1) unfolding fixed_id_def by blast
  have old: "elem_at d (length ds # p) = None" using assms(2) by (simp add: elem_at_def)
  then have ne: "q \<noteq> length ds # p" using q(2) by auto
  have "lit s \<noteq> []" using assms(4) by simp
  then have "q' = q" if "(if q' = length ds # p then Some e else elem_at d q') = Some e'" "elem_id e' = lit s" for q' e'
    using that uniq assms(3) by (metis option.inject)
  then show ?thesis
    unfolding fixed_id_def elem_at_appendChild [OF assms(2)] using q ne by (metis (no_types, lifting))
qed

lemma id_at_append:
  assumes "node_at d p = Some (Elem pe ds)" "elem_id e = []"
  shows "id_at (appendChild p (Elem e []) d) q = id_at d q"
proof (cases "q = length ds # p")
  case True
  then have "elem_at d q = None" using assms(1) by (simp add: elem_at_def)
  then show ?thesis using True assms(2) by (simp add: id_at_def elem_at_appendChild [OF assms(1)])
qed (simp add: id_at_def elem_at_appendChild [OF assms(1)])

lemma search_page_append:
  assumes page: "search_page r pg" and p: "node_at (document pg) p = Some (Elem pe ds)"
    and e: "\<not> is_row e" "elem_id e = []" and pg': "document pg' = appendChild p (Elem e []) (document pg)"
    and caps: "\<forall>l \<in> set (loading pg'). captures_ok (document pg) (load_caps l)"
  shows "search_page r pg'"
proof -
  have fixed: "fixed_id r (document pg') s" if "s \<in> set page_ids" for s
    unfolding pg' by (rule fixed_id_append [OF _ p e(2)])
      (use page that own_page_ids [OF that] in \<open>auto simp: search_page_def own_id_def\<close>)
  have "id_at (document pg) r = lit ''SRResults''" using page by (intro by_id_id_at) (simp add: search_page_def)
  then have "by_id pg' ''SRResults'' = Some r"
    by (intro fixed_id_by_id(1) [OF fixed]) (simp_all add: page_ids_def pg' id_at_append [OF p e(2)])
  moreover have "clean_page r (document pg')"
    unfolding pg' by (rule clean_page_append [OF _ p e]) (use page in \<open>simp add: search_page_def\<close>)
  moreover have "\<forall>l \<in> set (loading pg'). captures_ok (document pg') (load_caps l)"
    using caps captures_ok_cong [OF id_at_append [OF p e(2)]] by (simp add: pg')
  ultimately show ?thesis using fixed by (simp add: search_page_def)
qed

section \<open>The request and its answer\<close>

lemma search_page_ok: "search_page r pg \<Longrightarrow> page_ok pg"
  unfolding page_ok_def
proof
  fix s
  assume page: "search_page r pg" and s: "s \<in> set box_ids"
  then have s': "s \<in> set page_ids" by (simp add: page_ids_def)
  have "\<forall>s \<in> set page_ids. fixed_id r (document pg) s" using page by (simp add: search_page_def)
  then obtain p where "by_id pg s = Some p" by (rule page_ids_elem [OF _ s'])
  then show "by_id pg s \<noteq> None" by simp
qed

lemma loadJS_keeps:
  assumes page: "search_page r pg" and caps: "captures_ok (document pg) c"
  obtains pg' where "loadJS url idx v c pg = Some pg'" "search_page r pg'" "searchBox pg' = searchBox pg"
    "loading pg' = loading pg @ [\<lparr>load_url = url, load_idx = idx, load_value = v, load_caps = c\<rparr>]"
proof -
  obtain p e where p: "by_id pg ''MSearchResultsWindow'' = Some p" "elem_at (document pg) p = Some e"
    using page_okD [OF search_page_ok [OF page], of "''MSearchResultsWindow''"] by (auto simp: box_ids_def)
  then obtain ds where n: "node_at (document pg) p = Some (Elem e ds)"
    by (auto simp: elem_at_def split: bind_splits elim: elem_of.elims)
  let ?e = "setAttribute ''src'' url (createElement ''script'')"
  have e: "\<not> is_row ?e" "elem_id ?e = []" by (simp_all add: is_row_def elem_id_def createElement_def className_def)
  let ?pg = "pg\<lparr>document := appendChild p (Elem ?e []) (document pg),
    loading := loading pg @ [\<lparr>load_url = url, load_idx = idx, load_value = v, load_caps = c\<rparr>]\<rparr>"
  have "search_page r ?pg"
    by (rule search_page_append [OF page n e]) (use page caps in \<open>simp_all add: search_page_def\<close>)
  then show ?thesis using that [of ?pg] p(1) by (simp add: loadJS_def)
qed

lemma search_page_simps [simp]:
  "search_page r (upd_box f pg) \<longleftrightarrow> search_page r pg" "search_page r (pg\<lparr>activeElement := a\<rparr>) \<longleftrightarrow> search_page r pg"
  "search_page r (pg\<lparr>timers := ts\<rparr>) \<longleftrightarrow> search_page r pg" "search_page r (clearTimeout n pg) \<longleftrightarrow> search_page r pg"
  by (simp_all add: search_page_def clearTimeout_def)

lemmas search_page_box = search_page_simps(1)

lemma search_page_set:
  assumes page: "search_page r pg" and id: "\<And>e. attrs (f e) ''id'' = attrs e ''id''" and row: "\<And>e. is_row (f e) \<Longrightarrow> is_row e"
  shows "search_page r (set_elem p f pg)"
proof -
  have same: "same_ids pg (set_elem p f pg)" by (rule same_ids_set_elem) (rule id)
  have "elem_id (f e) = elem_id e" for e by (simp add: elem_id_def id)
  then have "clean_page r (document (set_elem p f pg))"
    using page row by (auto simp: search_page_def clean_page_def set_elem_def dom_simps split: if_splits)
  then show ?thesis
    using page fixed_id_same [OF same] same_ids_by_id [OF same] captures_ok_same [OF same] by (simp add: search_page_def)
qed

text \<open>Leaving the search field with no results shown empties it and closes the box; the page stays a search page.\<close>

lemma field_left:
  assumes page: "search_page r pg" and field: "by_id pg ''MSearchField'' = Some p" "activeElement pg = Some p"
    and closed: "\<not> shown pg ''MSearchResultsWindow''"
  obtains pg' where "blur_active pg = Some pg'" "search_page r pg'" "field_value pg' = []" "timers pg' = timers pg"
    "loading pg' = loading pg" "\<not> searchActive (searchBox pg')" "searchIndex (searchBox pg') = searchIndex (searchBox pg)"
    "resultsPath (searchBox pg') = resultsPath (searchBox pg)"
proof -
  let ?pg = "pg\<lparr>activeElement := None\<rparr>"
  have p1: "search_page r ?pg" using page by simp
  have closed': "\<not> shown ?pg ''MSearchResultsWindow''" using closed by (simp add: shown_def)
  obtain pg' where act: "Activate False ?pg = Some pg'"
    and ui: "ui_only ?pg pg'" and box: "searchBox pg' = (searchBox ?pg)\<lparr>searchActive := False, lastSearchValue := [], lastResultsPage := []\<rparr>"
    and v: "field_value pg' = []"
    by (rule Activate_spec [OF search_page_ok [OF p1], of False]) (use closed' in \<open>simp only: simp_thms if_False\<close>)
  have "\<not> is_row (setAttribute ''class'' (lit ''MSearchBoxInactive'') e)" for e
    by (simp add: is_row_def className_def setAttribute_def)
  then have cls: "search_page r (set_elem q (setAttribute ''class'' (lit ''MSearchBoxInactive'')) g)" if "search_page r g" for q g
    using that by (intro search_page_set) (simp_all add: setAttribute_def)
  have val: "search_page r (set_elem q (\<lambda>e. e\<lparr>val := []\<rparr>) g)" if "search_page r g" for q g
    using that by (intro search_page_set) (simp_all add: is_row_def className_def)
  have "search_page r pg'"
    using act closed p1 cls val
    by (auto simp: Activate_def set_class_of_def set_value_of_def on_id_def shown_def Let_def split: bind_splits if_splits)
  then show ?thesis
    using that [of pg'] field act ui box v by (simp add: blur_active_def OnSearchFieldFocus_def ui_only_def Let_def)
qed

lemma word_to_rows:
  assumes page: "search_page r pg" and sec: "indexSectionsWithContent w (searchIndex (searchBox pg)) = Some sec"
    and idx: "index_of sec (idx_char w (strip_leading (field_value pg))) = Some i" and layout: "\<And>d. layout_ok w d"
  obtains pg1 pg2 where "run_callback w Do_Search pg = Some pg1"
    "loading pg1 = loading pg @ [\<lparr>load_url = js_file w (searchBox pg) i, load_idx = Some i,
       load_value = strip_leading (field_value pg), load_caps = capture_elements pg\<rparr>]"
    "script_loaded w (length (loading pg)) data pg1 = Some pg2" "shown pg2 ''MSearchResultsWindow''"
    "rows_shown r data (entry_matches w (strip_leading (field_value pg))) (document pg2)"
    "lastMatchCount (searchResults pg2) = length (List.filter (entry_matches w (strip_leading (field_value pg))) data)"
proof -
  let ?v = "strip_leading (field_value pg)"
  let ?pg = "upd_box (\<lambda>b. b\<lparr>keyTimeout := 0\<rparr>) pg"
  obtain field where f: "elem_by_id pg ''MSearchField'' = Some field"
    using elem_by_id_ok [OF search_page_ok [OF page], of "''MSearchField''"] by (auto simp: box_ids_def)
  have v: "field_value pg = val field" by (simp add: field_value_def f)
  let ?c = "capture_elements pg"
  have c: "capture_elements ?pg = ?c" by (simp add: capture_elements_def capture_def)
  have caps: "captures_ok (document ?pg) ?c" using capture_elements_ok [OF search_page_ok [OF page]] by simp
  have "search_page r ?pg" using page by (simp add: search_page_box)
  from loadJS_keeps [OF this caps, of "js_file w (searchBox pg) i" "Some i" ?v] obtain pgl where
    l: "loadJS (js_file w (searchBox pg) i) (Some i) ?v ?c ?pg = Some pgl" "search_page r pgl"
      "loading pgl = loading pg @ [\<lparr>load_url = js_file w (searchBox pg) i, load_idx = Some i, load_value = ?v, load_caps = ?c\<rparr>]"
    by auto
  let ?pg1 = "upd_box (\<lambda>b. b\<lparr>lastSearchValue := ?v\<rparr>) pgl"
  have js: "js_file w (b\<lparr>keyTimeout := k\<rparr>) j = js_file w b j" for b k j by (simp add: js_file_def)
  have run: "run_callback w Do_Search pg = Some ?pg1"
    using f sec idx l(1) by (simp add: run_callback_def box_Search_def Let_def v js c)
  have loading: "loading ?pg1 =
      loading pg @ [\<lparr>load_url = js_file w (searchBox pg) i, load_idx = Some i, load_value = ?v, load_caps = ?c\<rparr>]"
    by (simp add: l(3))
  let ?k = "length (loading pg)"
  let ?pgd = "?pg1\<lparr>loading := take ?k (loading ?pg1) @ drop (Suc ?k) (loading ?pg1), searchData := Some data\<rparr>"
  have page1: "search_page r ?pgd" using l(2) by (simp add: search_page_def by_id_def l(3))
  have caps1: "captures_ok (document ?pgd) ?c" using l(2) by (simp add: search_page_def l(3))
  have data: "searchData ?pgd = Some data" by simp
  obtain pg2 where h: "handleResults w (Some i) ?v ?c ?pgd = Some pg2" "shown pg2 ''MSearchResultsWindow''"
    "rows_shown r data (entry_matches w ?v) (document pg2)"
    "lastMatchCount (searchResults pg2) = length (List.filter (entry_matches w ?v) data)"
    by (rule handleResults_shows [OF page1 data layout caps1])
  have "script_loaded w ?k data ?pg1 = Some pg2"
    using h(1) by (simp add: script_loaded_def Let_def l(3))
  then show ?thesis using that run loading h(2-4) by blast
qed

end
