(* ===== verification/Search_Events.thy ===== *)
theory Search_Events
  imports Search_Flow
begin

text \<open>
  The search page as a whole: the events that \<open>docs/html/search/search.js\<close> handles, in any order, and
  the shape of the document that its handlers rely on. A handler that meets a document of another
  shape throws a TypeError (\<^term>\<open>None\<close>); the theorems say that every handler returns on a page of
  this shape and leaves one behind.
\<close>

section \<open>The shape of the document\<close>

text \<open>The ids in the list of results, and where they point; none of them is an id that the scripts look up.\<close>

definition rows_typed :: "path \<Rightarrow> (path \<Rightarrow> jstring) \<Rightarrow> bool" where
  "rows_typed r ids \<longleftrightarrow>
     (\<forall>q i. ids q = item_name i \<longrightarrow> strict_suffix r q \<and> (\<exists>a b p. q = a # b # p \<and> ids p \<noteq> [])) \<and>
     (\<forall>q i c. ids q = child_name i c \<longrightarrow> strict_suffix r q \<and> 0 \<le> c \<and> (\<exists>p. ids p = item_name i) \<and>
        (0 < c \<longrightarrow> (\<exists>p. ids p = child_name i (c - 1)))) \<and>
     (\<forall>q s. strict_suffix r q \<and> own_id s \<longrightarrow> ids q \<noteq> lit s)"

text \<open>
  The ids outside the list of results, \<open>B\<close>: the list and the filter popup are there only once, there is no id
  inside the popup, and all elements that the scripts look up are there.
\<close>

definition base_shape :: "path \<Rightarrow> (path \<Rightarrow> jstring) \<Rightarrow> bool" where
  "base_shape r B \<longleftrightarrow> B r = lit ''SRResults'' \<and>
     (\<forall>s \<in> {''SRResults'', ''MSearchSelectWindow''}. \<forall>p q. \<not> strict_suffix r p \<and> \<not> strict_suffix r q \<and>
        B p = lit s \<and> B q = lit s \<longrightarrow> p = q) \<and>
     (\<forall>win q. \<not> strict_suffix r win \<and> B win = lit ''MSearchSelectWindow'' \<and> strict_suffix win q \<and> \<not> strict_suffix r q \<longrightarrow>
        B q = [])"

definition base_typed :: "path \<Rightarrow> (path \<Rightarrow> jstring) \<Rightarrow> bool" where
  "base_typed r B \<longleftrightarrow> base_shape r B \<and> (\<forall>s \<in> set page_ids. \<exists>p. \<not> strict_suffix r p \<and> B p = lit s)"

text \<open>The items of the filter popup have a first child.\<close>

definition popup_typed :: "dom \<Rightarrow> bool" where
  "popup_typed d \<longleftrightarrow>
     (\<forall>win i. id_at d win = lit ''MSearchSelectWindow'' \<and> elem_at d (i # win) \<noteq> None \<longrightarrow> elem_at d (0 # i # win) \<noteq> None)"

definition typed_doc :: "path \<Rightarrow> (path \<Rightarrow> jstring) \<Rightarrow> dom \<Rightarrow> bool" where
  "typed_doc r B d \<longleftrightarrow> base_typed r B \<and> (\<forall>q. \<not> strict_suffix r q \<longrightarrow> id_at d q = B q) \<and>
     rows_typed r (id_at d) \<and> popup_typed d"

text \<open>A page with \<open>n\<close> filters, one of which is chosen; no search that waits for its file holds a null.\<close>

definition waits_ok :: "page \<Rightarrow> bool" where
  "waits_ok pg \<longleftrightarrow> (\<forall>l \<in> set (loading pg). captures_ok (document pg) (load_caps l))"

definition page_typed :: "int \<Rightarrow> path \<Rightarrow> (path \<Rightarrow> jstring) \<Rightarrow> page \<Rightarrow> bool" where
  "page_typed n r B pg \<longleftrightarrow>
     typed_doc r B (document pg) \<and> waits_ok pg \<and>
     0 \<le> searchIndex (searchBox pg) \<and> searchIndex (searchBox pg) < n"

section \<open>Looking up ids\<close>

lemma id_at_attrs: "i \<noteq> [] \<Longrightarrow> id_at d p = i \<longleftrightarrow> (\<exists>e. elem_at d p = Some e \<and> attrs e ''id'' = Some i)"
  by (auto simp: id_at_def elem_id_def split: option.splits)

lemma getElementById_id: "getElementById d i = Some p \<Longrightarrow> id_at d p = i"
  by (auto simp: id_at_def elem_id_def dest!: getElementById_SomeD)

lemma getElementById_no_id: "i \<noteq> [] \<Longrightarrow> getElementById d i = None \<longleftrightarrow> (\<forall>p. id_at d p \<noteq> i)"
  by (auto simp: getElementById_None_iff id_at_attrs)

lemma id_at_elem: "id_at d p \<noteq> [] \<Longrightarrow> \<exists>e. elem_at d p = Some e \<and> elem_id e = id_at d p"
  by (auto simp: id_at_def split: option.splits)

lemma id_at_Some: "elem_at d p = Some e \<Longrightarrow> id_at d p = elem_id e"
  by (simp add: id_at_def)

lemma id_at_None: "elem_at d p = None \<Longrightarrow> id_at d p = []"
  by (simp add: id_at_def)

lemma child_name_not_Nil [simp]: "child_name i c \<noteq> []"
  by (simp add: child_name_def)

lemma page_id_not_Nil: "s \<in> set page_ids \<Longrightarrow> lit s \<noteq> []"
  using own_page_ids by (auto simp: own_id_def)

lemma typed_docD:
  assumes "typed_doc r B d"
  shows "base_typed r B" "\<not> strict_suffix r q \<Longrightarrow> id_at d q = B q" "rows_typed r (id_at d)" "popup_typed d"
  using assms by (simp_all add: typed_doc_def)

lemma typed_outside:
  assumes "typed_doc r B d" "id_at d q = lit s" "s \<in> set page_ids"
  shows "\<not> strict_suffix r q"
  using typed_docD(3) [OF assms(1)] own_page_ids [OF assms(3)] assms(2) unfolding rows_typed_def by blast

lemma typed_lookup:
  assumes "typed_doc r B (document pg)" "s \<in> set page_ids"
  obtains p where "by_id pg s = Some p" "id_at (document pg) p = lit s" "\<not> strict_suffix r p" "B p = lit s"
proof -
  note base = typed_docD(1) [OF assms(1)] and out = typed_docD(2) [OF assms(1)]
  obtain p where "\<not> strict_suffix r p" "B p = lit s" using base assms(2) unfolding base_typed_def base_shape_def by blast
  then have "id_at (document pg) p = lit s" using out by simp
  then have "by_id pg s \<noteq> None"
    using page_id_not_Nil [OF assms(2)] by (auto simp: by_id_def getElementById_no_id)
  then obtain q where q: "by_id pg s = Some q" by blast
  then have id: "id_at (document pg) q = lit s" by (auto simp: by_id_def dest: getElementById_id)
  have "\<not> strict_suffix r q" by (rule typed_outside [OF assms(1) id assms(2)])
  then show ?thesis using that q id out by simp
qed

lemma typed_unique:
  assumes "typed_doc r B d" "s \<in> {''SRResults'', ''MSearchSelectWindow''}" "id_at d p = lit s" "id_at d q = lit s"
  shows "p = q"
proof -
  have s: "s \<in> set page_ids" using assms(2) by (auto simp: page_ids_def box_ids_def)
  have p: "\<not> strict_suffix r p" and q: "\<not> strict_suffix r q"
    using typed_outside [OF assms(1) assms(3) s] typed_outside [OF assms(1) assms(4) s] by auto
  then have "B p = lit s" "B q = lit s" using typed_docD(2) [OF assms(1)] assms(3,4) by auto
  then show ?thesis using typed_docD(1) [OF assms(1)] p q assms(2) unfolding base_typed_def base_shape_def by blast
qed

lemma page_ids_simps:
  "''MSearchField'' \<in> set page_ids" "''MSearchSelect'' \<in> set page_ids" "''MSearchSelectWindow'' \<in> set page_ids"
  "''MSearchResults'' \<in> set page_ids" "''MSearchResultsWindow'' \<in> set page_ids" "''MSearchClose'' \<in> set page_ids"
  "''MSearchBox'' \<in> set page_ids" "''Loading'' \<in> set page_ids" "''Searching'' \<in> set page_ids" "''NoMatches'' \<in> set page_ids"
  "''SRResults'' \<in> set page_ids"
  by (simp_all add: page_ids_def box_ids_def)

text \<open>Below the filter popup there are no ids, and no rows.\<close>

lemma below_popup:
  assumes "typed_doc r B d" "id_at d win = lit ''MSearchSelectWindow''" "strict_suffix win q"
  shows "\<not> strict_suffix r q" "id_at d q = []"
proof -
  have w: "\<not> strict_suffix r win" by (rule typed_outside [OF assms(1,2) page_ids_simps(3)])
  then have B: "B win = lit ''MSearchSelectWindow''" using typed_docD(2) [OF assms(1)] assms(2) by auto
  note base = typed_docD(1) [OF assms(1)]
  have inside: "B u = []" if "strict_suffix win u" "\<not> strict_suffix r u" for u
    using base w B that unfolding base_typed_def base_shape_def by blast
  show q: "\<not> strict_suffix r q"
  proof
    assume "strict_suffix r q"
    then have "suffix r win \<or> suffix win r"
      using assms(3) by (meson strict_suffix_def suffix_same_cases)
    then have "win = r \<or> strict_suffix win r" using w by (auto simp: strict_suffix_def)
    moreover have "B r = lit ''SRResults''" using base by (simp add: base_typed_def base_shape_def)
    ultimately show False using inside [of r] B by auto
  qed
  then show "id_at d q = []" using inside [OF assms(3) q] typed_docD(2) [OF assms(1) q] by simp
qed

lemma typed_doc_page_ok: "typed_doc r B (document pg) \<Longrightarrow> page_ok pg"
  unfolding page_ok_def
proof
  fix s assume t: "typed_doc r B (document pg)" and "s \<in> set box_ids"
  then have "s \<in> set page_ids" by (simp add: page_ids_def)
  with t obtain p where "by_id pg s = Some p" by (rule typed_lookup)
  then show "by_id pg s \<noteq> None" by simp
qed

lemma typed_results:
  assumes "typed_doc r B (document pg)"
  shows "by_id pg ''SRResults'' = Some r"
proof -
  from assms page_ids_simps(11) obtain p where p: "by_id pg ''SRResults'' = Some p" "id_at (document pg) p = lit ''SRResults''"
    by (rule typed_lookup)
  have "id_at (document pg) r = lit ''SRResults''"
    using typed_docD(1,2) [OF assms] by (simp add: base_typed_def base_shape_def)
  then have "p = r" using typed_unique [OF assms _ p(2)] by simp
  then show ?thesis using p(1) by simp
qed

lemma typed_items_ok:
  assumes "typed_doc r B d"
  shows "items_ok d"
  unfolding items_ok_def
proof (intro allI impI)
  fix i p assume "getElementById d (item_name i) = Some p"
  then have "id_at d p = item_name i" by (rule getElementById_id)
  then obtain a b q where q: "p = a # b # q" "id_at d q \<noteq> []"
    using assms unfolding typed_doc_def rows_typed_def by blast
  then show "\<exists>r row. row_of d p = Some (r, row) \<and> elem_id row \<noteq> []"
    using id_at_elem [OF q(2)] by (auto simp: row_of_def)
qed

lemma typed_child:
  assumes "typed_doc r B d" "getElementById d (child_name i c) \<noteq> None"
  shows "0 \<le> c" "getElementById d (item_name i) \<noteq> None"
    "0 < c \<Longrightarrow> getElementById d (child_name i (c - 1)) \<noteq> None"
proof -
  obtain p where "id_at d p = child_name i c" using assms(2) getElementById_id by blast
  then have "0 \<le> c \<and> (\<exists>p. id_at d p = item_name i) \<and> (0 < c \<longrightarrow> (\<exists>p. id_at d p = child_name i (c - 1)))"
    using assms(1) unfolding typed_doc_def rows_typed_def by blast
  then show "0 \<le> c" "getElementById d (item_name i) \<noteq> None"
    "0 < c \<Longrightarrow> getElementById d (child_name i (c - 1)) \<noteq> None"
    by (auto simp: getElementById_no_id)
qed

section \<open>Changes that keep the shape\<close>

lemma typed_doc_cong:
  assumes "typed_doc r B d" "\<And>q. id_at d' q = id_at d q"
    and "\<And>win i. id_at d win = lit ''MSearchSelectWindow'' \<Longrightarrow> elem_at d' (i # win) \<noteq> None \<Longrightarrow>
      elem_at d' (0 # i # win) \<noteq> None"
  shows "typed_doc r B d'"
proof -
  have "id_at d' = id_at d" using assms(2) by (rule ext)
  then show ?thesis using assms(1,3) by (simp add: typed_doc_def popup_typed_def)
qed

lemma typed_doc_same:
  assumes "same_ids pg pg'" "typed_doc r B (document pg)"
  shows "typed_doc r B (document pg')"
proof (rule typed_doc_cong [OF assms(2)])
  have ids: "map_option elem_id (elem_at (document pg') q) = map_option elem_id (elem_at (document pg) q)" for q
    using assms(1) by (simp add: same_ids_def)
  then have ex: "elem_at (document pg') q = None \<longleftrightarrow> elem_at (document pg) q = None" for q
    by (metis option.map_disc_iff)
  show "id_at (document pg') q = id_at (document pg) q" for q
    using ids [of q] by (auto simp: id_at_def split: option.splits)
  show "elem_at (document pg') (0 # i # win) \<noteq> None"
    if "id_at (document pg) win = lit ''MSearchSelectWindow''" "elem_at (document pg') (i # win) \<noteq> None" for win i
    using typed_docD(4) [OF assms(2)] that unfolding popup_typed_def ex by blast
qed

text \<open>What the closures hold stays typed when the ids stay.\<close>

lemma waits_ok_ids:
  assumes "waits_ok pg" "\<And>q. id_at (document pg') q = id_at (document pg) q" "set (loading pg') \<subseteq> set (loading pg)"
  shows "waits_ok pg'"
  using assms(1,3) captures_ok_cong [OF assms(2)] unfolding waits_ok_def by blast

lemma waits_ok_same: "same_ids pg pg' \<Longrightarrow> loading pg' = loading pg \<Longrightarrow> waits_ok pg \<Longrightarrow> waits_ok pg'"
  by (erule waits_ok_ids) (simp_all add: same_ids_id_at)

lemma page_typed_ui: "ui_only pg pg' \<Longrightarrow> page_typed n r B pg \<Longrightarrow> page_typed n r B pg'"
  by (auto simp: page_typed_def ui_only_def intro: typed_doc_same waits_ok_same)

lemma page_typed_same:
  "same_ids pg pg' \<Longrightarrow> choice_view pg' = choice_view pg \<Longrightarrow> loading pg' = loading pg \<Longrightarrow> page_typed n r B pg \<Longrightarrow>
   page_typed n r B pg'"
  by (auto simp: page_typed_def choice_view_def intro: typed_doc_same waits_ok_same)

lemma waits_ok_simps [simp]:
  "waits_ok (pg\<lparr>timers := ts\<rparr>) = waits_ok pg" "waits_ok (pg\<lparr>next_timer := k\<rparr>) = waits_ok pg"
  "waits_ok (pg\<lparr>searchData := xs\<rparr>) = waits_ok pg" "waits_ok (pg\<lparr>stopped := b\<rparr>) = waits_ok pg"
  "waits_ok (pg\<lparr>activeElement := a\<rparr>) = waits_ok pg" "waits_ok (pg\<lparr>searchResults := x\<rparr>) = waits_ok pg"
  "waits_ok (clearTimeout t pg) = waits_ok pg" "waits_ok (upd_box g pg) = waits_ok pg"
  by (simp_all add: waits_ok_def clearTimeout_def)

lemma page_typed_simps [simp]:
  "page_typed n r B (pg\<lparr>timers := ts\<rparr>) = page_typed n r B pg" "page_typed n r B (pg\<lparr>next_timer := k\<rparr>) = page_typed n r B pg"
  "page_typed n r B (pg\<lparr>searchData := xs\<rparr>) = page_typed n r B pg"
  "page_typed n r B (pg\<lparr>stopped := b\<rparr>) = page_typed n r B pg" "page_typed n r B (pg\<lparr>activeElement := a\<rparr>) = page_typed n r B pg"
  "page_typed n r B (pg\<lparr>searchResults := x\<rparr>) = page_typed n r B pg"
  "page_typed n r B (clearTimeout t pg) = page_typed n r B pg"
  by (simp_all add: page_typed_def) (simp_all add: clearTimeout_def)

lemma page_typed_box:
  "(\<And>b. searchIndex (g b) = searchIndex b) \<Longrightarrow> page_typed n r B (upd_box g pg) = page_typed n r B pg"
  by (simp add: page_typed_def)

text \<open>Building the rows.\<close>

lemma id_at_built_outside: "\<not> strict_suffix r q \<Longrightarrow> id_at (built r rp data d) q = id_at d q"
  by (simp add: id_at_def built_outside)

lemma strict_suffix_Cons: "strict_suffix p (i # p)" "strict_suffix p (j # i # p)"
  by (auto simp: strict_suffix_def suffix_def)

lemma rows_typed_built:
  assumes t: "typed_doc r B d"
  shows "rows_typed r (id_at (built r rp data d))"
proof -
  let ?d = "built r rp data d"
  note rows = typed_docD(3) [OF t]
  have "id_at d r = lit ''SRResults''" using typed_docD(1,2) [OF t] by (simp add: base_typed_def base_shape_def)
  then have r: "elem_at d r \<noteq> None" using id_at_elem [of d r] by auto
  have items: "items_below r d"
    using rows unfolding items_below_def rows_typed_def id_at_def by (metis option.case(2))
  have out: "elem_id el \<noteq> child_name i c" if "elem_at d q = Some el" "\<not> strict_suffix r q" for q el i c
    using rows that unfolding rows_typed_def id_at_def by (metis option.case(2))
  show ?thesis
    unfolding rows_typed_def
  proof (intro conjI allI impI)
    fix q i assume "id_at ?d q = item_name i"
    then obtain el where el: "elem_at ?d q = Some el" "elem_id el = item_name i" using id_at_elem [of ?d q] by auto
    from built_item_at [OF r items el] have q: "0 \<le> i" "nat i < length data" "q = 0 # 0 # nat i # r" by auto
    then show "strict_suffix r q" by (auto simp: strict_suffix_def suffix_def)
    have "id_at ?d (nat i # r) \<noteq> []"
      using built_at [OF r, of rp data "[]" "nat i"] q(2) by (simp add: id_at_def srResult_eq)
    then show "\<exists>a b p. q = a # b # p \<and> id_at ?d p \<noteq> []" using q(3) by blast
  next
    fix q i c assume "id_at ?d q = child_name i c"
    then obtain el where el: "elem_at ?d q = Some el" "elem_id el = child_name i c" using id_at_elem [of ?d q] by auto
    show "strict_suffix r q" using out el built_outside by metis
    from built_child_at [OF r _ el] out obtain e m where m: "i = int e" "c = int m" "e < length data"
      "\<not> single (data ! e)" "m < length (entry_targets (data ! e))" by blast
    show "0 \<le> c" using m(2) by simp
    show "\<exists>p. id_at ?d p = item_name i"
      unfolding m(1) using built_item_link [OF r m(3), of rp] id_at_Some by metis
    show "\<exists>p. id_at ?d p = child_name i (c - 1)" if pos: "0 < c"
    proof -
      obtain k where k: "m = Suc k" using pos m(2) by (cases m) auto
      have "k < length (entry_targets (data ! e))" using k m(5) by simp
      from built_child [OF r m(3,4) this, of rp] obtain p where "id_at ?d p = child_name (int e) (int k)"
        using id_at_Some by metis
      then show ?thesis using m(1,2) k by auto
    qed
  next
    fix q s assume q: "strict_suffix r q \<and> own_id s"
    show "id_at ?d q \<noteq> lit s"
    proof
      assume "id_at ?d q = lit s"
      then obtain el where el: "elem_at ?d q = Some el" "elem_id el = lit s"
        using id_at_elem [of ?d q] q by (auto simp: own_id_def)
      from built_below [OF r el(1)] q obtain u e
        where "elem_at (srResult rp e (data ! e)) u = Some el" by blast
      then show False using row_ids [OF elem_at_elems] q el(2) by blast
    qed
  qed
qed

lemma typed_doc_built:
  assumes t: "typed_doc r B d"
  shows "typed_doc r B (built r rp data d)"
proof -
  let ?d = "built r rp data d"
  have out: "id_at ?d q = B q" if "\<not> strict_suffix r q" for q
    using typed_docD(2) [OF t that] id_at_built_outside [OF that] by simp
  moreover have "popup_typed ?d"
    unfolding popup_typed_def
  proof (intro allI impI)
    fix win i assume w: "id_at ?d win = lit ''MSearchSelectWindow'' \<and> elem_at ?d (i # win) \<noteq> None"
    have "\<not> strict_suffix r win"
      using rows_typed_built [OF t, of rp data] own_page_ids [OF page_ids_simps(3)] w unfolding rows_typed_def by blast
    then have id: "id_at d win = lit ''MSearchSelectWindow''" using w id_at_built_outside by metis
    have same: "elem_at ?d q = elem_at d q" if "strict_suffix win q" for q
      by (rule built_outside) (rule below_popup(1) [OF t id that])
    show "elem_at ?d (0 # i # win) \<noteq> None"
      using w id typed_docD(4) [OF t] same [OF strict_suffix_Cons(1)] same [OF strict_suffix_Cons(2)]
      unfolding popup_typed_def by metis
  qed
  ultimately show ?thesis using typed_docD(1) [OF t] rows_typed_built [OF t] by (simp add: typed_doc_def)
qed

text \<open>Appending an element without ids, and marking the chosen filter.\<close>

lemma id_at_child:
  assumes "id_at d p = lit s" "s \<noteq> []"
  obtains e ds where "node_at d p = Some (Elem e ds)" "elem_id e = lit s"
proof -
  obtain e where "elem_at d p = Some e" "elem_id e = lit s" using id_at_elem [of d p] assms by auto
  then show ?thesis using that by (auto simp: elem_at_def split: bind_splits elim: elem_of.elims)
qed

lemma typed_doc_append:
  assumes t: "typed_doc r B d" and p: "node_at d p = Some (Elem pe ds)"
    and n: "\<And>s e. elem_at n s = Some e \<Longrightarrow> elem_id e = []"
    and first: "id_at d p = lit ''MSearchSelectWindow'' \<Longrightarrow> elem_at n [0] \<noteq> None"
    and inside: "id_at d p \<noteq> []"
  shows "typed_doc r B (appendChild p n d)" "id_at (appendChild p n d) q = id_at d q"
proof -
  let ?d = "appendChild p n d"
  have new: "elem_at ?d (s @ length ds # p) = elem_at n s" for s by (rule elem_at_appended(1) [OF p])
  have old: "elem_at ?d q = elem_at d q" if "\<And>s. q \<noteq> s @ length ds # p" for q by (rule elem_at_appended(2) [OF p that])
  have none: "elem_at d (s @ length ds # p) = None" for s
    using elem_at_node [of d "s @ [length ds]" p] by (simp add: p elem_at_snoc)
  have ids: "id_at ?d q = id_at d q" for q
  proof (cases "\<exists>s. q = s @ length ds # p")
    case True
    then show ?thesis using new none n by (auto simp: id_at_def split: option.splits)
  qed (use old in \<open>simp add: id_at_def\<close>)
  then show "id_at ?d q = id_at d q" .
  show "typed_doc r B ?d"
  proof (rule typed_doc_cong [OF t ids])
    fix win i
    assume win: "id_at d win = lit ''MSearchSelectWindow''" and at: "elem_at ?d (i # win) \<noteq> None"
    have typed: "popup_typed d" using t by (simp add: typed_doc_def)
    show "elem_at ?d (0 # i # win) \<noteq> None"
    proof (cases "\<exists>s. i # win = s @ length ds # p")
      case True
      then obtain s where s: "i # win = s @ length ds # p" by blast
      show ?thesis
      proof (cases s)
        case Nil
        then have "i = length ds" "win = p" using s by simp_all
        then show ?thesis using new [of "[0]"] first win by simp
      next
        case (Cons j s')
        then have "win = s' @ length ds # p" using s by simp
        then show ?thesis using none [of s'] win by (simp add: id_at_def)
      qed
    next
      case False
      then have "elem_at d (i # win) \<noteq> None" using at old by simp
      then have there: "elem_at d (0 # i # win) \<noteq> None" using typed win unfolding popup_typed_def by blast
      then have "\<nexists>s. 0 # i # win = s @ length ds # p" using none by metis
      then show ?thesis using old there by metis
    qed
  qed
qed

lemma elem_at_marked:
  assumes "children c \<noteq> []"
  shows "elem_at (marked b c) s = Some e \<Longrightarrow> elem_at c s = Some e"
    and "elem_at (marked b c) [] = elem_at c []" and "elem_at (marked b c) [0] = elem_at c [0]"
proof -
  obtain e' n ns where c: "c = Elem e' (n # ns)" using assms by (cases c; cases "children c") auto
  let ?m = "set_children (\<lambda>_. innerHTML (lit (if b then ''&#8226;'' else ''&#160;''))) n"
  have m: "marked b (Elem e' (n # ns)) = Elem e' (?m # ns)" by (simp add: marked_def)
  have sub: "elem_at n t = Some e" if "elem_at ?m t = Some e" for t
  proof (cases t rule: rev_cases)
    case Nil
    then show ?thesis using that by simp
  next
    case (snoc u j)
    then show ?thesis using that
      by (cases n; cases u rule: rev_cases) (auto simp: elem_at_snoc innerHTML_def elem_at_def node_at_append split: if_splits)
  qed
  show "elem_at (marked b c) s = Some e \<Longrightarrow> elem_at c s = Some e"
    unfolding c m using sub by (cases s rule: rev_cases) (auto simp: elem_at_snoc nth_Cons split: nat.splits if_splits)
  show "elem_at (marked b c) [] = elem_at c []" unfolding c m by simp
  show "elem_at (marked b c) [0] = elem_at c [0]" unfolding c m by (simp add: elem_at_def)
qed

lemma typed_SelectItemSet:
  assumes t: "typed_doc r B (document pg)"
  obtains pg' where "SelectItemSet i pg = Some pg'" "typed_doc r B (document pg')" "searchBox pg' = searchBox pg"
    "loading pg' = loading pg" "\<And>q. id_at (document pg') q = id_at (document pg) q"
proof -
  let ?d = "document pg"
  from t page_ids_simps(3) obtain win where win: "by_id pg ''MSearchSelectWindow'' = Some win"
    "id_at ?d win = lit ''MSearchSelectWindow''" by (rule typed_lookup)
  have only: "q = win" if "id_at ?d q = lit ''MSearchSelectWindow''" for q
    using typed_unique [OF t _ that win(2)] by simp
  note inside = below_popup(2) [OF t win(2)]
  have first: "elem_at ?d (0 # j # win) \<noteq> None" if "elem_at ?d (j # win) \<noteq> None" for j
    using typed_docD(4) [OF t] win(2) that unfolding popup_typed_def by blast
  obtain e cs where n: "node_at ?d win = Some (Elem e cs)" using win(2) by (rule id_at_child) simp_all
  have at: "elem_at ?d (u @ j # win) = (if j < length cs then elem_at (cs ! j) u else None)" for u j
    using elem_at_node [of ?d "u @ [j]" win] by (simp add: n elem_at_snoc)
  have item: "children (cs ! j) \<noteq> []" if "j < length cs" "has_class ''SelectItem'' (cs ! j)" for j
  proof -
    have "elem_at ?d (j # win) \<noteq> None"
      using at [of "[]" j] that by (auto simp: has_class_def split: option.splits)
    then have "elem_at ?d (0 # j # win) \<noteq> None" by (rule first)
    then have "elem_at (cs ! j) [0] \<noteq> None" using at [of "[0]" j] that(1) by simp
    then show ?thesis by (cases "cs ! j") (auto simp: elem_at_def)
  qed
  then have "\<forall>c \<in> set cs. has_class ''SelectItem'' c \<longrightarrow> children c \<noteq> []" by (auto simp: in_set_conv_nth)
  from mark_items_total [OF this] obtain cs' where cs': "mark_items i 0 cs = Some cs'" by blast
  let ?d' = "upd_node win (set_children (\<lambda>_. cs')) ?d"
  have spec: "length cs' = length cs"
    "\<And>j. j < length cs \<Longrightarrow> cs' ! j = (if has_class ''SelectItem'' (cs ! j) then marked (i = item_rank cs j) (cs ! j) else cs ! j)"
    using mark_items_spec [OF cs'] by simp_all
  have same: "elem_of (set_children (\<lambda>_. cs') m) = elem_of m" for m by simp
  have away: "elem_at ?d' q = elem_at ?d q" if "\<not> strict_suffix win q" for q
    by (rule elem_at_upd_node_other [OF same that])
  have at': "elem_at ?d' (u @ j # win) = (if j < length cs then elem_at (cs' ! j) u else None)" for u j
    using elem_at_node [of ?d' "u @ [j]" win] by (simp add: node_at_upd_node n elem_at_snoc spec(1))
  have sub: "elem_at ?d q = Some el" if "elem_at ?d' q = Some el" for q el
  proof (cases "strict_suffix win q")
    case True
    then obtain u j where q: "q = u @ j # win" by (rule strict_suffixE)
    then have j: "j < length cs" "elem_at (cs' ! j) u = Some el" using that at' by (auto split: if_splits)
    have "elem_at (cs ! j) u = Some el"
    proof (cases "has_class ''SelectItem'' (cs ! j)")
      case True
      then have "elem_at (marked (i = item_rank cs j) (cs ! j)) u = Some el" using j spec(2) [OF j(1)] by simp
      with item [OF j(1) True] show ?thesis by (rule elem_at_marked(1))
    qed (use j spec(2) [OF j(1)] in simp)
    then show ?thesis using q at j(1) by simp
  qed (use away that in simp)
  have ids: "id_at ?d' q = id_at ?d q" for q
  proof (cases "strict_suffix win q")
    case True
    then have "id_at ?d q = []" by (rule inside)
    moreover have "id_at ?d' q = []"
      using sub [of q] \<open>id_at ?d q = []\<close> by (auto simp: id_at_def split: option.splits)
    ultimately show ?thesis by simp
  qed (simp add: id_at_def away)
  have "typed_doc r B ?d'"
  proof (rule typed_doc_cong [OF t ids])
    fix w j assume "id_at ?d w = lit ''MSearchSelectWindow''" and some: "elem_at ?d' (j # w) \<noteq> None"
    then have w: "w = win" by (intro only)
    have j: "j < length cs" using some at' [of "[]" j] w by (auto split: if_splits)
    have "elem_at ?d (j # win) \<noteq> None" using some sub w by blast
    then have "elem_at ?d (0 # j # win) \<noteq> None" by (rule first)
    then have "elem_at (cs ! j) [0] \<noteq> None" using at [of "[0]" j] j by simp
    moreover have "elem_at (cs' ! j) [0] = elem_at (cs ! j) [0]"
      using spec(2) [OF j] elem_at_marked(3) [OF item [OF j]] by simp
    ultimately have "elem_at (cs' ! j) [0] \<noteq> None" by simp
    then show "elem_at ?d' (0 # j # w) \<noteq> None" using at' [of "[0]" j] j w by simp
  qed
  then show ?thesis
    using that [of "pg\<lparr>document := ?d'\<rparr>"] ids by (simp add: SelectItemSet_def select_nodes_def win(1) n cs')
qed

section \<open>The handlers return\<close>

text \<open>A step that returns and leaves a typed page behind. The rules below follow the code.\<close>

definition safe :: "int \<Rightarrow> path \<Rightarrow> (path \<Rightarrow> jstring) \<Rightarrow> page option \<Rightarrow> bool" where
  "safe n r B res \<longleftrightarrow> (\<exists>pg. res = Some pg \<and> page_typed n r B pg)"

named_theorems safe_intros "a step of a handler on a typed page returns"

lemma safe_Some [simp]: "safe n r B (Some pg) \<longleftrightarrow> page_typed n r B pg"
  by (simp add: safe_def)

lemma safe_bind [safe_intros]:
  "safe n r B a \<Longrightarrow> (\<And>pg. page_typed n r B pg \<Longrightarrow> safe n r B (f pg)) \<Longrightarrow> safe n r B (a \<bind> f)"
  by (auto simp: safe_def)

lemma typed_by_id: "page_typed n r B pg \<Longrightarrow> s \<in> set page_ids \<Longrightarrow> \<exists>p. by_id pg s = Some p"
  using typed_lookup [of r B pg s] unfolding page_typed_def by blast

lemma safe_by_id:
  assumes "page_typed n r B pg" "s \<in> set page_ids" "\<And>p. by_id pg s = Some p \<Longrightarrow> safe n r B (f p)"
  shows "safe n r B (by_id pg s \<bind> f)"
proof -
  obtain p where "by_id pg s = Some p" using typed_by_id [OF assms(1,2)] by blast
  then show ?thesis using assms(3) by simp
qed

lemma safe_elem_by_id:
  assumes "page_typed n r B pg" "s \<in> set page_ids" "\<And>e. safe n r B (f e)"
  shows "safe n r B (elem_by_id pg s \<bind> f)"
proof -
  obtain p where "by_id pg s = Some p" using typed_by_id [OF assms(1,2)] by blast
  then show ?thesis using assms(3) by_id_elem [of pg s p] by (auto simp: elem_by_id_def)
qed

lemma safe_on_id:
  assumes "page_typed n r B pg" "s \<in> set page_ids" "\<And>e. attrs (f e) ''id'' = attrs e ''id''"
  shows "safe n r B (on_id s f pg)"
  unfolding on_id_def
  by (rule safe_by_id [OF assms(1,2)]) (use page_typed_ui [OF ui_only_set_elem [OF assms(3)] assms(1)] in simp)

lemma safe_style [safe_intros]: "s \<in> set page_ids \<Longrightarrow> page_typed n r B pg \<Longrightarrow> safe n r B (set_style_of s k v pg)"
  unfolding set_style_of_def by (rule safe_on_id) simp_all

lemma safe_value [safe_intros]: "s \<in> set page_ids \<Longrightarrow> page_typed n r B pg \<Longrightarrow> safe n r B (set_value_of s v pg)"
  unfolding set_value_of_def by (rule safe_on_id) simp_all

lemma safe_ui: "page_typed n r B pg \<Longrightarrow> res = Some pg' \<Longrightarrow> ui_only pg pg' \<Longrightarrow> safe n r B res"
  by (simp add: page_typed_ui)

lemma safe_nav_keeps: "page_typed n r B pg \<Longrightarrow> nav_keeps pg res \<Longrightarrow> safe n r B res"
  by (auto simp: nav_keeps_def intro: page_typed_ui)

lemma typed_ok: "page_typed n r B pg \<Longrightarrow> page_ok pg" "page_typed n r B pg \<Longrightarrow> items_ok (document pg)"
  by (auto simp: page_typed_def intro: typed_doc_page_ok typed_items_ok)

lemma safe_focus_on [safe_intros]:
  assumes t: "page_typed n r B pg"
  shows "safe n r B (focus_on p pg)"
  by (rule safe_nav_keeps [OF t focus_on_safe [OF typed_ok(1) [OF t]]])

lemma safe_focus_field [safe_intros]:
  assumes t: "page_typed n r B pg"
  shows "safe n r B (focus_field pg)"
  by (rule safe_nav_keeps [OF t focus_field_safe [OF typed_ok(1) [OF t]]])

lemma safe_blur [safe_intros]:
  assumes t: "page_typed n r B pg"
  shows "safe n r B (blur_active pg)"
  by (rule blur_active_spec [OF typed_ok(1) [OF t]], rule safe_ui [OF t])

lemma safe_Activate [safe_intros]:
  assumes t: "page_typed n r B pg"
  shows "safe n r B (Activate a pg)"
  by (rule Activate_spec [OF typed_ok(1) [OF t]], rule safe_ui [OF t])

lemma safe_CloseResultsWindow [safe_intros]:
  assumes t: "page_typed n r B pg"
  shows "safe n r B (CloseResultsWindow pg)"
  by (rule CloseResultsWindow_spec [OF typed_ok(1) [OF t]], rule safe_ui [OF t])

lemma safe_CloseSelectionWindow [safe_intros]: "page_typed n r B pg \<Longrightarrow> safe n r B (CloseSelectionWindow pg)"
  unfolding CloseSelectionWindow_def by (intro safe_intros page_ids_simps)

lemma safe_hide_results [safe_intros]:
  assumes t: "page_typed n r B pg"
  shows "safe n r B (hide_results pg)"
  by (rule hide_results_spec [OF typed_ok(1) [OF t]], rule safe_ui [OF t])

lemma safe_position:
  assumes "layout_ok w d" "\<And>x. safe n r B (f x)"
  shows "safe n r B (getXPos w d p \<bind> f)" "safe n r B (getYPos w d p \<bind> f)"
  using getPos_returns [OF assms(1), of p] assms(2) by auto

lemma safe_show_results [safe_intros]:
  assumes t: "page_typed n r B pg" and c: "captures_ok (document pg) c" and layout: "\<And>d. layout_ok w d"
  shows "safe n r B (show_results w c pg)"
proof -
  obtain pg' where run: "show_results w c pg = Some pg'" "popup_open pg c pg'"
    by (rule show_results_open [OF c layout])
  then have "page_typed n r B pg'"
    using page_typed_same [OF _ ch.show_results_keeps [OF run(1)] ld.show_results_keeps [OF run(1)] t]
    by (simp add: popup_open_def popup_only_def)
  then show ?thesis using run(1) by simp
qed

text \<open>What a closure holds on a typed page, and after the rows were built.\<close>

lemma captures_ok_typed_built:
  assumes t: "typed_doc r B d" and c: "captures_ok d c"
  shows "captures_ok (built r rp data d) c"
proof (rule captures_ok_keep [OF c])
  fix q s assume s: "s \<in> {''MSearchResultsWindow'', ''MSearchClose''}" and q: "id_at d q = lit s"
  have "s \<in> set page_ids" using s by (auto simp: page_ids_def box_ids_def)
  with t q have "\<not> strict_suffix r q" by (rule typed_outside)
  then show "id_at (built r rp data d) q = lit s" using q id_at_built_outside by metis
qed

lemma safe_createResults:
  assumes t: "page_typed n r B pg" and c: "captures_ok (document pg) c" and data: "searchData pg = Some data"
  obtains pg' where "createResults rp pg = Some pg'" "page_typed n r B pg'" "captures_ok (document pg') c"
proof -
  have doc: "typed_doc r B (document pg)" using t by (simp add: page_typed_def)
  have rs: "by_id pg ''SRResults'' = Some r" using doc by (rule typed_results)
  have res: "createResults rp pg = Some (pg\<lparr>document := built r rp data (document pg),
      activeElement := activeElement (the (createResults rp pg))\<rparr>)"
    by (simp add: createResults_eq [OF rs data] built_def)
  show ?thesis
    by (rule that [OF res])
       (use t typed_doc_built [OF doc] captures_ok_typed_built [OF doc] c in \<open>auto simp: page_typed_def waits_ok_def\<close>)
qed

lemma results_Search_typed:
  assumes t: "page_typed n r B pg"
  obtains pg' where "results_Search w s pg = Some (pg', True)" "page_typed n r B pg'" "same_ids pg pg'"
proof -
  obtain ps pn where "by_id pg ''Searching'' = Some ps" "by_id pg ''NoMatches'' = Some pn"
    using typed_by_id [OF t page_ids_simps(9)] typed_by_id [OF t page_ids_simps(10)] by blast
  then obtain pg' where run: "results_Search w s pg = Some (pg', True)" "same_ids pg pg'"
    by (rule results_Search_spec [of pg ps pn w s]) (rule that; assumption)
  have "page_typed n r B pg'"
    using page_typed_same [OF run(2) ch.results_Search_keeps [OF run(1)] ld.results_Search_keeps [OF run(1)] t] .
  then show ?thesis using that run by blast
qed

lemma typed_style:
  assumes "page_typed n r B pg" "s \<in> set page_ids"
  obtains pg' where "set_style_of s k v pg = Some pg'" "page_typed n r B pg'" "same_ids pg pg'" "searchData pg' = searchData pg"
proof -
  obtain p where p: "by_id pg s = Some p" using typed_by_id [OF assms] by blast
  have "ui_only pg (set_elem p (set_style k v) pg)" by (rule ui_only_set_elem) simp
  then show ?thesis
    using that [of "set_elem p (set_style k v) pg"] page_typed_ui assms(1) p
    by (simp add: set_style_of_def on_id_def ui_only_def)
qed

text \<open>The rows of a file that has arrived.\<close>

lemma rows_step:
  assumes t: "page_typed n r B p" and c: "captures_ok (document p) c"
  obtains p' where "(if searchData p \<noteq> None then createResults (resultsPath (searchBox p)) p \<bind>
      set_style_of ''NoMatches'' ''display'' (lit ''none'') else Some p) = Some p'"
    "page_typed n r B p'" "captures_ok (document p') c"
proof (cases "searchData p")
  case (Some data)
  obtain p1 where 1: "createResults (resultsPath (searchBox p)) p = Some p1" "page_typed n r B p1" "captures_ok (document p1) c"
    by (rule safe_createResults [OF t c Some])
  obtain p2 where 2: "set_style_of ''NoMatches'' ''display'' (lit ''none'') p1 = Some p2" "page_typed n r B p2" "same_ids p1 p2"
    by (rule typed_style [OF 1(2) page_ids_simps(10)])
  then show ?thesis using that [of p2] Some 1 captures_ok_same [OF 2(3)] by simp
qed (use that t c in simp)

lemma safe_handleResults:
  assumes t: "page_typed n r B pg" and c: "captures_ok (document pg) c" and layout: "\<And>d. layout_ok w d"
  shows "safe n r B (handleResults w idx v c pg)"
proof -
  obtain p1 where 1: "set_style_of ''Loading'' ''display'' (lit ''none'') pg = Some p1" "page_typed n r B p1" "same_ids pg p1"
    by (rule typed_style [OF t page_ids_simps(8)])
  have c1: "captures_ok (document p1) c" using c captures_ok_same [OF 1(3)] by simp
  from rows_step [OF 1(2) c1] obtain p2 where 2: "(if searchData p1 \<noteq> None then createResults (resultsPath (searchBox p1)) p1 \<bind>
      set_style_of ''NoMatches'' ''display'' (lit ''none'') else Some p1) = Some p2"
    "page_typed n r B p2" "captures_ok (document p2) c" by blast
  obtain p3 where 3: "results_Search w (Some (if idx \<noteq> None then v else lit ''====''))  p2 = Some (p3, True)"
    "page_typed n r B p3" "same_ids p2 p3" by (rule results_Search_typed [OF 2(2)])
  have c3: "captures_ok (document p3) c" using 2(3) captures_ok_same [OF 3(3)] by simp
  then obtain q where q: "cap_window c = Some q" "id_at (document p3) q = lit ''MSearchResultsWindow''"
    unfolding captures_ok_def by blast
  then obtain win where win: "elem_at (document p3) q = Some win" using id_at_elem [of "document p3" q] by auto
  have "handleResults w idx v c pg = (if display win \<noteq> lit ''block'' then show_results w c p3 else Some p3)"
    unfolding handleResults_def using 1(1) 2(1) 3(1) q(1) win by (cases idx) simp_all
  then show ?thesis using safe_show_results [OF 3(2) c3 layout] 3(2) by simp
qed

lemma safe_script_loaded:
  assumes t: "page_typed n r B pg" and k: "k < length (loading pg)" and layout: "\<And>d. layout_ok w d"
  shows "safe n r B (script_loaded w k data pg)"
proof -
  let ?pg = "pg\<lparr>loading := take k (loading pg) @ drop (Suc k) (loading pg), searchData := Some data\<rparr>"
  have w: "waits_ok pg" using t by (simp add: page_typed_def)
  have "waits_ok ?pg" by (rule waits_ok_ids [OF w]) (auto dest: in_set_takeD in_set_dropD)
  then have "page_typed n r B ?pg" using t by (simp add: page_typed_def)
  moreover have "captures_ok (document ?pg) (load_caps (loading pg ! k))" using w k by (simp add: waits_ok_def)
  ultimately show ?thesis unfolding script_loaded_def Let_def by (rule safe_handleResults [OF _ _ layout])
qed

lemma safe_loadJS:
  assumes t: "page_typed n r B pg" and c: "captures_ok (document pg) c"
  shows "safe n r B (loadJS url idx v c pg)"
proof -
  have doc: "typed_doc r B (document pg)" and w: "waits_ok pg" using t by (simp_all add: page_typed_def)
  from doc obtain p where p: "by_id pg ''MSearchResultsWindow'' = Some p" "id_at (document pg) p = lit ''MSearchResultsWindow''"
    by (rule typed_lookup [OF _ page_ids_simps(5)])
  from p(2) obtain e ds where n: "node_at (document pg) p = Some (Elem e ds)" by (rule id_at_child) simp
  let ?s = "setAttribute ''src'' url (createElement ''script'')"
  have "elem_id el = []" if "elem_at (Elem ?s []) s = Some el" for s el
    using that by (cases s rule: rev_cases) (auto simp: elem_at_snoc)
  note added = typed_doc_append [OF doc n this]
  have "typed_doc r B (appendChild p (Elem ?s []) (document pg))" using added(1) p(2) by simp
  moreover have "captures_ok (appendChild p (Elem ?s []) (document pg)) k = captures_ok (document pg) k" for k
    by (rule captures_ok_cong, rule added(2)) (use p(2) in simp_all)
  ultimately show ?thesis using t w c by (auto simp: loadJS_def p(1) page_typed_def waits_ok_def)
qed

text \<open>The filters: \<open>n\<close> sections, which \<open>searchIndex\<close> runs over.\<close>

definition filters :: "site \<Rightarrow> int \<Rightarrow> bool" where
  "filters w n \<longleftrightarrow> (\<forall>i. 0 \<le> i \<and> i < n \<longrightarrow> indexSectionsWithContent w i \<noteq> None)"

lemma safe_box_Search [safe_intros]:
  assumes t: "page_typed n r B pg" and f: "filters w n" and layout: "\<And>d. layout_ok w d"
  shows "safe n r B (box_Search w pg)"
proof -
  let ?pg = "upd_box (\<lambda>b. b\<lparr>keyTimeout := 0\<rparr>) pg"
  have t': "page_typed n r B ?pg" using t by (simp add: page_typed_box)
  obtain sec where sec: "indexSectionsWithContent w (searchIndex (searchBox ?pg)) = Some sec"
    using t f unfolding page_typed_def filters_def by auto
  have c: "captures_ok (document ?pg) (capture_elements ?pg)" by (rule capture_elements_ok [OF typed_ok(1) [OF t']])
  have step: "safe n r B (case idx of Some i \<Rightarrow> loadJS (u i) idx v (capture_elements ?pg) ?pg
      | None \<Rightarrow> handleResults w idx v (capture_elements ?pg) ?pg)" for idx u v
    using safe_loadJS [OF t' c] safe_handleResults [OF t' c layout] by (auto split: option.split)
  show ?thesis
    unfolding box_Search_def Let_def
    by (rule safe_elem_by_id [OF t' page_ids_simps(1)], simp only: sec bind.bind_lunit, rule safe_bind [OF step])
       (simp add: page_typed_box)
qed

lemma typed_chosen: "page_typed n r B pg \<Longrightarrow> 0 \<le> i \<Longrightarrow> i < n \<Longrightarrow> page_typed n r B (upd_box (\<lambda>b. b\<lparr>searchIndex := i\<rparr>) pg)"
  by (simp add: page_typed_def)

lemma safe_OnSelectItem [safe_intros]:
  assumes t: "page_typed n r B pg" and i: "0 \<le> i" "i < n" and f: "filters w n" and layout: "\<And>d. layout_ok w d"
  shows "safe n r B (OnSelectItem w i pg)"
proof -
  have t': "page_typed n r B (upd_box (\<lambda>b. b\<lparr>searchIndex := i\<rparr>) pg)" by (rule typed_chosen [OF t i])
  then have "typed_doc r B (document (upd_box (\<lambda>b. b\<lparr>searchIndex := i\<rparr>) pg))" by (simp only: page_typed_def)
  then obtain pg' where 1: "SelectItemSet i (upd_box (\<lambda>b. b\<lparr>searchIndex := i\<rparr>) pg) = Some pg'" "typed_doc r B (document pg')"
    "searchBox pg' = searchBox (upd_box (\<lambda>b. b\<lparr>searchIndex := i\<rparr>) pg)" "loading pg' = loading pg"
    "\<And>q. id_at (document pg') q = id_at (document pg) q" by (rule typed_SelectItemSet [of _ _ _ i]) simp
  have "waits_ok pg'" by (rule waits_ok_ids [of pg]) (use t 1(4,5) in \<open>simp_all add: page_typed_def\<close>)
  then have t1: "page_typed n r B pg'" using i 1(2,3) by (simp add: page_typed_def)
  have "safe n r B (elem_by_id pg' ''MSearchField'' \<bind>
      (\<lambda>field. if strip_all (val field) \<noteq> [] \<and> searchActive (searchBox pg') then box_Search w pg' else Some pg'))"
    by (rule safe_elem_by_id [OF t1 page_ids_simps(1)]) (use t1 f layout safe_box_Search in auto)
  then show ?thesis by (simp add: OnSelectItem_def 1(1))
qed

lemma select_nodes_typed:
  assumes "page_typed n r B pg"
  obtains win nodes where "select_nodes pg = Some (win, nodes)"
proof -
  obtain win where win: "by_id pg ''MSearchSelectWindow'' = Some win" using typed_by_id [OF assms page_ids_simps(3)] by blast
  then obtain m where "node_at (document pg) win = Some m"
    using by_id_elem [OF win] by (auto simp: elem_at_def split: bind_splits)
  then show ?thesis using that win by (simp add: select_nodes_def)
qed

lemma safe_focus_first [safe_intros]: "page_typed n r B pg \<Longrightarrow> safe n r B (focus_first_item pg)"
  by (rule select_nodes_typed [of n r B pg]) (auto simp: focus_first_item_def intro: safe_intros split: option.split)

lemma safe_OnSearchSelectShow [safe_intros]:
  assumes t: "page_typed n r B pg" and layout: "\<And>d. layout_ok w d"
  shows "safe n r B (OnSearchSelectShow w pg)"
  unfolding OnSearchSelectShow_def Let_def
  by (rule safe_by_id [OF t page_ids_simps(2)], intro safe_position layout safe_intros page_ids_simps t)
     (auto simp: page_typed_box)

lemma safe_OnSearchSelectKey:
  assumes t: "page_typed n r B pg" and f: "filters w n" and layout: "\<And>d. layout_ok w d"
    and last: "keyCode e = 40 \<longrightarrow> searchIndex (searchBox pg) + 1 \<noteq> n"
  shows "safe n r B (OnSearchSelectKey w e pg)"
proof -
  let ?i = "searchIndex (searchBox pg)"
  have i: "0 \<le> ?i" "?i < n" using t by (simp_all add: page_typed_def)
  obtain win nodes where nodes: "select_nodes pg = Some (win, nodes)" by (rule select_nodes_typed [OF t])
  have choose: "safe n r B (OnSelectItem w j (upd_box (\<lambda>b. b\<lparr>searchIndex := j\<rparr>) pg))" if "0 \<le> j" "j < n" for j
    using t that f layout typed_chosen by (blast intro: safe_intros)
  have enter: "safe n r B (OnSelectItem w ?i (pg\<lparr>stopped := True\<rparr>) \<bind> CloseSelectionWindow \<bind> focus_field)"
    using t i f layout by (intro safe_intros) simp_all
  then have "safe n r B (OnSelectItem w ?i (pg\<lparr>stopped := True\<rparr>) \<bind> (\<lambda>pg. CloseSelectionWindow pg \<bind> focus_field))"
    by (simp add: bind_assoc)
  then show ?thesis
    using choose [of "?i + 1"] choose [of "?i - 1"] i last t
    by (auto simp: OnSearchSelectKey_def Let_def SelectItemCount_def nodes)
qed

lemma safe_field_changed [safe_intros]:
  assumes t: "page_typed n r B pg"
  shows "safe n r B (field_changed pg)"
  unfolding field_changed_def
  by (rule safe_elem_by_id [OF t page_ids_simps(1)])
     (use t safe_hide_results [OF t] in \<open>auto simp: setTimeout_def Let_def page_typed_box\<close>)

lemma safe_field_escape [safe_intros]:
  assumes t: "page_typed n r B pg"
  shows "safe n r B (field_escape pg)"
proof -
  have t': "page_typed n r B (pg\<lparr>stopped := True\<rparr>)" using t by simp
  have "safe n r B (blur_on p (pg\<lparr>stopped := True\<rparr>))" for p
    using t' safe_blur [OF t'] by (simp add: blur_on_def)
  then show ?thesis
    unfolding field_escape_def Let_def
    by (intro safe_by_id [OF t' page_ids_simps(1)] safe_intros)
qed

lemma typed_kill_key_timer: "page_typed n r B pg \<Longrightarrow> page_typed n r B (kill_key_timer pg)"
  by (simp add: kill_key_timer_def page_typed_box)

lemma safe_OnSearchFieldChange:
  assumes t: "page_typed n r B pg" and layout: "\<And>d. layout_ok w d"
  shows "safe n r B (OnSearchFieldChange w e pg)"
proof -
  have t': "page_typed n r B (kill_key_timer pg)" by (rule typed_kill_key_timer [OF t])
  obtain f where f: "NavNext (document (kill_key_timer pg)) 0 = Some f" using nx.walk_total [OF typed_ok(2) [OF t']] by blast
  have "safe n r B ((case f of None \<Rightarrow> Some (kill_key_timer pg) | Some p \<Rightarrow> focus_on p (kill_key_timer pg)) \<bind> field_changed)"
    by (intro safe_intros) (use t' in \<open>auto intro: safe_intros split: option.split\<close>)
  moreover have "safe n r B (OnSearchSelectShow w (kill_key_timer pg) \<bind> focus_first_item)"
    by (intro safe_intros t' layout)
  ultimately show ?thesis
    using t' by (auto simp: OnSearchFieldChange_def Let_def f intro: safe_intros)
qed

lemma safe_select_keydown:
  assumes t: "page_typed n r B pg" and layout: "\<And>d. layout_ok w d"
  shows "safe n r B (select_keydown w e pg)"
proof -
  have "safe n r B (OnSearchSelectShow w pg \<bind> (\<lambda>pg. by_id pg ''MSearchSelectWindow'' \<bind> (\<lambda>p. focus_on p pg)))"
    by (intro safe_bind [OF safe_OnSearchSelectShow [OF t layout]])
       (rule safe_by_id, assumption, rule page_ids_simps(3), rule safe_focus_on)
  then show ?thesis
    using t by (auto simp: select_keydown_def intro!: safe_elem_by_id [OF t page_ids_simps(3)] safe_intros)
qed

lemma safe_run_callback:
  "page_typed n r B pg \<Longrightarrow> filters w n \<Longrightarrow> (\<And>d. layout_ok w d) \<Longrightarrow> safe n r B (run_callback w cb pg)"
  by (cases cb) (auto simp: run_callback_def intro: safe_intros)

lemma safe_Nav:
  assumes t: "page_typed n r B pg" and item: "getElementById (document pg) (item_name i) \<noteq> None"
  shows "safe n r B (map_option fst (Nav lc e i pg))"
proof -
  obtain pg' b where run: "Nav lc e i pg = Some (pg', b)" "same_ids pg pg'"
    using Nav_returns [OF typed_ok(1) [OF t] typed_ok(2) [OF t] item] by blast
  then show ?thesis using page_typed_same [OF run(2) ch.Nav_keeps [OF run(1)] ld.Nav_keeps [OF run(1)] t] by simp
qed

lemma safe_NavChild:
  assumes t: "page_typed n r B pg" and child: "getElementById (document pg) (child_name i c) \<noteq> None"
  shows "safe n r B (map_option fst (NavChild e i c pg))"
proof -
  have doc: "typed_doc r B (document pg)" using t by (simp add: page_typed_def)
  define s where "s = fst (ProcessKeys e (searchResults pg))"
  let ?pg = "pg\<lparr>searchResults := s\<rparr>"
  have t': "page_typed n r B ?pg" using t by simp
  have up: "safe n r B (child_up i c ?pg)"
    using typed_child [OF doc child] by (auto simp: child_up_def safe_focus_on [OF t'])
  obtain f where "NavNext (document ?pg) (i + 1) = Some f" using nx.walk_total [OF typed_ok(2) [OF t']] by blast
  then have down: "safe n r B (child_down i c ?pg)"
    using t' by (auto simp: child_down_def intro: safe_focus_on [OF t'] split: option.split)
  have esc: "safe n r B (escape_results ?pg)"
    by (rule safe_nav_keeps [OF t' escape_results_safe [OF typed_ok(1) [OF t']]])
  have fst_bind: "map_option fst (a \<bind> (\<lambda>pg. Some (pg, b))) = a" for a :: "page option" and b :: bool
    by (cases a) simp_all
  show ?thesis
    using t t' up down esc by (simp add: NavChild_def Let_def split_beta fst_bind flip: s_def)
qed

section \<open>The events of a page\<close>

text \<open>
  What can happen: the user types into the field, presses a key in it, on the selector, in the filter popup,
  on a result or on a child of one, clicks on a filter, on a result with children or on the close button,
  moves the focus or the mouse; a timer is due; an index file arrives.
\<close>

datatype event =
    Typed jstring
  | Field_key key_event
  | Select_key key_event
  | Filter_key key_event
  | Filter_chosen int
  | Result_key key_event int
  | Child_key key_event int int
  | Result_clicked jstring
  | Close_clicked
  | Focus_moved path
  | Focus_lost
  | Popup_over
  | Popup_out
  | Timer_due nat
  | Index_arrived nat "search_entry list"

fun handle :: "site \<Rightarrow> event \<Rightarrow> page \<Rightarrow> page option" where
  "handle w (Typed v) pg = set_value_of ''MSearchField'' v pg"
| "handle w (Field_key e) pg = OnSearchFieldChange w e pg"
| "handle w (Select_key e) pg = select_keydown w e pg"
| "handle w (Filter_key e) pg = OnSearchSelectKey w e pg"
| "handle w (Filter_chosen i) pg = OnSelectItem w i pg"
| "handle w (Result_key e i) pg = map_option fst (Nav (unicode_lower w) e i pg)"
| "handle w (Child_key e i c) pg = map_option fst (NavChild e i c pg)"
| "handle w (Result_clicked i) pg = do {
     d \<leftarrow> Toggle (unicode_lower w) (document pg) i;
     Some (pg\<lparr>document := d\<rparr>)
   }"
| "handle w Close_clicked pg = CloseResultsWindow pg"
| "handle w (Focus_moved p) pg = focus_on p pg"
| "handle w Focus_lost pg = blur_active pg"
| "handle w Popup_over pg = OnSearchSelectShow w pg"
| "handle w Popup_out pg = Some (OnSearchSelectHide pg)"
| "handle w (Timer_due k) pg = fire w (timers pg ! k) pg"
| "handle w (Index_arrived k data) pg = script_loaded w k data pg"

text \<open>
  An event on an element needs the element, a timer or a file must be awaited, and a filter that is clicked is one of
  the \<open>n\<close> filters.
\<close>

fun possible :: "int \<Rightarrow> page \<Rightarrow> event \<Rightarrow> bool" where
  "possible n pg (Filter_chosen i) \<longleftrightarrow> 0 \<le> i \<and> i < n"
| "possible n pg (Result_key e i) \<longleftrightarrow> getElementById (document pg) (item_name i) \<noteq> None"
| "possible n pg (Child_key e i c) \<longleftrightarrow> getElementById (document pg) (child_name i c) \<noteq> None"
| "possible n pg (Result_clicked i) \<longleftrightarrow> getElementById (document pg) i \<noteq> None"
| "possible n pg (Timer_due k) \<longleftrightarrow> k < length (timers pg)"
| "possible n pg (Index_arrived k data) \<longleftrightarrow> k < length (loading pg)"
| "possible n pg _ \<longleftrightarrow> True"

text \<open>
  One possible event breaks the page: the Down key at the last filter, for which \<open>OnSearchSelectKey\<close> compares
  \<open>searchIndex\<close> with the number of filters and raises it to \<open>n\<close>, where there is no section.
\<close>

fun past_last :: "int \<Rightarrow> page \<Rightarrow> event \<Rightarrow> bool" where
  "past_last n pg (Filter_key e) \<longleftrightarrow> keyCode e = 40 \<and> searchIndex (searchBox pg) + 1 = n"
| "past_last n pg _ \<longleftrightarrow> False"

lemma handle_safe:
  assumes t: "page_typed n r B pg" and f: "filters w n" and layout: "\<And>d. layout_ok w d"
    and ev: "possible n pg ev" "\<not> past_last n pg ev"
  shows "safe n r B (handle w ev pg)"
proof (cases ev)
  case (Result_clicked i)
  then have "getElementById (document pg) i \<noteq> None" using ev by simp
  then show ?thesis
  proof (rule Toggle_spec [of _ _ "unicode_lower w"])
    fix q e v
    assume "Toggle (unicode_lower w) (document pg) i =
      Some (upd_elem q (set_style ''display'' (lit (if display e = lit ''block'' then ''none'' else ''block''))) (document pg))"
    moreover have "page_typed n r B (set_elem q (set_style ''display'' v) pg)" for v
      by (rule page_typed_ui [OF ui_only_set_elem t]) simp
    ultimately show ?thesis using Result_clicked by (simp add: set_elem_def)
  qed (use Result_clicked t in simp)
next
  case Popup_out
  then show ?thesis using t by (simp add: OnSearchSelectHide_def setTimeout_def Let_def page_typed_box)
next
  case (Timer_due k)
  have "page_typed n r B (clearTimeout (timer_id (timers pg ! k)) pg)" using t by simp
  then show ?thesis using Timer_due safe_run_callback [OF _ f layout] by (simp add: fire_def)
qed (use assms in \<open>auto intro: safe_intros page_ids_simps safe_OnSearchFieldChange safe_select_keydown
       safe_OnSearchSelectKey safe_Nav safe_NavChild safe_script_loaded\<close>)

section \<open>The set-up\<close>

text \<open>\<open>init_search\<close> fills the filter popup.\<close>

lemma select_item_ids: "elem_at (select_item x) s = Some e \<Longrightarrow> elem_id e = []"
proof -
  assume "elem_at (select_item x) s = Some e"
  then have "e \<in> set (elems (select_item x))" by (rule elem_at_elems)
  then show ?thesis by (cases x) (auto simp: select_item_def innerHTML_def split: if_splits)
qed

lemma select_item_first: "elem_at (select_item x) [0] \<noteq> None"
  by (cases x) (simp add: select_item_def elem_at_def)

lemma typed_doc_items:
  assumes "typed_doc r B d" "id_at d win = lit ''MSearchSelectWindow''"
  shows "typed_doc r B (foldl (\<lambda>d item. appendChild win (select_item item) d) d items) \<and>
    (\<forall>q. id_at (foldl (\<lambda>d item. appendChild win (select_item item) d) d items) q = id_at d q)"
  using assms
proof (induction items arbitrary: d)
  case (Cons x xs)
  obtain e ds where n: "node_at d win = Some (Elem e ds)" using Cons.prems(2) by (rule id_at_child) simp
  have named: "id_at d win \<noteq> []" using Cons.prems(2) by simp
  note added = typed_doc_append [OF Cons.prems(1) n select_item_ids select_item_first named]
  have "id_at (appendChild win (select_item x) d) win = lit ''MSearchSelectWindow''" using added(2) Cons.prems(2) by simp
  with Cons.IH [OF added(1)] show ?case using added(2) by simp
qed simp

lemma init_search_safe:
  assumes doc: "typed_doc r B (document pg)" and waits: "waits_ok pg" and f: "filters w n" "0 < n" and layout: "\<And>d. layout_ok w d"
  shows "safe n r B (init_search w pg)"
proof -
  from doc obtain win where win: "by_id pg ''MSearchSelectWindow'' = Some win" "id_at (document pg) win = lit ''MSearchSelectWindow''"
    by (rule typed_lookup [OF _ page_ids_simps(3)])
  let ?p = "set_elem win (setAttribute ''tabindex'' (lit ''0'')) pg"
  have same: "same_ids pg ?p" by (rule same_ids_set_elem) simp
  have doc1: "typed_doc r B (document ?p)" by (rule typed_doc_same [OF same doc])
  have win1: "id_at (document ?p) win = lit ''MSearchSelectWindow''"
    using same_ids_by_id [OF same, of "''MSearchSelectWindow''"] win(1) by (auto simp: by_id_def dest: getElementById_id)
  let ?d = "foldl (\<lambda>d item. appendChild win (select_item item) d) (document ?p) (indexSectionLabels w)"
  let ?q = "upd_box (\<lambda>b. b\<lparr>searchIndex := 0\<rparr>) (?p\<lparr>document := ?d\<rparr>)"
  have items: "typed_doc r B ?d" "id_at ?d q = id_at (document ?p) q" for q using typed_doc_items [OF doc1 win1] by blast+
  have "waits_ok (?p\<lparr>document := ?d\<rparr>)" by (rule waits_ok_ids [OF waits]) (use items(2) same_ids_id_at [OF same] in simp_all)
  then have t: "page_typed n r B ?q" using items(1) f(2) by (simp add: page_typed_def)
  have "OnSelectItem w 0 (?p\<lparr>document := ?d\<rparr>) = OnSelectItem w 0 ?q" by (simp add: OnSelectItem_def upd_box_def)
  then have sel: "safe n r B (OnSelectItem w 0 (?p\<lparr>document := ?d\<rparr>))"
    using safe_OnSelectItem [OF t _ f(2) f(1) layout] by simp
  have "safe n r B (by_id pg' ''MSearchSelect'' \<bind> (\<lambda>input. Some (set_elem input (setAttribute ''tabindex'' (lit ''0'')) pg')))"
    if "page_typed n r B pg'" for pg'
    by (rule safe_by_id [OF that page_ids_simps(2)]) (use page_typed_ui [OF ui_only_set_elem that] in simp)
  then show ?thesis
    unfolding init_search_def win(1) bind.bind_lunit Let_def by (rule safe_bind [OF sel])
qed

end
