(* ===== verification/Search_Properties.thy ===== *)
theory Search_Properties
  imports Demo_Page Search_Events
begin

text \<open>
  The properties of the search of the documentation pages (\<open>docs/html/search/search.js\<close>): the
  conversion of search words, the rows a search shows, the index files it loads, the keyboard
  navigation, the timers, and the popups. Each comes with an instance on the repository's page.
\<close>

section \<open>What a search shows\<close>

text \<open>C22. Searching by prefix of ids is searching by prefix of names: of two words, the converted one is a prefix
  of the other converted one exactly when the word is a prefix of the other; in particular no two words
  have the same id.\<close>

theorem converted_prefix:
  "(prefix (convertToId s) (convertToId t) \<longleftrightarrow> prefix s t) \<and> (convertToId s = convertToId t \<longleftrightarrow> s = t)"
  by (simp add: convertToId_prefix_iff convertToId_eq_iff)

lemma lower_id_char: "id_char c \<or> c = unit_of CHR ''_'' \<Longrightarrow> ascii_lower c = c"
  by (auto simp: id_char_def ascii_lower_def unit_of_def word_le_nat_alt)

lemma lower_converted: "map ascii_lower (convertToId s) = convertToId s"
  using set_convertToId [of s] by (intro map_idI lower_id_char) auto

lemma digit_ascii: "d < 36 \<Longrightarrow> digit d < 0x80"
  by (simp add: word_less_nat_alt unat_digit)

lemma ascii_converted: "ascii s \<Longrightarrow> ascii (convertToId s)"
proof -
  have "ascii (id_unit c)" if "c < 0x80" for c
  proof (cases "id_char c")
    case False
    then have "unat c div 16 < 36" "unat c mod 16 < 36"
      using small_unit [OF False] by (simp_all add: div_less_iff_less_mult less_trans [OF mod_less_divisor])
    then show ?thesis by (simp add: id_unit_escape [OF False] ascii_def digit_ascii unit_of_def)
  qed (use that in \<open>simp add: id_unit_self ascii_def\<close>)
  then show "ascii s \<Longrightarrow> ascii (convertToId s)" by (auto simp: convertToId_eq ascii_def)
qed

lemma num_str_plain:
  assumes "0 \<le> k"
  shows "ascii (num_str k)" "map ascii_lower (num_str k) = num_str k"
proof -
  have d: "set (num_str k) \<subseteq> digit ` {0..<10}" using assms set_radix [of 10 "nat k"] by (simp add: num_str_def)
  then show "ascii (num_str k)" using digit_ascii by (fastforce simp: ascii_def)
  have "ascii_lower c = c" if "c \<in> set (num_str k)" for c
    using d that id_char_digit by (intro lower_id_char) fastforce
  then show "map ascii_lower (num_str k) = num_str k" by (intro map_idI)
qed

lemma ascii_lower_ascii: "ascii s \<Longrightarrow> ascii (map ascii_lower s)"
  by (auto simp: ascii_def ascii_lower_def word_less_nat_alt word_le_nat_alt unat_word_ariths)

lemma row_id_plain:
  assumes "ascii name" "0 \<le> k"
  shows "ascii (convertToId (map ascii_lower name) @ lit ''_'' @ num_str k)"
    and "map ascii_lower (convertToId (map ascii_lower name) @ lit ''_'' @ num_str k) =
      convertToId (map ascii_lower name) @ lit ''_'' @ num_str k"
proof -
  have u: "ascii (lit ''_'')" "map ascii_lower (lit ''_'') = lit ''_''"
    by (simp_all add: lit_def ascii_def unit_of_def lower_id_char)
  show "ascii (convertToId (map ascii_lower name) @ lit ''_'' @ num_str k)"
    using assms by (simp add: ascii_converted ascii_lower_ascii num_str_plain u)
  show "map ascii_lower (convertToId (map ascii_lower name) @ lit ''_'' @ num_str k) =
      convertToId (map ascii_lower name) @ lit ''_'' @ num_str k"
    using assms by (simp add: num_str_plain lower_converted u)
qed

lemma entry_row:
  assumes "v \<noteq> []" "ascii v" "hd v \<noteq> 0x20" "last v \<noteq> 0x20" and "ascii name"
    and "entry_id x = convertToId (map ascii_lower name) @ lit ''_'' @ num_str k" and "0 \<le> k"
  shows "entry_matches w v x \<longleftrightarrow>
    prefix (map ascii_lower v) (map ascii_lower name) \<or>
    (\<exists>u. map ascii_lower v = map ascii_lower name @ u \<and> prefix (convertToId u) (lit ''_'' @ num_str k))"
proof -
  have id_lower: "map ascii_lower (entry_id x) = entry_id x" and id_ascii: "ascii (entry_id x)"
    using row_id_plain [OF assms(5,7)] by (simp_all add: assms(6))
  have "entry_matches w v x \<longleftrightarrow> prefix (search_word w (Some v)) (map ascii_lower (entry_id x))"
    by (rule entry_matches_ascii [OF id_ascii])
  also have "\<dots> \<longleftrightarrow> prefix (convertToId (map ascii_lower v)) (convertToId (map ascii_lower name) @ lit ''_'' @ num_str k)"
    by (simp only: id_lower search_word_ascii [OF assms(1-4)]) (simp only: assms(6))
  finally show ?thesis
    by (simp only: convertToId_eq ids.prefix_encode_append)
qed

text \<open>C34. The row of an entry, whose id is its converted lower-case name, an underscore and a number, matches a typed
  word exactly when the word, in any letter case, is a prefix of the name, or goes past its end with a rest
  that is converted to the beginning of the suffix: the second case is a false match that the code allows.\<close>

theorem row_matches_name:
  assumes "v \<noteq> []" "ascii v" "hd v \<noteq> 0x20" "last v \<noteq> 0x20" and "ascii name"
    and "entry_id x = convertToId (map ascii_lower name) @ lit ''_'' @ num_str k" and "0 \<le> k"
  shows "entry_matches w v x \<longleftrightarrow>
    prefix (map ascii_lower v) (map ascii_lower name) \<or>
    (\<exists>u. map ascii_lower v = map ascii_lower name @ u \<and> prefix (convertToId u) (lit ''_'' @ num_str k))"
  by (rule entry_row [OF assms])

lemma row_matches_name_witness:
  "entry_matches index_site (lit ''DEV'')
     \<lparr>entry_id = lit ''device_2'', entry_symbol = lit ''Device'', entry_targets = []\<rparr>"
proof -
  have id: "lit ''device_2'' = convertToId (map ascii_lower (lit ''Device'')) @ lit ''_'' @ num_str 2"
    by (simp add: lit_def unit_of_def ascii_lower_def id_unit_def id_char_def num_str_def radix.simps digit_def)
  have "entry_matches index_site (lit ''DEV'')
      \<lparr>entry_id = lit ''device_2'', entry_symbol = lit ''Device'', entry_targets = []\<rparr> \<longleftrightarrow>
    prefix (map ascii_lower (lit ''DEV'')) (map ascii_lower (lit ''Device'')) \<or>
    (\<exists>u. map ascii_lower (lit ''DEV'') = map ascii_lower (lit ''Device'') @ u \<and>
      prefix (convertToId u) (lit ''_'' @ num_str 2))"
    by (rule row_matches_name) (simp_all add: id, simp_all add: lit_def unit_of_def ascii_def)
  then show ?thesis by (simp add: lit_def unit_of_def ascii_lower_def)
qed

text \<open>C15. A search on a page shows exactly the matching rows: every \<open>div\<close> of class \<open>SRResult\<close> is shown when the
  converted word is a prefix of its id and hidden otherwise, every other element keeps its style (but the two
  status lines), the matches are counted, and ``No Matches'' is shown exactly when there are none.\<close>

theorem search_shows_matches:
  assumes "by_id pg ''Searching'' = Some ps" "by_id pg ''NoMatches'' = Some pn"
  shows "\<exists>pg' ms. results_Search w v pg = Some (pg', True) \<and>
    ms = List.filter (matching (unicode_lower w) (search_word w v) (document pg)) (getElementsByTagName (document pg) ''div'') \<and>
    lastMatchCount (searchResults pg') = length ms \<and>
    (\<forall>p e. elem_at (document pg) p = Some e \<and> p \<noteq> ps \<and> p \<noteq> pn \<longrightarrow>
       elem_at (document pg') p =
         Some (if tag e = ''div'' then show_row (unicode_lower w) (search_word w v) e else e)) \<and>
    map_option display (elem_at (document pg') pn) = Some (lit (if ms = [] then ''block'' else ''none''))"
  by (rule results_Search_spec [OF assms, of w v]) blast

lemma search_shows_matches_witness:
  "\<exists>pg'. results_Search index_site (Some (lit ''main'')) index_page = Some (pg', True) \<and>
    map_option display (elem_at (document pg') [3, 0, 0, 0, 2]) = Some (lit ''block'')"
proof -
  have "\<not> matching lc s (document index_page) p" for lc s p
    using index_elem(2) by (auto simp: matching_def index_page_def)
  then have "List.filter (matching lc s (document index_page)) xs = []" for lc s xs
    by (simp add: filter_empty_conv)
  with search_shows_matches [OF index_ids(12,13), of index_site "Some (lit ''main'')"] show ?thesis by auto
qed

text \<open>C10. \<open>createResults\<close> places one row per entry of the loaded data, in order, as the children of the list of
  results, and one link per row: \<open>ItemN\<close> is found for every entry, in the row of that entry, and for no other
  number; so the later search and navigation see exactly the loaded entries.\<close>

theorem createResults_places_rows:
  assumes "search_page r pg" "searchData pg = Some data"
  shows "\<exists>pg'. createResults rp pg = Some pg' \<and> rows_in r data (document pg') \<and> items_ok (document pg') \<and>
    (\<forall>j. getElementById (document pg') (item_name j) =
      (if 0 \<le> j \<and> nat j < length data then Some (0 # 0 # nat j # r) else None)) \<and>
    (\<forall>e < length data. row_of (document pg') (0 # 0 # e # r) = Some (e # r, row_elem (data ! e)))"
proof -
  have r: "by_id pg ''SRResults'' = Some r" and clean: "clean_page r (document pg)"
    using assms(1) by (simp_all add: search_page_def)
  obtain pg' where run: "createResults rp pg = Some pg'" using createResults_eq [OF r assms(2)] by blast
  from createResults_built [OF r run] assms(2) have doc: "document pg' = built r rp data (document pg)"
    and at: "elem_at (document pg) r \<noteq> None" by auto
  show ?thesis
    using run rows_in_built [OF at clean] built_items_ok [OF at clean_items [OF clean]] built_item [OF at clean_items [OF clean]] built_row_of [OF at]
    by (simp add: doc)
qed

definition two_entries :: "search_entry list" where
  "two_entries =
     [\<lparr>entry_id = lit ''device_2'', entry_symbol = lit ''Device'', entry_targets = [(lit ''a.html'', True, []), (lit ''b.html'', True, [])]\<rparr>,
      \<lparr>entry_id = lit ''main_3'', entry_symbol = lit ''main'', entry_targets = [(lit ''c.html'', True, [])]\<rparr>]"

definition loaded_page :: page where
  "loaded_page = index_page\<lparr>searchData := Some two_entries\<rparr>"

lemma loaded_search_page: "search_page [0, 0, 0, 0, 2] loaded_page"
  using index_search_page by (simp add: search_page_def loaded_page_def by_id_def)

lemma createResults_places_rows_witness:
  "\<exists>pg'. createResults (lit ''search/'') loaded_page = Some pg' \<and>
    getElementById (document pg') (item_name 1) = Some [0, 0, 1, 0, 0, 0, 0, 2] \<and>
    getElementById (document pg') (item_name 2) = None"
proof -
  have "searchData loaded_page = Some two_entries" by (simp add: loaded_page_def)
  from createResults_places_rows [OF loaded_search_page this, of "lit ''search/''"] obtain pg' where
    "createResults (lit ''search/'') loaded_page = Some pg'"
    "\<forall>j. getElementById (document pg') (item_name j) =
      (if 0 \<le> j \<and> nat j < length two_entries then Some (0 # 0 # nat j # [0, 0, 0, 0, 2]) else None)" by blast
  then show ?thesis by (intro exI [of _ pg']) (simp add: two_entries_def)
qed

text \<open>C2. When the index file has arrived, its handler finishes: the results window is visible, and of the rows, one
  for each entry that was loaded, exactly those whose id starts with the converted search word are shown.\<close>

theorem loaded_index_shows_matches:
  assumes "search_page r pg" and "k < length (loading pg)" and "load_idx (loading pg ! k) = Some i"
    and "\<forall>d. layout_ok w d"
  shows "\<exists>pg'. script_loaded w k data pg = Some pg' \<and> shown pg' ''MSearchResultsWindow'' \<and>
    rows_shown r data (entry_matches w (load_value (loading pg ! k))) (document pg') \<and>
    lastMatchCount (searchResults pg') =
      length (List.filter (entry_matches w (load_value (loading pg ! k))) data)"
proof -
  let ?pg = "pg\<lparr>loading := take k (loading pg) @ drop (Suc k) (loading pg), searchData := Some data\<rparr>"
  have page: "search_page r ?pg"
    using assms(1) by (auto simp: search_page_def by_id_def dest: in_set_takeD in_set_dropD)
  have caps: "captures_ok (document ?pg) (load_caps (loading pg ! k))" using assms(1,2) by (simp add: search_page_def)
  have data: "searchData ?pg = Some data" by simp
  have layout: "\<And>d. layout_ok w d" using assms(4) by blast
  show ?thesis
    by (rule handleResults_shows [OF page data layout caps, of i "load_value (loading pg ! k)"])
       (simp add: script_loaded_def Let_def assms(3))
qed

definition waiting_page :: page where
  "waiting_page = index_page\<lparr>loading := [\<lparr>load_url = lit ''search/all_0.js'', load_idx = Some 0, load_value = lit ''dev'',
     load_caps = capture_elements index_page\<rparr>]\<rparr>"

lemma loaded_index_shows_matches_witness:
  "\<exists>pg'. script_loaded index_site 0 two_entries waiting_page = Some pg' \<and> shown pg' ''MSearchResultsWindow'' \<and>
    rows_shown [0, 0, 0, 0, 2] two_entries (entry_matches index_site (lit ''dev'')) (document pg')"
proof -
  have page: "search_page [0, 0, 0, 0, 2] waiting_page"
    using index_search_page capture_elements_ok [OF index_page_ok] by (simp add: search_page_def waiting_page_def by_id_def)
  from loaded_index_shows_matches [OF page, of 0 0 index_site two_entries] index_layout show ?thesis
    by (auto simp: waiting_page_def)
qed

section \<open>Index files\<close>

lemma index_of_prefix: "index_of s t = Some i \<Longrightarrow> prefix t (drop i s) \<and> (\<forall>j < i. \<not> prefix t (drop j s))"
proof (induction s t arbitrary: i rule: index_of.induct)
  case (2 c s t)
  show ?case
  proof (cases "prefix t (c # s)")
    case False
    then obtain j where "index_of s t = Some j" "i = Suc j" using 2(2) by auto
    then show ?thesis using 2(1) [OF False, of j] False by (auto simp: less_Suc_eq_0_disj)
  qed (use 2(2) in auto)
qed (simp split: if_splits)

text \<open>A search requests exactly one index file: the one of the current section whose number, in hexadecimal, is
  the position of the first letter of the typed word in the section's letters. The word is remembered for the
  time the file arrives, and the timer of the search is gone.\<close>

lemma search_requests_index:
  assumes "page_ok pg" and "indexSectionsWithContent w (searchIndex (searchBox pg)) = Some sec"
    and "indexSectionNames w (searchIndex (searchBox pg)) = Some name"
    and "index_of sec (idx_char w (strip_leading (field_value pg))) = Some i"
  shows "\<exists>pg'. box_Search w pg = Some pg' \<and>
    loading pg' = loading pg @
      [\<lparr>load_url = resultsPath (searchBox pg) @ name @ lit ''_'' @ to_hex i @ lit ''.js'', load_idx = Some i,
        load_value = strip_leading (field_value pg), load_caps = capture_elements pg\<rparr>] \<and>
    lastSearchValue (searchBox pg') = strip_leading (field_value pg) \<and> keyTimeout (searchBox pg') = 0 \<and>
    prefix (idx_char w (strip_leading (field_value pg))) (drop i sec) \<and>
    (\<forall>j < i. \<not> prefix (idx_char w (strip_leading (field_value pg))) (drop j sec))"
  by (rule box_Search_loads [OF assms(1,2,4)])
     (use index_of_prefix [OF assms(4)] assms(3) in \<open>simp add: js_file_def\<close>)

definition typed_page :: "string \<Rightarrow> page" where
  "typed_page s = set_elem [1, 0, 0] (\<lambda>e. e\<lparr>val := lit s\<rparr>) index_page"

lemma typed_ids: "by_id (typed_page s) t = by_id index_page t"
  by (simp add: typed_page_def)

lemma typed_page_ok: "page_ok (typed_page s)"
  using index_page_ok by (simp add: page_ok_def typed_ids)

lemma typed_value: "field_value (typed_page s) = lit s"
  by (simp add: field_value_def elem_by_id_def typed_ids index_ids)
     (simp add: typed_page_def dom_simps index_page_def index_at)

lemma typed_box: "searchBox (typed_page s) = searchBox index_page" "loading (typed_page s) = []"
  "document (typed_page s) = upd_elem [1, 0, 0] (\<lambda>e. e\<lparr>val := lit s\<rparr>) index_document"
  "timers (typed_page s) = []" "next_timer (typed_page s) = 1" "activeElement (typed_page s) = None"
  by (simp_all add: typed_page_def index_page_def)

lemma typed_search_page: "search_page [0, 0, 0, 0, 2] (typed_page s)"
proof -
  have same: "same_ids index_page (typed_page s)"
    unfolding typed_page_def by (rule same_ids_set_elem) simp
  have row: "is_row (e\<lparr>val := x\<rparr>) = is_row e" "elem_id (e\<lparr>val := x\<rparr>) = elem_id e" for e x
    by (simp_all add: is_row_def className_def elem_id_def)
  have "clean_page [0, 0, 0, 0, 2] (document (typed_page s))"
    using index_search_page by (auto simp: search_page_def clean_page_def typed_page_def dom_simps row split: if_splits)
  then show ?thesis
    using index_search_page fixed_id_same [OF same]
    by (simp add: search_page_def typed_ids) (simp add: typed_page_def index_page_def)
qed

section \<open>The children of a result\<close>

text \<open>C14. \<open>Toggle\<close> on an element flips whether its children are shown: of the \<open>div\<close>s of class \<open>SRChildren\<close> below the
  element that are reached through \<open>div\<close>s alone, it takes the first one in document order, changes its \<open>display\<close> and
  touches no other element, and done twice it gives back the children's state; when there is no such \<open>div\<close>, and only
  then, it does nothing. It never fails on an existing id.\<close>

theorem Toggle_flips:
  assumes "getElementById d i = Some r"
  shows "((\<forall>q. \<not> children_below lc d r q) \<and> Toggle lc d i = Some d) \<or>
    (\<exists>q e d1 d2. children_below lc d r q \<and> (\<forall>p. children_below lc d r p \<longrightarrow> p = q \<or> before q p) \<and>
       elem_at d q = Some e \<and> Toggle lc d i = Some d1 \<and> Toggle lc d1 i = Some d2 \<and>
       (\<forall>p. p \<noteq> q \<longrightarrow> elem_at d1 p = elem_at d p \<and> elem_at d2 p = elem_at d p) \<and>
       map_option (\<lambda>e. display e = lit ''block'') (elem_at d1 q) = Some (display e \<noteq> lit ''block'') \<and>
       map_option (\<lambda>e. display e = lit ''block'') (elem_at d2 q) = Some (display e = lit ''block''))"
proof -
  have "getElementById d i \<noteq> None" using assms by simp
  then show ?thesis
  proof (rule Toggle_spec [of _ _ lc])
    fix q e
    let ?v = "\<lambda>e. lit (if display e = lit ''block'' then ''none'' else ''block'')"
    let ?d = "upd_elem q (set_style ''display'' (?v e)) d"
    let ?e = "set_style ''display'' (?v e) e"
    assume q: "FindChildElement lc d i = Some (Some q)" "elem_at d q = Some e" "Toggle lc d i = Some ?d"
    have first: "children_below lc d r q" "\<forall>p. children_below lc d r p \<longrightarrow> p = q \<or> before q p"
      using FindChildElement_first [OF assms, where lc = lc] q(1) by auto
    have found: "FindChildElement lc ?d i = Some (Some q)" by (simp add: FindChildElement_upd_style q(1))
    have e1: "elem_at ?d q = Some ?e" by (simp add: dom_simps q(2))
    have t: "Toggle lc ?d i = Some (upd_elem q (set_style ''display'' (?v ?e)) ?d)"
      by (simp add: Toggle_def found e1)
    show ?thesis
      by (rule disjI2, intro exI conjI, rule first(1), rule first(2), rule q(2), rule q(3), rule t)
         (simp_all add: dom_simps q(2))
  qed (use FindChildElement_first [OF assms, where lc = lc] in auto)
qed

text \<open>The row of the first entry of \<open>two_entries\<close>, which has two places.\<close>

definition one_row :: dom where
  "one_row = Elem (createElement ''div'') [srResult (lit ''search/'') 0 (two_entries ! 0)]"

lemma Toggle_flips_witness:
  "children_below (\<lambda>s. s) one_row [0] [1, 0, 0] \<and>
    (\<exists>q d1. Toggle (\<lambda>s. s) one_row (elem_id (row_elem (two_entries ! 0))) = Some d1 \<and>
       map_option (\<lambda>e. display e = lit ''block'') (elem_at d1 q) \<noteq> map_option (\<lambda>e. display e = lit ''block'') (elem_at one_row q))"
proof -
  let ?x = "two_entries ! 0"
  have x: "\<not> single ?x" by (simp add: two_entries_def single_def)
  obtain link second where "srEntry (lit ''search/'') 0 ?x = Elem entry_elem [Elem link (innerHTML (entry_symbol ?x)), second]"
    "\<not> single ?x \<Longrightarrow> second = Elem children_elem (map (\<lambda>(c, t). srChild (lit ''search/'') 0 c t) (enumerate 0 (entry_targets ?x)))"
    by (rule srEntry_cases [of "lit ''search/''" 0 ?x]) (rule that; assumption)
  then obtain cs where row: "one_row = Elem (createElement ''div'') [Elem (row_elem ?x)
      [Elem entry_elem [Elem link (innerHTML (entry_symbol ?x)), Elem children_elem cs]]]"
    using x by (simp add: one_row_def srResult_eq)
  have divs: "div_at (\<lambda>s. s) one_row [1, 0, 0]" "div_at (\<lambda>s. s) one_row [0, 0]"
    by (simp_all add: row div_at_def is_div_Elem entry_elem_def children_elem_def toLowerCase_def ascii_def lit_def unit_of_def
        ascii_upper_def ascii_lower_def)
  have between: "p = [0, 0]" if "strict_suffix [0] p" "strict_suffix p [1, 0, 0 :: nat]" for p
    using that by (auto simp: strict_suffix_def suffix_Cons)
  have kids: "children_below (\<lambda>s. s) one_row [0] [1, 0, 0]"
    unfolding children_below_def using divs between
    by (auto simp: strict_suffix_def suffix_Cons row elem_at_def children_elem_def)
  have "getElementById one_row (elem_id (row_elem ?x)) = Some [0]"
    by (simp add: row getElementById_def has_id_def elem_at_def lit_Cons)
  from Toggle_flips [OF this, of "\<lambda>s. s"] kids obtain q e d1
    where q: "elem_at one_row q = Some e" and d1: "Toggle (\<lambda>s. s) one_row (elem_id (row_elem ?x)) = Some d1"
      and flip: "map_option (\<lambda>e. display e = lit ''block'') (elem_at d1 q) = Some (display e \<noteq> lit ''block'')" by blast
  have "map_option (\<lambda>e. display e = lit ''block'') (elem_at d1 q) \<noteq> map_option (\<lambda>e. display e = lit ''block'') (elem_at one_row q)"
    using q flip by auto
  then show ?thesis using kids d1 by blast
qed

section \<open>Keyboard navigation\<close>

text \<open>C18. Both directions of the walk over the results end and give the nearest visible result: from \<open>index\<close> on, they
  skip exactly the results whose row is hidden, and return the first one that is visible, or nothing when the
  results end before.\<close>

theorem nav_finds_nearest:
  assumes "items_ok d"
  shows "(\<exists>n. (\<forall>k < n. item_hidden d (index + int k)) \<and> \<not> item_hidden d (index + int n) \<and>
      NavNext d index = Some (getElementById d (item_name (index + int n)))) \<and>
    (\<exists>n. (\<forall>k < n. item_hidden d (index - int k)) \<and> \<not> item_hidden d (index - int n) \<and>
      NavPrev d index = Some (getElementById d (item_name (index - int n))))"
proof -
  obtain n where n: "\<forall>k < n. item_hidden d (index + 1 * int k)" "\<not> item_hidden d (index + 1 * int n)"
    "NavNext d index = Some (getElementById d (item_name (index + 1 * int n)))"
    by (rule nx.walk_finds [OF assms, of index])
  obtain m where m: "\<forall>k < m. item_hidden d (index + - 1 * int k)" "\<not> item_hidden d (index + - 1 * int m)"
    "NavPrev d index = Some (getElementById d (item_name (index + - 1 * int m)))"
    by (rule pv.walk_finds [OF assms, of index])
  from n m show ?thesis by (intro conjI exI [of _ n] exI [of _ m]) simp_all
qed

lemma nav_finds_nearest_witness:
  "\<exists>pg' n. createResults (lit ''search/'') loaded_page = Some pg' \<and>
    NavNext (document pg') 0 = Some (getElementById (document pg') (item_name (int n)))"
proof -
  have "searchData loaded_page = Some two_entries" by (simp add: loaded_page_def)
  from createResults_places_rows [OF loaded_search_page this, of "lit ''search/''"] obtain pg' where
    "createResults (lit ''search/'') loaded_page = Some pg'" "items_ok (document pg')" by blast
  with nav_finds_nearest [of "document pg'" 0] show ?thesis by auto
qed

text \<open>Key repetition: after the \<open>keydown\<close> of a key with a code, which counts, the first \<open>keypress\<close> is ignored and
  every further one counts, until the \<open>keyup\<close>, which does not count and forgets the key.\<close>

fun run_keys :: "key_event list \<Rightarrow> search_results \<Rightarrow> search_results \<times> bool list" where
  "run_keys [] s = (s, [])"
| "run_keys (e # es) s =
     (let (s, b) = ProcessKeys e s; (s, bs) = run_keys es s in (s, b # bs))"

definition key :: "string \<Rightarrow> int \<Rightarrow> key_event" where
  "key t c = \<lparr>ev_type = t, keyCode = c, shiftKey = False\<rparr>"

lemma run_keys_append:
  "run_keys (es @ fs) s = (let (s, bs) = run_keys es s; (s, cs) = run_keys fs s in (s, bs @ cs))"
  by (induction es arbitrary: s) (auto simp: split_beta Let_def)

lemma run_keypresses:
  "repeatOn s \<Longrightarrow> lastKey s \<noteq> 0 \<Longrightarrow> run_keys (replicate n (key ''keypress'' c)) s = (s, replicate n True)"
  by (induction n) (simp_all add: ProcessKeys_def key_def)

lemma key_repetition:
  assumes "c \<noteq> 0"
  shows "run_keys (key ''keydown'' c # replicate (Suc n) (key ''keypress'' c) @ [key ''keyup'' c]) s =
    (s\<lparr>lastKey := 0, repeatOn := False\<rparr>, True # False # replicate n True @ [False])"
proof -
  have down: "ProcessKeys (key ''keydown'' c) s = (s\<lparr>lastKey := c, repeatOn := False\<rparr>, True)"
    and press: "ProcessKeys (key ''keypress'' c) (s\<lparr>lastKey := c, repeatOn := False\<rparr>) =
      (s\<lparr>lastKey := c, repeatOn := True\<rparr>, False)"
    and up: "ProcessKeys (key ''keyup'' c) (s\<lparr>lastKey := c, repeatOn := True\<rparr>) = (s\<lparr>lastKey := 0, repeatOn := False\<rparr>, False)"
    using assms by (simp_all add: ProcessKeys_def key_def Let_def)
  show ?thesis
    using assms by (simp add: down press up run_keys_append run_keypresses)
qed

section \<open>The timers\<close>

text \<open>C8. Debouncing: from a page without timers, whatever the user types, clicks and presses, whatever timers fire and
  index files arrive, the number of pending searches is at most one more than the number of times that a filter was
  chosen while \<open>keyTimeout\<close> named a search. Without such a choice at most one search is pending, it is the one that
  \<open>keyTimeout\<close> names, and a cleared \<open>keyTimeout\<close> means that none is. (What such a choice does is a property of its
  own: it leaves a search behind that nothing can cancel.)\<close>

theorem one_search_pending:
  assumes "box_run w m pg pg'" and "timers pg = []" "0 < next_timer pg" "keyTimeout (searchBox pg) = 0"
  shows "length (List.filter (\<lambda>t. callback t = Do_Search) (timers pg')) \<le> Suc m \<and>
    (m = 0 \<longrightarrow> (\<forall>t \<in> set (timers pg'). callback t = Do_Search \<longleftrightarrow> timer_id t = keyTimeout (searchBox pg'))) \<and>
    distinct (map timer_id (timers pg'))"
proof -
  have "timers_upto 0 pg" using assms(2-4) by (simp add: timers_upto_0 timers_ok_def timers_inv_def)
  then have upto: "timers_upto m pg'" by (rule box_run_timers [OF assms(1)])
  then have "m = 0 \<Longrightarrow> timers_ok pg'" by (simp add: timers_upto_0)
  then show ?thesis
    using upto upto_inv_searches [of m "timers pg'"] by (auto simp: timers_upto_def upto_inv_def searches_def timers_ok_def timers_inv_def)
qed

lemma field_key_step:
  assumes "s \<noteq> []" "CHR '' '' \<notin> set s"
  shows "\<exists>pg'. OnSearchFieldChange index_site (key ''keyup'' 65) (typed_page s) = Some pg' \<and>
    timers pg' = [\<lparr>timer_id = 1, callback = Do_Search, delay = 500\<rparr>] \<and> keyTimeout (searchBox pg') = 1 \<and>
    document pg' = document (typed_page s)"
proof -
  have "unit_of CHR '' '' = 0x20" by (simp add: unit_of_def)
  then have "strip_all (lit s) = lit s"
    using assms(2) by (auto simp: strip_all_def lit_def filter_id_conv) (metis unit_of_eq_iff)
  moreover obtain e where "elem_by_id (typed_page s) ''MSearchField'' = Some e" "val e = lit s"
    using typed_value [of s] elem_by_id_ok [OF typed_page_ok, of "''MSearchField''" s]
    by (auto simp: field_value_def box_ids_def)
  ultimately show ?thesis
    using assms(1)
    by (simp add: OnSearchFieldChange_def field_changed_def kill_key_timer_def key_def Let_def typed_box setTimeout_def)
       (simp add: index_page_def new_SearchBox_def)
qed

lemma one_search_pending_witness:
  "\<exists>pg'. box_run index_site 0 (typed_page ''main'') pg' \<and> timers pg' \<noteq> [] \<and>
    length (List.filter (\<lambda>t. callback t = Do_Search) (timers pg')) \<le> 1"
proof -
  obtain pg' where run: "OnSearchFieldChange index_site (key ''keyup'' 65) (typed_page ''main'') = Some pg'" "timers pg' \<noteq> []"
    using field_key_step [of "''main''"] by auto
  have steps: "box_run index_site 0 (typed_page ''main'') pg'"
    using box_run.step [OF box_run.stay box_step.field_key [OF run(1)]] by simp
  show ?thesis
    using one_search_pending [OF steps] steps run(2) by (auto simp: typed_box index_page_def new_SearchBox_def)
qed

text \<open>C38. The gap in the debouncing: choosing a filter while a search is pending runs a search at once, clears
  \<open>keyTimeout\<close> and leaves the pending timer in place, so that nothing can cancel it any more and a second search
  follows.\<close>

theorem filter_orphans_search:
  assumes "OnSelectItem w i pg = Some pg'" and "strip_all (field_value pg1) \<noteq> []"
    and "SelectItemSet i (upd_box (\<lambda>b. b\<lparr>searchIndex := i\<rparr>) pg) = Some pg1" and "searchActive (searchBox pg)"
    and "t \<in> set (timers pg)" and "callback t = Do_Search" and "0 < timer_id t"
  shows "t \<in> set (timers pg') \<and> keyTimeout (searchBox pg') = 0 \<and> \<not> timers_ok pg' \<and> kill_key_timer pg' = pg'"
proof -
  obtain field where f: "elem_by_id pg1 ''MSearchField'' = Some field"
    using assms(2) by (cases "elem_by_id pg1 ''MSearchField''") (auto simp: field_value_def strip_all_def)
  have same: "timers pg1 = timers pg" "searchBox pg1 = (searchBox pg)\<lparr>searchIndex := i\<rparr>"
    using SelectItemSet_timers [OF assms(3)] by (simp_all add: same_timers_def)
  then have "box_Search w pg1 = Some pg'"
    using assms(1-4) f by (simp add: OnSelectItem_def field_value_def)
  from box_Search_timers [OF this] have "timers pg' = timers pg" "keyTimeout (searchBox pg') = 0" by (simp_all add: same)
  then show ?thesis
    using assms(5-7) by (auto simp: timers_ok_def timers_inv_def kill_key_timer_def)
qed

definition busy_page :: page where
  "busy_page =
     (upd_box (\<lambda>b. b\<lparr>searchActive := True, keyTimeout := 1\<rparr>) (typed_page ''Main''))
       \<lparr>timers := [\<lparr>timer_id = 1, callback = Do_Search, delay = 500\<rparr>]\<rparr>"

lemma busy_select:
  "SelectItemSet 0 (upd_box (\<lambda>b. b\<lparr>searchIndex := 0\<rparr>) busy_page) =
     Some (upd_box (\<lambda>b. b\<lparr>searchIndex := 0\<rparr>) busy_page)"
proof -
  let ?d = "document (typed_page ''Main'')" and ?pg = "upd_box (\<lambda>b. b\<lparr>searchIndex := 0\<rparr>) busy_page"
  have n: "node_at ?d [1] = Some (Elem (id_elem ''div'' ''MSearchSelectWindow'') [])"
    by (simp add: typed_box upd_elem_def dom_simps) (simp add: doc_simps)
  have "upd_node [1] (set_children (\<lambda>_. [])) ?d = ?d"
    by (simp add: typed_box upd_elem_def) (simp add: doc_simps)
  moreover have doc: "document ?pg = ?d" by (simp add: busy_page_def)
  moreover have "by_id ?pg ''MSearchSelectWindow'' = Some [1]"
    by (simp add: busy_page_def typed_ids index_ids)
  then have "select_nodes ?pg = Some ([1], [])" by (simp only: select_nodes_def doc n bind.bind_lunit children.simps)
  ultimately show ?thesis
    unfolding SelectItemSet_def by (simp del: upd_node.simps)
qed

lemma filter_orphans_search_witness:
  "\<exists>pg'. OnSelectItem index_site 0 busy_page = Some pg' \<and> length (timers pg') = 1 \<and> keyTimeout (searchBox pg') = 0"
proof -
  let ?pg = "upd_box (\<lambda>b. b\<lparr>searchIndex := 0\<rparr>) busy_page"
  have v: "field_value ?pg = lit ''Main''"
    using typed_value [of "''Main''"] by (simp add: field_value_def busy_page_def)
  have ok: "page_ok ?pg" using typed_page_ok [of "''Main''"] by (simp add: page_ok_def busy_page_def)
  have strip: "strip_all (lit ''Main'') \<noteq> []" by (simp add: strip_all_def lit_def unit_of_def)
  have "strip_leading (lit ''Main'') = lit ''Main''" by (simp add: strip_leading_def lit_def unit_of_def)
  moreover have "idx_char index_site (lit ''Main'') = lit ''m''"
    by (simp add: idx_char_def index_site_def toLowerCase_def ascii_def lit_def unit_of_def ascii_lower_def)
  moreover have "index_of (lit ''dm'') (lit ''m'') = Some 1" by (simp add: lit_def unit_of_def)
  ultimately have idx: "index_of (lit ''dm'') (idx_char index_site (strip_leading (field_value ?pg))) = Some 1"
    by (simp add: v)
  have "indexSectionsWithContent index_site (searchIndex (searchBox ?pg)) = Some (lit ''dm'')" by (simp add: index_site_def)
  from box_Search_loads [OF ok this idx] obtain pg' where run: "box_Search index_site ?pg = Some pg'" by blast
  have active: "searchActive (searchBox busy_page)" by (simp add: busy_page_def)
  obtain field where "elem_by_id ?pg ''MSearchField'' = Some field" "val field = lit ''Main''"
    using v elem_by_id_ok [OF ok, of "''MSearchField''"] by (auto simp: field_value_def box_ids_def)
  then have sel: "OnSelectItem index_site 0 busy_page = Some pg'"
    using run active strip busy_select by (simp add: OnSelectItem_def)
  have "timers busy_page = [\<lparr>timer_id = 1, callback = Do_Search, delay = 500\<rparr>]" by (simp add: busy_page_def)
  moreover have "timers pg' = timers ?pg" using box_Search_timers [OF run] by blast
  ultimately show ?thesis
    using filter_orphans_search [OF sel _ busy_select active, of "\<lparr>timer_id = 1, callback = Do_Search, delay = 500\<rparr>"] sel v strip
    by simp
qed

text \<open>C24. The gap at the end of typing: leaving the field with no results shown empties it and closes the box, but leaves a
  pending search in place. When its timer is due, it searches for the empty word: it requests the first index file of
  the section, and when the file arrives it opens the results window again, with every entry of the file.\<close>

theorem late_search_lists_all:
  assumes "search_page r pg" and "indexSectionsWithContent w (searchIndex (searchBox pg)) = Some sec" and "\<forall>d. layout_ok w d"
    and "by_id pg ''MSearchField'' = Some p" "activeElement pg = Some p" and "\<not> shown pg ''MSearchResultsWindow''"
    and "k < length (timers pg)" and "callback (timers pg ! k) = Do_Search" and "location_search w = []"
  shows "\<exists>pg1 pg2 pg3. handle w Focus_lost pg = Some pg1 \<and> field_value pg1 = [] \<and> \<not> searchActive (searchBox pg1) \<and>
    handle w (Timer_due k) pg1 = Some pg2 \<and> map load_url (loading pg2) = map load_url (loading pg) @ [js_file w (searchBox pg) 0] \<and>
    handle w (Index_arrived (length (loading pg)) data) pg2 = Some pg3 \<and> shown pg3 ''MSearchResultsWindow'' \<and>
    rows_shown r data (\<lambda>x. True) (document pg3)"
proof -
  from field_left [OF assms(1,4-6)] obtain pg1 where 1: "blur_active pg = Some pg1" "search_page r pg1" "field_value pg1 = []"
    "timers pg1 = timers pg" "loading pg1 = loading pg" "\<not> searchActive (searchBox pg1)"
    "searchIndex (searchBox pg1) = searchIndex (searchBox pg)" "resultsPath (searchBox pg1) = resultsPath (searchBox pg)" by blast
  let ?pg = "clearTimeout (timer_id (timers pg1 ! k)) pg1"
  have v: "strip_leading (field_value ?pg) = []" "loading ?pg = loading pg" "js_file w (searchBox ?pg) 0 = js_file w (searchBox pg) 0"
    using 1 by (simp_all add: field_value_def clearTimeout_def strip_leading_def js_file_def)
  have idx: "index_of sec (idx_char w (strip_leading (field_value ?pg))) = Some 0"
    unfolding v(1) by (cases sec) (simp_all add: idx_char_def toLowerCase_def ascii_def)
  have sec: "indexSectionsWithContent w (searchIndex (searchBox ?pg)) = Some sec" using assms(2) 1(7) by (simp add: clearTimeout_def)
  have all: "entry_matches w [] = (\<lambda>x. True)"
    by (auto simp: fun_eq_iff entry_matches_def row_matches_def search_word_def assms(9) unescape.simps strip_leading_def
        strip_trailing_def toLowerCase_def ascii_def convertToId_def)
  have page: "search_page r ?pg" using 1(2) by simp
  obtain pg2 pg3 where 2: "run_callback w Do_Search ?pg = Some pg2" "map load_url (loading pg2) = map load_url (loading pg) @ [js_file w (searchBox pg) 0]"
    "script_loaded w (length (loading pg)) data pg2 = Some pg3" "shown pg3 ''MSearchResultsWindow''" "rows_shown r data (\<lambda>x. True) (document pg3)"
    by (rule word_to_rows [OF page sec idx, of data, unfolded v all]) (use assms(3) in auto)
  have "handle w (Timer_due k) pg1 = Some pg2" using 1(4) 2(1) assms(8) by (simp add: fire_def)
  then show ?thesis using 1 2 by auto
qed

lemma late_search_lists_all_witness:
  "\<exists>pg1 pg2 pg3. handle index_site Focus_lost (busy_page\<lparr>activeElement := Some [1, 0, 0]\<rparr>) = Some pg1 \<and>
     handle index_site (Timer_due 0) pg1 = Some pg2 \<and> handle index_site (Index_arrived 0 two_entries) pg2 = Some pg3 \<and>
     shown pg3 ''MSearchResultsWindow'' \<and> rows_shown [0, 0, 0, 0, 2] two_entries (\<lambda>x. True) (document pg3)"
proof -
  let ?pg = "busy_page\<lparr>activeElement := Some [1, 0, 0]\<rparr>"
  have page: "search_page [0, 0, 0, 0, 2] ?pg" using typed_search_page [of "''Main''"] by (simp add: search_page_def busy_page_def)
  have sec: "indexSectionsWithContent index_site (searchIndex (searchBox ?pg)) = Some (lit ''dm'')"
    by (simp add: busy_page_def typed_box index_page_def new_SearchBox_def index_site_def)
  have closed: "\<not> shown ?pg ''MSearchResultsWindow''"
    by (simp add: shown_def busy_page_def elem_by_id_def typed_ids index_ids) (simp add: typed_box dom_simps index_at)
  have field: "by_id ?pg ''MSearchField'' = Some [1, 0, 0]" by (simp add: busy_page_def typed_ids index_ids)
  have "0 < length (timers ?pg)" "callback (timers ?pg ! 0) = Do_Search" "loading ?pg = []" "location_search index_site = []"
    by (simp_all add: busy_page_def typed_box index_site_def)
  then show ?thesis
    using late_search_lists_all [OF page sec _ field _ closed, of 0 two_entries] index_layout by (simp del: handle.simps) metis
qed

section \<open>The filter popup\<close>

text \<open>C37. The arrow keys move the filter by one and never below the first item; but the test against the number \<open>n\<close> of
  items lets the index reach \<open>n\<close> itself, one past the last item; any other key leaves it.\<close>

theorem filter_key_bounds:
  assumes "OnSearchSelectKey w e pg = Some pg'" and "SelectItemCount pg = Some n"
    and "0 \<le> searchIndex (searchBox pg)" and "searchIndex (searchBox pg) \<le> n"
  shows "0 \<le> searchIndex (searchBox pg') \<and> searchIndex (searchBox pg') \<le> n \<and>
    searchIndex (searchBox pg') =
      (if keyCode e = 40 then min n (searchIndex (searchBox pg) + 1)
       else if keyCode e = 38 then max 0 (searchIndex (searchBox pg) - 1)
       else searchIndex (searchBox pg))"
  using OnSearchSelectKey_index [OF assms(1,2)] assms(3,4) by auto

lemma filter_key_bounds_witness:
  "\<exists>pg'. OnSearchSelectKey index_site (key ''keydown'' 38) index_page = Some pg' \<and> searchIndex (searchBox pg') = 0"
proof -
  have i: "searchIndex (searchBox index_page) = 0" by (simp add: index_page_def new_SearchBox_def)
  then have run: "OnSearchSelectKey index_site (key ''keydown'' 38) index_page = Some index_page"
    by (simp add: OnSearchSelectKey_def key_def)
  have "SelectItemCount index_page = Some 0"
    by (simp add: SelectItemCount_def select_nodes_def index_ids) (simp add: index_page_def doc_simps)
  from filter_key_bounds [OF run this] i run show ?thesis by simp
qed

text \<open>Choosing filter \<open>i\<close> marks exactly the item at that rank among the items of the popup with a bullet, and every
  other item with a blank; nodes that are not items are left alone; and it never fails when the items have the
  structure that \<open>init_search\<close> gives them.\<close>

lemma filter_marks_choice:
  assumes "\<forall>c \<in> set cs. has_class ''SelectItem'' c \<longrightarrow> children c \<noteq> []"
  shows "\<exists>cs'. mark_items i 0 cs = Some cs' \<and> length cs' = length cs \<and>
    (\<forall>m < length cs. cs' ! m =
      (if has_class ''SelectItem'' (cs ! m) then marked (i = item_rank cs m) (cs ! m) else cs ! m))"
  using mark_items_total [OF assms, of i 0] mark_items_spec [of i 0 cs] by auto

section \<open>Escape and the results window\<close>

text \<open>Escape in the search field takes the focus away, hides the results, empties the field, forgets the last search
  and deactivates the box, whatever was shown before; the elements, the timers and the loads stay.\<close>

lemma escape_resets:
  assumes "page_ok pg" and "by_id pg ''MSearchField'' = activeElement pg"
  shows "\<exists>pg'. field_escape pg = Some pg' \<and> activeElement pg' = None \<and> \<not> shown pg' ''MSearchResultsWindow'' \<and>
    \<not> searchActive (searchBox pg') \<and> field_value pg' = [] \<and> lastSearchValue (searchBox pg') = [] \<and>
    stopped pg' \<and> ui_only pg pg'"
  by (rule field_escape_spec [OF assms]) blast

text \<open>The results window fits into the window of the browser: it starts at least 10 pixels from the left, keeps 8
  pixels from the right and the lower border, and is at most 300 by 400, whatever the position of the box.\<close>

lemma results_window_fits:
  "case results_box w x y popupWidth of (t, l, wd, ht) \<Rightarrow>
    10 \<le> l \<and> l + wd + 8 \<le> clientWidth w \<and> t = y + 20 \<and> t + ht + 8 \<le> clientHeight w \<and> wd \<le> 300 \<and> ht \<le> 400"
  by (auto simp: results_box_def Let_def)

text \<open>The loops that compute a position end, and give the sum of the offsets along the chain of offset parents, up
  to the body or to the element without one.\<close>

lemma position_is_sum:
  assumes "layout_ok w d"
  shows "\<exists>ps. ps \<noteq> [] \<and> hd ps = p \<and>
    (\<forall>k. Suc k < length ps \<longrightarrow> \<not> is_body d (ps ! k) \<and> offsetParent w d (ps ! k) = Some (ps ! Suc k)) \<and>
    (is_body d (last ps) \<or> offsetParent w d (last ps) = None) \<and>
    pos_loop w off d p x = Some (x + sum_list (map (off d) (List.filter (\<lambda>q. \<not> is_body d q) ps)))"
proof (induction "length p" arbitrary: p x rule: less_induct)
  case less
  show ?case
  proof (cases "is_body d p \<or> offsetParent w d p = None")
    case True
    then show ?thesis by (intro exI [of _ "[p]"]) (auto simp: pos_loop.simps [of w off d p])
  next
    case False
    then obtain q where q: "offsetParent w d p = Some q" by auto
    then have "strict_suffix q p" using assms unfolding layout_ok_def by blast
    then have "length q < length p" by (rule suffix_length_less)
    from less.hyps [OF this, of "x + off d p"] obtain ps where ps: "ps \<noteq> []" "hd ps = q"
      "\<forall>k. Suc k < length ps \<longrightarrow> \<not> is_body d (ps ! k) \<and> offsetParent w d (ps ! k) = Some (ps ! Suc k)"
      "is_body d (last ps) \<or> offsetParent w d (last ps) = None"
      "pos_loop w off d q (x + off d p) =
        Some (x + off d p + sum_list (map (off d) (List.filter (\<lambda>q. \<not> is_body d q) ps)))" by blast
    have "\<not> is_body d ((p # ps) ! k) \<and> offsetParent w d ((p # ps) ! k) = Some ((p # ps) ! Suc k)"
      if "Suc k < length (p # ps)" for k
      using that False q ps(1-3) by (cases k) (auto simp: hd_conv_nth)
    then show ?thesis
      using q False ps by (intro exI [of _ "p # ps"]) (simp add: pos_loop.simps [of w off d p])
  qed
qed

end
