(* ===== verification/Search_Data.thy ===== *)
theory Search_Data
  imports Search_Box
begin

text \<open>
  The generated data of the search: the index files \<open>docs/html/search/*_N.js\<close>, each an array of
  rows (id, symbol, places), and \<open>docs/html/search/searchdata.js\<close>, the tables of sections that
  the search box reads.
\<close>

section \<open>The tables of sections\<close>

text \<open>In this repository the three tables are empty objects: reading any key gives \<open>undefined\<close>.\<close>

definition searchdata :: "site \<Rightarrow> site" where
  "searchdata w =
     w\<lparr>indexSectionsWithContent := Map.empty, indexSectionNames := Map.empty, indexSectionLabels := []\<rparr>"

section \<open>The index files\<close>

definition search_item :: "string \<Rightarrow> string \<Rightarrow> (string \<times> bool \<times> string) list \<Rightarrow> search_entry" where
  "search_item i s ts =
     \<lparr>entry_id = lit i, entry_symbol = lit s,
      entry_targets = map (\<lambda>(url, parent, scope). (lit url, parent, lit scope)) ts\<rparr>"

definition all_0 :: "search_entry list" where
  "all_0 =
    [search_item ''attribute_0'' ''attribute''
        [(''../structDevice.html#aca0962574df975c40762f16df1e99fb7'',
          True, ''Device'')]]"

definition all_1 :: "search_entry list" where
  "all_1 =
    [search_item ''cmakelists_2etxt_1'' ''CMakeLists.txt''
        [(''../CMakeLists_8txt.html'',
          True, ''(Global Namespace)''),
         (''../device__manager_2CMakeLists_8txt.html'',
          True, ''(Global Namespace)'')]]"

definition all_2 :: "search_entry list" where
  "all_2 =
    [search_item ''device_2'' ''Device''
        [(''../structDevice.html'',
          True, ''Device''),
         (''../device__manager_8c.html#a33b368418b6d04ff10d8eda0810269ed'',
          True, ''Device():&#160;device_manager.c'')],
     search_item ''device_5fcamera_3'' ''DEVICE_CAMERA''
        [(''../device__manager_8h.html#ad258d4c51629346fceac4679b3209ad9ae8763ba47e84a673e7711fa8db12b61b'',
          True, ''device_manager.h'')],
     search_item ''device_5flight_4'' ''DEVICE_LIGHT''
        [(''../device__manager_8h.html#ad258d4c51629346fceac4679b3209ad9a678e56976a53b8f41fbfcf7e45b9e6f9'',
          True, ''device_manager.h'')],
     search_item ''device_5fmanager_2ec_5'' ''device_manager.c''
        [(''../device__manager_8c.html'',
          True, '''')],
     search_item ''device_5fmanager_2eh_6'' ''device_manager.h''
        [(''../device__manager_8h.html'',
          True, '''')],
     search_item ''device_5fmanager_5fadd_5fdevice_7'' ''device_manager_add_device''
        [(''../device__manager_8c.html#aaa60991c37a3d1870e22b9836a3917a5'',
          True, ''device_manager_add_device(DeviceManager *manager, const char *name, DeviceType type, int ident):&#160;device_manager.c''),
         (''../device__manager_8h.html#aaa60991c37a3d1870e22b9836a3917a5'',
          True, ''device_manager_add_device(DeviceManager *manager, const char *name, DeviceType type, int ident):&#160;device_manager.c'')],
     search_item ''device_5fmanager_5fcreate_8'' ''device_manager_create''
        [(''../device__manager_8c.html#a7f1c0503794ab11e8a1a5b4273200f2b'',
          True, ''device_manager_create(void):&#160;device_manager.c''),
         (''../device__manager_8h.html#a7f1c0503794ab11e8a1a5b4273200f2b'',
          True, ''device_manager_create(void):&#160;device_manager.c'')],
     search_item ''device_5fmanager_5fdestroy_9'' ''device_manager_destroy''
        [(''../device__manager_8c.html#a9ce2ee56e4a19181470e3d71ff529001'',
          True, ''device_manager_destroy(DeviceManager *manager):&#160;device_manager.c''),
         (''../device__manager_8h.html#a9ce2ee56e4a19181470e3d71ff529001'',
          True, ''device_manager_destroy(DeviceManager *manager):&#160;device_manager.c'')],
     search_item ''device_5fmanager_5fget_5fdevice_5fattribute_10'' ''device_manager_get_device_attribute''
        [(''../device__manager_8c.html#a0525432e45d8c2610be15ace9361babc'',
          True, ''device_manager_get_device_attribute(DeviceManager *manager, int ident):&#160;device_manager.c''),
         (''../device__manager_8h.html#a0525432e45d8c2610be15ace9361babc'',
          True, ''device_manager_get_device_attribute(DeviceManager *manager, int ident):&#160;device_manager.c'')],
     search_item ''device_5fmanager_5fget_5fdevice_5fcount_11'' ''device_manager_get_device_count''
        [(''../device__manager_8c.html#ae2b04f1a998972d49ba8192772b5be90'',
          True, ''device_manager_get_device_count(DeviceManager *manager):&#160;device_manager.c''),
         (''../device__manager_8h.html#ae2b04f1a998972d49ba8192772b5be90'',
          True, ''device_manager_get_device_count(DeviceManager *manager):&#160;device_manager.c'')],
     search_item ''device_5fmanager_5fget_5fdevice_5fhead_12'' ''device_manager_get_device_head''
        [(''../device__manager_8h.html#a8d625c886714fb6d1e64d505efd20067'',
          True, ''device_manager.h'')],
     search_item ''device_5fmanager_5fget_5fdevice_5fname_13'' ''device_manager_get_device_name''
        [(''../device__manager_8c.html#ac0da6ed76b3abd10467720befbace657'',
          True, ''device_manager_get_device_name(DeviceManager *manager, int ident, const char *name):&#160;device_manager.c''),
         (''../device__manager_8h.html#ac0da6ed76b3abd10467720befbace657'',
          True, ''device_manager_get_device_name(DeviceManager *manager, int ident, const char *name):&#160;device_manager.c'')],
     search_item ''device_5fmanager_5fget_5fdevice_5fstate_14'' ''device_manager_get_device_state''
        [(''../device__manager_8c.html#abc702ff96ee82d3132b2a5ee4931908c'',
          True, ''device_manager_get_device_state(DeviceManager *manager, int ident, const char *name):&#160;device_manager.c''),
         (''../device__manager_8h.html#abc702ff96ee82d3132b2a5ee4931908c'',
          True, ''device_manager_get_device_state(DeviceManager *manager, int ident, const char *name):&#160;device_manager.c'')],
     search_item ''device_5fmanager_5fget_5fdevice_5ftype_15'' ''device_manager_get_device_type''
        [(''../device__manager_8c.html#a2e87a55c7e94edabc11a23d327f56311'',
          True, ''device_manager_get_device_type(DeviceManager *manager, int ident, const char *name):&#160;device_manager.c''),
         (''../device__manager_8h.html#a2e87a55c7e94edabc11a23d327f56311'',
          True, ''device_manager_get_device_type(DeviceManager *manager, int ident, const char *name):&#160;device_manager.c'')],
     search_item ''device_5fmanager_5flist_5fdevices_16'' ''device_manager_list_devices''
        [(''../device__manager_8c.html#a0d009f8ab5a523d912ce7381702ff355'',
          True, ''device_manager_list_devices(DeviceManager *manager):&#160;device_manager.c''),
         (''../device__manager_8h.html#a0d009f8ab5a523d912ce7381702ff355'',
          True, ''device_manager_list_devices(DeviceManager *manager):&#160;device_manager.c'')],
     search_item ''device_5fmanager_5fload_17'' ''device_manager_load''
        [(''../device__manager_8c.html#a6fb79773aeb0e4f8b0c7539afc63d408'',
          True, ''device_manager_load(const char *filename):&#160;device_manager.c''),
         (''../device__manager_8h.html#a6fb79773aeb0e4f8b0c7539afc63d408'',
          True, ''device_manager_load(const char *filename):&#160;device_manager.c'')],
     search_item ''device_5fmanager_5fremove_5fdevice_18'' ''device_manager_remove_device''
        [(''../device__manager_8c.html#ada169215eb1e90ec253dd03c099f6bc5'',
          True, ''device_manager_remove_device(DeviceManager *manager, int ident, const char *name):&#160;device_manager.c''),
         (''../device__manager_8h.html#ada169215eb1e90ec253dd03c099f6bc5'',
          True, ''device_manager_remove_device(DeviceManager *manager, int ident, const char *name):&#160;device_manager.c'')],
     search_item ''device_5fmanager_5fsave_19'' ''device_manager_save''
        [(''../device__manager_8c.html#a7ad71323809745298169bbf6dda44df9'',
          True, ''device_manager_save(DeviceManager *manager, const char *filename):&#160;device_manager.c''),
         (''../device__manager_8h.html#a7ad71323809745298169bbf6dda44df9'',
          True, ''device_manager_save(DeviceManager *manager, const char *filename):&#160;device_manager.c'')],
     search_item ''device_5fmanager_5fset_5fdevice_5fattribute_20'' ''device_manager_set_device_attribute''
        [(''../device__manager_8c.html#adeafe938ef73fef5f4d9c71d0fe95f69'',
          True, ''device_manager_set_device_attribute(DeviceManager *manager, int ident, int value):&#160;device_manager.c''),
         (''../device__manager_8h.html#adeafe938ef73fef5f4d9c71d0fe95f69'',
          True, ''device_manager_set_device_attribute(DeviceManager *manager, int ident, int value):&#160;device_manager.c'')],
     search_item ''device_5fmanager_5fset_5fdevice_5fstate_21'' ''device_manager_set_device_state''
        [(''../device__manager_8c.html#accc307f63d844969139054a7a95632b7'',
          True, ''device_manager_set_device_state(DeviceManager *manager, int ident, bool state):&#160;device_manager.c''),
         (''../device__manager_8h.html#accc307f63d844969139054a7a95632b7'',
          True, ''device_manager_set_device_state(DeviceManager *manager, int ident, bool state):&#160;device_manager.c'')],
     search_item ''device_5fthermostat_22'' ''DEVICE_THERMOSTAT''
        [(''../device__manager_8h.html#ad258d4c51629346fceac4679b3209ad9ae2dae0a81fb9ed9d8c242ad23a8e422f'',
          True, ''device_manager.h'')],
     search_item ''devicemanager_23'' ''DeviceManager''
        [(''../structDeviceManager.html'',
          True, ''DeviceManager''),
         (''../device__manager_8h.html#aff53f6b3a25d6ca3770f4d51a39aa80e'',
          True, ''DeviceManager():&#160;device_manager.h'')],
     search_item ''devicetype_24'' ''DeviceType''
        [(''../device__manager_8h.html#ad258d4c51629346fceac4679b3209ad9'',
          True, ''device_manager.h'')]]"

definition all_3 :: "search_entry list" where
  "all_3 =
    [search_item ''get_5fdevice_5fid_25'' ''get_device_id''
        [(''../device__manager_8c.html#a246fffec4eb52d62fd55425b73900b18'',
          True, ''get_device_id(DeviceManager *manager, const char *name):&#160;device_manager.c''),
         (''../device__manager_8h.html#a246fffec4eb52d62fd55425b73900b18'',
          True, ''get_device_id(DeviceManager *manager, const char *name):&#160;device_manager.c'')]]"

definition all_4 :: "search_entry list" where
  "all_4 =
    [search_item ''head_26'' ''head''
        [(''../structDeviceManager.html#a6ac0bc39a5c1117a48e589f8ba450ff2'',
          True, ''DeviceManager'')]]"

definition all_5 :: "search_entry list" where
  "all_5 =
    [search_item ''id_27'' ''id''
        [(''../structDevice.html#acba8d88e9870a9c9e034c4e438264655'',
          True, ''Device'')]]"

definition all_6 :: "search_entry list" where
  "all_6 =
    [search_item ''name_28'' ''name''
        [(''../structDevice.html#acdd5ebce28612d2023dc526a2f3fd47a'',
          True, ''Device'')],
     search_item ''name_5flen_29'' ''NAME_LEN''
        [(''../device__manager_8c.html#a4853f6c25c8394fd57c4d99f61d5cd89'',
          True, ''device_manager.c'')],
     search_item ''next_30'' ''next''
        [(''../structDevice.html#ada0163da92d8eb96b484333dbd4264c2'',
          True, ''Device'')]]"

definition all_7 :: "search_entry list" where
  "all_7 =
    [search_item ''set_31'' ''set''
        [(''../device__manager_2CMakeLists_8txt.html#a11e98ad00ec251369cf83dab925f7f44'',
          True, ''set(LIBRARY_SOURCES &quot;${CMAKE_CURRENT_SOURCE_DIR}/device_manager.c&quot;) set(LIBRARY_HEADERS &quot;$:&#160;CMakeLists.txt''),
         (''../device__manager_2CMakeLists_8txt.html#a49c473d263ecfb6ad8a49ccbf5c50788'',
          True, ''set(LIBRARY_INCLUDES &quot;./&quot; &quot;${CMAKE_BINARY_DIR}/configured_files/include&quot;) add_library(&quot;LibDeviceManager&quot; STATIC $:&#160;CMakeLists.txt'')],
     search_item ''state_32'' ''state''
        [(''../structDevice.html#a3156fd2542c168486a021838eee19203'',
          True, ''Device'')]]"

definition all_8 :: "search_entry list" where
  "all_8 =
    [search_item ''type_33'' ''type''
        [(''../structDevice.html#a7fc5d16455b81b1f20fe14725ee1d704'',
          True, ''Device'')]]"

definition classes_0 :: "search_entry list" where
  "classes_0 =
    [search_item ''device_34'' ''Device''
        [(''../structDevice.html'',
          True, '''')],
     search_item ''devicemanager_35'' ''DeviceManager''
        [(''../structDeviceManager.html'',
          True, '''')]]"

definition defines_0 :: "search_entry list" where
  "defines_0 =
    [search_item ''name_5flen_69'' ''NAME_LEN''
        [(''../device__manager_8c.html#a4853f6c25c8394fd57c4d99f61d5cd89'',
          True, ''device_manager.c'')]]"

definition enums_0 :: "search_entry list" where
  "enums_0 =
    [search_item ''devicetype_65'' ''DeviceType''
        [(''../device__manager_8h.html#ad258d4c51629346fceac4679b3209ad9'',
          True, ''device_manager.h'')]]"

definition enumvalues_0 :: "search_entry list" where
  "enumvalues_0 =
    [search_item ''device_5fcamera_66'' ''DEVICE_CAMERA''
        [(''../device__manager_8h.html#ad258d4c51629346fceac4679b3209ad9ae8763ba47e84a673e7711fa8db12b61b'',
          True, ''device_manager.h'')],
     search_item ''device_5flight_67'' ''DEVICE_LIGHT''
        [(''../device__manager_8h.html#ad258d4c51629346fceac4679b3209ad9a678e56976a53b8f41fbfcf7e45b9e6f9'',
          True, ''device_manager.h'')],
     search_item ''device_5fthermostat_68'' ''DEVICE_THERMOSTAT''
        [(''../device__manager_8h.html#ad258d4c51629346fceac4679b3209ad9ae2dae0a81fb9ed9d8c242ad23a8e422f'',
          True, ''device_manager.h'')]]"

definition files_0 :: "search_entry list" where
  "files_0 =
    [search_item ''cmakelists_2etxt_36'' ''CMakeLists.txt''
        [(''../CMakeLists_8txt.html'',
          True, ''(Global Namespace)''),
         (''../device__manager_2CMakeLists_8txt.html'',
          True, ''(Global Namespace)'')]]"

definition files_1 :: "search_entry list" where
  "files_1 =
    [search_item ''device_5fmanager_2ec_37'' ''device_manager.c''
        [(''../device__manager_8c.html'',
          True, '''')],
     search_item ''device_5fmanager_2eh_38'' ''device_manager.h''
        [(''../device__manager_8h.html'',
          True, '''')]]"

definition functions_0 :: "search_entry list" where
  "functions_0 =
    [search_item ''device_5fmanager_5fadd_5fdevice_39'' ''device_manager_add_device''
        [(''../device__manager_8h.html#aaa60991c37a3d1870e22b9836a3917a5'',
          True, ''device_manager_add_device(DeviceManager *manager, const char *name, DeviceType type, int ident):&#160;device_manager.c''),
         (''../device__manager_8c.html#aaa60991c37a3d1870e22b9836a3917a5'',
          True, ''device_manager_add_device(DeviceManager *manager, const char *name, DeviceType type, int ident):&#160;device_manager.c'')],
     search_item ''device_5fmanager_5fcreate_40'' ''device_manager_create''
        [(''../device__manager_8c.html#a7f1c0503794ab11e8a1a5b4273200f2b'',
          True, ''device_manager_create(void):&#160;device_manager.c''),
         (''../device__manager_8h.html#a7f1c0503794ab11e8a1a5b4273200f2b'',
          True, ''device_manager_create(void):&#160;device_manager.c'')],
     search_item ''device_5fmanager_5fdestroy_41'' ''device_manager_destroy''
        [(''../device__manager_8c.html#a9ce2ee56e4a19181470e3d71ff529001'',
          True, ''device_manager_destroy(DeviceManager *manager):&#160;device_manager.c''),
         (''../device__manager_8h.html#a9ce2ee56e4a19181470e3d71ff529001'',
          True, ''device_manager_destroy(DeviceManager *manager):&#160;device_manager.c'')],
     search_item ''device_5fmanager_5fget_5fdevice_5fattribute_42'' ''device_manager_get_device_attribute''
        [(''../device__manager_8c.html#a0525432e45d8c2610be15ace9361babc'',
          True, ''device_manager_get_device_attribute(DeviceManager *manager, int ident):&#160;device_manager.c''),
         (''../device__manager_8h.html#a0525432e45d8c2610be15ace9361babc'',
          True, ''device_manager_get_device_attribute(DeviceManager *manager, int ident):&#160;device_manager.c'')],
     search_item ''device_5fmanager_5fget_5fdevice_5fcount_43'' ''device_manager_get_device_count''
        [(''../device__manager_8c.html#ae2b04f1a998972d49ba8192772b5be90'',
          True, ''device_manager_get_device_count(DeviceManager *manager):&#160;device_manager.c''),
         (''../device__manager_8h.html#ae2b04f1a998972d49ba8192772b5be90'',
          True, ''device_manager_get_device_count(DeviceManager *manager):&#160;device_manager.c'')],
     search_item ''device_5fmanager_5fget_5fdevice_5fhead_44'' ''device_manager_get_device_head''
        [(''../device__manager_8h.html#a8d625c886714fb6d1e64d505efd20067'',
          True, ''device_manager.h'')],
     search_item ''device_5fmanager_5fget_5fdevice_5fname_45'' ''device_manager_get_device_name''
        [(''../device__manager_8c.html#ac0da6ed76b3abd10467720befbace657'',
          True, ''device_manager_get_device_name(DeviceManager *manager, int ident, const char *name):&#160;device_manager.c''),
         (''../device__manager_8h.html#ac0da6ed76b3abd10467720befbace657'',
          True, ''device_manager_get_device_name(DeviceManager *manager, int ident, const char *name):&#160;device_manager.c'')],
     search_item ''device_5fmanager_5fget_5fdevice_5fstate_46'' ''device_manager_get_device_state''
        [(''../device__manager_8h.html#abc702ff96ee82d3132b2a5ee4931908c'',
          True, ''device_manager_get_device_state(DeviceManager *manager, int ident, const char *name):&#160;device_manager.c''),
         (''../device__manager_8c.html#abc702ff96ee82d3132b2a5ee4931908c'',
          True, ''device_manager_get_device_state(DeviceManager *manager, int ident, const char *name):&#160;device_manager.c'')],
     search_item ''device_5fmanager_5fget_5fdevice_5ftype_47'' ''device_manager_get_device_type''
        [(''../device__manager_8c.html#a2e87a55c7e94edabc11a23d327f56311'',
          True, ''device_manager_get_device_type(DeviceManager *manager, int ident, const char *name):&#160;device_manager.c''),
         (''../device__manager_8h.html#a2e87a55c7e94edabc11a23d327f56311'',
          True, ''device_manager_get_device_type(DeviceManager *manager, int ident, const char *name):&#160;device_manager.c'')],
     search_item ''device_5fmanager_5flist_5fdevices_48'' ''device_manager_list_devices''
        [(''../device__manager_8c.html#a0d009f8ab5a523d912ce7381702ff355'',
          True, ''device_manager_list_devices(DeviceManager *manager):&#160;device_manager.c''),
         (''../device__manager_8h.html#a0d009f8ab5a523d912ce7381702ff355'',
          True, ''device_manager_list_devices(DeviceManager *manager):&#160;device_manager.c'')],
     search_item ''device_5fmanager_5fload_49'' ''device_manager_load''
        [(''../device__manager_8c.html#a6fb79773aeb0e4f8b0c7539afc63d408'',
          True, ''device_manager_load(const char *filename):&#160;device_manager.c''),
         (''../device__manager_8h.html#a6fb79773aeb0e4f8b0c7539afc63d408'',
          True, ''device_manager_load(const char *filename):&#160;device_manager.c'')],
     search_item ''device_5fmanager_5fremove_5fdevice_50'' ''device_manager_remove_device''
        [(''../device__manager_8c.html#ada169215eb1e90ec253dd03c099f6bc5'',
          True, ''device_manager_remove_device(DeviceManager *manager, int ident, const char *name):&#160;device_manager.c''),
         (''../device__manager_8h.html#ada169215eb1e90ec253dd03c099f6bc5'',
          True, ''device_manager_remove_device(DeviceManager *manager, int ident, const char *name):&#160;device_manager.c'')],
     search_item ''device_5fmanager_5fsave_51'' ''device_manager_save''
        [(''../device__manager_8c.html#a7ad71323809745298169bbf6dda44df9'',
          True, ''device_manager_save(DeviceManager *manager, const char *filename):&#160;device_manager.c''),
         (''../device__manager_8h.html#a7ad71323809745298169bbf6dda44df9'',
          True, ''device_manager_save(DeviceManager *manager, const char *filename):&#160;device_manager.c'')],
     search_item ''device_5fmanager_5fset_5fdevice_5fattribute_52'' ''device_manager_set_device_attribute''
        [(''../device__manager_8c.html#adeafe938ef73fef5f4d9c71d0fe95f69'',
          True, ''device_manager_set_device_attribute(DeviceManager *manager, int ident, int value):&#160;device_manager.c''),
         (''../device__manager_8h.html#adeafe938ef73fef5f4d9c71d0fe95f69'',
          True, ''device_manager_set_device_attribute(DeviceManager *manager, int ident, int value):&#160;device_manager.c'')],
     search_item ''device_5fmanager_5fset_5fdevice_5fstate_53'' ''device_manager_set_device_state''
        [(''../device__manager_8c.html#accc307f63d844969139054a7a95632b7'',
          True, ''device_manager_set_device_state(DeviceManager *manager, int ident, bool state):&#160;device_manager.c''),
         (''../device__manager_8h.html#accc307f63d844969139054a7a95632b7'',
          True, ''device_manager_set_device_state(DeviceManager *manager, int ident, bool state):&#160;device_manager.c'')]]"

definition functions_1 :: "search_entry list" where
  "functions_1 =
    [search_item ''get_5fdevice_5fid_54'' ''get_device_id''
        [(''../device__manager_8c.html#a246fffec4eb52d62fd55425b73900b18'',
          True, ''get_device_id(DeviceManager *manager, const char *name):&#160;device_manager.c''),
         (''../device__manager_8h.html#a246fffec4eb52d62fd55425b73900b18'',
          True, ''get_device_id(DeviceManager *manager, const char *name):&#160;device_manager.c'')]]"

definition functions_2 :: "search_entry list" where
  "functions_2 =
    [search_item ''set_55'' ''set''
        [(''../device__manager_2CMakeLists_8txt.html#a11e98ad00ec251369cf83dab925f7f44'',
          True, ''set(LIBRARY_SOURCES &quot;${CMAKE_CURRENT_SOURCE_DIR}/device_manager.c&quot;) set(LIBRARY_HEADERS &quot;$:&#160;CMakeLists.txt''),
         (''../device__manager_2CMakeLists_8txt.html#a49c473d263ecfb6ad8a49ccbf5c50788'',
          True, ''set(LIBRARY_INCLUDES &quot;./&quot; &quot;${CMAKE_BINARY_DIR}/configured_files/include&quot;) add_library(&quot;LibDeviceManager&quot; STATIC $:&#160;CMakeLists.txt'')]]"

definition typedefs_0 :: "search_entry list" where
  "typedefs_0 =
    [search_item ''device_63'' ''Device''
        [(''../device__manager_8c.html#a33b368418b6d04ff10d8eda0810269ed'',
          True, ''device_manager.c'')],
     search_item ''devicemanager_64'' ''DeviceManager''
        [(''../device__manager_8h.html#aff53f6b3a25d6ca3770f4d51a39aa80e'',
          True, ''device_manager.h'')]]"

definition variables_0 :: "search_entry list" where
  "variables_0 =
    [search_item ''attribute_56'' ''attribute''
        [(''../structDevice.html#aca0962574df975c40762f16df1e99fb7'',
          True, ''Device'')]]"

definition variables_1 :: "search_entry list" where
  "variables_1 =
    [search_item ''head_57'' ''head''
        [(''../structDeviceManager.html#a6ac0bc39a5c1117a48e589f8ba450ff2'',
          True, ''DeviceManager'')]]"

definition variables_2 :: "search_entry list" where
  "variables_2 =
    [search_item ''id_58'' ''id''
        [(''../structDevice.html#acba8d88e9870a9c9e034c4e438264655'',
          True, ''Device'')]]"

definition variables_3 :: "search_entry list" where
  "variables_3 =
    [search_item ''name_59'' ''name''
        [(''../structDevice.html#acdd5ebce28612d2023dc526a2f3fd47a'',
          True, ''Device'')],
     search_item ''next_60'' ''next''
        [(''../structDevice.html#ada0163da92d8eb96b484333dbd4264c2'',
          True, ''Device'')]]"

definition variables_4 :: "search_entry list" where
  "variables_4 =
    [search_item ''state_61'' ''state''
        [(''../structDevice.html#a3156fd2542c168486a021838eee19203'',
          True, ''Device'')]]"

definition variables_5 :: "search_entry list" where
  "variables_5 =
    [search_item ''type_62'' ''type''
        [(''../structDevice.html#a7fc5d16455b81b1f20fe14725ee1d704'',
          True, ''Device'')]]"

definition index_files :: "search_entry list list" where
  "index_files =
     [all_0, all_1, all_2, all_3, all_4, all_5,
      all_6, all_7, all_8, classes_0, files_0, files_1,
      functions_0, functions_1, functions_2, variables_0, variables_1, variables_2,
      variables_3, variables_4, variables_5, typedefs_0, enums_0, enumvalues_0,
      defines_0]"

section \<open>The ids of the rows\<close>

text \<open>
  The id of a row is its symbol in lower case, converted, and a number; over all the files, in
  the order of the sections, the rows are numbered from 0.
\<close>

definition id_of :: "search_entry \<Rightarrow> int \<Rightarrow> jstring" where
  "id_of x k = convertToId (map ascii_lower (entry_symbol x)) @ lit ''_'' @ num_str k"

fun numbered :: "int \<Rightarrow> search_entry list \<Rightarrow> bool" where
  "numbered k [] = True"
| "numbered k (x # xs) = (ascii (entry_symbol x) \<and> entry_id x = id_of x k \<and> numbered (k + 1) xs)"

lemma numbered_append: "numbered k (xs @ ys) \<longleftrightarrow> numbered k xs \<and> numbered (k + int (length xs)) ys"
  by (induction xs arbitrary: k) (simp_all add: ac_simps)

lemma numbered_member:
  assumes "numbered k xs" "x \<in> set xs" "0 \<le> k"
  shows "ascii (entry_symbol x) \<and> (\<exists>n \<ge> 0. entry_id x = id_of x n)"
  using assms by (induction xs arbitrary: k) fastforce+

lemmas eval_entry = search_item_def id_of_def lit_def unit_of_def ascii_lower_def ascii_def id_unit_def id_char_def
  radix.simps to_hex_def digit_def num_str_def

lemma numbered_all:
  "numbered 0 all_0"
  "numbered 1 all_1"
  "numbered 2 all_2"
  "numbered 25 all_3"
  "numbered 26 all_4"
  "numbered 27 all_5"
  "numbered 28 all_6"
  "numbered 31 all_7"
  "numbered 33 all_8"
  by (simp_all add: all_0_def all_1_def all_2_def all_3_def all_4_def all_5_def all_6_def all_7_def all_8_def eval_entry)

lemma numbered_kinds:
  "numbered 34 classes_0"
  "numbered 36 files_0"
  "numbered 37 files_1"
  "numbered 39 functions_0"
  "numbered 54 functions_1"
  "numbered 55 functions_2"
  by (simp_all add: classes_0_def files_0_def files_1_def functions_0_def functions_1_def functions_2_def eval_entry)

lemma numbered_others:
  "numbered 56 variables_0"
  "numbered 57 variables_1"
  "numbered 58 variables_2"
  "numbered 59 variables_3"
  "numbered 61 variables_4"
  "numbered 62 variables_5"
  "numbered 63 typedefs_0"
  "numbered 65 enums_0"
  "numbered 66 enumvalues_0"
  "numbered 69 defines_0"
  by (simp_all add: variables_0_def variables_1_def variables_2_def variables_3_def variables_4_def variables_5_def typedefs_0_def enums_0_def enumvalues_0_def defines_0_def eval_entry)

lemma length_files:
  "length all_0 = 1"
  "length all_1 = 1"
  "length all_2 = 23"
  "length all_3 = 1"
  "length all_4 = 1"
  "length all_5 = 1"
  "length all_6 = 3"
  "length all_7 = 2"
  "length all_8 = 1"
  "length classes_0 = 2"
  "length files_0 = 1"
  "length files_1 = 2"
  "length functions_0 = 15"
  "length functions_1 = 1"
  "length functions_2 = 1"
  "length variables_0 = 1"
  "length variables_1 = 1"
  "length variables_2 = 1"
  "length variables_3 = 2"
  "length variables_4 = 1"
  "length variables_5 = 1"
  "length typedefs_0 = 2"
  "length enums_0 = 1"
  "length enumvalues_0 = 3"
  "length defines_0 = 1"
  by (simp_all add: all_0_def all_1_def all_2_def all_3_def all_4_def all_5_def all_6_def all_7_def all_8_def classes_0_def files_0_def files_1_def functions_0_def functions_1_def functions_2_def variables_0_def variables_1_def variables_2_def variables_3_def variables_4_def variables_5_def typedefs_0_def enums_0_def enumvalues_0_def defines_0_def)

lemma index_numbered: "numbered 0 (concat index_files)"
  by (simp add: index_files_def numbered_append length_files numbered_all numbered_kinds numbered_others)

end
