(* ===== verification/Dyn_Sections.thy ===== *)
theory Dyn_Sections
  imports Js_String
begin

text \<open>
  \<open>docs/html/dynsections.js\<close>: the collapsible sections, the directory tree, the inherited
  members of the documentation pages (the code folds are in \<open>Code_Folds\<close>). Each group keeps the part of
  the page it works on: a section, the rows of the \<open>directory\<close> table in document order, the rows of a
  class. jQuery's \<open>show\<close>, \<open>hide\<close>, \<open>toggle\<close>, class changes and the filters
  \<open>:first\<close>, \<open>:even\<close>, \<open>:odd\<close>, \<open>[id^=...]\<close> are the list operations they document.
\<close>

section \<open>Collapsible sections\<close>

record section_state =
  summary_shown :: bool
  content_shown :: bool
  link_classes :: "string set"
  trigger_src :: string

text \<open>\<open>src.substring(0, src.length - n)\<close>: a negative end counts as 0.\<close>

definition drop_end :: "nat \<Rightarrow> string \<Rightarrow> string" where
  "drop_end n s = take (length s - n) s"

definition toggleVisibility :: "section_state \<Rightarrow> section_state" where
  "toggleVisibility s =
     (if content_shown s
      then s\<lparr>content_shown := False, summary_shown := True,
             link_classes := insert ''closed'' (link_classes s) - {''opened''},
             trigger_src := drop_end 8 (trigger_src s) @ ''closed.png''\<rparr>
      else s\<lparr>content_shown := True, summary_shown := False,
             link_classes := insert ''opened'' (link_classes s - {''closed''}),
             trigger_src := drop_end 10 (trigger_src s) @ ''open.png''\<rparr>)"

section \<open>The directory tree\<close>

datatype icon = No_Icon | Folder_Open | Folder_Closed
datatype arrow = No_Arrow | Arrow_Down | Arrow_Right

record dir_row =
  row_id :: string
  row_shown :: bool
  row_even :: bool
  row_odd :: bool
  row_icon :: icon
  row_arrow :: arrow

definition set_icon :: "icon \<Rightarrow> dir_row \<Rightarrow> dir_row" where
  "set_icon i r = (if row_icon r = No_Icon then r else r\<lparr>row_icon := i\<rparr>)"

definition set_arrow :: "arrow \<Rightarrow> dir_row \<Rightarrow> dir_row" where
  "set_arrow a r = (if row_arrow r = No_Arrow then r else r\<lparr>row_arrow := a\<rparr>)"

text \<open>The stripes: the visible rows are even and odd in turn, from an even one.\<close>

fun stripe :: "nat \<Rightarrow> dir_row list \<Rightarrow> dir_row list" where
  "stripe n [] = []"
| "stripe n (r # rs) =
     (if row_shown r then r\<lparr>row_even := (n mod 2 = 0), row_odd := (n mod 2 = 1)\<rparr> # stripe (Suc n) rs
      else r\<lparr>row_even := False, row_odd := False\<rparr> # stripe n rs)"

definition updateStripes :: "dir_row list \<Rightarrow> dir_row list" where
  "updateStripes rs = stripe 0 rs"

text \<open>\<open>this.id.split('_').length - 1\<close>.\<close>

definition id_level :: "string \<Rightarrow> nat" where
  "id_level s = length (List.filter (\<lambda>c. c = CHR ''_'') s)"

definition level_row :: "nat \<Rightarrow> dir_row \<Rightarrow> dir_row" where
  "level_row level r =
     (let l = id_level (row_id r) in
      if l < level + 1 then (set_arrow Arrow_Down (set_icon Folder_Open r))\<lparr>row_shown := True\<rparr>
      else if l = level + 1 then (set_arrow Arrow_Right (set_icon Folder_Closed r))\<lparr>row_shown := True\<rparr>
      else r\<lparr>row_shown := False\<rparr>)"

definition toggleLevel :: "nat \<Rightarrow> dir_row list \<Rightarrow> dir_row list" where
  "toggleLevel level rs = updateStripes (map (level_row level) rs)"

definition lower_char :: "char \<Rightarrow> char" where
  "lower_char c = (let n = (of_char c :: nat) in if 65 \<le> n \<and> n \<le> 90 then char_of (n + 32) else c)"

definition is_dec :: "char \<Rightarrow> bool" where
  "is_dec c \<longleftrightarrow> (48 :: nat) \<le> of_char c \<and> (of_char c :: nat) \<le> 57"

text \<open>\<open>new RegExp('^row_' + id + '\d+_$', "i")\<close>, for an id without special characters.\<close>

definition child_of :: "string \<Rightarrow> string \<Rightarrow> bool" where
  "child_of i s \<longleftrightarrow>
     (let pre = map lower_char (''row_'' @ i); t = map lower_char s; rest = drop (length pre) t in
      prefix pre t \<and> 2 \<le> length rest \<and> last rest = CHR ''_'' \<and> list_all is_dec (butlast rest))"

text \<open>\<open>[id^=row_...]\<close>, the rows below a folder.\<close>

definition below :: "string \<Rightarrow> string \<Rightarrow> bool" where
  "below i s \<longleftrightarrow> prefix (''row_'' @ i) s"

text \<open>The clicked row, and the rows before and after it.\<close>

fun split_row :: "string \<Rightarrow> dir_row list \<Rightarrow> (dir_row list \<times> dir_row \<times> dir_row list) option" where
  "split_row i [] = None"
| "split_row i (r # rs) =
     (if row_id r = ''row_'' @ i then Some ([], r, rs)
      else map_option (\<lambda>(us, c, vs). (r # us, c, vs)) (split_row i rs))"

definition folder_open :: "string \<Rightarrow> dir_row list \<Rightarrow> bool" where
  "folder_open i rows =
     (case List.filter (\<lambda>r. child_of i (row_id r)) rows of [] \<Rightarrow> False | r # rs \<Rightarrow> row_shown r)"

definition hide_below :: "string \<Rightarrow> dir_row \<Rightarrow> dir_row" where
  "hide_below i r = (if below i (row_id r) then r\<lparr>row_shown := False\<rparr> else r)"

definition show_child :: "string \<Rightarrow> dir_row \<Rightarrow> dir_row" where
  "show_child i r =
     (if child_of i (row_id r)
      then (set_arrow Arrow_Right (if row_icon r = Folder_Open then r\<lparr>row_icon := Folder_Closed\<rparr> else r))\<lparr>row_shown := True\<rparr>
      else r)"

definition toggleFolder :: "string \<Rightarrow> dir_row list \<Rightarrow> dir_row list" where
  "toggleFolder i rs =
     updateStripes
       (case split_row i rs of
          None \<Rightarrow> rs
        | Some (before, current, rows) \<Rightarrow>
            if folder_open i rows
            then before @ [set_arrow Arrow_Right (if row_icon current = Folder_Open then current\<lparr>row_icon := Folder_Closed\<rparr> else current)]
                   @ map (hide_below i) rows
            else before @ [set_arrow Arrow_Down (if row_icon current = Folder_Closed then current\<lparr>row_icon := Folder_Open\<rparr> else current)]
                   @ map (show_child i) rows)"

section \<open>Inherited members\<close>

text \<open>The rows \<open>tr.inherit.id\<close> by their visibility, and the image of the header.\<close>

definition toggleInherit :: "bool list \<times> string \<Rightarrow> bool list \<times> string" where
  "toggleInherit = (\<lambda>(rows, src).
     if rows \<noteq> [] \<and> hd rows
     then (map (\<lambda>_. False) rows, drop_end 8 src @ ''closed.png'')
     else (map (\<lambda>_. True) rows, drop_end 10 src @ ''open.png''))"

section \<open>Facts\<close>

text \<open>A section shows its content or its summary, and its image and classes say which.\<close>

definition section_ok :: "string \<Rightarrow> section_state \<Rightarrow> bool" where
  "section_ok base s \<longleftrightarrow>
     summary_shown s = (\<not> content_shown s) \<and>
     (''opened'' \<in> link_classes s) = content_shown s \<and> (''closed'' \<in> link_classes s) = (\<not> content_shown s) \<and>
     trigger_src s = base @ (if content_shown s then ''open.png'' else ''closed.png'')"

lemma drop_end_append [simp]: "length t = n \<Longrightarrow> drop_end n (s @ t) = s"
  by (simp add: drop_end_def)

lemma toggleVisibility_ok:
  assumes "section_ok base s"
  shows "section_ok base (toggleVisibility s)" "content_shown (toggleVisibility s) = (\<not> content_shown s)"
  using assms by (auto simp: section_ok_def toggleVisibility_def)

lemma toggleVisibility_twice:
  assumes "section_ok base s"
  shows "toggleVisibility (toggleVisibility s) = s"
proof (cases "content_shown s")
  case True
  then have "insert ''opened'' (insert ''closed'' (link_classes s) - {''opened''} - {''closed''}) = link_classes s"
    using assms by (auto simp: section_ok_def)
  then show ?thesis using True assms by (simp add: toggleVisibility_def section_ok_def)
next
  case False
  then have "insert ''closed'' (insert ''opened'' (link_classes s - {''closed''})) - {''opened''} = link_classes s"
    using assms by (auto simp: section_ok_def)
  then show ?thesis using False assms by (simp add: toggleVisibility_def section_ok_def)
qed

text \<open>Striping keeps everything but the stripes.\<close>

definition plain :: "dir_row \<Rightarrow> dir_row" where
  "plain r = r\<lparr>row_even := False, row_odd := False\<rparr>"

lemma map_plain_stripe [simp]: "map plain (stripe n rs) = map plain rs"
  by (induction n rs rule: stripe.induct) (simp_all add: plain_def)

lemma length_stripe [simp]: "length (stripe n rs) = length rs"
  by (induction n rs rule: stripe.induct) simp_all

lemma stripe_nth:
  "k < length rs \<Longrightarrow> \<exists>a b. stripe n rs ! k = (rs ! k)\<lparr>row_even := a, row_odd := b\<rparr>"
proof (induction n rs arbitrary: k rule: stripe.induct)
  case (2 n r rs)
  have "\<exists>a b. r = r\<lparr>row_even := a, row_odd := b\<rparr>" by (metis dir_row.surjective dir_row.update_convs(3,4))
  then show ?case using 2 by (cases k) auto
qed simp

lemma stripe_same:
  assumes "k < length rs"
  shows "row_id (stripe n rs ! k) = row_id (rs ! k)" "row_shown (stripe n rs ! k) = row_shown (rs ! k)"
  using stripe_nth [OF assms, of n] by auto

lemma map_stripe [simp]: "map row_id (stripe n rs) = map row_id rs" "map row_shown (stripe n rs) = map row_shown rs"
  by (rule nth_equalityI; simp add: stripe_same)+

text \<open>The \<open>k\<close>-th visible row is even exactly when \<open>k\<close> is.\<close>

lemma stripe_visible:
  "map (\<lambda>r. (row_even r, row_odd r)) (List.filter row_shown (stripe n rs)) =
   map (\<lambda>k. (k mod 2 = 0, k mod 2 = 1)) [n..<n + length (List.filter row_shown rs)]"
proof (induction n rs rule: stripe.induct)
  case (2 n r rs)
  have "[n..<n + Suc m] = n # [Suc n..<Suc n + m]" for m by (simp add: upt_conv_Cons del: upt_Suc)
  then show ?case using 2 by (cases "row_shown r") (simp_all del: upt_Suc)
qed simp

lemma set_icon_simps [simp]:
  "row_id (set_icon i r) = row_id r" "row_id (set_arrow a r) = row_id r"
  "row_shown (set_icon i r) = row_shown r" "row_shown (set_arrow a r) = row_shown r"
  by (simp_all add: set_icon_def set_arrow_def)

lemma toggleLevel_shown:
  assumes "k < length rs"
  shows "row_shown (toggleLevel level rs ! k) = (id_level (row_id (rs ! k)) \<le> level + 1)"
    "row_id (toggleLevel level rs ! k) = row_id (rs ! k)"
  using assms by (auto simp: toggleLevel_def updateStripes_def stripe_same level_row_def Let_def)

lemma id_level_prefix: "prefix s t \<Longrightarrow> id_level s \<le> id_level t"
  by (auto simp: id_level_def prefix_def)

text \<open>The rows of the tree around a folder, and what a click on it does to them.\<close>

lemma split_row_eq:
  "split_row i rs = Some (us, c, vs) \<Longrightarrow> rs = us @ c # vs \<and> row_id c = ''row_'' @ i"
  by (induction rs arbitrary: us) (auto split: if_splits)

lemma split_row_ids:
  assumes "map row_id rs = map row_id rs'" "split_row i rs = Some (us, c, vs)"
  shows "\<exists>us' c' vs'. split_row i rs' = Some (us', c', vs') \<and> rs' = us' @ c' # vs' \<and> length us' = length us"
  using assms
proof (induction rs arbitrary: rs' us)
  case (Cons r rs)
  then obtain r' rs2 where r': "rs' = r' # rs2" "row_id r' = row_id r" "map row_id rs = map row_id rs2" by (cases rs') auto
  show ?case
  proof (cases "row_id r = ''row_'' @ i")
    case True
    then show ?thesis using Cons.prems r' by auto
  next
    case False
    then obtain us2 where us2: "split_row i rs = Some (us2, c, vs)" "us = r # us2" using Cons.prems by auto
    from Cons.IH [OF r'(3) us2(1)] obtain us' c' vs'
      where "split_row i rs2 = Some (us', c', vs')" "rs2 = us' @ c' # vs'" "length us' = length us2" by blast
    then show ?thesis using False r' us2 by auto
  qed
qed simp

text \<open>A folder in the table: its row, and below it at least one child; the ids are in lower case.\<close>

definition has_folder :: "string \<Rightarrow> dir_row list \<Rightarrow> bool" where
  "has_folder i rs \<longleftrightarrow>
     (case split_row i rs of
        None \<Rightarrow> False
      | Some (before, current, rows) \<Rightarrow>
          (\<exists>r \<in> set rows. child_of i (row_id r)) \<and>
          (\<forall>r \<in> set rows. child_of i (row_id r) \<longrightarrow> below i (row_id r)))"

definition is_open :: "string \<Rightarrow> dir_row list \<Rightarrow> bool" where
  "is_open i rs \<longleftrightarrow>
     (case split_row i rs of None \<Rightarrow> False | Some (before, current, rows) \<Rightarrow> folder_open i rows)"

lemma folder_open_first:
  "folder_open i rows \<longleftrightarrow>
   (case List.find (\<lambda>r. child_of i (row_id r)) rows of None \<Rightarrow> False | Some r \<Rightarrow> row_shown r)"
  by (induction rows) (auto simp: folder_open_def)

lemma folder_open_cong:
  assumes "map row_id rs = map row_id rs'" "map row_shown rs = map row_shown rs'"
  shows "folder_open i rs = folder_open i rs'"
  using assms
proof (induction rs arbitrary: rs')
  case (Cons r rs)
  then obtain r' rs2 where "rs' = r' # rs2" by (cases rs') auto
  with Cons show ?case by (auto simp: folder_open_first split: if_splits)
qed simp

lemma folder_open_map:
  assumes "\<exists>r \<in> set rows. child_of i (row_id r)" "\<And>r. row_id (g r) = row_id r"
    and "\<And>r. r \<in> set rows \<Longrightarrow> child_of i (row_id r) \<Longrightarrow> row_shown (g r) = b"
  shows "folder_open i (map g rows) = b"
  using assms
proof (induction rows)
  case (Cons r rs)
  then show ?case by (cases "child_of i (row_id r)") (auto simp: folder_open_first)
qed simp

lemma row_id_folder_updates [simp]:
  "row_id (hide_below i r) = row_id r" "row_id (show_child i r) = row_id r"
  by (simp_all add: hide_below_def show_child_def)

lemma toggleFolder_flips:
  assumes "has_folder i rs"
  shows "is_open i (toggleFolder i rs) = (\<not> is_open i rs)"
proof -
  obtain us c vs where sp: "split_row i rs = Some (us, c, vs)"
    and ch: "\<exists>r \<in> set vs. child_of i (row_id r)" "\<forall>r \<in> set vs. child_of i (row_id r) \<longrightarrow> below i (row_id r)"
    using assms by (auto simp: has_folder_def split: option.splits)
  have rs: "rs = us @ c # vs" "row_id c = ''row_'' @ i" using split_row_eq [OF sp] by auto
  define g where "g = (if folder_open i vs then hide_below i else show_child i)"
  obtain c' where c': "toggleFolder i rs = updateStripes (us @ c' # map g vs)" "row_id c' = row_id c"
    using sp by (cases "folder_open i vs") (force simp: toggleFolder_def g_def)+
  have "map row_id rs = map row_id (toggleFolder i rs)"
    using rs c' by (simp add: updateStripes_def g_def comp_def)
  from split_row_ids [OF this sp] obtain us' d ws
    where sp': "split_row i (toggleFolder i rs) = Some (us', d, ws)" "toggleFolder i rs = us' @ d # ws" "length us' = length us"
    by blast
  have ws: "ws = drop (Suc (length us)) (stripe 0 (us @ c' # map g vs))"
    using sp' c'(1) by (simp add: updateStripes_def)
  have "map row_id ws = map row_id (map g vs)" "map row_shown ws = map row_shown (map g vs)"
    unfolding ws by (simp_all only: drop_map [symmetric] map_stripe) (simp_all add: drop_map)
  then have "folder_open i ws = folder_open i (map g vs)" by (rule folder_open_cong)
  also have "\<dots> = (\<not> folder_open i vs)"
    using ch by (intro folder_open_map) (auto simp: g_def hide_below_def show_child_def)
  finally show ?thesis using sp sp'(1) by (simp add: is_open_def)
qed

lemma map_id_toggleFolder: "map row_id (toggleFolder i rs) = map row_id rs"
proof (cases "split_row i rs")
  case None
  then show ?thesis by (simp add: toggleFolder_def updateStripes_def)
next
  case (Some p)
  obtain us c vs where p: "p = (us, c, vs)" by (cases p)
  then have "rs = us @ c # vs" using split_row_eq [of i rs us c vs] Some by simp
  then show ?thesis using Some p by (simp add: toggleFolder_def updateStripes_def comp_def)
qed

end
