(* ===== verification/Code_Folds.thy ===== *)
theory Code_Folds
  imports Dom_Edit
begin

text \<open>
  The code folds of \<open>docs/html/dynsections.js\<close>: \<open>init_codefold\<close> adds to every \<open>foldopen\<close> block of a
  source listing a hidden \<open>foldclosed\<close> block that follows it, and \<open>codefold_toggle\<close> and
  \<open>codefold_toggle_all\<close> switch between the two. The markup that the script writes is the tree that a
  browser parses it to (ids and markers hold no \<open><\<close> and no \<open>&\<close>); reading an element back as markup and
  parsing it again, which the script does with the first line of a block, is the browser's.
\<close>

section \<open>The browser's part\<close>

text \<open>
  \<open>innerHTML\<close> read and written, and replacing \<open>new RegExp('\s*' + start + '\s*$', 'g')\<close> by nothing where
  \<open>start\<close> is not a plain text; \<^term>\<open>None\<close> is the SyntaxError of an ill-formed pattern.
\<close>

record browser =
  to_html :: "dom list \<Rightarrow> jstring"
  of_html :: "jstring \<Rightarrow> dom list"
  strip_pattern :: "jstring \<Rightarrow> jstring \<Rightarrow> jstring option"

definition is_blank :: "jchar \<Rightarrow> bool" where
  "is_blank c \<longleftrightarrow> c \<in> {0x09, 0x0A, 0x0B, 0x0C, 0x0D, 0x20, 0xA0, 0xFEFF, 0x1680, 0x2028, 0x2029, 0x202F, 0x205F, 0x3000}
     \<or> 0x2000 \<le> c \<and> c \<le> 0x200A"

text \<open>A text that means itself in a pattern: no blank and no special character, or a lone brace.\<close>

definition plain_marker :: "jstring \<Rightarrow> bool" where
  "plain_marker s \<longleftrightarrow>
     s = lit ''{'' \<or> (\<forall>c \<in> set s. \<not> is_blank c \<and> c \<notin> set (lit ''^$.*+?()[]{}|'') \<and> c \<noteq> 0x5C)"

definition trim_end :: "jstring \<Rightarrow> jstring" where
  "trim_end s = rev (dropWhile is_blank (rev s))"

definition strip_marker :: "browser \<Rightarrow> jstring \<Rightarrow> jstring \<Rightarrow> jstring option" where
  "strip_marker b start s =
     (if plain_marker start
      then Some (let t = trim_end s in if suffix start t then trim_end (take (length t - length start) t) else s)
      else strip_pattern b start s)"

section \<open>The elements of a listing\<close>

definition of_class :: "string \<Rightarrow> string \<Rightarrow> elem \<Rightarrow> bool" where
  "of_class t c e \<longleftrightarrow> tag e = t \<and> attrs e ''class'' = Some (lit c)"

text \<open>\<open>span[class=lineno]\<close>, \<open>span[class=fold]\<close> and \<open>div[class=foldopen]\<close>.\<close>

definition lineno :: "elem \<Rightarrow> bool" where
  "lineno e \<longleftrightarrow> of_class ''span'' ''lineno'' e"

definition fold_span :: "elem \<Rightarrow> bool" where
  "fold_span e \<longleftrightarrow> of_class ''span'' ''fold'' e"

definition fold_div :: "elem \<Rightarrow> bool" where
  "fold_div e \<longleftrightarrow> of_class ''div'' ''foldopen'' e"

definition id_prefix :: "string \<Rightarrow> elem \<Rightarrow> bool" where
  "id_prefix s e \<longleftrightarrow> (case attrs e ''id'' of None \<Rightarrow> False | Some i \<Rightarrow> prefix (lit s) i)"

definition plusImg :: "string list" where
  "plusImg = [''var(--fold-plus-image)'', ''var(--fold-plus-image-relpath)'']"

definition minusImg :: "string list" where
  "minusImg = [''var(--fold-minus-image)'', ''var(--fold-minus-image-relpath)'']"

text \<open>\<open>css('background-image', imgs[relPath])\<close>; without such an image nothing is set.\<close>

definition image_css :: "string list \<Rightarrow> nat \<Rightarrow> elem \<Rightarrow> elem" where
  "image_css imgs relPath e =
     (if relPath < length imgs then set_style ''background-image'' (lit (imgs ! relPath)) e else e)"

definition lineno_css :: "elem \<Rightarrow> elem" where
  "lineno_css e =
     set_style ''padding-right'' (lit ''4px'') (set_style ''margin-right'' (lit ''2px'')
       (set_style ''display'' (lit ''inline-block'') (set_style ''width'' (lit ''54px'')
         (set_style ''background'' (lit ''linear-gradient(var(--fold-line-color),var(--fold-line-color)) no-repeat 46px/2px 100%'') e))))"

definition fold_line :: dom where
  "fold_line = Elem (setAttribute ''class'' (lit ''fold'') (createElement ''span'')) []"

definition fold_all :: "nat \<Rightarrow> dom" where
  "fold_all relPath =
     Elem (image_css minusImg relPath
       (setAttribute ''onclick'' (lit ''javascript:codefold_toggle_all('' @ num_str (int relPath) @ lit '');'')
         (setAttribute ''id'' (lit ''fold_all'') (setAttribute ''class'' (lit ''fold'') (createElement ''span''))))) []"

definition toggle_call :: "jstring \<Rightarrow> jstring" where
  "toggle_call i = lit ''javascript:codefold_toggle('' @ [0x27] @ i @ [0x27] @ lit '')''"

definition fold_button :: "nat \<Rightarrow> jstring \<Rightarrow> elem" where
  "fold_button relPath i =
     image_css minusImg relPath
       (setAttribute ''onclick'' (toggle_call i @ lit '';'') (setAttribute ''class'' (lit ''fold'') (createElement ''span'')))"

definition closed_div :: "jstring \<Rightarrow> elem" where
  "closed_div i =
     set_style ''display'' (lit ''none'')
       (setAttribute ''class'' (lit ''foldclosed'') (setAttribute ''id'' (lit ''foldclosed'' @ i) (createElement ''div'')))"

section \<open>\<open>init_codefold\<close>\<close>

text \<open>\<open>removeClass\<close>: the class names but one, joined by single blanks; nothing is set when nothing changes.\<close>

fun class_names :: "jstring \<Rightarrow> jstring \<Rightarrow> jstring list" where
  "class_names w [] = (if w = [] then [] else [w])"
| "class_names w (c # s) =
     (if c \<in> {0x20, 0x09, 0x0A, 0x0C, 0x0D} then (if w = [] then class_names [] s else w # class_names [] s)
      else class_names (w @ [c]) s)"

fun join_names :: "jstring list \<Rightarrow> jstring" where
  "join_names [] = []"
| "join_names [s] = s"
| "join_names (s # ss) = s @ [0x20] @ join_names ss"

definition removeClass :: "jstring \<Rightarrow> elem \<Rightarrow> elem" where
  "removeClass c e =
     (let s = join_names (List.filter (\<lambda>n. n \<noteq> c) (class_names [] (className e))) in
      if className e = s then e else setAttribute ''class'' s e)"

text \<open>\<open>s.replace(p, '')\<close> on the first occurrence.\<close>

fun remove_first :: "jstring \<Rightarrow> jstring \<Rightarrow> jstring" where
  "remove_first p [] = []"
| "remove_first p (c # s) = (if prefix p (c # s) then drop (length p) (c # s) else c # remove_first p s)"

text \<open>A missing attribute in a string is \<open>undefined\<close>; it is not truthy, and neither is an empty one.\<close>

definition shown_text :: "jstring option \<Rightarrow> jstring" where
  "shown_text x = (case x of None \<Rightarrow> lit ''undefined'' | Some s \<Rightarrow> s)"

definition truthy :: "jstring option \<Rightarrow> bool" where
  "truthy x \<longleftrightarrow> (case x of None \<Rightarrow> False | Some s \<Rightarrow> s \<noteq> [])"

text \<open>The first line of a block, as the closed block shows it.\<close>

definition closed_line :: "browser \<Rightarrow> nat \<Rightarrow> jstring \<Rightarrow> jstring option \<Rightarrow> jstring option \<Rightarrow> dom \<Rightarrow> dom option" where
  "closed_line b relPath i start stop n =
     (case n of
        Leaf s \<Rightarrow> Some n
      | Elem e ds \<Rightarrow> do {
          ds \<leftarrow> (if truthy start then map_option (of_html b) (strip_marker b (shown_text start) (to_html b ds)) else Some ds);
          let ds = map (map_elems (\<lambda>q e. if fold_span e then image_css plusImg relPath e else e) []) ds;
          let link = Elem (setAttribute ''href'' (toggle_call i) (createElement ''a'')) [Leaf [0x2026]];
          Some (Elem (removeClass (lit ''glow'') e)
            (ds @ [Leaf (lit '' '' @ shown_text start), link, Leaf (shown_text stop)]))
        })"

text \<open>One round of the loop over the blocks.\<close>

definition init_fold :: "browser \<Rightarrow> nat \<Rightarrow> path \<Rightarrow> dom \<Rightarrow> dom option" where
  "init_fold b relPath p d = do {
     e \<leftarrow> elem_at d p;
     i0 \<leftarrow> attrs e ''id'';
     let i = remove_first (lit ''foldopen'') i0;
     let start = attrs e ''data-start'';
     let stop = attrs e ''data-end'';
     let d = (case select_below p fold_span d of
                [] \<Rightarrow> d
              | r # _ \<Rightarrow> upd_node r (\<lambda>_. Elem (fold_button relPath i) []) d);
     let d = insert_after p (Elem (closed_div i) []) d;
     line \<leftarrow> (case first_child d p of
                None \<Rightarrow> if truthy start then None else Some []
              | Some q \<Rightarrow> node_at d q \<bind> (\<lambda>n. map_option (\<lambda>l. [l]) (closed_line b relPath i start stop n)));
     Some (case getElementById d (lit ''foldclosed'' @ i) of
             None \<Rightarrow> d
           | Some c \<Rightarrow> upd_node c (set_children (\<lambda>_. line)) d)
   }"

text \<open>\<open>each\<close> goes over the blocks selected before; they move when a closed block is inserted.\<close>

fun each_fold :: "browser \<Rightarrow> nat \<Rightarrow> path list \<Rightarrow> dom \<Rightarrow> dom option" where
  "each_fold b relPath [] d = Some d"
| "each_fold b relPath (p # ps) d =
     init_fold b relPath p d \<bind> each_fold b relPath (map (moved_after p) ps)"

definition fold_columns :: "nat \<Rightarrow> dom \<Rightarrow> dom" where
  "fold_columns relPath d =
     (case select lineno d of
        [] \<Rightarrow> d
      | p # ps \<Rightarrow>
          foldl (\<lambda>d q. appendChild q fold_line d)
            (appendChild p (fold_all relPath) (map_elems (\<lambda>q e. if lineno e then lineno_css e else e) [] d)) ps)"

definition init_codefold :: "browser \<Rightarrow> nat \<Rightarrow> dom \<Rightarrow> dom option" where
  "init_codefold b relPath d =
     (let d = fold_columns relPath d in each_fold b relPath (select fold_div d) d)"

section \<open>The buttons\<close>

record fold_state =
  opened :: bool
  listing :: dom

text \<open>
  \<open>hide\<close>, \<open>show\<close> and \<open>toggle\<close>; \<open>show\<close> gives back the \<open>display\<close> that \<open>hide\<close> found, which is the empty one for
  these blocks.
\<close>

definition jq_hide :: "elem \<Rightarrow> elem" where
  "jq_hide e = set_style ''display'' (lit ''none'') e"

definition jq_show :: "elem \<Rightarrow> elem" where
  "jq_show e = (if display e = lit ''none'' then set_style ''display'' [] e else e)"

definition jq_toggle :: "elem \<Rightarrow> elem" where
  "jq_toggle e = (if display e = lit ''none'' then jq_show e else jq_hide e)"

definition upd_id :: "jstring \<Rightarrow> (elem \<Rightarrow> elem) \<Rightarrow> dom \<Rightarrow> dom" where
  "upd_id i f d = (case getElementById d i of None \<Rightarrow> d | Some p \<Rightarrow> upd_elem p f d)"

text \<open>\<open>$('div[id^=...]')\<close>.\<close>

definition upd_divs :: "string \<Rightarrow> (elem \<Rightarrow> elem) \<Rightarrow> dom \<Rightarrow> dom" where
  "upd_divs s f d = map_elems (\<lambda>q e. if tag e = ''div'' \<and> id_prefix s e then f e else e) [] d"

definition codefold_toggle_all :: "nat \<Rightarrow> fold_state \<Rightarrow> fold_state" where
  "codefold_toggle_all relPath s =
     (if opened s
      then s\<lparr>listing := upd_divs ''foldclosed'' jq_show (upd_divs ''foldopen'' jq_hide
               (upd_id (lit ''fold_all'') (image_css plusImg relPath) (listing s))),
             opened := \<not> opened s\<rparr>
      else s\<lparr>listing := upd_divs ''foldclosed'' jq_hide (upd_divs ''foldopen'' jq_show
               (upd_id (lit ''fold_all'') (image_css minusImg relPath) (listing s))),
             opened := \<not> opened s\<rparr>)"

definition codefold_toggle :: "jstring \<Rightarrow> fold_state \<Rightarrow> fold_state" where
  "codefold_toggle i s =
     s\<lparr>listing := upd_id (lit ''foldclosed'' @ i) jq_toggle (upd_id (lit ''foldopen'' @ i) jq_toggle (listing s))\<rparr>"

end
