(* ===== verification/Fold_Invariant.thy ===== *)
theory Fold_Invariant
  imports Code_Folds
begin

text \<open>
  The invariant of the code folds: every open block is followed by its closed block and exactly one of
  the two is shown. \<open>init_codefold\<close> establishes it block by block, whatever the nesting, and the buttons
  keep it.
\<close>

section \<open>Ids and blocks\<close>

definition fold_id :: "elem \<Rightarrow> bool" where
  "fold_id e \<longleftrightarrow> id_prefix ''foldopen'' e \<or> id_prefix ''foldclosed'' e"

definition hidden :: "elem \<Rightarrow> bool" where
  "hidden e \<longleftrightarrow> display e = lit ''none''"

text \<open>One of two blocks is shown; \<open>show\<close> and \<open>hide\<close> know no other values of \<open>display\<close> here.\<close>

definition exclusive :: "elem \<Rightarrow> elem \<Rightarrow> bool" where
  "exclusive e c \<longleftrightarrow> display e = [] \<and> hidden c \<or> hidden e \<and> display c = []"

definition next_path :: "path \<Rightarrow> path" where
  "next_path p = (case p of [] \<Rightarrow> [] | i # q \<Rightarrow> Suc i # q)"

definition unique_folds :: "dom \<Rightarrow> bool" where
  "unique_folds d \<longleftrightarrow>
     (\<forall>p q e e'. elem_at d p = Some e \<longrightarrow> elem_at d q = Some e' \<longrightarrow> fold_id e \<longrightarrow> attrs e' ''id'' = attrs e ''id'' \<longrightarrow> p = q)"

definition folds_are_divs :: "dom \<Rightarrow> bool" where
  "folds_are_divs d \<longleftrightarrow> (\<forall>p e. elem_at d p = Some e \<longrightarrow> fold_id e \<longrightarrow> tag e = ''div'')"

definition spans_empty :: "dom \<Rightarrow> bool" where
  "spans_empty d \<longleftrightarrow> (\<forall>r s e. elem_at d r = Some e \<longrightarrow> fold_span e \<longrightarrow> s \<noteq> [] \<longrightarrow> elem_at d (s @ r) = None)"

definition tree_ok :: "dom \<Rightarrow> bool" where
  "tree_ok d \<longleftrightarrow> unique_folds d \<and> folds_are_divs d \<and> spans_empty d"

definition quiet :: "dom \<Rightarrow> bool" where
  "quiet n \<longleftrightarrow> (\<forall>s e. elem_at n s = Some e \<longrightarrow> \<not> fold_id e)"

definition open_block :: "dom \<Rightarrow> path \<Rightarrow> elem \<Rightarrow> jstring \<Rightarrow> bool" where
  "open_block d p e i \<longleftrightarrow> p \<noteq> [] \<and> elem_at d p = Some e \<and> attrs e ''id'' = Some (lit ''foldopen'' @ i)"

definition ready :: "dom \<Rightarrow> path \<Rightarrow> bool" where
  "ready d p \<longleftrightarrow>
     (\<exists>e i q l. open_block d p e i \<and> display e = [] \<and> (truthy (attrs e ''data-start'') \<longrightarrow> plain_marker (shown_text (attrs e ''data-start''))) \<and>
        first_child d p = Some q \<and> elem_at d q = Some l \<and> tag l = ''div'' \<and>
        (\<forall>s c. elem_at d (s @ q) = Some c \<longrightarrow> \<not> fold_id c) \<and>
        (\<forall>t c. elem_at d t = Some c \<longrightarrow> attrs c ''id'' \<noteq> Some (lit ''foldclosed'' @ i)))"

definition paired :: "dom \<Rightarrow> path \<Rightarrow> bool" where
  "paired d p \<longleftrightarrow>
     (\<exists>e i c. open_block d p e i \<and> elem_at d (next_path p) = Some c \<and>
        attrs c ''id'' = Some (lit ''foldclosed'' @ i) \<and> exclusive e c)"

lemma readyE:
  assumes "ready d p"
  obtains e i q l where "open_block d p e i" "display e = []"
    "truthy (attrs e ''data-start'') \<Longrightarrow> plain_marker (shown_text (attrs e ''data-start''))"
    "first_child d p = Some q" "elem_at d q = Some l" "tag l = ''div''"
    "\<And>s c. elem_at d (s @ q) = Some c \<Longrightarrow> \<not> fold_id c"
    "\<And>t c. elem_at d t = Some c \<Longrightarrow> attrs c ''id'' \<noteq> Some (lit ''foldclosed'' @ i)"
  using assms unfolding ready_def by blast

lemma readyI:
  assumes "open_block d p e i" "display e = []"
    "truthy (attrs e ''data-start'') \<Longrightarrow> plain_marker (shown_text (attrs e ''data-start''))"
    "first_child d p = Some q" "elem_at d q = Some l" "tag l = ''div''"
    "\<And>s c. elem_at d (s @ q) = Some c \<Longrightarrow> \<not> fold_id c"
    "\<And>t c. elem_at d t = Some c \<Longrightarrow> attrs c ''id'' \<noteq> Some (lit ''foldclosed'' @ i)"
  shows "ready d p"
  unfolding ready_def using assms by blast

lemma pairedE:
  assumes "paired d p"
  obtains e i c where "open_block d p e i" "elem_at d (next_path p) = Some c"
    "attrs c ''id'' = Some (lit ''foldclosed'' @ i)" "exclusive e c"
  using assms unfolding paired_def by (elim exE conjE)

lemma open_block_fold: "open_block d p e i \<Longrightarrow> fold_id e"
  by (simp add: open_block_def fold_id_def id_prefix_def)

lemma not_fold_id [simp]: "attrs e ''id'' = None \<Longrightarrow> \<not> fold_id e"
  by (simp add: fold_id_def id_prefix_def)

lemma open_not_closed: "lit ''foldopen'' @ i \<noteq> lit ''foldclosed'' @ j"
  by (simp add: lit_def)

lemma fold_span_tag: "fold_span e \<Longrightarrow> tag e = ''span''"
  by (simp add: fold_span_def of_class_def)

lemma fold_id_div: "folds_are_divs d \<Longrightarrow> elem_at d p = Some e \<Longrightarrow> fold_id e \<Longrightarrow> tag e = ''div''"
  by (auto simp: folds_are_divs_def)

lemma elem_at_node_ex: "elem_at d p = Some e \<Longrightarrow> \<exists>ds. node_at d p = Some (Elem e ds)"
  by (auto simp: elem_at_def split: bind_splits) (metis elem_of.elims option.distinct(1) option.inject)

lemma spans_emptyD: "spans_empty d \<Longrightarrow> elem_at d r = Some e \<Longrightarrow> fold_span e \<Longrightarrow> s \<noteq> [] \<Longrightarrow> elem_at d (s @ r) = None"
  by (auto simp: spans_empty_def)

lemma unique_foldsD:
  "unique_folds d \<Longrightarrow> elem_at d p = Some e \<Longrightarrow> fold_id e \<Longrightarrow> elem_at d q = Some e' \<Longrightarrow> attrs e' ''id'' = attrs e ''id'' \<Longrightarrow> q = p"
  unfolding unique_folds_def by metis

section \<open>Replacing the span of a block\<close>

lemma elem_at_new_span:
  assumes "spans_empty d" "elem_at d r = Some f" "fold_span f"
  shows "elem_at (upd_node r (\<lambda>_. Elem b []) d) q = (if q = r then Some b else elem_at d q)"
proof -
  have "elem_at d q = None" if "strict_suffix r q"
  proof -
    from that obtain s where "q = s @ r" "s \<noteq> []" by (auto simp: strict_suffix_def suffix_def)
    then show ?thesis using assms by (auto simp: spans_empty_def)
  qed
  moreover have "node_at d r \<noteq> None" using elem_at_node_ex [OF assms(2)] by auto
  ultimately show ?thesis by (simp add: elem_at_replaced)
qed

lemma new_span:
  assumes ok: "tree_ok d" and r: "elem_at d r = Some f" "fold_span f" and b: "attrs b ''id'' = None" "tag b = ''span''"
  defines "d' \<equiv> upd_node r (\<lambda>_. Elem b []) d"
  shows "tree_ok d'" "ready d p \<Longrightarrow> ready d' p" "paired d p \<Longrightarrow> paired d' p" "open_block d' p e i \<longleftrightarrow> open_block d p e i"
proof -
  have at: "elem_at d' q = (if q = r then Some b else elem_at d q)" for q
    unfolding d'_def using ok r elem_at_new_span by (auto simp: tree_ok_def)
  have div: "q \<noteq> r" if "elem_at d q = Some l" "tag l = ''div''" for q l
    using that r fold_span_tag [OF r(2)] by auto
  have fold: "q \<noteq> r" if "elem_at d q = Some l" "fold_id l" for q l
    using that ok fold_id_div div unfolding tree_ok_def by blast
  have nb: "\<not> fold_id b" using b by simp
  have "unique_folds d'" using ok b nb unfolding tree_ok_def unique_folds_def at by (auto split: if_splits)
  moreover have "folds_are_divs d'" using ok nb unfolding tree_ok_def folds_are_divs_def at by auto
  moreover have "spans_empty d'"
    unfolding spans_empty_def at
  proof (intro allI impI)
    fix q s :: path and e'
    assume e': "(if q = r then Some b else elem_at d q) = Some e'" "fold_span e'" "s \<noteq> []"
    have "elem_at d (s @ q) = None" using ok r e' by (cases "q = r") (auto simp: tree_ok_def spans_empty_def)
    moreover from this have "s @ q \<noteq> r" using r by auto
    ultimately show "(if s @ q = r then Some b else elem_at d (s @ q)) = None" by simp
  qed
  ultimately show "tree_ok d'" by (simp add: tree_ok_def)
  have op: "open_block d' p e i" if "open_block d p e i" for p e i
    using that fold [of p e] open_block_fold [OF that] by (auto simp: open_block_def at)
  have "open_block d p e i" if "open_block d' p e i" using that b by (auto simp: open_block_def at split: if_splits)
  then show "open_block d' p e i \<longleftrightarrow> open_block d p e i" using op by blast
  show "paired d' p" if pd: "paired d p"
  proof -
    obtain e i c where c: "open_block d p e i" "elem_at d (next_path p) = Some c"
      "attrs c ''id'' = Some (lit ''foldclosed'' @ i)" "exclusive e c"
      by (rule pairedE [OF pd])
    have "fold_id c" using c(3) by (simp add: fold_id_def id_prefix_def)
    then have "elem_at d' (next_path p) = Some c" using c(2) fold at by auto
    then show ?thesis using c(3,4) op [OF c(1)] unfolding paired_def by metis
  qed
  show "ready d' p" if "ready d p"
    using that
  proof (rule readyE)
    fix e i q l
    assume e: "open_block d p e i" "display e = []"
      "truthy (attrs e ''data-start'') \<Longrightarrow> plain_marker (shown_text (attrs e ''data-start''))"
      "first_child d p = Some q" "elem_at d q = Some l" "tag l = ''div''"
      "\<And>s c. elem_at d (s @ q) = Some c \<Longrightarrow> \<not> fold_id c"
      "\<And>t c. elem_at d t = Some c \<Longrightarrow> attrs c ''id'' \<noteq> Some (lit ''foldclosed'' @ i)"
    have "elem_at d' t = None" if "elem_at d t = None" for t using that at r by auto
    then have "first_child d' p = Some q"
      using e(4,5) div [OF e(5,6)] at [of q] unfolding first_child_iff by auto
    moreover have "elem_at d' q = Some l" using e(5) div [OF e(5,6)] at by simp
    moreover have "\<not> fold_id c" if "elem_at d' (s @ q) = Some c" for s c
      using that e(7) nb by (auto simp: at split: if_splits)
    moreover have "attrs c ''id'' \<noteq> Some (lit ''foldclosed'' @ i)" if "elem_at d' t = Some c" for t c
      using that e(8) b by (auto simp: at split: if_splits)
    ultimately show ?thesis unfolding ready_def using op [OF e(1)] e(2,3,6) by blast
  qed
qed

section \<open>Inserting a closed block\<close>

text \<open>What is needed of the new block: its id is new, and nothing inside it has the id of a block.\<close>

definition new_closed :: "dom \<Rightarrow> jstring \<Rightarrow> bool" where
  "new_closed n x \<longleftrightarrow>
     (\<exists>c. elem_of n = Some c \<and> attrs c ''id'' = Some (lit ''foldclosed'' @ x) \<and> tag c = ''div'' \<and> hidden c) \<and>
     (\<forall>s e. s \<noteq> [] \<longrightarrow> elem_at n s = Some e \<longrightarrow> \<not> fold_id e) \<and> spans_empty n"

lemma new_closed_fold: "new_closed n x \<Longrightarrow> elem_at n s = Some e \<Longrightarrow> fold_id e \<Longrightarrow>
    s = [] \<and> attrs e ''id'' = Some (lit ''foldclosed'' @ x) \<and> tag e = ''div''"
  by (cases "s = []") (auto simp: new_closed_def)

lemma moved_next: "q \<noteq> [] \<Longrightarrow> q \<noteq> k # p \<Longrightarrow> next_path (moved k p q) = moved k p (next_path q)"
  by (cases q) (auto simp: next_path_def)

definition fits :: "dom \<Rightarrow> nat \<Rightarrow> path \<Rightarrow> elem \<Rightarrow> jstring \<Rightarrow> dom \<Rightarrow> bool" where
  "fits d k p e x n \<longleftrightarrow>
     tree_ok d \<and> open_block d (k # p) e x \<and> new_closed n x \<and>
     (\<forall>t c. elem_at d t = Some c \<longrightarrow> attrs c ''id'' \<noteq> Some (lit ''foldclosed'' @ x))"

lemma fitsD:
  assumes "fits d k p e x n"
  shows "tree_ok d" "open_block d (k # p) e x" "new_closed n x"
    "elem_at d t = Some c \<Longrightarrow> attrs c ''id'' \<noteq> Some (lit ''foldclosed'' @ x)"
  using assms by (auto simp: fits_def)

lemma fits_block: "fits d k p e x n \<Longrightarrow> elem_at d (k # p) = Some e \<and> fold_id e"
  using fitsD(2) [of d k p e x n] open_block_fold [of d "k # p" e x] by (simp add: open_block_def)

lemma fits_node: "fits d k p e x n \<Longrightarrow> node_at d (k # p) \<noteq> None"
  using fitsD(2) elem_at_node_ex [of d "k # p" e] by (auto simp: open_block_def simp del: node_at.simps)

lemma fits_moved: "fits d k p e x n \<Longrightarrow> elem_at (insert_after (k # p) n d) (moved k p q) = elem_at d q"
  by (rule elem_at_insert_moved [OF fits_node])

lemma fits_new: "fits d k p e x n \<Longrightarrow> elem_at (insert_after (k # p) n d) (s @ Suc k # p) = elem_at n s"
  by (rule elem_at_insert_new [OF fits_node])

lemma fits_fold_cases:
  assumes "fits d k p e x n" "elem_at (insert_after (k # p) n d) t = Some f" "fold_id f"
  obtains (new) "t = Suc k # p" "attrs f ''id'' = Some (lit ''foldclosed'' @ x)" "tag f = ''div''"
    | (old) q where "t = moved k p q" "elem_at d q = Some f"
proof (cases rule: elem_at_insert_cases [OF fits_node [OF assms(1)] assms(2)])
  case (1 s)
  then show thesis using new_closed_fold [OF fitsD(3) [OF assms(1)] 1(2) assms(3)] that(1) by simp
next
  case (2 q)
  then show thesis by (rule that(2))
qed

lemma fits_unique:
  assumes fit: "fits d k p e x n"
  shows "unique_folds (insert_after (k # p) n d)"
  unfolding unique_folds_def
proof (intro allI impI)
  fix t u f g
  assume f: "elem_at (insert_after (k # p) n d) t = Some f" "elem_at (insert_after (k # p) n d) u = Some g" "fold_id f" "attrs g ''id'' = attrs f ''id''"
  have "fold_id g" using f(3,4) by (simp add: fold_id_def id_prefix_def)
  from fit f(1,3) show "t = u"
  proof (cases rule: fits_fold_cases)
    case new
    from fit f(2) \<open>fold_id g\<close> show ?thesis
      by (cases rule: fits_fold_cases) (use new f(4) fitsD(4) [OF fit] in auto)
  next
    case (old q)
    from fit f(2) \<open>fold_id g\<close> show ?thesis
    proof (cases rule: fits_fold_cases)
      case new
      then show ?thesis using old f(4) fitsD(4) [OF fit] by auto
    next
      case old': (old r)
      then have "q = r" using fitsD(1) [OF fit] old f(3,4) by (auto simp: tree_ok_def unique_folds_def)
      then show ?thesis using old old' by simp
    qed
  qed
qed

lemma fits_spans:
  assumes fit: "fits d k p e x n"
  shows "spans_empty (insert_after (k # p) n d)"
  unfolding spans_empty_def
proof (intro allI impI)
  fix t s :: path and f
  assume f: "elem_at (insert_after (k # p) n d) t = Some f" "fold_span f" "s \<noteq> []"
  show "elem_at (insert_after (k # p) n d) (s @ t) = None"
  proof (rule ccontr)
    assume "elem_at (insert_after (k # p) n d) (s @ t) \<noteq> None"
    then obtain g where g: "elem_at (insert_after (k # p) n d) (s @ t) = Some g" by blast
    from fits_node [OF fit] f(1) show False
    proof (cases rule: elem_at_insert_cases)
      case (new u)
      then have "elem_at n (s @ u) = Some g" using g fits_new [OF fit, of "s @ u"] by simp
      then show False using fitsD(3) [OF fit] new(2) f(2,3) unfolding new_closed_def spans_empty_def
        by (metis option.distinct(1))
    next
      case (old q)
      from fits_node [OF fit] g show False
      proof (cases rule: elem_at_insert_cases)
        case (new u)
        have "suffix t (s @ t)" by (auto simp: suffix_def)
        then have "suffix (moved k p q) (u @ Suc k # p)" using new old by simp
        then have "suffix (moved k p q) (Suc k # p) \<or> suffix (Suc k # p) (moved k p q)"
          by (metis suffix_same_cases suffix_def)
        then have "suffix (moved k p q) p \<or> moved k p q = Suc k # p" using moved_not_new [of k p q] by (auto simp: suffix_Cons)
        then have "suffix (moved k p q) p" using moved_not_new [of k p q] by auto
        then have "length q \<le> length p" by (metis length_moved suffix_length_le)
        then have "suffix q p" using \<open>suffix (moved k p q) p\<close> by (simp add: moved_short)
        then obtain v where v: "k # p = (k # v) @ q" by (auto simp: suffix_def)
        have "elem_at d ((k # v) @ q) = None"
          by (rule spans_emptyD [OF _ old(2) f(2)]) (use fitsD(1) [OF fit] in \<open>simp_all add: tree_ok_def\<close>)
        then show False using fitsD(2) [OF fit] v by (simp add: open_block_def)
      next
        case old': (old r)
        have "suffix t (s @ t)" by (auto simp: suffix_def)
        then have "suffix q r" using old old' by (simp add: moved_suffix)
        then obtain v where v: "r = v @ q" by (auto simp: suffix_def)
        moreover have "v \<noteq> []" using v old old' f(3) by auto
        ultimately have "elem_at d r = None" using fitsD(1) [OF fit] old(2) f(2) by (auto simp: tree_ok_def spans_empty_def)
        then show False using old' by simp
      qed
    qed
  qed
qed

lemma fits_ok:
  assumes fit: "fits d k p e x n"
  shows "tree_ok (insert_after (k # p) n d)"
proof -
  have "folds_are_divs (insert_after (k # p) n d)"
    unfolding folds_are_divs_def
  proof (intro allI impI)
    fix t f
    assume "elem_at (insert_after (k # p) n d) t = Some f" "fold_id f"
    with fit show "tag f = ''div''"
      by (cases rule: fits_fold_cases) (use fitsD(1) [OF fit] \<open>fold_id f\<close> in \<open>auto simp: tree_ok_def folds_are_divs_def\<close>)
  qed
  then show ?thesis using fits_unique [OF fit] fits_spans [OF fit] by (simp add: tree_ok_def)
qed

lemma fits_block_moved: "fits d k p e x n \<Longrightarrow> open_block d q f y \<Longrightarrow> open_block (insert_after (k # p) n d) (moved k p q) f y"
  by (auto simp: open_block_def fits_moved simp del: insert_after.simps)

lemma fits_block_cases:
  assumes "fits d k p e x n" "open_block (insert_after (k # p) n d) t f y"
  obtains q where "t = moved k p q" "open_block d q f y"
proof -
  have f: "elem_at (insert_after (k # p) n d) t = Some f" "fold_id f" "t \<noteq> []" "attrs f ''id'' = Some (lit ''foldopen'' @ y)"
    using assms open_block_fold [OF assms(2)] by (auto simp: open_block_def)
  from assms(1) f(1,2) show ?thesis
  proof (cases rule: fits_fold_cases)
    case new
    then show ?thesis using f(4) open_not_closed by simp
  next
    case (old q)
    then show ?thesis using f that [of q] by (auto simp: open_block_def)
  qed
qed

lemma fits_paired_new:
  assumes "fits d k p e x n" "display e = []"
  shows "paired (insert_after (k # p) n d) (k # p)"
proof -
  obtain c where "elem_at n [] = Some c" "attrs c ''id'' = Some (lit ''foldclosed'' @ x)" "hidden c"
    using fitsD(3) [OF assms(1)] by (auto simp: new_closed_def)
  moreover have "open_block (insert_after (k # p) n d) (k # p) e x" using fits_block_moved [OF assms(1) fitsD(2) [OF assms(1)]] by simp
  ultimately show ?thesis using assms(2) fits_new [OF assms(1), of "[]"] unfolding paired_def next_path_def exclusive_def by auto
qed

lemma fits_paired_moved:
  assumes "fits d k p e x n" "paired d q" "q \<noteq> k # p"
  shows "paired (insert_after (k # p) n d) (moved k p q)"
  using assms(2)
proof (rule pairedE)
  fix f y c
  assume f: "open_block d q f y" "elem_at d (next_path q) = Some c"
    "attrs c ''id'' = Some (lit ''foldclosed'' @ y)" "exclusive f c"
  have "q \<noteq> []" using f(1) by (simp add: open_block_def)
  then have "elem_at (insert_after (k # p) n d) (next_path (moved k p q)) = Some c"
    using f(2) by (simp add: moved_next [OF _ assms(3)] fits_moved [OF assms(1)] del: insert_after.simps)
  then show ?thesis using fits_block_moved [OF assms(1) f(1)] f(3,4) unfolding paired_def by metis
qed

text \<open>A block that waits for its round is still as it was.\<close>

lemma fits_first_child:
  assumes fit: "fits d k p e x n" and q: "first_child d u = Some q" "\<And>c. elem_at d q = Some c \<Longrightarrow> \<not> fold_id c"
  shows "first_child (insert_after (k # p) n d) (moved k p u) = Some (moved k p q)"
proof -
  from q(1) obtain i where i: "q = i # u" "elem_at d q \<noteq> None" "\<And>j. j < i \<Longrightarrow> elem_at d (j # u) = None"
    unfolding first_child_iff by blast
  have "q \<noteq> k # p" using q(2) fits_block [OF fit] by auto
  moreover have "elem_at d (k # p) \<noteq> None" using fits_block [OF fit] by simp
  ultimately have le: "u \<noteq> p \<or> i < k" using i by (metis linorder_neqE_nat)
  have same: "moved k p (j # u) = j # moved k p u" if "j \<le> i" for j
    using le that by (intro moved_Cons) auto
  have "elem_at (insert_after (k # p) n d) (j # moved k p u) = elem_at d (j # u)" if "j \<le> i" for j
    using fits_moved [OF fit, of "j # u"] unfolding same [OF that] .
  then show ?thesis using i same [of i] unfolding first_child_iff by auto
qed

lemma fits_quiet:
  assumes fit: "fits d k p e x n" and q: "\<And>s c. elem_at d (s @ q) = Some c \<Longrightarrow> \<not> fold_id c"
    and t: "elem_at (insert_after (k # p) n d) (s @ moved k p q) = Some c"
  shows "\<not> fold_id c"
proof
  assume fold: "fold_id c"
  from fit t fold show False
  proof (cases rule: fits_fold_cases)
    case new
    have "suffix (moved k p q) (s @ moved k p q)" by (auto simp: suffix_def)
    then have "suffix (moved k p q) (Suc k # p)" using new by simp
    moreover have "moved k p q \<noteq> Suc k # p" using moved_not_new [of k p q] by auto
    ultimately have s: "suffix (moved k p q) p" by (simp add: suffix_Cons)
    then have "length q \<le> length p" by (metis length_moved suffix_length_le)
    then have "suffix q p" using s by (simp add: moved_short)
    then obtain v where "k # p = (k # v) @ q" by (auto simp: suffix_def)
    then show False using q [of "k # v" e] fits_block [OF fit] by simp
  next
    case (old r)
    have "suffix (moved k p q) (s @ moved k p q)" by (auto simp: suffix_def)
    then have "suffix q r" using old by (simp add: moved_suffix)
    then show False using q old fold by (auto simp: suffix_def)
  qed
qed

lemma fits_ready_moved:
  assumes fit: "fits d k p e x n" and r: "ready d u" and u: "u \<noteq> k # p"
  shows "ready (insert_after (k # p) n d) (moved k p u)"
  using r
proof (rule readyE)
  fix f i q l
  assume f: "open_block d u f i" "display f = []"
    "truthy (attrs f ''data-start'') \<Longrightarrow> plain_marker (shown_text (attrs f ''data-start''))"
    "first_child d u = Some q" "elem_at d q = Some l" "tag l = ''div''"
    "\<And>s c. elem_at d (s @ q) = Some c \<Longrightarrow> \<not> fold_id c"
    "\<And>t c. elem_at d t = Some c \<Longrightarrow> attrs c ''id'' \<noteq> Some (lit ''foldclosed'' @ i)"
  have "\<not> fold_id c" if "elem_at d q = Some c" for c using f(7) [of "[]"] that by simp
  note first = fits_first_child [OF fit f(4) this]
  have ix: "i \<noteq> x"
  proof
    assume "i = x"
    then have "u = k # p"
      using f(1) fitsD(1,2) [OF fit] fits_block [OF fit] unfolding tree_ok_def unique_folds_def open_block_def by metis
    then show False using u by simp
  qed
  show ?thesis
  proof (rule readyI [OF fits_block_moved [OF fit f(1)] f(2,3) first _ f(6) fits_quiet [OF fit f(7)]])
    show "elem_at (insert_after (k # p) n d) (moved k p q) = Some l" using f(5) by (simp only: fits_moved [OF fit])
    fix t c
    assume c: "elem_at (insert_after (k # p) n d) t = Some c"
    show "attrs c ''id'' \<noteq> Some (lit ''foldclosed'' @ i)"
    proof (cases "fold_id c")
      case True
      from fit c True show ?thesis by (cases rule: fits_fold_cases) (use ix f(8) in auto)
    qed (auto simp: fold_id_def id_prefix_def)
  qed
qed

section \<open>One round of the loop\<close>

text \<open>
  What is assumed of the browser: reading the children of a line as markup, without a marker at its end,
  and parsing that gives no element with the id of a block, and no new content in a span of class \<open>fold\<close>.
\<close>

definition parses_back :: "browser \<Rightarrow> bool" where
  "parses_back b \<longleftrightarrow>
     (\<forall>start ds s. (\<forall>n \<in> set ds. quiet n \<and> spans_empty n) \<longrightarrow> plain_marker start \<longrightarrow>
        strip_marker b start (to_html b ds) = Some s \<longrightarrow> (\<forall>n \<in> set (of_html b s). quiet n \<and> spans_empty n))"

lemma elem_at_Leaf [simp]: "elem_at (Leaf t) s = None"
  by (cases s rule: rev_cases) (simp_all add: elem_at_def node_at_append)

lemma quiet_Elem: "quiet (Elem e ds) \<longleftrightarrow> \<not> fold_id e \<and> (\<forall>n \<in> set ds. quiet n)"
proof
  assume q: "quiet (Elem e ds)"
  have "\<not> fold_id e" using q [unfolded quiet_def, rule_format, of "[]"] by simp
  moreover have "quiet (ds ! j)" if "j < length ds" for j
    using q that elem_at_child [OF that] unfolding quiet_def by blast
  ultimately show "\<not> fold_id e \<and> (\<forall>n \<in> set ds. quiet n)" by (auto simp: in_set_conv_nth)
next
  assume q: "\<not> fold_id e \<and> (\<forall>n \<in> set ds. quiet n)"
  show "quiet (Elem e ds)"
    unfolding quiet_def
  proof (intro allI impI)
    fix s c assume "elem_at (Elem e ds) s = Some c"
    then show "\<not> fold_id c" using q
      by (cases s rule: rev_cases) (auto simp: elem_at_snoc quiet_def split: if_splits dest!: nth_mem)
  qed
qed

lemma quiet_Leaf [simp]: "quiet (Leaf s)" "spans_empty (Leaf s)"
  by (simp_all add: quiet_def spans_empty_def)

lemma spans_empty_Elem:
  "spans_empty (Elem e ds) \<longleftrightarrow> (fold_span e \<longrightarrow> (\<forall>n \<in> set ds. elem_of n = None)) \<and> (\<forall>n \<in> set ds. spans_empty n)"
proof
  assume s: "spans_empty (Elem e ds)"
  have "spans_empty (ds ! j)" if j: "j < length ds" for j
    unfolding spans_empty_def
  proof (intro allI impI)
    fix r t :: path and f
    assume f: "elem_at (ds ! j) r = Some f" "fold_span f" "t \<noteq> []"
    have "elem_at (Elem e ds) (t @ r @ [j]) = None"
      using s elem_at_child [OF j f(1)] f(2,3) unfolding spans_empty_def by blast
    then show "elem_at (ds ! j) (t @ r) = None" using j elem_at_snoc [of e ds "t @ r" j] by simp
  qed
  moreover have "elem_of (ds ! j) = None" if "j < length ds" "fold_span e" for j
    using spans_emptyD [OF s, of "[]" e "[j]"] that elem_at_snoc [of e ds "[]" j] by simp
  ultimately show "(fold_span e \<longrightarrow> (\<forall>n \<in> set ds. elem_of n = None)) \<and> (\<forall>n \<in> set ds. spans_empty n)"
    by (auto simp: in_set_conv_nth)
next
  assume s: "(fold_span e \<longrightarrow> (\<forall>n \<in> set ds. elem_of n = None)) \<and> (\<forall>n \<in> set ds. spans_empty n)"
  show "spans_empty (Elem e ds)"
    unfolding spans_empty_def
  proof (intro allI impI)
    fix r t :: path and f
    assume f: "elem_at (Elem e ds) r = Some f" "fold_span f" "t \<noteq> []"
    show "elem_at (Elem e ds) (t @ r) = None"
    proof (cases r rule: rev_cases)
      case Nil
      then obtain u j where t: "t = u @ [j]" "fold_span e" using f by (cases t rule: rev_cases) auto
      have "elem_at n u = None" if "elem_of n = None" for n using that by (cases n) simp_all
      then show ?thesis using Nil t s by (auto simp: elem_at_snoc)
    next
      case (snoc r' j)
      then have "j < length ds" "elem_at (ds ! j) r' = Some f" using f(1) by (auto simp: elem_at_snoc split: if_splits)
      then show ?thesis
        using s f(2,3) snoc elem_at_snoc [of e ds "t @ r'" j] by (auto simp: spans_empty_def)
    qed
  qed
qed

lemma map_elems_quiet:
  assumes "\<And>q e. attrs (g q e) = attrs e" "\<And>q e. tag (g q e) = tag e"
  shows "quiet (map_elems g [] n) = quiet n" "spans_empty (map_elems g [] n) = spans_empty n"
proof -
  have "fold_id (g q e) = fold_id e" "fold_span (g q e) = fold_span e" for q e
    using assms by (simp_all add: fold_id_def id_prefix_def fold_span_def of_class_def)
  then show "quiet (map_elems g [] n) = quiet n" "spans_empty (map_elems g [] n) = spans_empty n"
    unfolding quiet_def spans_empty_def elem_at_map_elems map_option_eq_Some option.map_disc_iff by (metis, metis)
qed

lemma image_css_simps [simp]: "attrs (image_css imgs k e) = attrs e" "tag (image_css imgs k e) = tag e"
  "display (image_css imgs k e) = display e"
  by (simp_all add: image_css_def)

lemma removeClass_simps [simp]: "attrs (removeClass c e) ''id'' = attrs e ''id''" "tag (removeClass c e) = tag e"
  by (simp_all add: removeClass_def Let_def)

lemma fold_id_cong: "attrs e ''id'' = attrs e' ''id'' \<Longrightarrow> fold_id e = fold_id e'"
  by (simp add: fold_id_def id_prefix_def)

lemma closed_line_quiet:
  assumes b: "parses_back b" and n: "quiet (Elem l ds)" "spans_empty (Elem l ds)" "tag l = ''div''"
    and plain: "truthy start \<Longrightarrow> plain_marker (shown_text start)"
  obtains line where "closed_line b relPath i start stop (Elem l ds) = Some line" "quiet line" "spans_empty line"
proof -
  have kids: "\<forall>n \<in> set ds. quiet n \<and> spans_empty n" using n by (auto simp: quiet_Elem spans_empty_Elem)
  obtain us where us: "(if truthy start then map_option (of_html b) (strip_marker b (shown_text start) (to_html b ds)) else Some ds) = Some us"
    "\<forall>n \<in> set us. quiet n \<and> spans_empty n"
  proof (cases "truthy start")
    case True
    then obtain s where "strip_marker b (shown_text start) (to_html b ds) = Some s"
      using plain by (auto simp: strip_marker_def)
    moreover from this have "\<forall>n \<in> set (of_html b s). quiet n \<and> spans_empty n"
      using b kids plain [OF True] unfolding parses_back_def by blast
    ultimately show ?thesis using that True by simp
  qed (use that kids in simp)
  define g where "g = (\<lambda>(q :: path) e. if fold_span e then image_css plusImg relPath e else e)"
  have g: "attrs (g q e) = attrs e" "tag (g q e) = tag e" for q e by (simp_all add: g_def)
  define link where "link = Elem (setAttribute ''href'' (toggle_call i) (createElement ''a'')) [Leaf [0x2026]]"
  define line where "line = Elem (removeClass (lit ''glow'') l)
    (map (map_elems g []) us @ [Leaf (lit '' '' @ shown_text start), link, Leaf (shown_text stop)])"
  have link: "quiet link" "spans_empty link"
    by (simp_all add: link_def quiet_Elem spans_empty_Elem createElement_def)
  have "\<not> fold_id (removeClass (lit ''glow'') l)" using n(1) fold_id_cong [of "removeClass (lit ''glow'') l" l] by (simp add: quiet_Elem)
  moreover have "\<not> fold_span (removeClass (lit ''glow'') l)" using n(3) by (auto dest: fold_span_tag)
  ultimately have "quiet line" "spans_empty line"
    using us(2) link map_elems_quiet [of g, OF g] by (auto simp: line_def quiet_Elem spans_empty_Elem)
  moreover have "closed_line b relPath i start stop (Elem l ds) = Some line"
    by (simp add: closed_line_def us(1) line_def g_def link_def Let_def)
  ultimately show ?thesis using that by blast
qed

end
