(* ===== verification/Fold_Init.thy ===== *)
theory Fold_Init
  imports Fold_Invariant
begin

text \<open>
  \<open>init_codefold\<close> as a whole: its rounds, the columns it adds to the lines, and the pages it is made for.
  The buttons keep what it establishes.
\<close>

section \<open>A round\<close>

lemma remove_first_prefix [simp]: "p \<noteq> [] \<Longrightarrow> remove_first p (p @ s) = s"
  by (cases p) simp_all

lemma closed_div_simps [simp]:
  "attrs (closed_div i) ''id'' = Some (lit ''foldclosed'' @ i)" "tag (closed_div i) = ''div''" "hidden (closed_div i)"
  "\<not> fold_span (closed_div i)"
  by (simp_all add: closed_div_def hidden_def fold_span_def of_class_def createElement_def)

lemma closed_new:
  "(\<And>n. n \<in> set ns \<Longrightarrow> quiet n \<and> spans_empty n) \<Longrightarrow> new_closed (Elem (closed_div i) ns) i"
proof -
  assume ns: "\<And>n. n \<in> set ns \<Longrightarrow> quiet n \<and> spans_empty n"
  have "\<not> fold_id e" if "s \<noteq> []" "elem_at (Elem (closed_div i) ns) s = Some e" for s e
    using that ns by (cases s rule: rev_cases) (auto simp: elem_at_snoc quiet_def split: if_splits dest!: nth_mem)
  then show "new_closed (Elem (closed_div i) ns) i" using ns by (simp add: new_closed_def spans_empty_Elem)
qed

definition keeps_blocks :: "(path \<Rightarrow> path) \<Rightarrow> path set \<Rightarrow> dom \<Rightarrow> dom \<Rightarrow> bool" where
  "keeps_blocks f ps d d' \<longleftrightarrow>
     tree_ok d' \<and> (\<forall>q \<in> ps. (ready d q \<longrightarrow> ready d' (f q)) \<and> (paired d q \<longrightarrow> paired d' (f q))) \<and>
     (\<forall>q e y. open_block d q e y \<longrightarrow> open_block d' (f q) e y) \<and>
     (\<forall>t e y. open_block d' t e y \<longrightarrow> (\<exists>q. t = f q \<and> open_block d q e y))"

lemma button_step:
  assumes "tree_ok d"
  shows "keeps_blocks (\<lambda>q. q) UNIV d
    (case select_below p fold_span d of [] \<Rightarrow> d | r # rs \<Rightarrow> upd_node r (\<lambda>_. Elem (fold_button k i) []) d)"
proof (cases "select_below p fold_span d")
  case Nil
  then show ?thesis using assms by (simp add: keeps_blocks_def)
next
  case (Cons r rs)
  then have "r \<in> set (select_below p fold_span d)" by simp
  then obtain f where r: "elem_at d r = Some f" "fold_span f" unfolding select_below_def by (auto simp: set_select)
  have b: "attrs (fold_button k i) ''id'' = None" "tag (fold_button k i) = ''span''"
    by (simp_all add: fold_button_def createElement_def)
  show ?thesis using Cons new_span [OF assms r b] by (auto simp: keeps_blocks_def)
qed

lemma insert_step:
  assumes fit: "fits d k p e x n" and e: "display e = []"
  shows "keeps_blocks (moved_after (k # p)) (UNIV - {k # p}) d (insert_after (k # p) n d)"
    and "paired (insert_after (k # p) n d) (k # p)"
  using fits_ok [OF fit] fits_ready_moved [OF fit] fits_paired_moved [OF fit] fits_paired_new [OF fit e]
    fits_block_cases [OF fit] fits_block_moved [OF fit]
  by (auto simp: keeps_blocks_def moved_after_def simp del: insert_after.simps) metis+

lemma init_fold_round:
  assumes b: "parses_back b" and ok: "tree_ok d" and r: "ready d p"
  obtains d' where "init_fold b relPath p d = Some d'" "paired d' p"
    "keeps_blocks (moved_after p) (UNIV - {p}) d d'"
proof -
  obtain e i where e: "open_block d p e i" using r by (auto simp: ready_def)
  define d1 where "d1 = (case select_below p fold_span d of [] \<Rightarrow> d | r # rs \<Rightarrow> upd_node r (\<lambda>_. Elem (fold_button relPath i) []) d)"
  have d1: "keeps_blocks (\<lambda>q. q) UNIV d d1" unfolding d1_def by (rule button_step [OF ok])
  then have ok1: "tree_ok d1" and r1: "ready d1 p" using r by (simp_all add: keeps_blocks_def)
  from r1 show thesis
  proof (rule readyE)
    fix e' i' q l
    assume l: "open_block d1 p e' i'" "display e' = []"
      "truthy (attrs e' ''data-start'') \<Longrightarrow> plain_marker (shown_text (attrs e' ''data-start''))"
      "first_child d1 p = Some q" "elem_at d1 q = Some l" "tag l = ''div''"
      "\<And>s c. elem_at d1 (s @ q) = Some c \<Longrightarrow> \<not> fold_id c"
      "\<And>t c. elem_at d1 t = Some c \<Longrightarrow> attrs c ''id'' \<noteq> Some (lit ''foldclosed'' @ i')"
    have "open_block d p e' i'" using d1 l(1) unfolding keeps_blocks_def by blast
    then have same: "e' = e" "i' = i" using e by (auto simp: open_block_def)
    obtain k pp where p: "p = k # pp" using e by (cases p) (auto simp: open_block_def)
    have fit: "fits d1 k pp e i (Elem (closed_div i) ns)" if "\<And>n. n \<in> set ns \<Longrightarrow> quiet n \<and> spans_empty n" for ns
      using ok1 l(1,8) closed_new [OF that] by (auto simp: fits_def same p)
    define d2 where "d2 = insert_after p (Elem (closed_div i) []) d1"
    have fit0: "fits d1 k pp e i (Elem (closed_div i) [])" by (rule fit) simp
    have q0: "\<not> fold_id c" if "elem_at d1 q = Some c" for c using l(7) [of "[]"] that by simp
    have q2: "first_child d2 p = Some (moved k pp q)"
      using fits_first_child [OF fit0 l(4) q0] unfolding d2_def p moved_self .
    have ok2: "tree_ok d2" using fits_ok [OF fit0] unfolding d2_def p .
    have "elem_at d2 (moved k pp q) = Some l" using l(5) fits_moved [OF fit0] unfolding d2_def p by simp
    then obtain ds where ds: "node_at d2 (moved k pp q) = Some (Elem l ds)" using elem_at_node_ex by blast
    have below: "elem_at (Elem l ds) s = elem_at d2 (s @ moved k pp q)" for s by (simp add: elem_at_node ds)
    have "quiet (Elem l ds)"
      unfolding quiet_def below d2_def p by (intro allI impI) (rule fits_quiet [OF fit0 l(7)])
    moreover have "spans_empty (Elem l ds)"
      unfolding spans_empty_def below append_assoc
      by (intro allI impI, rule spans_emptyD) (use ok2 in \<open>simp_all add: tree_ok_def\<close>)
    ultimately obtain line where line: "closed_line b relPath i (attrs e ''data-start'') (attrs e ''data-end'') (Elem l ds) = Some line"
      "quiet line" "spans_empty line"
      using closed_line_quiet [OF b _ _ l(6)] l(3) unfolding same by metis
    have "elem_at d2 (Suc k # pp) = Some (closed_div i)"
      using fits_new [OF fit0, of "[]"] unfolding d2_def p by simp
    note new = this
    have "q' = Suc k # pp" if "elem_at d2 q' = Some c" "attrs c ''id'' = Some (lit ''foldclosed'' @ i)" for q' c
      by (rule unique_foldsD [OF _ new _ that(1)])
         (use ok2 that(2) in \<open>simp_all add: tree_ok_def fold_id_def id_prefix_def\<close>)
    then have id2: "getElementById d2 (lit ''foldclosed'' @ i) = Some (Suc k # pp)"
      by (intro getElementById_unique [OF new]) auto
    define d' where "d' = insert_after p (Elem (closed_div i) [line]) d1"
    have "upd_node (Suc k # pp) (set_children (\<lambda>_. [line])) d2 = d'"
      unfolding d2_def d'_def p by (subst upd_node_inserted [OF fits_node [OF fit0]]) simp
    then have "init_fold b relPath p d = Some d'"
      using e q2 ds line(1) id2 unfolding init_fold_def d2_def d1_def open_block_def by simp
    moreover
    have fit': "fits d1 k pp e i (Elem (closed_div i) [line])" by (rule fit) (use line in simp)
    have "display e = []" using l(2) same by simp
    note step = insert_step [OF fit' this]
    have "paired d' p" using step(2) unfolding d'_def p .
    moreover have "keeps_blocks (moved_after p) (UNIV - {p}) d d'"
      using d1 step(1) unfolding keeps_blocks_def d'_def p by blast
    ultimately show thesis by (rule that)
  qed
qed

section \<open>All rounds\<close>

definition folds_ok :: "dom \<Rightarrow> bool" where
  "folds_ok d \<longleftrightarrow> tree_ok d \<and> (\<forall>t e i. open_block d t e i \<longrightarrow> paired d t)"

definition block_ids :: "dom \<Rightarrow> jstring set" where
  "block_ids d = {i. \<exists>t e. open_block d t e i}"

lemma moved_after_inj: "moved_after p q = moved_after p r \<longleftrightarrow> q = r"
  by (cases p) (simp_all add: moved_after_def moved_inj)

lemma moved_after_self [simp]: "moved_after p p = p"
  by (cases p) (simp_all add: moved_after_def)

lemma each_fold_ok:
  assumes b: "parses_back b" and "tree_ok d" "distinct ps" "\<And>p. p \<in> set ps \<Longrightarrow> ready d p"
    and "\<And>t e i. open_block d t e i \<Longrightarrow> t \<in> set ps \<or> paired d t"
  shows "\<exists>d'. each_fold b relPath ps d = Some d' \<and> folds_ok d' \<and> block_ids d' = block_ids d"
  using assms(2-)
proof (induction "length ps" arbitrary: ps d)
  case 0
  then show ?case by (auto simp: folds_ok_def)
next
  case (Suc n)
  then obtain p qs where ps: "ps = p # qs" by (cases ps) auto
  obtain d1 where d1: "init_fold b relPath p d = Some d1" "paired d1 p" "keeps_blocks (moved_after p) (UNIV - {p}) d d1"
    using init_fold_round [OF b Suc.prems(1), of p relPath] Suc.prems(3) ps by auto
  note keeps = d1(3) [unfolded keeps_blocks_def]
  have "\<exists>d'. each_fold b relPath (map (moved_after p) qs) d1 = Some d' \<and> folds_ok d' \<and> block_ids d' = block_ids d1"
  proof (rule Suc.hyps(1))
    show "n = length (map (moved_after p) qs)" using Suc.hyps(2) ps by simp
    show "tree_ok d1" using keeps by blast
    show "distinct (map (moved_after p) qs)"
      using Suc.prems(2) ps by (simp add: distinct_map inj_on_def moved_after_inj)
    show "ready d1 q" if "q \<in> set (map (moved_after p) qs)" for q
      using that keeps Suc.prems(2,3) ps by auto
    show "t \<in> set (map (moved_after p) qs) \<or> paired d1 t" if t: "open_block d1 t e i" for t e i
    proof -
      obtain q where q: "t = moved_after p q" "open_block d q e i" using keeps t by blast
      then consider "q = p" | "q \<noteq> p" "q \<in> set qs" | "q \<noteq> p" "paired d q" using Suc.prems(4) ps by auto
      then show ?thesis by cases (use q d1(2) keeps in auto)
    qed
  qed
  moreover have "block_ids d1 = block_ids d" using keeps unfolding block_ids_def by blast
  ultimately show ?case using d1(1) ps by auto
qed

section \<open>The columns of the lines\<close>

definition same_block :: "elem \<Rightarrow> elem \<Rightarrow> bool" where
  "same_block e e' \<longleftrightarrow> attrs e' = attrs e \<and> tag e' = tag e \<and> (tag e = ''div'' \<longrightarrow> e' = e)"

definition columns :: "dom \<Rightarrow> dom \<Rightarrow> bool" where
  "columns d d' \<longleftrightarrow>
     (\<forall>t e. elem_at d t = Some e \<longrightarrow> (\<exists>e'. elem_at d' t = Some e' \<and> same_block e e')) \<and>
     (\<forall>t e'. elem_at d' t = Some e' \<longrightarrow> elem_at d t = None \<longrightarrow>
        \<not> fold_id e' \<and> tag e' = ''span'' \<and> (\<exists>j q f. t = j # q \<and> elem_at d q = Some f \<and> tag f = ''span'')) \<and>
     spans_empty d'"

lemma columnsD:
  assumes "columns d d'"
  shows "elem_at d t = Some e \<Longrightarrow> \<exists>e'. elem_at d' t = Some e' \<and> same_block e e'"
    and "elem_at d' t = Some e' \<Longrightarrow> elem_at d t = None \<Longrightarrow>
      \<not> fold_id e' \<and> tag e' = ''span'' \<and> (\<exists>j q f. t = j # q \<and> elem_at d q = Some f \<and> tag f = ''span'')"
    and "spans_empty d'"
  using assms unfolding columns_def by simp_all

lemma append_span:
  assumes c: "columns d d'" and q: "elem_at d q = Some f0" "lineno f0"
    and f: "attrs f ''id'' = None \<or> \<not> fold_id f" "fold_span f"
  shows "columns d (appendChild q (Elem f []) d')"
proof -
  obtain f1 where f1: "elem_at d' q = Some f1" "same_block f0 f1" using columnsD(1) [OF c q(1)] by blast
  then obtain ds where ds: "node_at d' q = Some (Elem f1 ds)" using elem_at_node_ex by blast
  have above: "elem_at (Elem f []) s = (if s = [] then Some f else None)" for s
    by (cases s rule: rev_cases) (simp_all add: elem_at_snoc)
  have none: "elem_at d' (s @ length ds # q) = None" for s
    using elem_at_node [of d' "s @ [length ds]" q] ds elem_at_snoc [of f1 ds s "length ds"] by simp
  have at: "elem_at (appendChild q (Elem f []) d') t = (if t = length ds # q then Some f else elem_at d' t)" for t
  proof (cases "\<exists>s. t = s @ length ds # q")
    case True
    then obtain s where t: "t = s @ length ds # q" by blast
    show ?thesis unfolding t elem_at_appended(1) [OF ds] above none by simp
  next
    case False
    then show ?thesis using elem_at_appended(2) [OF ds, of t] by auto
  qed
  have lin: "\<not> fold_span f1" "tag f0 = ''span''"
    using q(2) f1(2) by (auto simp: lineno_def fold_span_def of_class_def same_block_def)
  have "spans_empty (appendChild q (Elem f []) d')"
    unfolding spans_empty_def at
  proof (intro allI impI)
    fix r s :: path and g
    assume g: "(if r = length ds # q then Some f else elem_at d' r) = Some g" "fold_span g" "s \<noteq> []"
    have "s @ r \<noteq> length ds # q"
    proof
      assume eq: "s @ r = length ds # q"
      then have r: "r \<noteq> length ds # q" using g(3) by auto
      obtain u where u: "q = u @ r" using eq g(3) by (cases s) auto
      have "elem_at d' r = Some g" using g(1) r by simp
      moreover have "u \<noteq> []" using u calculation f1(1) g(2) lin(1) by auto
      ultimately show False using spans_emptyD [OF columnsD(3) [OF c] _ g(2)] u f1(1) by fastforce
    qed
    moreover have "elem_at d' (s @ r) = None"
    proof (cases "r = length ds # q")
      case True
      then show ?thesis using none [of s] by simp
    next
      case False
      then show ?thesis using spans_emptyD [OF columnsD(3) [OF c] _ g(2,3)] g(1) by simp
    qed
    ultimately show "(if s @ r = length ds # q then Some f else elem_at d' (s @ r)) = None" by simp
  qed
  moreover have "\<not> fold_id f" "tag f = ''span''" using f fold_span_tag by auto
  moreover have "elem_at d (length ds # q) = None"
    using columnsD(1) [OF c, of "length ds # q"] none [of "[]"] by (cases "elem_at d (length ds # q)") auto
  ultimately show ?thesis
    using c q(1) lin(2) unfolding columns_def at by auto
qed

lemma append_spans:
  assumes "columns d d'" "\<forall>q \<in> set qs. \<exists>f. elem_at d q = Some f \<and> lineno f"
  shows "columns d (foldl (\<lambda>d q. appendChild q fold_line d) d' qs)"
  using assms
proof (induction qs arbitrary: d')
  case (Cons q qs)
  have "columns d (appendChild q fold_line d')"
    unfolding fold_line_def using Cons.prems
    by (auto simp: createElement_def fold_span_def of_class_def intro!: append_span [OF Cons.prems(1)])
  then show ?case using Cons by simp
qed simp

lemma lineno_css_simps [simp]: "attrs (lineno_css e) = attrs e" "tag (lineno_css e) = tag e"
  by (simp_all add: lineno_css_def)

lemma fold_columns_ok:
  assumes "\<And>t e. elem_at d t = Some e \<Longrightarrow> \<not> fold_span e"
  shows "columns d (fold_columns k d)"
proof -
  let ?g = "\<lambda>(q :: path) e. if lineno e then lineno_css e else e"
  have span: "lineno e \<Longrightarrow> tag e = ''span''" for e by (simp add: lineno_def of_class_def)
  have sp: "spans_empty d" using assms unfolding spans_empty_def by blast
  have css: "columns d (map_elems ?g [] d)"
    using sp map_elems_quiet(2) [of ?g d] span by (auto simp: columns_def dom_simps same_block_def)
  have id0: "columns d d" using sp by (auto simp: columns_def same_block_def)
  show ?thesis
  proof (cases "select lineno d")
    case Nil
    then show ?thesis using id0 by (simp add: fold_columns_def)
  next
    case (Cons p ps)
    have mem: "\<exists>f. elem_at d q = Some f \<and> lineno f" if "q \<in> set (p # ps)" for q
      using that set_select [of q lineno d] unfolding Cons by blast
    have "columns d (appendChild p (fold_all k) (map_elems ?g [] d))"
      unfolding fold_all_def using mem [of p]
      by (auto simp: createElement_def fold_span_def of_class_def fold_id_def id_prefix_def lit_def intro!: append_span [OF css])
    then show ?thesis unfolding fold_columns_def Cons list.case by (rule append_spans) (use mem in auto)
  qed
qed

section \<open>The pages\<close>

text \<open>
  A listing as Doxygen writes it: every block is a shown \<open>div\<close> with an id of its own whose first line is a
  \<open>div\<close> without blocks inside, and there are no closed blocks and no fold columns yet.
\<close>

definition holds_at :: "(elem \<Rightarrow> bool) \<Rightarrow> dom \<Rightarrow> path \<Rightarrow> bool" where
  "holds_at P d p = (case elem_at d p of None \<Rightarrow> False | Some e \<Rightarrow> P e)"

definition source_block :: "dom \<Rightarrow> path \<Rightarrow> elem \<Rightarrow> bool" where
  "source_block d p e \<longleftrightarrow>
     p \<noteq> [] \<and> fold_div e \<and> id_prefix ''foldopen'' e \<and> display e = [] \<and>
     (truthy (attrs e ''data-start'') \<longrightarrow> plain_marker (shown_text (attrs e ''data-start''))) \<and>
     (case first_child d p of
        None \<Rightarrow> False
      | Some q \<Rightarrow> holds_at (\<lambda>l. tag l = ''div'') d q \<and>
          list_all (\<lambda>t. \<not> (suffix q t \<and> holds_at fold_id d t)) (preorder [] d))"

definition code_page :: "dom \<Rightarrow> bool" where
  "code_page d \<longleftrightarrow>
     list_all (\<lambda>p. case elem_at d p of None \<Rightarrow> True
       | Some e \<Rightarrow> \<not> fold_span e \<and> (fold_id e \<or> fold_div e \<longrightarrow> source_block d p e)) (preorder [] d) \<and>
     distinct (map (\<lambda>p. map_option elem_id (elem_at d p)) (select fold_id d))"

lemma code_pageD:
  assumes "code_page d" "elem_at d p = Some e"
  shows "\<not> fold_span e" "fold_id e \<or> fold_div e \<Longrightarrow> source_block d p e"
  using assms elem_at_preorder [OF assms(2)] by (auto simp: code_page_def list_all_iff dest!: bspec [of _ _ p])

lemma code_page_unique:
  assumes "code_page d"
  shows "unique_folds d"
  unfolding unique_folds_def
proof (intro allI impI)
  fix p q e e'
  assume e: "elem_at d p = Some e" "elem_at d q = Some e'" "fold_id e" "attrs e' ''id'' = attrs e ''id''"
  have "fold_id e'" using e(3,4) fold_id_cong by blast
  then have "p \<in> set (select fold_id d)" "q \<in> set (select fold_id d)" using e by (simp_all add: set_select)
  moreover have "elem_id e' = elem_id e" using e(4) by (rule elem_id_keep)
  ultimately show "p = q" using assms e(1,2) unfolding code_page_def distinct_map inj_on_def by simp
qed

lemma source_blockE:
  assumes "source_block d p e"
  obtains i q l where "open_block d p e i \<or> elem_at d p \<noteq> Some e" "fold_div e" "attrs e ''id'' = Some (lit ''foldopen'' @ i)"
    "p \<noteq> []" "display e = []" "truthy (attrs e ''data-start'') \<Longrightarrow> plain_marker (shown_text (attrs e ''data-start''))"
    "first_child d p = Some q" "elem_at d q = Some l" "tag l = ''div''" "\<And>s c. elem_at d (s @ q) = Some c \<Longrightarrow> \<not> fold_id c"
proof -
  obtain i where i: "attrs e ''id'' = Some (lit ''foldopen'' @ i)"
    using assms by (auto simp: source_block_def id_prefix_def prefix_def split: option.splits)
  obtain q l where q: "first_child d p = Some q" "elem_at d q = Some l" "tag l = ''div''"
    "list_all (\<lambda>t. \<not> (suffix q t \<and> holds_at fold_id d t)) (preorder [] d)"
    using assms by (auto simp: source_block_def holds_at_def split: option.splits)
  have "\<not> fold_id c" if c: "elem_at d (s @ q) = Some c" for s c
    using q(4) elem_at_preorder [OF c] c by (auto simp: list_all_iff holds_at_def suffix_def)
  then show ?thesis using that i q assms by (auto simp: source_block_def open_block_def)
qed

lemma page_columns:
  fixes k :: nat
  assumes page: "code_page d"
  defines "d' \<equiv> fold_columns k d"
  shows "tree_ok d'" "\<And>p. p \<in> set (select fold_div d') \<Longrightarrow> ready d' p"
    "\<And>t e i. open_block d' t e i \<longleftrightarrow> open_block d t e i" "\<And>t e i. open_block d t e i \<Longrightarrow> t \<in> set (select fold_div d')"
proof -
  have col: "columns d d'" unfolding d'_def using code_pageD(1) [OF page] by (rule fold_columns_ok)
  have div: "elem_at d t = Some e \<longleftrightarrow> elem_at d' t = Some e" if "tag e = ''div''" for t e
    using that columnsD(1,2) [OF col] by (cases "elem_at d t") (fastforce simp: same_block_def)+
  have fold: "tag e = ''div'' \<and> elem_at d t = Some e" if te: "elem_at d' t = Some e" "fold_id e" for t e
  proof -
    obtain e0 where e0: "elem_at d t = Some e0"
      using columnsD(2) [OF col te(1)] te(2) by (cases "elem_at d t") auto
    then have "same_block e0 e" using columnsD(1) [OF col e0] that(1) by simp
    then have "fold_id e0" using that(2) by (simp add: same_block_def fold_id_def id_prefix_def)
    then have "source_block d t e0" using code_pageD(2) [OF page e0] by simp
    then have "tag e0 = ''div''" by (simp add: source_block_def fold_div_def of_class_def)
    then show ?thesis using \<open>same_block e0 e\<close> e0 by (simp add: same_block_def)
  qed
  have foldd: "tag e = ''div''" if "elem_at d t = Some e" "fold_id e" for t e
    using code_pageD(2) [OF page that(1)] that(2) by (simp add: source_block_def fold_div_def of_class_def)
  show block: "open_block d' t e i \<longleftrightarrow> open_block d t e i" for t e i
  proof
    assume o: "open_block d' t e i"
    then show "open_block d t e i" using fold [OF _ open_block_fold [OF o]] by (simp add: open_block_def)
  next
    assume o: "open_block d t e i"
    then have "tag e = ''div''" using foldd [of t e] open_block_fold [OF o] by (simp add: open_block_def)
    then show "open_block d' t e i" using o div by (simp add: open_block_def)
  qed
  have uni: "unique_folds d'"
    unfolding unique_folds_def
  proof (intro allI impI)
    fix p q e e'
    assume e: "elem_at d' p = Some e" "elem_at d' q = Some e'" "fold_id e" "attrs e' ''id'' = attrs e ''id''"
    have "fold_id e'" using e(3,4) fold_id_cong by blast
    then show "p = q"
      using unique_foldsD [OF code_page_unique [OF page] _ \<open>fold_id e'\<close>] fold e by metis
  qed
  then show "tree_ok d'" using fold columnsD(3) [OF col] by (auto simp: tree_ok_def folds_are_divs_def)
  show "t \<in> set (select fold_div d')" if "open_block d t e i" for t e i
  proof -
    have e: "elem_at d t = Some e" "fold_id e" using that open_block_fold [OF that] by (auto simp: open_block_def)
    then have "fold_div e" "tag e = ''div''"
      using code_pageD(2) [OF page e(1)] by (simp_all add: source_block_def fold_div_def of_class_def)
    then show ?thesis using e(1) div by (auto simp: set_select)
  qed
  show "ready d' p" if "p \<in> set (select fold_div d')" for p
  proof -
    obtain e where e: "elem_at d' p = Some e" "fold_div e" using \<open>p \<in> _\<close> by (auto simp: set_select)
    have tag: "tag e = ''div''" using e(2) by (simp add: fold_div_def of_class_def)
    then have ed: "elem_at d p = Some e" using div e(1) by simp
    have "source_block d p e" using code_pageD(2) [OF page ed] e(2) by simp
    then show ?thesis
    proof (rule source_blockE)
      fix i q l
      assume q: "open_block d p e i \<or> elem_at d p \<noteq> Some e" "fold_div e" "attrs e ''id'' = Some (lit ''foldopen'' @ i)"
        "p \<noteq> []" "display e = []" "truthy (attrs e ''data-start'') \<Longrightarrow> plain_marker (shown_text (attrs e ''data-start''))"
        "first_child d p = Some q" "elem_at d q = Some l" "tag l = ''div''" "\<And>s c. elem_at d (s @ q) = Some c \<Longrightarrow> \<not> fold_id c"
      have "elem_at d' (j # p) = None" if "elem_at d (j # p) = None" for j
        using columnsD(2) [OF col _ that] ed tag by (cases "elem_at d' (j # p)") auto
      then have first: "first_child d' p = Some q"
        using q(7) columnsD(1) [OF col, of q] unfolding first_child_iff by blast
      have "\<not> fold_id c" if "elem_at d' (s @ q) = Some c" for s c
        using fold [OF that] q(10) by blast
      moreover have "attrs c ''id'' \<noteq> Some (lit ''foldclosed'' @ i)" if c: "elem_at d' t = Some c" for t c
      proof
        assume i: "attrs c ''id'' = Some (lit ''foldclosed'' @ i)"
        then have "fold_id c" by (simp add: fold_id_def id_prefix_def)
        then have "elem_at d t = Some c" using fold c by blast
        then have "id_prefix ''foldopen'' c"
          using code_pageD(2) [OF page] \<open>fold_id c\<close> by (auto simp: source_block_def)
        then show False using i by (simp add: id_prefix_def lit_def)
      qed
      moreover have "open_block d' p e i" using q(1) ed block by blast
      moreover have "elem_at d' q = Some l" using div q(8,9) by simp
      ultimately show ?thesis using q(5,6,9) first by (intro readyI)
    qed
  qed
qed

lemma init_codefold_ok:
  assumes "code_page d" "parses_back b"
  obtains d' where "init_codefold b relPath d = Some d'" "folds_ok d'" "block_ids d' = block_ids d"
proof -
  let ?d = "fold_columns relPath d"
  have "block_ids ?d = block_ids d" unfolding block_ids_def using page_columns(3) [OF assms(1)] by simp
  moreover have "\<exists>d'. each_fold b relPath (select fold_div ?d) ?d = Some d' \<and> folds_ok d' \<and> block_ids d' = block_ids ?d"
    using page_columns [OF assms(1), where k = relPath] by (intro each_fold_ok [OF assms(2)] distinct_select) auto
  ultimately show ?thesis using that by (auto simp: init_codefold_def Let_def)
qed

section \<open>The buttons keep it\<close>

lemma hidden_simps [simp]:
  "hidden (jq_hide e)" "exclusive e c \<Longrightarrow> display (jq_show e) = [] \<and> display (jq_show c) = []"
  "exclusive e c \<Longrightarrow> exclusive (jq_toggle e) (jq_toggle c)"
  by (auto simp: hidden_def exclusive_def jq_hide_def jq_show_def jq_toggle_def)

lemma jq_simps [simp]:
  "attrs (jq_hide e) = attrs e" "attrs (jq_show e) = attrs e" "attrs (jq_toggle e) = attrs e"
  "tag (jq_hide e) = tag e" "tag (jq_show e) = tag e" "tag (jq_toggle e) = tag e"
  by (simp_all add: jq_hide_def jq_show_def jq_toggle_def)

text \<open>A change of displays that leaves ids and tags alone and every pair exclusive.\<close>

lemma folds_ok_map_elems:
  assumes ok: "folds_ok d" and g: "\<And>q e. attrs (g q e) = attrs e" "\<And>q e. tag (g q e) = tag e"
    and pair: "\<And>t e i c. open_block d t e i \<Longrightarrow> elem_at d (next_path t) = Some c \<Longrightarrow>
      attrs c ''id'' = Some (lit ''foldclosed'' @ i) \<Longrightarrow> exclusive e c \<Longrightarrow> exclusive (g t e) (g (next_path t) c)"
  shows "folds_ok (map_elems g [] d)"
proof -
  have id: "fold_id (g q e) = fold_id e" for q e by (rule fold_id_cong) (simp add: g)
  have at: "elem_at (map_elems g [] d) q = Some e' \<longleftrightarrow> (\<exists>e. elem_at d q = Some e \<and> e' = g q e)" for q e'
    by (auto simp: dom_simps)
  have "unique_folds (map_elems g [] d)"
    using ok unfolding folds_ok_def tree_ok_def unique_folds_def at by (metis g(1) id)
  moreover have "folds_are_divs (map_elems g [] d)"
    using ok unfolding folds_ok_def tree_ok_def folds_are_divs_def at by (metis g(2) id)
  moreover have "spans_empty (map_elems g [] d)"
    using ok map_elems_quiet(2) [of g, OF g] by (simp add: folds_ok_def tree_ok_def)
  moreover have "paired (map_elems g [] d) t" if o: "open_block (map_elems g [] d) t e' i" for t e' i
  proof -
    obtain e where e: "open_block d t e i" "e' = g t e" using o by (auto simp: open_block_def at g)
    then have "paired d t" using ok by (auto simp: folds_ok_def)
    then show ?thesis
    proof (rule pairedE)
      fix f j c
      assume c: "open_block d t f j" "elem_at d (next_path t) = Some c" "attrs c ''id'' = Some (lit ''foldclosed'' @ j)" "exclusive f c"
      have "open_block (map_elems g [] d) t (g t f) j" using c(1) by (simp add: open_block_def at g)
      moreover have "elem_at (map_elems g [] d) (next_path t) = Some (g (next_path t) c)" using c(2) at by blast
      ultimately show ?thesis using pair [OF c] c(3) g(1) unfolding paired_def by metis
    qed
  qed
  ultimately show ?thesis by (auto simp: folds_ok_def tree_ok_def)
qed

lemma open_block_map_elems:
  "(\<And>q e. attrs (g q e) = attrs e) \<Longrightarrow>
   open_block (map_elems g [] d) t e' i \<longleftrightarrow> (\<exists>e. open_block d t e i \<and> e' = g t e)"
  by (auto simp: open_block_def dom_simps)

lemma block_ids_map_elems: "(\<And>q e. attrs (g q e) = attrs e) \<Longrightarrow> block_ids (map_elems g [] d) = block_ids d"
  by (auto simp: block_ids_def open_block_map_elems)

text \<open>The ids of a pair find its two blocks.\<close>

lemma pair_found:
  assumes "folds_ok d" "open_block d t e i"
  obtains c where "elem_at d (next_path t) = Some c" "attrs c ''id'' = Some (lit ''foldclosed'' @ i)" "exclusive e c"
    "getElementById d (lit ''foldopen'' @ i) = Some t" "getElementById d (lit ''foldclosed'' @ i) = Some (next_path t)"
proof -
  have uni: "unique_folds d" and "paired d t" using assms by (auto simp: folds_ok_def tree_ok_def)
  from this(2) obtain f j c where c: "open_block d t f j" "elem_at d (next_path t) = Some c"
    "attrs c ''id'' = Some (lit ''foldclosed'' @ j)" "exclusive f c" by (rule pairedE)
  have same: "f = e" "j = i" using c(1) assms(2) by (auto simp: open_block_def)
  have "q = p" if "elem_at d p = Some f" "fold_id f" "elem_at d q = Some e'" "attrs e' ''id'' = attrs f ''id''" for p q f e'
    by (rule unique_foldsD [OF uni that])
  moreover have "fold_id c" "fold_id e" using c(3) assms(2) open_block_fold by (auto simp: fold_id_def id_prefix_def)
  ultimately show ?thesis
    using c(2-4) assms(2) unfolding same open_block_def
    by (intro that getElementById_unique) auto
qed

lemma found_id: "getElementById d i = Some q \<Longrightarrow> elem_at d q = Some e \<Longrightarrow> attrs e ''id'' = Some i"
  by (drule getElementById_SomeD) auto

lemma upd_id_map_elems:
  "upd_id i f d = map_elems (\<lambda>q e. if getElementById d i = Some q then f e else e) [] d"
  by (auto simp: upd_id_def upd_elem_def map_elems_id intro!: map_elems_cong split: option.split)

lemma getElementById_upd_id:
  "(\<And>e. attrs (f e) = attrs e) \<Longrightarrow> getElementById (upd_id i f d) j = getElementById d j"
  by (auto simp: upd_id_def dom_simps split: option.split)

lemma codefold_toggle_map:
  "listing (codefold_toggle i s) =
   map_elems (\<lambda>q e. if getElementById (listing s) (lit ''foldclosed'' @ i) = Some q \<or> getElementById (listing s) (lit ''foldopen'' @ i) = Some q
     then jq_toggle e else e) [] (listing s)"
proof -
  let ?d = "listing s"
  have "getElementById ?d (lit ''foldopen'' @ i) \<noteq> getElementById ?d (lit ''foldclosed'' @ i)"
    if q: "getElementById ?d (lit ''foldopen'' @ i) = Some q" for q
  proof
    assume "getElementById ?d (lit ''foldopen'' @ i) = getElementById ?d (lit ''foldclosed'' @ i)"
    then show False using found_id [of ?d _ q] getElementById_SomeD [OF q] q open_not_closed [of i i] by fastforce
  qed
  then show ?thesis
    unfolding codefold_toggle_def upd_id_map_elems [of "lit ''foldclosed'' @ i"] fold_state.simps
    by (subst getElementById_upd_id) (auto simp: upd_id_map_elems map_elems_comp intro!: map_elems_cong)
qed

lemma codefold_toggle_ok:
  assumes "folds_ok (listing s)"
  shows "folds_ok (listing (codefold_toggle i s))"
  unfolding codefold_toggle_map
proof (rule folds_ok_map_elems [OF assms])
  fix t e j c
  assume a: "open_block (listing s) t e j" "elem_at (listing s) (next_path t) = Some c"
    "attrs c ''id'' = Some (lit ''foldclosed'' @ j)" "exclusive e c"
  let ?hit = "\<lambda>q. getElementById (listing s) (lit ''foldclosed'' @ i) = Some q \<or> getElementById (listing s) (lit ''foldopen'' @ i) = Some q"
  have t: "elem_at (listing s) t = Some e" "attrs e ''id'' = Some (lit ''foldopen'' @ j)" using a(1) by (simp_all add: open_block_def)
  have "?hit t \<Longrightarrow> i = j" "?hit (next_path t) \<Longrightarrow> i = j"
    using found_id [OF _ t(1)] found_id [OF _ a(2)] t(2) a(3) open_not_closed by fastforce+
  moreover have "i = j \<Longrightarrow> ?hit t \<and> ?hit (next_path t)" using pair_found [OF assms a(1)] by metis
  ultimately have "?hit t \<longleftrightarrow> i = j" "?hit (next_path t) \<longleftrightarrow> i = j" by blast+
  then show "exclusive (if ?hit t then jq_toggle e else e) (if ?hit (next_path t) then jq_toggle c else c)"
    using a(4) by simp
qed simp_all

text \<open>The button for all blocks.\<close>

definition all_form :: "bool \<Rightarrow> elem \<Rightarrow> elem" where
  "all_form b e =
     (if tag e = ''div'' \<and> id_prefix ''foldopen'' e then (if b then jq_hide e else jq_show e)
      else if tag e = ''div'' \<and> id_prefix ''foldclosed'' e then (if b then jq_show e else jq_hide e)
      else e)"

lemma prefix_open_closed [simp]:
  "\<not> prefix (lit ''foldclosed'') (lit ''foldopen'' @ i)" "\<not> prefix (lit ''foldopen'') (lit ''foldclosed'' @ i)"
  by (simp_all add: lit_def)

lemma codefold_toggle_all_map:
  "listing (codefold_toggle_all k s) =
   map_elems (\<lambda>q. all_form (opened s)) []
     (upd_id (lit ''fold_all'') (image_css (if opened s then plusImg else minusImg) k) (listing s))"
proof -
  have "\<not> (id_prefix ''foldopen'' e \<and> id_prefix ''foldclosed'' e)" for e
    by (auto simp: id_prefix_def prefix_def lit_def split: option.splits)
  moreover have "id_prefix x (jq_hide e) = id_prefix x e" "id_prefix x (jq_show e) = id_prefix x e" for x e
    by (simp_all add: id_prefix_def)
  ultimately show ?thesis
    by (auto simp: codefold_toggle_all_def upd_divs_def map_elems_comp all_form_def intro!: map_elems_cong)
qed

lemma folds_ok_images:
  assumes "folds_ok d"
  shows "folds_ok (upd_id i (image_css imgs k) d)"
  unfolding upd_id_map_elems by (rule folds_ok_map_elems [OF assms]) (auto simp: exclusive_def hidden_def)

lemma codefold_toggle_all_ok:
  assumes "folds_ok (listing s)"
  shows "folds_ok (listing (codefold_toggle_all k s))"
    and "open_block (listing (codefold_toggle_all k s)) t e i \<Longrightarrow> hidden e = opened s"
proof -
  let ?d = "upd_id (lit ''fold_all'') (image_css (if opened s then plusImg else minusImg) k) (listing s)"
  have ok: "folds_ok ?d" using assms by (rule folds_ok_images)
  have form: "attrs (all_form b e) = attrs e" "tag (all_form b e) = tag e" for b e by (simp_all add: all_form_def)
  have "tag e = ''div''" if "elem_at ?d t = Some e" "fold_id e" for t e
    using ok that unfolding folds_ok_def tree_ok_def by (auto dest: fold_id_div)
  then have parts: "all_form b e = (if b then jq_hide e else jq_show e)" "all_form b c = (if b then jq_show c else jq_hide c)"
    if "open_block ?d t e i" "elem_at ?d (next_path t) = Some c" "attrs c ''id'' = Some (lit ''foldclosed'' @ i)" for b t e i c
    using that by (auto simp: all_form_def open_block_def fold_id_def id_prefix_def)
  show "folds_ok (listing (codefold_toggle_all k s))"
    unfolding codefold_toggle_all_map
  proof (rule folds_ok_map_elems [OF ok form])
    fix t e i c
    assume a: "open_block ?d t e i" "elem_at ?d (next_path t) = Some c" "attrs c ''id'' = Some (lit ''foldclosed'' @ i)" "exclusive e c"
    show "exclusive (all_form (opened s) e) (all_form (opened s) c)"
      using a(4) unfolding parts [OF a(1-3)] by (simp add: exclusive_def [of "jq_hide e"] exclusive_def [of "jq_show e"])
  qed
  show "hidden e = opened s" if o: "open_block (listing (codefold_toggle_all k s)) t e i"
  proof -
    obtain f where f: "open_block ?d t f i" "e = all_form (opened s) f"
      using o unfolding codefold_toggle_all_map by (auto simp: open_block_def dom_simps form)
    then obtain c where c: "elem_at ?d (next_path t) = Some c" "attrs c ''id'' = Some (lit ''foldclosed'' @ i)" "exclusive f c"
      by (metis pair_found [OF ok])
    show ?thesis using c(3) unfolding f(2) parts [OF f(1) c(1,2)] by (simp add: hidden_def [of "jq_show f"])
  qed
qed

lemma block_ids_buttons:
  "block_ids (listing (codefold_toggle i s)) = block_ids (listing s)"
  "block_ids (listing (codefold_toggle_all k s)) = block_ids (listing s)"
proof -
  have "attrs (all_form b e) = attrs e" for b e by (simp add: all_form_def)
  then show "block_ids (listing (codefold_toggle_all k s)) = block_ids (listing s)"
    unfolding codefold_toggle_all_map upd_id_map_elems by (simp add: block_ids_map_elems)
  show "block_ids (listing (codefold_toggle i s)) = block_ids (listing s)"
    unfolding codefold_toggle_map by (simp add: block_ids_map_elems)
qed

text \<open>Two clicks on a block give the page back.\<close>

lemma jq_toggle_twice: "display e = [] \<or> hidden e \<Longrightarrow> jq_toggle (jq_toggle e) = e"
proof -
  have "set_style ''display'' x (set_style ''display'' y e) = e" if "display e = x" for x y
    using that by (simp add: set_style_def display_def fun_upd_idem)
  then show "display e = [] \<or> hidden e \<Longrightarrow> jq_toggle (jq_toggle e) = e"
    by (auto simp: jq_toggle_def jq_show_def jq_hide_def hidden_def)
qed

lemma codefold_toggle_twice:
  assumes ok: "folds_ok (listing s)" and i: "i \<in> block_ids (listing s)"
  shows "codefold_toggle i (codefold_toggle i s) = s"
proof -
  let ?d = "listing s"
  obtain t e where "open_block ?d t e i" using i by (auto simp: block_ids_def)
  from pair_found [OF ok this] this obtain c where c: "elem_at ?d (next_path t) = Some c" "exclusive e c"
    "getElementById ?d (lit ''foldopen'' @ i) = Some t" "getElementById ?d (lit ''foldclosed'' @ i) = Some (next_path t)"
    and e: "elem_at ?d t = Some e" by (auto simp: open_block_def)
  let ?g = "\<lambda>q e. if q = next_path t \<or> q = t then jq_toggle e else e"
  have found: "getElementById (map_elems ?g [] ?d) x = getElementById ?d x" for x
    by (rule getElementById_map_elems) simp
  have once: "listing (codefold_toggle i s) = map_elems ?g [] ?d"
    unfolding codefold_toggle_map c by (auto intro!: map_elems_cong)
  have "listing (codefold_toggle i (codefold_toggle i s)) = map_elems ?g [] (map_elems ?g [] ?d)"
    unfolding codefold_toggle_map [of i "codefold_toggle i s"] once found c by (auto intro!: map_elems_cong)
  also have "\<dots> = map_elems (\<lambda>q e. e) [] ?d"
    unfolding map_elems_comp
    by (rule map_elems_cong) (use c(1,2) e in \<open>auto simp: exclusive_def intro!: jq_toggle_twice\<close>)
  finally show ?thesis by (simp add: map_elems_id codefold_toggle_def)
qed

end
