(* ===== verification/Menu.thy ===== *)
theory Menu
  imports Js_String
begin

text \<open>
  \<open>docs/html/menu.js\<close> with the data of \<open>docs/html/menudata.js\<close>: the markup of the menu tree
  and of the search box, and where the search box is put when the window is resized.
\<close>

section \<open>The menu tree\<close>

text \<open>\<open>children\<close> is a property that an entry may lack.\<close>

datatype menu = Entry (menu_text: jstring) (menu_url: jstring) (menu_children: "menu list option")

definition item_url :: "jstring \<Rightarrow> jstring \<Rightarrow> jstring" where
  "item_url relPath link = (if take 1 link = lit ''^'' then drop 1 link else relPath @ link)"

fun makeTree :: "jstring \<Rightarrow> menu \<Rightarrow> jstring" and makeItems :: "jstring \<Rightarrow> menu list \<Rightarrow> jstring" where
  "makeTree relPath (Entry t u None) = []"
| "makeTree relPath (Entry t u (Some cs)) = lit ''<ul>'' @ makeItems relPath cs @ lit ''</ul>''"
| "makeItems relPath [] = []"
| "makeItems relPath (c # cs) =
     lit ''<li><a href=\"'' @ item_url relPath (menu_url c) @ lit ''\">'' @
     menu_text c @ lit ''</a>'' @ makeTree relPath c @ lit ''</li>'' @ makeItems relPath cs"

text \<open>\<open>menudata.js\<close>; the root has no text and no link of its own.\<close>

definition menudata :: menu where
  "menudata = Entry [] [] (Some [Entry (lit ''Main Page'') (lit ''index.html'') None])"

section \<open>The search box\<close>

definition searchBoxHtml :: "bool \<Rightarrow> bool \<Rightarrow> jstring \<Rightarrow> jstring \<Rightarrow> jstring \<Rightarrow> jstring option" where
  "searchBoxHtml searchEnabled serverSide relPath searchPage search =
     (if \<not> searchEnabled then None
      else if serverSide then
        Some (lit ''<div id=\"MSearchBox\" class=\"MSearchBoxInactive\">'' @
              lit ''<div class=\"left\">'' @
              lit ''<form id=\"FSearchBox\" action=\"'' @ relPath @ searchPage @
              lit ''\" method=\"get\"><span id=\"MSearchSelectExt\">&#160;</span>'' @
              lit ''<input type=\"text\" id=\"MSearchField\" name=\"query\" value=\"\" placeholder=\"'' @ search @
              lit ''\" size=\"20\" accesskey=\"S\" onfocus=\"searchBox.OnSearchFieldFocus(true)\"'' @
              lit '' onblur=\"searchBox.OnSearchFieldFocus(false)\"/>'' @
              lit ''</form>'' @ lit ''</div>'' @ lit ''<div class=\"right\"></div>'' @ lit ''</div>'')
      else
        Some (lit ''<div id=\"MSearchBox\" class=\"MSearchBoxInactive\">'' @
              lit ''<span class=\"left\">'' @
              lit ''<span id=\"MSearchSelect\" onmouseover=\"return searchBox.OnSearchSelectShow()\"'' @
              lit '' onmouseout=\"return searchBox.OnSearchSelectHide()\">&#160;</span>'' @
              lit ''<input type=\"text\" id=\"MSearchField\" value=\"\" placeholder=\"'' @ search @
              lit ''\" accesskey=\"S\" onfocus=\"searchBox.OnSearchFieldFocus(true)\" '' @
              lit ''onblur=\"searchBox.OnSearchFieldFocus(false)\" '' @
              lit ''onkeyup=\"searchBox.OnSearchFieldChange(event)\"/>'' @
              lit ''</span>'' @ lit ''<span class=\"right\"><a id=\"MSearchClose\" '' @
              lit ''href=\"javascript:searchBox.CloseResultsWindow()\">'' @
              lit ''<img id=\"MSearchCloseImg\" border=\"0\" src=\"'' @ relPath @
              lit ''search/close.svg\" alt=\"\"/></a>'' @
              lit ''</span>'' @ lit ''</div>''))"

section \<open>Resizing\<close>

text \<open>
  The two places of the search box with their markup (the first one is always visible), the
  state of the menu with the animations that have not ended (\<open>True\<close> slides down, the first one runs), and
  how often the results window was closed.
\<close>

record menu_bar =
  prevWidth :: int
  menu_checked :: bool
  menu_shown :: bool
  pos1_html :: jstring
  pos2_html :: jstring
  pos2_shown :: bool
  results_closed :: nat
  animations :: "bool list"

definition resetState :: "jstring option \<Rightarrow> bool \<Rightarrow> int \<Rightarrow> menu_bar \<Rightarrow> menu_bar" where
  "resetState boxHtml hasSearchBox newWidth m =
     (if newWidth = prevWidth m then m
      else
        let m = (if newWidth < 768
                 then m\<lparr>menu_checked := False, menu_shown := False,
                        pos1_html := (case boxHtml of None \<Rightarrow> pos1_html m | Some h \<Rightarrow> h), pos2_shown := False\<rparr>
                 else m\<lparr>menu_shown := True, pos1_html := [],
                        pos2_html := (case boxHtml of None \<Rightarrow> pos2_html m | Some h \<Rightarrow> h), pos2_shown := True\<rparr>);
            m = (if hasSearchBox then m\<lparr>results_closed := results_closed m + 1\<rparr> else m)
        in m\<lparr>prevWidth := newWidth\<rparr>)"

text \<open>
  The handler of the box \<open>main-menu-state\<close>, for the state that the browser gave it. \<open>hide\<close> and \<open>show\<close> act at
  once; an animation waits for those before it. One that slides down shows the menu when it starts, and at its
  end the callback \<open>complete\<close> sets \<open>display\<close>.
\<close>

definition start_slide :: "menu_bar \<Rightarrow> menu_bar" where
  "start_slide m = (case animations m of True # as \<Rightarrow> m\<lparr>menu_shown := True\<rparr> | _ \<Rightarrow> m)"

definition add_slide :: "bool \<Rightarrow> menu_bar \<Rightarrow> menu_bar" where
  "add_slide down m =
     (let m' = m\<lparr>animations := animations m @ [down]\<rparr> in if animations m = [] then start_slide m' else m')"

definition menu_change :: "bool \<Rightarrow> menu_bar \<Rightarrow> menu_bar" where
  "menu_change checked m =
     (let m = m\<lparr>menu_checked := checked\<rparr> in
      if checked then add_slide True (m\<lparr>menu_shown := False\<rparr>) else add_slide False (m\<lparr>menu_shown := True\<rparr>))"

definition slide_complete :: "menu_bar \<Rightarrow> menu_bar" where
  "slide_complete m =
     (case animations m of [] \<Rightarrow> m | down # as \<Rightarrow> start_slide (m\<lparr>menu_shown := down, animations := as\<rparr>))"

text \<open>The state before the first call, and what happens to the bar.\<close>

definition initial_bar :: menu_bar where
  "initial_bar =
     \<lparr>prevWidth = 0, menu_checked = False, menu_shown = True, pos1_html = [], pos2_html = [],
      pos2_shown = True, results_closed = 0, animations = []\<rparr>"

datatype menu_event = Resized int | Box_Changed bool | Slide_Ended

definition menu_step :: "jstring option \<Rightarrow> bool \<Rightarrow> menu_bar \<Rightarrow> menu_event \<Rightarrow> menu_bar" where
  "menu_step boxHtml hasSearchBox m ev =
     (case ev of
        Resized w \<Rightarrow> resetState boxHtml hasSearchBox w m
      | Box_Changed c \<Rightarrow> menu_change c m
      | Slide_Ended \<Rightarrow> slide_complete m)"

definition after_events :: "jstring option \<Rightarrow> bool \<Rightarrow> int \<Rightarrow> menu_event list \<Rightarrow> menu_bar" where
  "after_events boxHtml hasSearchBox w evs =
     foldl (menu_step boxHtml hasSearchBox) (resetState boxHtml hasSearchBox w initial_bar) evs"

section \<open>Facts\<close>

text \<open>A tree without any child list gives no markup; the markup of the children is nested in it.\<close>

lemma makeItems_concat:
  "makeItems relPath cs =
   concat (map (\<lambda>c. lit ''<li><a href=\"'' @ item_url relPath (menu_url c) @ lit ''\">'' @
     menu_text c @ lit ''</a>'' @ makeTree relPath c @ lit ''</li>'') cs)"
  by (induction cs) simp_all

text \<open>What is visible: the box at one place and not at the other.\<close>

definition visible_boxes :: "menu_bar \<Rightarrow> jstring list" where
  "visible_boxes m =
     List.filter (\<lambda>h. h \<noteq> []) ([pos1_html m] @ (if pos2_shown m then [pos2_html m] else []))"

definition bar_ok :: "jstring \<Rightarrow> menu_bar \<Rightarrow> bool" where
  "bar_ok h m \<longleftrightarrow>
     (if prevWidth m < 768 then pos1_html m = h \<and> \<not> pos2_shown m
      else pos1_html m = [] \<and> pos2_html m = h \<and> pos2_shown m)"

lemma slide_simps [simp]:
  "prevWidth (start_slide m) = prevWidth m" "pos1_html (start_slide m) = pos1_html m"
  "pos2_html (start_slide m) = pos2_html m" "pos2_shown (start_slide m) = pos2_shown m"
  "menu_checked (start_slide m) = menu_checked m" "animations (start_slide m) = animations m"
  by (simp_all add: start_slide_def split: list.split bool.split)

lemma start_slide_shown: "menu_shown (start_slide m) = (menu_shown m \<or> (animations m \<noteq> [] \<and> hd (animations m)))"
  by (simp add: start_slide_def split: list.split bool.split)

lemma menu_change_simps [simp]:
  "prevWidth (menu_change c m) = prevWidth m" "pos1_html (menu_change c m) = pos1_html m"
  "pos2_html (menu_change c m) = pos2_html m" "pos2_shown (menu_change c m) = pos2_shown m"
  "menu_checked (menu_change c m) = c" "animations (menu_change c m) = animations m @ [c]"
  by (simp_all add: menu_change_def add_slide_def Let_def)

lemma slide_complete_simps [simp]:
  "prevWidth (slide_complete m) = prevWidth m" "pos1_html (slide_complete m) = pos1_html m"
  "pos2_html (slide_complete m) = pos2_html m" "pos2_shown (slide_complete m) = pos2_shown m"
  "menu_checked (slide_complete m) = menu_checked m" "animations (slide_complete m) = tl (animations m)"
  by (simp_all add: slide_complete_def split: list.split)

lemma resetState_simps:
  "prevWidth (resetState b s n m) = n" "animations (resetState b s n m) = animations m"
  "menu_checked (resetState b s n m) = (menu_checked m \<and> (n = prevWidth m \<or> 768 \<le> n))"
  "menu_shown (resetState b s n m) = (if n = prevWidth m then menu_shown m else 768 \<le> n)"
  by (auto simp: resetState_def Let_def)

lemma resetState_ok: "n \<noteq> prevWidth m \<or> bar_ok h m \<Longrightarrow> bar_ok h (resetState (Some h) s n m)"
  by (auto simp: bar_ok_def resetState_def Let_def)

lemma menu_step_ok: "bar_ok h m \<Longrightarrow> bar_ok h (menu_step (Some h) s m ev)"
  by (cases ev) (auto simp: menu_step_def resetState_ok, auto simp: bar_ok_def)

lemma after_events_ok:
  assumes "w \<noteq> 0"
  shows "bar_ok h (after_events (Some h) s w evs)"
proof -
  have run: "bar_ok h (foldl (menu_step (Some h) s) m evs)" if "bar_ok h m" for m
    using that by (induction evs arbitrary: m) (simp_all add: menu_step_ok)
  then show ?thesis using assms unfolding after_events_def by (intro run resetState_ok) (simp add: initial_bar_def)
qed

lemma bar_ok_visible: "h \<noteq> [] \<Longrightarrow> bar_ok h m \<Longrightarrow> visible_boxes m = [h]"
  by (auto simp: bar_ok_def visible_boxes_def split: if_splits)

text \<open>What the box was last changed to since the width last changed, from a width and such a change on.\<close>

fun last_choice :: "int \<Rightarrow> bool option \<Rightarrow> menu_event list \<Rightarrow> bool option" where
  "last_choice wd c [] = c"
| "last_choice wd c (Resized w # evs) = last_choice w (if w = wd then c else None) evs"
| "last_choice wd c (Box_Changed b # evs) = last_choice wd (Some b) evs"
| "last_choice wd c (Slide_Ended # evs) = last_choice wd c evs"

text \<open>
  The menu when its animations have ended: as the box was last changed to since the width changed, or, without such a
  change, open exactly when the window is wide. The last animation is for the last change; a resize that changes the
  width while one runs breaks this. On narrow windows the box tells the same.
\<close>

definition menu_ok :: "bool option \<Rightarrow> menu_bar \<Rightarrow> bool" where
  "menu_ok ch m \<longleftrightarrow>
     (if animations m = [] then menu_shown m = (case ch of Some c \<Rightarrow> c | None \<Rightarrow> 768 \<le> prevWidth m)
      else ch = Some (last (animations m))) \<and>
     (prevWidth m < 768 \<longrightarrow> menu_checked m = (ch = Some True))"

text \<open>Windows change their width between animations.\<close>

fun calm :: "menu_bar \<Rightarrow> menu_event \<Rightarrow> bool" where
  "calm m (Resized w) = (w = prevWidth m \<or> animations m = [])"
| "calm m (Box_Changed c) = True"
| "calm m Slide_Ended = True"

fun calm_run :: "jstring option \<Rightarrow> bool \<Rightarrow> menu_bar \<Rightarrow> menu_event list \<Rightarrow> bool" where
  "calm_run b s m [] = True"
| "calm_run b s m (ev # evs) = (calm m ev \<and> calm_run b s (menu_step b s m ev) evs)"

lemma menu_step_menu_ok:
  assumes "menu_ok ch m" "calm m ev"
  shows "menu_ok (last_choice (prevWidth m) ch [ev]) (menu_step b s m ev)"
proof (cases ev)
  case (Resized w)
  then show ?thesis using assms by (cases ch) (auto simp: menu_step_def menu_ok_def resetState_simps)
next
  case (Box_Changed c)
  then show ?thesis using assms by (auto simp: menu_step_def menu_ok_def)
next
  case Slide_Ended
  show ?thesis
  proof (cases "animations m")
    case Nil
    then show ?thesis using assms Slide_Ended by (simp add: menu_step_def slide_complete_def)
  next
    case (Cons a as)
    then show ?thesis
      using assms Slide_Ended by (auto simp: menu_step_def menu_ok_def slide_complete_def start_slide_shown)
  qed
qed

lemma last_choice_Cons: "last_choice wd c (ev # evs) = last_choice (case ev of Resized w \<Rightarrow> w | _ \<Rightarrow> wd) (last_choice wd c [ev]) evs"
  by (cases ev) simp_all

lemma menu_step_width: "prevWidth (menu_step b s m ev) = (case ev of Resized w \<Rightarrow> w | _ \<Rightarrow> prevWidth m)"
  by (cases ev) (simp_all add: menu_step_def resetState_simps)

lemma calm_run_menu_ok:
  "menu_ok ch m \<Longrightarrow> calm_run b s m evs \<Longrightarrow> menu_ok (last_choice (prevWidth m) ch evs) (foldl (menu_step b s) m evs)"
proof (induction evs arbitrary: ch m)
  case (Cons ev evs)
  have "menu_ok (last_choice (prevWidth m) ch [ev]) (menu_step b s m ev)" using Cons.prems by (intro menu_step_menu_ok) simp_all
  from Cons.IH [OF this] Cons.prems(2) show ?case
    unfolding menu_step_width last_choice_Cons [of _ _ ev evs] by simp
qed simp

lemma initial_menu_ok: "0 < w \<Longrightarrow> menu_ok None (resetState b s w initial_bar)"
  by (simp add: menu_ok_def resetState_simps) (simp add: initial_bar_def)

lemma last_choice_ends: "last_choice wd c (evs @ replicate n Slide_Ended) = last_choice wd c evs"
proof -
  have "last_choice wd c (replicate n Slide_Ended) = c" for wd c by (induction n) simp_all
  then show ?thesis by (induction wd c evs rule: last_choice.induct) simp_all
qed

text \<open>As many ends as animations run out of them.\<close>

lemma animations_end: "animations (foldl (menu_step b s) m (replicate n Slide_Ended)) = drop n (animations m)"
  by (induction n arbitrary: m) (simp_all add: menu_step_def drop_Suc)

end
