(* ===== verification/Menu_Page.thy ===== *)
theory Menu_Page
  imports Menu Code_Folds
begin

text \<open>
  What \<open>initMenu\<close> of \<open>docs/html/menu.js\<close> adds to a page, and the mobile menu with its animations.
\<close>

section \<open>The markup of the menu\<close>

definition insert_before :: "path \<Rightarrow> dom \<Rightarrow> dom \<Rightarrow> dom" where
  "insert_before p n d =
     (case p of [] \<Rightarrow> d | i # q \<Rightarrow> upd_node q (set_children (\<lambda>ds. take i ds @ n # drop i ds)) d)"

definition attr_elem :: "string \<Rightarrow> (string \<times> string) list \<Rightarrow> elem" where
  "attr_elem t as = foldl (\<lambda>e (k, v). setAttribute k (lit v) e) (createElement t) as"

text \<open>The bar with the button of the mobile menu and the first place of the search box.\<close>

definition menu_header :: dom where
  "menu_header =
     Elem (attr_elem ''div'' [(''class'', ''sm sm-dox'')])
       [Elem (attr_elem ''input'' [(''id'', ''main-menu-state''), (''type'', ''checkbox'')]) [],
        Elem (attr_elem ''label'' [(''class'', ''main-menu-btn''), (''for'', ''main-menu-state'')])
          [Elem (attr_elem ''span'' [(''class'', ''main-menu-btn-icon'')]) [], Leaf (lit '' Toggle main menu visibility'')],
        Elem (set_style ''position'' (lit ''absolute'') (set_style ''right'' (lit ''8px'') (set_style ''top'' (lit ''8px'')
            (set_style ''height'' (lit ''36px'') (attr_elem ''span'' [(''id'', ''searchBoxPos1'')]))))) []]"

definition search_item_node :: dom where
  "search_item_node = Elem (set_style ''float'' (lit ''right'') (attr_elem ''li'' [(''id'', ''searchBoxPos2'')])) []"

text \<open>\<open>addClass\<close>: the names that are missing, after a blank.\<close>

definition addClass :: "jstring list \<Rightarrow> elem \<Rightarrow> elem" where
  "addClass cs e =
     setAttribute ''class''
       (join_names (foldl (\<lambda>ns c. if c \<in> set ns then ns else ns @ [c]) (class_names [] (className e)) cs)) e"

text \<open>An update at the element with an id; jQuery does nothing when there is none.\<close>

definition at_id :: "string \<Rightarrow> (path \<Rightarrow> dom \<Rightarrow> dom) \<Rightarrow> dom \<Rightarrow> dom" where
  "at_id i f d = (case getElementById d (lit i) of None \<Rightarrow> d | Some p \<Rightarrow> f p d)"

definition append_all :: "dom list \<Rightarrow> path \<Rightarrow> dom \<Rightarrow> dom" where
  "append_all ns p d = foldl (\<lambda>d n. appendChild p n d) d ns"

definition main_menu :: "path \<Rightarrow> dom \<Rightarrow> dom" where
  "main_menu p d =
     (case first_child d p of
        None \<Rightarrow> d
      | Some q \<Rightarrow> upd_elem q (\<lambda>e. setAttribute ''id'' (lit ''main-menu'') (addClass [lit ''sm'', lit ''sm-dox''] e)) d)"

definition menu_markup_nodes :: "browser \<Rightarrow> jstring \<Rightarrow> menu \<Rightarrow> jstring option \<Rightarrow> dom \<Rightarrow> dom" where
  "menu_markup_nodes b relPath data boxHtml d =
     (let d = at_id ''main-nav'' (\<lambda>p. insert_before p menu_header) d;
          d = at_id ''main-nav'' (append_all (of_html b (makeTree relPath data))) d;
          d = at_id ''main-nav'' main_menu d
      in if boxHtml \<noteq> None then at_id ''main-menu'' (\<lambda>p. appendChild p search_item_node) d else d)"

text \<open>\<open>initMenu\<close>: the page it leaves, and whether it installs the handlers of the menu.\<close>

definition initMenu :: "browser \<Rightarrow> jstring \<Rightarrow> bool \<Rightarrow> bool \<Rightarrow> jstring \<Rightarrow> jstring \<Rightarrow> dom \<Rightarrow> dom \<times> bool" where
  "initMenu b relPath searchEnabled serverSide searchPage search d =
     (let d = menu_markup_nodes b relPath menudata (searchBoxHtml searchEnabled serverSide relPath searchPage search) d
      in (d, getElementById d (lit ''main-menu-state'') \<noteq> None))"

section \<open>The menu of the repository\<close>

text \<open>A page with the place of the menu, and a browser that reads the markup of the repository's menu.\<close>

definition nav_page :: dom where
  "nav_page = Elem (createElement ''body'') [Leaf [], Elem (attr_elem ''div'' [(''id'', ''main-nav'')]) []]"

definition menu_browser :: browser where
  "menu_browser =
     \<lparr>to_html = (\<lambda>ds. []),
      of_html = (\<lambda>s. if s = lit ''<ul><li><a href=\"index.html\">Main Page</a></li></ul>''
                  then [Elem (createElement ''ul'') [Elem (createElement ''li'')
                          [Elem (attr_elem ''a'' [(''href'', ''index.html'')]) [Leaf (lit ''Main Page'')]]]]
                  else [Leaf s]),
      strip_pattern = (\<lambda>start s. None)\<rparr>"

text \<open>The menu is the first element of its place, has one entry and the place of the search box, and gets its handlers.\<close>

lemma menu_of_index:
  "case initMenu menu_browser [] True False (lit ''search.php'') (lit ''Search'') nav_page of (d, handlers) \<Rightarrow>
     handlers \<and> getElementById d (lit ''main-nav'') = Some [2] \<and> getElementById d (lit ''main-menu'') = Some [0, 2] \<and>
     getElementById d (lit ''searchBoxPos1'') = Some [2, 1] \<and> getElementById d (lit ''searchBoxPos2'') = Some [1, 0, 2] \<and>
     map_option (\<lambda>e. attrs e ''href'') (elem_at d [0, 0, 0, 2]) = Some (Some (lit ''index.html''))"
  by code_simp

end
