(* ===== verification/Page_Properties.thy ===== *)
theory Page_Properties
  imports Dyn_Sections Fold_Init Menu_Page
begin

text \<open>
  The properties of the scripts around the search: the collapsible parts of the pages
  (\<open>docs/html/dynsections.js\<close>) and the menu bar (\<open>docs/html/menu.js\<close>).
\<close>

section \<open>Collapsible parts\<close>

text \<open>A collapsible section that is consistent (its content or its summary is shown, its classes and its image say
  which) stays consistent under a click, which flips it; two clicks give back the very same section, image name
  included.\<close>

lemma section_toggles:
  assumes "section_ok base s"
  shows "section_ok base (toggleVisibility s) \<and> content_shown (toggleVisibility s) = (\<not> content_shown s) \<and>
    toggleVisibility (toggleVisibility s) = s"
  using toggleVisibility_ok [OF assms] toggleVisibility_twice [OF assms] by simp

text \<open>In the directory table, choosing a level shows exactly the rows down to that level, in the old order, and the
  visible rows are striped in turn, starting with an even one, without gap or repetition over the hidden rows.\<close>

lemma level_rows_striped:
  "map row_id (toggleLevel level rs) = map row_id rs \<and>
   map row_shown (toggleLevel level rs) = map (\<lambda>r. id_level (row_id r) \<le> level + 1) rs \<and>
   map (\<lambda>r. (row_even r, row_odd r)) (List.filter row_shown (toggleLevel level rs)) =
     map (\<lambda>k. (k mod 2 = 0, k mod 2 = 1)) [0..<length (List.filter (\<lambda>r. id_level (row_id r) \<le> level + 1) rs)]"
proof -
  have ids: "row_id (level_row level r) = row_id r" for r by (simp add: level_row_def Let_def)
  have shown: "row_shown (level_row level r) = (id_level (row_id r) \<le> level + 1)" for r
    by (auto simp: level_row_def Let_def)
  have vis: "length (List.filter row_shown (map (level_row level) rs)) =
      length (List.filter (\<lambda>r. id_level (row_id r) \<le> level + 1) rs)"
    by (simp add: filter_map comp_def shown)
  have "map row_shown (toggleLevel level rs) = map (\<lambda>r. id_level (row_id r) \<le> level + 1) rs"
    unfolding toggleLevel_def updateStripes_def map_stripe by (simp add: comp_def shown)
  moreover have "map row_id (toggleLevel level rs) = map row_id rs"
    unfolding toggleLevel_def updateStripes_def map_stripe by (simp add: comp_def ids)
  moreover have "map (\<lambda>r. (row_even r, row_odd r)) (List.filter row_shown (toggleLevel level rs)) =
      map (\<lambda>k. (k mod 2 = 0, k mod 2 = 1)) [0..<length (List.filter (\<lambda>r. id_level (row_id r) \<le> level + 1) rs)]"
    using stripe_visible [of 0 "map (level_row level) rs"] vis by (simp add: toggleLevel_def updateStripes_def)
  ultimately show ?thesis by simp
qed

text \<open>A click on a folder that has children opens it when it was closed and closes it when it was open, and keeps the
  rows of the table; so two clicks give back its state.\<close>

lemma folder_flips:
  assumes "has_folder i rs"
  shows "is_open i (toggleFolder i rs) = (\<not> is_open i rs) \<and> map row_id (toggleFolder i rs) = map row_id rs"
  using toggleFolder_flips [OF assms] map_id_toggleFolder by blast

text \<open>The clicks on a listing: the button for all blocks, or the one of a block.\<close>

datatype fold_click = Fold_All nat | Fold_One jstring

definition click :: "fold_state \<Rightarrow> fold_click \<Rightarrow> fold_state" where
  "click s c = (case c of Fold_All p \<Rightarrow> codefold_toggle_all p s | Fold_One i \<Rightarrow> codefold_toggle i s)"

lemma clicks_keep:
  "folds_ok (listing s) \<Longrightarrow> folds_ok (listing (foldl click s cs)) \<and> block_ids (listing (foldl click s cs)) = block_ids (listing s)"
  by (induction cs arbitrary: s)
     (auto simp: click_def codefold_toggle_ok codefold_toggle_all_ok(1) block_ids_buttons split: fold_click.split)

text \<open>A listing of two nested blocks.\<close>

definition code_div :: "string \<Rightarrow> string \<Rightarrow> dom list \<Rightarrow> dom" where
  "code_div c i ds =
     Elem (setAttribute ''data-end'' (lit ''}'') (setAttribute ''data-start'' (lit ''{'')
       (setAttribute ''id'' (lit i) (setAttribute ''class'' (lit c) (createElement ''div''))))) ds"

definition code_line :: "string \<Rightarrow> dom" where
  "code_line s =
     Elem (setAttribute ''class'' (lit ''line'') (createElement ''div''))
       [Elem (setAttribute ''class'' (lit ''lineno'') (createElement ''span'')) [], Leaf (lit s)]"

definition code_demo :: dom where
  "code_demo =
     Elem (createElement ''body'')
       [code_line ''#include'',
        code_div ''foldopen'' ''foldopen00002''
          [code_line ''int main() {'', code_div ''foldopen'' ''foldopen00003'' [code_line ''do {'', code_line ''}''], code_line ''}'']]"

definition text_browser :: browser where
  "text_browser =
     \<lparr>to_html = (\<lambda>ds. concat (map (\<lambda>n. case n of Leaf s \<Rightarrow> s | Elem e ds \<Rightarrow> []) ds)), of_html = (\<lambda>s. [Leaf s]),
      strip_pattern = (\<lambda>start s. None)\<rparr>"

lemma text_browser_ok: "parses_back text_browser"
  by (simp add: parses_back_def text_browser_def)

lemma code_demo_page: "code_page code_demo"
  by code_simp

text \<open>C40. Code folds: on a listing as Doxygen writes it \<open>init_codefold\<close> ends without a TypeError and keeps the blocks,
  nested ones included; from then on, after any clicks on single blocks and on the button for all, each block is
  followed by its closed form, found by its id, and exactly one of the two is shown. The button for all then shows
  all or none, and a second click on a block undoes the first.\<close>

theorem folds_stay_exclusive:
  assumes "code_page d" "parses_back b"
  shows "\<exists>d'. init_codefold b rel d = Some d' \<and> block_ids d' = block_ids d \<and>
    (\<forall>cs s. s = foldl click \<lparr>opened = True, listing = d'\<rparr> cs \<longrightarrow>
      block_ids (listing s) = block_ids d \<and>
      (\<forall>t e i. open_block (listing s) t e i \<longrightarrow>
        (\<exists>c. elem_at (listing s) (next_path t) = Some c \<and> attrs c ''id'' = Some (lit ''foldclosed'' @ i) \<and> exclusive e c)) \<and>
      (\<forall>t e i. open_block (listing (codefold_toggle_all rel s)) t e i \<longrightarrow> hidden e = opened s) \<and>
      (\<forall>i \<in> block_ids d. codefold_toggle i (codefold_toggle i s) = s))"
proof -
  obtain d' where d': "init_codefold b rel d = Some d'" "folds_ok d'" "block_ids d' = block_ids d"
    using init_codefold_ok [OF assms] .
  have s: "folds_ok (listing s)" "block_ids (listing s) = block_ids d"
    if "s = foldl click \<lparr>opened = True, listing = d'\<rparr> cs" for s cs
    using clicks_keep [of "\<lparr>opened = True, listing = d'\<rparr>" cs] d' that by simp_all
  show ?thesis
  proof (intro exI [of _ d'] conjI allI impI ballI d')
    fix cs s t e i
    assume "s = foldl click \<lparr>opened = True, listing = d'\<rparr> cs"
    note ok = s [OF this]
    show "block_ids (listing s) = block_ids d" by (rule ok(2))
    show "\<exists>c. elem_at (listing s) (next_path t) = Some c \<and> attrs c ''id'' = Some (lit ''foldclosed'' @ i) \<and> exclusive e c"
      if "open_block (listing s) t e i" using pair_found [OF ok(1) that] by metis
    show "hidden e = opened s" if "open_block (listing (codefold_toggle_all rel s)) t e i"
      using codefold_toggle_all_ok(2) [OF ok(1) that] .
    show "codefold_toggle i (codefold_toggle i s) = s" if "i \<in> block_ids d"
      by (rule codefold_toggle_twice [OF ok(1)]) (simp add: ok(2) that)
  qed
qed

lemma folds_stay_exclusive_witness:
  "\<exists>d'. init_codefold text_browser 0 code_demo = Some d' \<and> block_ids d' = block_ids code_demo \<and>
     codefold_toggle (lit ''00003'') (codefold_toggle (lit ''00003'') \<lparr>opened = True, listing = d'\<rparr>) = \<lparr>opened = True, listing = d'\<rparr>"
proof -
  have "lit ''foldopen00003'' = lit ''foldopen'' @ lit ''00003''" by (simp flip: lit_append)
  then have "open_block code_demo [1, 1] (setAttribute ''data-end'' (lit ''}'') (setAttribute ''data-start'' (lit ''{'')
       (setAttribute ''id'' (lit ''foldopen00003'') (setAttribute ''class'' (lit ''foldopen'') (createElement ''div''))))) (lit ''00003'')"
    by (simp add: open_block_def code_demo_def code_div_def elem_at_def)
  then have "lit ''00003'' \<in> block_ids code_demo" by (auto simp: block_ids_def)
  then show ?thesis using folds_stay_exclusive [OF code_demo_page text_browser_ok, of 0] by (metis foldl_Nil)
qed

text \<open>When the first line of a file opens a block, its button takes the place of the button for all.\<close>

definition first_line_block :: dom where
  "first_line_block = Elem (createElement ''body'') [code_div ''foldopen'' ''foldopen00001'' [code_line ''{'']]"

lemma first_line_block_loses_button:
  "map_option (\<lambda>d. getElementById d (lit ''fold_all'')) (init_codefold text_browser 0 first_line_block) = Some None"
  by code_simp

section \<open>The menu bar\<close>

text \<open>Whatever happens to the menu bar (resizes, changes of the box, ends of animations, in any order), exactly one
  search box is visible, at the place for the width of the window.\<close>

lemma one_search_box_visible:
  assumes "w \<noteq> 0" "h \<noteq> []"
  shows "visible_boxes (after_events (Some h) s w evs) = [h] \<and>
    pos2_shown (after_events (Some h) s w evs) = (768 \<le> prevWidth (after_events (Some h) s w evs))"
  using bar_ok_visible [OF assms(2) after_events_ok [OF assms(1)]] after_events_ok [OF assms(1), of h s evs]
  by (auto simp: bar_ok_def split: if_splits)

text \<open>C39. The mobile menu settles: if no window changes its width while an animation runs, then once the animations that
  wait have ended (and there are as many as changes not yet shown) the menu is as the box was last changed to since
  the width last changed, and without such a change it is open exactly when the window is wide; on a narrow window it is
  open exactly when the box is checked. On a wide window it need not be: there the box can still be reached by the
  keyboard, and checking and clearing it leaves the menu closed. A resize during an animation does break it: the callback
  of the animation opens the menu again after the resize has closed it and cleared the box.\<close>

theorem menu_settles:
  assumes "0 < w" "calm_run b s (resetState b s w initial_bar) evs"
    and "length (animations (after_events b s w evs)) \<le> n"
  shows "(\<exists>m. m = after_events b s w (evs @ replicate n Slide_Ended) \<and> animations m = [] \<and>
      menu_shown m = (case last_choice w None evs of Some c \<Rightarrow> c | None \<Rightarrow> 768 \<le> prevWidth m) \<and>
      (prevWidth m < 768 \<longrightarrow> menu_shown m = menu_checked m)) \<and>
    (\<exists>m. m = after_events b s 1024 [Box_Changed True, Box_Changed False, Slide_Ended, Slide_Ended] \<and> animations m = [] \<and>
      \<not> menu_shown m) \<and>
    (\<exists>m. m = after_events b s 500 [Box_Changed True, Resized 400, Slide_Ended] \<and> animations m = [] \<and>
      prevWidth m < 768 \<and> menu_shown m \<and> \<not> menu_checked m)"
proof -
  have app: "after_events b s w (evs @ us) = foldl (menu_step b s) (after_events b s w evs) us" for us
    by (simp add: after_events_def)
  have start: "prevWidth (resetState b s w initial_bar) = w" by (simp add: resetState_simps)
  have ends: "calm_run b s m (replicate n Slide_Ended)" for m by (induction n arbitrary: m) simp_all
  have "menu_ok (last_choice w None evs) (after_events b s w evs)"
    unfolding after_events_def using calm_run_menu_ok [OF initial_menu_ok [OF assms(1)] assms(2)] start by simp
  from calm_run_menu_ok [OF this ends] have "menu_ok (last_choice w None evs) (after_events b s w (evs @ replicate n Slide_Ended))"
    unfolding app using last_choice_ends [of _ _ "[]"] by simp
  moreover have "animations (after_events b s w (evs @ replicate n Slide_Ended)) = []"
    unfolding app animations_end using assms(3) by simp
  ultimately show ?thesis
    by (simp add: menu_ok_def split: option.splits)
       (simp_all add: after_events_def menu_step_def menu_change_def add_slide_def start_slide_def slide_complete_def
         resetState_def initial_bar_def Let_def)
qed

lemma menu_settles_witness:
  "\<exists>m. m = after_events None False 500 [Box_Changed True, Box_Changed False, Slide_Ended, Slide_Ended] \<and>
     animations m = [] \<and> \<not> menu_shown m"
proof -
  have "length (animations (after_events None False 500 [Box_Changed True, Box_Changed False])) \<le> 2"
    "calm_run None False (resetState None False 500 initial_bar) [Box_Changed True, Box_Changed False]"
    by (simp_all add: after_events_def menu_step_def menu_change_def add_slide_def start_slide_def
         resetState_def initial_bar_def Let_def)
  then show ?thesis
    using menu_settles [of 500 None False "[Box_Changed True, Box_Changed False]" 2] by (simp add: numeral_2_eq_2)
qed

text \<open>The markup of a menu is the concatenation of the markup of its entries in order, each with its link (relative
  to the page, unless it starts with a caret) and its own submenu; an entry without children adds no list. The
  repository's menu is one link.\<close>

lemma menu_markup:
  "makeTree rel (Entry t u (Some cs)) =
     lit ''<ul>'' @ concat (map (\<lambda>c. lit ''<li><a href=\"'' @ item_url rel (menu_url c) @ lit ''\">'' @
       menu_text c @ lit ''</a>'' @ makeTree rel c @ lit ''</li>'') cs) @ lit ''</ul>'' \<and>
   makeTree rel (Entry t u None) = [] \<and>
   makeTree [] menudata = lit ''<ul><li><a href=\"index.html\">Main Page</a></li></ul>''"
  by (simp add: makeItems_concat menudata_def item_url_def flip: lit_append) (simp add: lit_def unit_of_def)

end
