(* ===== verification/Box_Places.thy ===== *)
theory Box_Places
  imports Search_Events
begin

text \<open>
  The two places of the search box in a document, for \<open>docs/html/menu.js\<close>: what the ids of a document become when the
  markup of the box, or none, is written into one of them, and that the shape of the search page survives it.
\<close>

section \<open>The places and their ids\<close>

definition box_names :: "string list" where
  "box_names = [''MSearchBox'', ''MSearchSelect'', ''MSearchField'', ''MSearchClose'']"

text \<open>The ids below a node with the children \<open>ns\<close>, and the ids of a document with other children at \<open>p\<close>.\<close>

definition ids_of :: "dom list \<Rightarrow> path \<Rightarrow> jstring" where
  "ids_of ns s = id_at (Elem (createElement ''div'') ns) s"

definition put_ids :: "path \<Rightarrow> (path \<Rightarrow> jstring) \<Rightarrow> (path \<Rightarrow> jstring) \<Rightarrow> path \<Rightarrow> jstring" where
  "put_ids p ids B q = (if strict_suffix p q then ids (take (length q - length p) q) else B q)"

text \<open>Ids that may be written into a place: those of the box.\<close>

definition box_ids_only :: "(path \<Rightarrow> jstring) \<Rightarrow> bool" where
  "box_ids_only ids \<longleftrightarrow> (\<forall>s. ids s = [] \<or> ids s \<in> lit ` set (''MSearchCloseImg'' # box_names))"

definition whole_box :: "(path \<Rightarrow> jstring) \<Rightarrow> bool" where
  "whole_box ids \<longleftrightarrow> (\<forall>x \<in> set box_names. \<exists>s. s \<noteq> [] \<and> ids s = lit x)"

text \<open>
  The two places: each there once, neither inside the other; what the scripts look up is outside them, but the
  parts of the search box are inside.
\<close>

definition place :: "path \<Rightarrow> (path \<Rightarrow> jstring) \<Rightarrow> string \<Rightarrow> path \<Rightarrow> bool" where
  "place r B i p \<longleftrightarrow> B p = lit i \<and> \<not> strict_suffix r p \<and> (\<forall>q. \<not> strict_suffix r q \<and> B q = lit i \<longrightarrow> q = p)"

definition places :: "path \<Rightarrow> (path \<Rightarrow> jstring) \<Rightarrow> path \<Rightarrow> path \<Rightarrow> bool" where
  "places r B p1 p2 \<longleftrightarrow> place r B ''searchBoxPos1'' p1 \<and> place r B ''searchBoxPos2'' p2 \<and>
     \<not> suffix p1 p2 \<and> \<not> suffix p2 p1 \<and>
     (\<forall>s \<in> set page_ids - set box_names.
        \<exists>q. \<not> strict_suffix r q \<and> B q = lit s \<and> \<not> strict_suffix p1 q \<and> \<not> strict_suffix p2 q) \<and>
     (\<forall>s \<in> set page_ids - set box_names. \<forall>q. \<not> strict_suffix r q \<and> B q = lit s \<longrightarrow>
        \<not> strict_suffix p1 q \<and> \<not> strict_suffix p2 q) \<and>
     (\<forall>s \<in> set box_names. \<forall>q. \<not> strict_suffix r q \<and> B q = lit s \<longrightarrow> strict_suffix p1 q \<or> strict_suffix p2 q)"

text \<open>A document that may lack the search box.\<close>

definition doc_shape :: "path \<Rightarrow> (path \<Rightarrow> jstring) \<Rightarrow> dom \<Rightarrow> bool" where
  "doc_shape r B d \<longleftrightarrow> base_shape r B \<and> (\<forall>q. \<not> strict_suffix r q \<longrightarrow> id_at d q = B q) \<and>
     rows_typed r (id_at d) \<and> popup_typed d"

lemma typed_doc_shape:
  "typed_doc r B d \<longleftrightarrow> doc_shape r B d \<and> (\<forall>s \<in> set page_ids. \<exists>p. \<not> strict_suffix r p \<and> B p = lit s)"
  by (auto simp: typed_doc_def doc_shape_def base_typed_def)

lemma strict_suffix_append [simp]: "strict_suffix p (s @ p) \<longleftrightarrow> s \<noteq> []"
  by (auto simp: strict_suffix_def suffix_def)

lemma put_ids_below: "s \<noteq> [] \<Longrightarrow> put_ids p ids B (s @ p) = ids s"
  by (simp add: put_ids_def)

lemma put_ids_other: "\<not> strict_suffix p q \<Longrightarrow> put_ids p ids B q = B q"
  by (simp add: put_ids_def)

lemma id_at_put_children:
  assumes "node_at d p = Some (Elem e ds)"
  shows "id_at (upd_node p (set_children (\<lambda>_. ns)) d) q = put_ids p (ids_of ns) (id_at d) q"
proof (cases "strict_suffix p q")
  case True
  then obtain u where u: "u \<noteq> []" "q = u @ p" using strict_suffix_split by blast
  then obtain t j where t: "u = t @ [j]" by (cases u rule: rev_cases) auto
  have "elem_at (upd_node p (set_children (\<lambda>_. ns)) d) q = elem_at (Elem e ns) u"
    unfolding u(2) elem_at_node by (simp add: node_at_upd_node assms)
  also have "\<dots> = elem_at (Elem (createElement ''div'') ns) u" unfolding t elem_at_snoc ..
  finally show ?thesis using u by (simp add: id_at_def ids_of_def put_ids_below)
next
  case False
  have "elem_of (set_children (\<lambda>_. ns) m) = elem_of m" for m by simp
  then show ?thesis
    using False elem_at_upd_node_other [of "set_children (\<lambda>_. ns)" p q d] by (simp add: id_at_def put_ids_other)
qed

lemma base_once:
  "base_shape r B \<Longrightarrow> s \<in> {''SRResults'', ''MSearchSelectWindow''} \<Longrightarrow> \<not> strict_suffix r p \<Longrightarrow> \<not> strict_suffix r q \<Longrightarrow>
   B p = lit s \<Longrightarrow> B q = lit s \<Longrightarrow> p = q"
  unfolding base_shape_def by blast

lemma base_popup:
  "base_shape r B \<Longrightarrow> \<not> strict_suffix r win \<Longrightarrow> B win = lit ''MSearchSelectWindow'' \<Longrightarrow> strict_suffix win q \<Longrightarrow>
   \<not> strict_suffix r q \<Longrightarrow> B q = []"
  unfolding base_shape_def by blast

lemma places_id:
  assumes "places r B p1 p2" "p \<in> {p1, p2}"
  shows "(B p = lit ''searchBoxPos1'' \<or> B p = lit ''searchBoxPos2'') \<and> \<not> strict_suffix r p"
  using assms unfolding places_def place_def by blast

text \<open>The list of results and the filter popup are apart from the places.\<close>

lemma places_apart:
  assumes shape: "base_shape r B" and pl: "places r B p1 p2" and p: "p \<in> {p1, p2}"
  shows "\<not> strict_suffix r p" "\<not> strict_suffix p r" "p \<noteq> r" "strict_suffix p q \<Longrightarrow> \<not> strict_suffix r q"
    "\<not> strict_suffix r win \<Longrightarrow> B win = lit ''MSearchSelectWindow'' \<Longrightarrow> \<not> strict_suffix p win \<and> \<not> strict_suffix win p \<and> p \<noteq> win"
proof -
  have core: "''SRResults'' \<in> set page_ids - set box_names" "''MSearchSelectWindow'' \<in> set page_ids - set box_names"
    by (simp_all add: page_ids_def box_ids_def box_names_def)
  have Br: "B r = lit ''SRResults''" "\<not> strict_suffix r r" using shape by (simp_all add: base_shape_def)
  have ids: "B p \<noteq> []" "B p \<noteq> lit ''SRResults''" "B p \<noteq> lit ''MSearchSelectWindow''" and out: "\<not> strict_suffix r p"
    using places_id [OF pl p] by auto
  show "\<not> strict_suffix r p" by (rule out)
  obtain q where q: "\<not> strict_suffix r q" "B q = lit ''SRResults''" "\<not> strict_suffix p q"
    using pl p core(1) unfolding places_def by blast
  moreover have "q = r" by (rule base_once [OF shape _ q(1) Br(2) q(2) Br(1)]) simp
  ultimately show r: "\<not> strict_suffix p r" by simp
  show "p \<noteq> r" using ids(2) Br(1) by auto
  show "\<not> strict_suffix r q" if "strict_suffix p q" for q
  proof
    assume "strict_suffix r q"
    then have "suffix r p \<or> suffix p r" using that by (meson strict_suffix_def suffix_same_cases)
    then show False using out r \<open>p \<noteq> r\<close> by (auto simp: strict_suffix_def)
  qed
  show "\<not> strict_suffix p win \<and> \<not> strict_suffix win p \<and> p \<noteq> win"
    if w: "\<not> strict_suffix r win" "B win = lit ''MSearchSelectWindow''" for win
  proof -
    obtain q where q: "\<not> strict_suffix r q" "B q = lit ''MSearchSelectWindow''" "\<not> strict_suffix p q"
      using pl p core(2) unfolding places_def by blast
    moreover have "q = win" by (rule base_once [OF shape _ q(1) w(1) q(2) w(2)]) simp
    moreover have "\<not> strict_suffix win p" using base_popup [OF shape w _ out] ids(1) by blast
    ultimately show ?thesis using q(3) ids(3) w(2) by auto
  qed
qed

text \<open>Writing the ids of the box, or none, into a place.\<close>

lemma box_ids_onlyD:
  assumes "box_ids_only ids" "ids s = lit x"
  shows "x = [] \<or> x \<in> set (''MSearchCloseImg'' # box_names)"
proof -
  have "lit x = [] \<or> lit x \<in> lit ` set (''MSearchCloseImg'' # box_names)" using assms unfolding box_ids_only_def by metis
  then show ?thesis by auto
qed

lemma put_ids_old:
  assumes "box_ids_only ids" "put_ids p ids B q = lit x" "x \<notin> set ([] # ''MSearchCloseImg'' # box_names)"
  shows "B q = lit x" "\<not> strict_suffix p q"
proof -
  show "\<not> strict_suffix p q"
  proof
    assume "strict_suffix p q"
    then have "ids (take (length q - length p) q) = lit x" using assms(2) by (simp add: put_ids_def)
    from box_ids_onlyD [OF assms(1) this] show False using assms(3) by simp
  qed
  then show "B q = lit x" using assms(2) by (simp add: put_ids_other)
qed

lemma no_box_names: "s \<in> {''SRResults'', ''MSearchSelectWindow'', ''searchBoxPos1'', ''searchBoxPos2''} \<Longrightarrow>
    s \<notin> set ([] # ''MSearchCloseImg'' # box_names)"
  by (auto simp: box_names_def)

lemma base_shape_put:
  assumes shape: "base_shape r B" and pl: "places r B p1 p2" and p: "p \<in> {p1, p2}" and ids: "box_ids_only ids"
  shows "base_shape r (put_ids p ids B)"
proof -
  note apart = places_apart [OF shape pl p]
  note old = put_ids_old [OF ids _ no_box_names]
  have Br: "put_ids p ids B r = lit ''SRResults''" using apart(2) shape by (simp add: put_ids_other base_shape_def)
  have one: "x = y" if "s \<in> {''SRResults'', ''MSearchSelectWindow''}" "\<not> strict_suffix r x" "\<not> strict_suffix r y"
    "put_ids p ids B x = lit s" "put_ids p ids B y = lit s" for s x y
  proof -
    have "B x = lit s" "B y = lit s" using old(1) [OF that(4)] old(1) [OF that(5)] that(1) by auto
    then show ?thesis using base_once [OF shape that(1-3)] by simp
  qed
  have popup: "put_ids p ids B q = []"
    if "\<not> strict_suffix r win" "put_ids p ids B win = lit ''MSearchSelectWindow''" "strict_suffix win q" "\<not> strict_suffix r q"
    for win q
  proof -
    have win: "B win = lit ''MSearchSelectWindow''" using old(1) [OF that(2)] by simp
    have "\<not> strict_suffix p q"
    proof
      assume "strict_suffix p q"
      then have "suffix win p \<or> suffix p win" using that(3) by (meson strict_suffix_def suffix_same_cases)
      then show False using apart(5) [OF that(1) win] by (auto simp: strict_suffix_def)
    qed
    moreover have "B q = []" by (rule base_popup [OF shape that(1) win that(3,4)])
    ultimately show ?thesis by (simp add: put_ids_other)
  qed
  show ?thesis unfolding base_shape_def using Br one popup by blast
qed

lemma places_put:
  assumes shape: "base_shape r B" and pl: "places r B p1 p2" and p: "p \<in> {p1, p2}" and ids: "box_ids_only ids"
  shows "places r (put_ids p ids B) p1 p2"
proof -
  note old = put_ids_old [OF ids _ no_box_names]
  have apart: "\<not> strict_suffix p p1" "\<not> strict_suffix p p2"
    using pl p by (auto simp: places_def strict_suffix_def)
  have pos: "place r (put_ids p ids B) i x"
    if "place r B i x" "\<not> strict_suffix p x" "i \<in> {''searchBoxPos1'', ''searchBoxPos2''}" for i x
    unfolding place_def
  proof (intro conjI allI impI)
    show "put_ids p ids B x = lit i" using that by (simp add: put_ids_other place_def)
    show "\<not> strict_suffix r x" using that by (simp add: place_def)
    fix q assume q: "\<not> strict_suffix r q \<and> put_ids p ids B q = lit i"
    then have "B q = lit i" using put_ids_old(1) [OF ids _ no_box_names] that(3) by blast
    then show "q = x" using that(1) q unfolding place_def by blast
  qed
  have core: "\<exists>q. \<not> strict_suffix r q \<and> put_ids p ids B q = lit s \<and> \<not> strict_suffix p1 q \<and> \<not> strict_suffix p2 q"
    if s: "s \<in> set page_ids - set box_names" for s
  proof -
    obtain q where "\<not> strict_suffix r q" "B q = lit s" "\<not> strict_suffix p1 q" "\<not> strict_suffix p2 q"
      using pl s unfolding places_def by blast
    then show ?thesis using p by (intro exI [of _ q]) (auto simp: put_ids_other)
  qed
  have apart': "\<not> strict_suffix p1 q \<and> \<not> strict_suffix p2 q"
    if "s \<in> set page_ids - set box_names" "\<not> strict_suffix r q" "put_ids p ids B q = lit s" for s q
  proof -
    have "s \<notin> set ([] # ''MSearchCloseImg'' # box_names)" using that(1) by (auto simp: page_ids_def box_ids_def)
    from put_ids_old(1) [OF ids that(3) this] show ?thesis using pl that(1,2) unfolding places_def by blast
  qed
  have box: "strict_suffix p1 q \<or> strict_suffix p2 q"
    if "s \<in> set box_names" "\<not> strict_suffix r q" "put_ids p ids B q = lit s" for s q
  proof (cases "strict_suffix p q")
    case False
    then have "B q = lit s" using that(3) by (simp add: put_ids_other)
    then show ?thesis using pl that(1,2) unfolding places_def by blast
  qed (use p in auto)
  show ?thesis
    using pl core apart' box pos [of "''searchBoxPos1''" p1] pos [of "''searchBoxPos2''" p2] apart unfolding places_def by blast
qed

lemma put_named:
  assumes ids: "box_ids_only ids" and q: "put_ids p ids B q = x" "x \<noteq> []"
    "\<And>s. s \<in> set (''MSearchCloseImg'' # box_names) \<Longrightarrow> x \<noteq> lit s"
  shows "B q = x" "\<not> strict_suffix p q"
  using q ids unfolding put_ids_def box_ids_only_def by (auto split: if_splits)

lemma row_names: "s \<in> set (''MSearchCloseImg'' # box_names) \<Longrightarrow> item_name i \<noteq> lit s"
  "s \<in> set (''MSearchCloseImg'' # box_names) \<Longrightarrow> child_name i c \<noteq> lit s"
  by (auto simp: box_names_def item_name_def child_name_def lit_Cons)

lemma rows_typed_put:
  assumes rows: "rows_typed r A" and apart: "\<And>q. strict_suffix p q \<Longrightarrow> \<not> strict_suffix r q" and ids: "box_ids_only ids"
  shows "rows_typed r (put_ids p ids A)"
proof -
  have keep: "put_ids p ids A q = A q" if "strict_suffix r q" for q
    using apart that by (intro put_ids_other) blast
  have below: "strict_suffix r q" if "A q = item_name i \<or> A q = child_name i c" for q i c
    using rows that unfolding rows_typed_def by blast
  note item = put_named [OF ids _ item_name_not_Nil(1) row_names(1)] and child = put_named [OF ids _ child_name_not_Nil row_names(2)]
  show ?thesis
    unfolding rows_typed_def
  proof (intro conjI allI impI)
    fix q i assume "put_ids p ids A q = item_name i"
    then have "A q = item_name i" by (rule item(1))
    then have q: "strict_suffix r q" "\<exists>a b u. q = a # b # u \<and> A u \<noteq> []" using rows unfolding rows_typed_def by blast+
    then show "strict_suffix r q" by simp
    obtain a b u where u: "q = a # b # u" "A u \<noteq> []" using q(2) by blast
    have "\<not> strict_suffix p u"
    proof
      assume "strict_suffix p u"
      then have "strict_suffix p q" using u(1) by (auto simp: strict_suffix_def suffix_def)
      then show False using apart q(1) by blast
    qed
    then show "\<exists>a b u. q = a # b # u \<and> put_ids p ids A u \<noteq> []" using u by (auto simp: put_ids_other)
  next
    fix q i c assume "put_ids p ids A q = child_name i c"
    then have "A q = child_name i c" by (rule child(1))
    then have q: "strict_suffix r q" "0 \<le> c" "\<exists>u. A u = item_name i" "0 < c \<longrightarrow> (\<exists>u. A u = child_name i (c - 1))"
      using rows unfolding rows_typed_def by blast+
    show "strict_suffix r q" "0 \<le> c" using q by auto
    show "\<exists>u. put_ids p ids A u = item_name i" "0 < c \<Longrightarrow> \<exists>u. put_ids p ids A u = child_name i (c - 1)"
      using q(3,4) keep below by metis+
  next
    fix q s assume "strict_suffix r q \<and> own_id s"
    then show "put_ids p ids A q \<noteq> lit s" using keep rows unfolding rows_typed_def by metis
  qed
qed

lemma popup_typed_put:
  assumes popup: "popup_typed d" and win: "\<And>win. id_at d win = lit ''MSearchSelectWindow'' \<Longrightarrow>
      \<not> strict_suffix p win \<and> \<not> strict_suffix win p \<and> p \<noteq> win"
    and ids: "box_ids_only (ids_of ns)" and n: "node_at d p = Some (Elem e ds)"
  shows "popup_typed (upd_node p (set_children (\<lambda>_. ns)) d)"
  unfolding popup_typed_def
proof (intro allI impI)
  let ?d = "upd_node p (set_children (\<lambda>_. ns)) d"
  fix w i assume w: "id_at ?d w = lit ''MSearchSelectWindow'' \<and> elem_at ?d (i # w) \<noteq> None"
  then have old: "id_at d w = lit ''MSearchSelectWindow''"
    using put_ids_old(1) [OF ids _ no_box_names, of p "id_at d" w "''MSearchSelectWindow''"] by (simp add: id_at_put_children [OF n])
  note away = win [OF old]
  have "\<not> strict_suffix p u" if "strict_suffix w u" for u
  proof
    assume "strict_suffix p u"
    then have "suffix w p \<or> suffix p w" using that by (meson strict_suffix_def suffix_same_cases)
    then show False using away by (auto simp: strict_suffix_def)
  qed
  then have same: "elem_at ?d u = elem_at d u" if "strict_suffix w u" for u
    using that by (intro elem_at_upd_node_other) simp_all
  show "elem_at ?d (0 # i # w) \<noteq> None"
    using w old popup same [OF strict_suffix_Cons(1)] same [OF strict_suffix_Cons(2)] unfolding popup_typed_def by metis
qed

lemma doc_shape_put:
  assumes d: "doc_shape r B d" and pl: "places r B p1 p2" and p: "p \<in> {p1, p2}" and ids: "box_ids_only (ids_of ns)"
    and n: "node_at d p = Some (Elem e ds)"
  shows "doc_shape r (put_ids p (ids_of ns) B) (upd_node p (set_children (\<lambda>_. ns)) d)"
proof -
  let ?d = "upd_node p (set_children (\<lambda>_. ns)) d"
  have shape: "base_shape r B" and out: "\<And>q. \<not> strict_suffix r q \<Longrightarrow> id_at d q = B q" and rows: "rows_typed r (id_at d)"
    and popup: "popup_typed d" using d by (simp_all add: doc_shape_def)
  note apart = places_apart [OF shape pl p]
  have id: "id_at ?d = put_ids p (ids_of ns) (id_at d)" by (rule ext) (rule id_at_put_children [OF n])
  have "rows_typed r (id_at ?d)" unfolding id by (rule rows_typed_put [OF rows apart(4) ids])
  moreover have "popup_typed ?d"
  proof (rule popup_typed_put [OF popup _ ids n])
    fix win assume win: "id_at d win = lit ''MSearchSelectWindow''"
    have "\<not> strict_suffix r win" using rows own_page_ids [OF page_ids_simps(3)] win unfolding rows_typed_def by blast
    then show "\<not> strict_suffix p win \<and> \<not> strict_suffix win p \<and> p \<noteq> win" using apart(5) out win by metis
  qed
  moreover have "id_at ?d q = put_ids p (ids_of ns) B q" if "\<not> strict_suffix r q" for q
    using out [OF that] by (simp add: id put_ids_def)
  ultimately show ?thesis using base_shape_put [OF shape pl p ids] by (simp add: doc_shape_def)
qed

text \<open>Pages with the same ids.\<close>

lemma doc_shape_same:
  assumes "same_ids pg pg'" "doc_shape r B (document pg)"
  shows "doc_shape r B (document pg')"
proof -
  have ids: "map_option elem_id (elem_at (document pg') q) = map_option elem_id (elem_at (document pg) q)" for q
    using assms(1) by (simp add: same_ids_def)
  have ex: "elem_at (document pg') q = None \<longleftrightarrow> elem_at (document pg) q = None" for q
    by (metis ids option.map_disc_iff)
  have "id_at (document pg') = id_at (document pg)"
  proof
    show "id_at (document pg') q = id_at (document pg) q" for q
      using ids [of q] by (auto simp: id_at_def split: option.splits)
  qed
  then show ?thesis using assms(2) by (simp add: doc_shape_def popup_typed_def ex)
qed

lemma place_found:
  assumes d: "doc_shape r B (document pg)" and p: "place r B i p" and i: "own_id i"
  shows "by_id pg i = Some p" "id_at (document pg) p = lit i"
proof -
  have out: "\<And>q. \<not> strict_suffix r q \<Longrightarrow> id_at (document pg) q = B q" and rows: "rows_typed r (id_at (document pg))"
    using d by (simp_all add: doc_shape_def)
  show id: "id_at (document pg) p = lit i" using p out by (simp add: place_def)
  have only: "q = p" if "id_at (document pg) q = lit i" for q
  proof -
    have "\<not> strict_suffix r q" using rows i that unfolding rows_typed_def by blast
    then show ?thesis using out p that unfolding place_def by metis
  qed
  have "lit i \<noteq> []" using i by (auto simp: own_id_def)
  then obtain q where "by_id pg i = Some q" using id by (metis by_id_def getElementById_no_id not_None_eq)
  then show "by_id pg i = Some p" using only by (auto simp: by_id_def dest: getElementById_id)
qed

lemma own_places: "own_id ''searchBoxPos1''" "own_id ''searchBoxPos2''"
  by (simp_all add: own_id_def lit_Cons)

end
