(* ===== verification/Site_Page.thy ===== *)
theory Site_Page
  imports Box_Places Menu_Page
begin

text \<open>
  A page of the documentation as a whole: the menu of \<open>docs/html/menu.js\<close> and the search of
  \<open>docs/html/search/search.js\<close> on one document. \<open>initMenu\<close> makes two places for the search box,
  \<open>resetState\<close> writes the box into one of them whenever the width of the window has changed, and the
  search looks the box up by its ids. The theory models both on the document, from the loading of the
  page on, and shows how they fit.
\<close>

section \<open>The search box\<close>

text \<open>The markup of the search box as a tree, and a browser that reads it so.\<close>

definition search_box_tree :: "jstring \<Rightarrow> jstring \<Rightarrow> dom" where
  "search_box_tree relPath search =
     Elem (attr_elem ''div'' [(''id'', ''MSearchBox''), (''class'', ''MSearchBoxInactive'')])
       [Elem (attr_elem ''span'' [(''class'', ''left'')])
          [Elem (attr_elem ''span''
             [(''id'', ''MSearchSelect''), (''onmouseover'', ''return searchBox.OnSearchSelectShow()''),
              (''onmouseout'', ''return searchBox.OnSearchSelectHide()'')]) [Leaf (lit ''&#160;'')],
           Elem (setAttribute ''placeholder'' search (attr_elem ''input''
             [(''type'', ''text''), (''id'', ''MSearchField''), (''value'', ''''), (''accesskey'', ''S''),
              (''onfocus'', ''searchBox.OnSearchFieldFocus(true)''), (''onblur'', ''searchBox.OnSearchFieldFocus(false)''),
              (''onkeyup'', ''searchBox.OnSearchFieldChange(event)'')])) []],
        Elem (attr_elem ''span'' [(''class'', ''right'')])
          [Elem (attr_elem ''a'' [(''id'', ''MSearchClose''), (''href'', ''javascript:searchBox.CloseResultsWindow()'')])
             [Elem (setAttribute ''src'' (relPath @ lit ''search/close.svg'')
                (attr_elem ''img'' [(''id'', ''MSearchCloseImg''), (''border'', ''0''), (''alt'', '''')])) []]]]"

definition reads_box :: "browser \<Rightarrow> jstring \<Rightarrow> jstring \<Rightarrow> jstring \<Rightarrow> bool" where
  "reads_box b relPath searchPage search \<longleftrightarrow>
     map_option (of_html b) (searchBoxHtml True False relPath searchPage search) = Some [search_box_tree relPath search]"

section \<open>The state of a page with its menu\<close>

text \<open>
  The variable \<open>prevWidth\<close>, whether the box \<open>main-menu-state\<close> is checked, and the animations of the menu that
  have not ended.
\<close>

record front =
  front_page :: page
  prev_width :: int
  box_checked :: bool
  slides :: "bool list"

text \<open>jQuery on the element with an id: \<open>html\<close> and \<open>empty\<close>, which take the focus from what they remove (and a closure
  that waits for an index file is left with an element that is not in the document any more), \<open>css\<close> and \<open>hide\<close>, which set \<open>display\<close>, and \<open>show\<close>, which does nothing to an element that is not hidden. Without such an
  element they do nothing.\<close>

fun remove_below :: "path \<Rightarrow> captured \<Rightarrow> captured" where
  "remove_below p (Placed q) = (if strict_suffix p q then Removed else Placed q)"
| "remove_below p c = c"

definition remove_captured :: "path \<Rightarrow> script_load \<Rightarrow> script_load" where
  "remove_captured p l =
     l\<lparr>load_caps := (load_caps l)\<lparr>cap_box := remove_below p (cap_box (load_caps l)),
       cap_close := remove_below p (cap_close (load_caps l))\<rparr>\<rparr>"

definition put_html :: "string \<Rightarrow> dom list \<Rightarrow> page \<Rightarrow> page" where
  "put_html i ns pg =
     (case by_id pg i of
        None \<Rightarrow> pg
      | Some p \<Rightarrow>
          pg\<lparr>document := upd_node p (set_children (\<lambda>_. ns)) (document pg),
             activeElement :=
               (case activeElement pg of
                  None \<Rightarrow> None
                | Some q \<Rightarrow> if strict_suffix p q then None else Some q),
             loading := map (remove_captured p) (loading pg)\<rparr>)"

definition put_display :: "string \<Rightarrow> string \<Rightarrow> page \<Rightarrow> page" where
  "put_display i v pg =
     (case by_id pg i of None \<Rightarrow> pg | Some p \<Rightarrow> set_elem p (set_style ''display'' (lit v)) pg)"

definition put_shown :: "string \<Rightarrow> page \<Rightarrow> page" where
  "put_shown i pg =
     (case by_id pg i of
        None \<Rightarrow> pg
      | Some p \<Rightarrow> set_elem p (\<lambda>e. if display e = lit ''none'' then set_style ''display'' [] e else e) pg)"

section \<open>The handlers of the menu\<close>

text \<open>The markup is not written when there is none; \<open>hasSearchBox\<close> is \<open>typeof searchBox !== 'undefined'\<close>.\<close>

definition put_box :: "browser \<Rightarrow> jstring option \<Rightarrow> string \<Rightarrow> page \<Rightarrow> page" where
  "put_box b boxHtml i pg = (case boxHtml of None \<Rightarrow> pg | Some h \<Rightarrow> put_html i (of_html b h) pg)"

definition reset_page :: "browser \<Rightarrow> jstring option \<Rightarrow> bool \<Rightarrow> int \<Rightarrow> front \<Rightarrow> front option" where
  "reset_page b boxHtml hasSearchBox newWidth F =
     (if newWidth = prev_width F then Some F
      else do {
        let pg = front_page F;
        let (checked, pg) =
          (if newWidth < 768
           then (False, put_display ''searchBoxPos2'' ''none''
                   (put_box b boxHtml ''searchBoxPos1'' (put_display ''main-menu'' ''none'' pg)))
           else (box_checked F, put_shown ''searchBoxPos2''
                   (put_box b boxHtml ''searchBoxPos2'' (put_html ''searchBoxPos1'' []
                     (put_shown ''main-menu'' pg)))));
        pg \<leftarrow> (if hasSearchBox then CloseResultsWindow pg else Some pg);
        Some (F\<lparr>front_page := pg, box_checked := checked, prev_width := newWidth\<rparr>)
      })"

text \<open>The first animation in the queue runs; one that slides down shows the menu at its start.\<close>

definition start_first :: "front \<Rightarrow> front" where
  "start_first F =
     (case slides F of True # as \<Rightarrow> F\<lparr>front_page := put_shown ''main-menu'' (front_page F)\<rparr> | _ \<Rightarrow> F)"

definition queue_slide :: "bool \<Rightarrow> front \<Rightarrow> front" where
  "queue_slide down F =
     (let F' = F\<lparr>slides := slides F @ [down]\<rparr> in if slides F = [] then start_first F' else F')"

definition change_page :: "bool \<Rightarrow> front \<Rightarrow> front" where
  "change_page checked F =
     (if checked
      then queue_slide True (F\<lparr>box_checked := True, front_page := put_display ''main-menu'' ''none'' (front_page F)\<rparr>)
      else queue_slide False (F\<lparr>box_checked := False, front_page := put_shown ''main-menu'' (front_page F)\<rparr>))"

definition complete_page :: "front \<Rightarrow> front" where
  "complete_page F =
     (case slides F of
        [] \<Rightarrow> F
      | down # as \<Rightarrow>
          start_first (F\<lparr>front_page := put_display ''main-menu'' (if down then ''block'' else ''none'') (front_page F),
            slides := as\<rparr>))"

section \<open>Loading a page, and its events\<close>

text \<open>
  When the document \<open>d0\<close> is ready, \<open>initMenu\<close> runs on it, and the box \<open>main-menu-state\<close> decides whether it
  registers \<open>resetState\<close>, for this page load and for later resizes. Then come \<open>resetState\<close> and, registered after it,
  \<open>init_search\<close>. A page that has lost its handlers gets no events of the menu.
\<close>

definition new_page :: "search_box \<Rightarrow> dom \<Rightarrow> page" where
  "new_page bx d =
     \<lparr>document = d, activeElement = None, timers = [], next_timer = 1, loading = [], searchData = None,
      searchBox = bx, searchResults = new_SearchResults, stopped = False\<rparr>"

definition new_front :: "page \<Rightarrow> front" where
  "new_front pg = \<lparr>front_page = pg, prev_width = 0, box_checked = False, slides = []\<rparr>"

definition page_ready :: "browser \<Rightarrow> site \<Rightarrow> jstring option \<Rightarrow> bool \<Rightarrow> int \<Rightarrow> page \<Rightarrow> front option" where
  "page_ready b w boxHtml handlers width pg = do {
     F \<leftarrow> (if handlers then reset_page b boxHtml True width (new_front pg) else Some (new_front pg));
     pg \<leftarrow> init_search w (front_page F);
     Some (F\<lparr>front_page := pg\<rparr>)
   }"

definition load_page ::
  "browser \<Rightarrow> site \<Rightarrow> jstring \<Rightarrow> jstring \<Rightarrow> jstring \<Rightarrow> int \<Rightarrow> search_box \<Rightarrow> dom \<Rightarrow> front option" where
  "load_page b w relPath searchPage search width bx d0 =
     (let (d, handlers) = initMenu b relPath True False searchPage search d0
      in page_ready b w (searchBoxHtml True False relPath searchPage search) handlers width (new_page bx d))"

datatype site_event = On_page event | On_menu menu_event

fun site_handle :: "browser \<Rightarrow> site \<Rightarrow> jstring option \<Rightarrow> site_event \<Rightarrow> front \<Rightarrow> front option" where
  "site_handle b w h (On_page ev) F = map_option (\<lambda>pg. F\<lparr>front_page := pg\<rparr>) (handle w ev (front_page F))"
| "site_handle b w h (On_menu (Resized wd)) F = reset_page b h True wd F"
| "site_handle b w h (On_menu (Box_Changed c)) F = Some (change_page c F)"
| "site_handle b w h (On_menu Slide_Ended) F = Some (complete_page F)"

fun site_possible :: "int \<Rightarrow> front \<Rightarrow> site_event \<Rightarrow> bool" where
  "site_possible n F (On_page ev) \<longleftrightarrow> possible n (front_page F) ev"
| "site_possible n F (On_menu ev) \<longleftrightarrow> True"

fun site_past_last :: "int \<Rightarrow> front \<Rightarrow> site_event \<Rightarrow> bool" where
  "site_past_last n F (On_page ev) \<longleftrightarrow> past_last n (front_page F) ev"
| "site_past_last n F (On_menu ev) \<longleftrightarrow> False"

fun run_site :: "browser \<Rightarrow> site \<Rightarrow> jstring option \<Rightarrow> site_event list \<Rightarrow> front \<Rightarrow> front option" where
  "run_site b w h [] F = Some F"
| "run_site b w h (ev # evs) F = site_handle b w h ev F \<bind> run_site b w h evs"

lemma run_site_snoc: "run_site b w h (evs @ [ev]) F = run_site b w h evs F \<bind> site_handle b w h ev"
proof (induction evs arbitrary: F)
  case Nil
  show ?case by (cases "site_handle b w h ev F") simp_all
next
  case (Cons a evs)
  then show ?case by (cases "site_handle b w h a F") simp_all
qed

text \<open>Sequences of possible events, and those without the Down key at the last filter.\<close>

fun site_can :: "int \<Rightarrow> browser \<Rightarrow> site \<Rightarrow> jstring option \<Rightarrow> site_event list \<Rightarrow> front \<Rightarrow> bool" where
  "site_can n b w h [] F \<longleftrightarrow> True"
| "site_can n b w h (ev # evs) F \<longleftrightarrow> site_possible n F ev \<and>
     (case site_handle b w h ev F of None \<Rightarrow> True | Some F' \<Rightarrow> site_can n b w h evs F')"

fun site_allows :: "int \<Rightarrow> browser \<Rightarrow> site \<Rightarrow> jstring option \<Rightarrow> site_event list \<Rightarrow> front \<Rightarrow> bool" where
  "site_allows n b w h [] F \<longleftrightarrow> True"
| "site_allows n b w h (ev # evs) F \<longleftrightarrow> site_possible n F ev \<and> \<not> site_past_last n F ev \<and>
     (case site_handle b w h ev F of None \<Rightarrow> True | Some F' \<Rightarrow> site_allows n b w h evs F')"

text \<open>Up to the first such key, a sequence is one without it.\<close>

lemma site_can_split:
  "site_can n b w h evs F \<Longrightarrow> site_allows n b w h evs F \<or>
   (\<exists>evs1 e evs2. evs = evs1 @ On_page (Filter_key e) # evs2 \<and> site_allows n b w h evs1 F \<and> keyCode e = 40 \<and>
     (\<forall>F1. run_site b w h evs1 F = Some F1 \<longrightarrow> searchIndex (searchBox (front_page F1)) + 1 = n))"
proof (induction evs arbitrary: F)
  case (Cons ev evs)
  show ?case
  proof (cases "site_past_last n F ev")
    case True
    then obtain e where "ev = On_page (Filter_key e)" "keyCode e = 40" "searchIndex (searchBox (front_page F)) + 1 = n"
      by (elim site_past_last.elims past_last.elims) auto
    then have "ev # evs = [] @ On_page (Filter_key e) # evs \<and> site_allows n b w h [] F \<and> keyCode e = 40 \<and>
        (\<forall>F1. run_site b w h [] F = Some F1 \<longrightarrow> searchIndex (searchBox (front_page F1)) + 1 = n)" by simp
    then show ?thesis by blast
  next
    case False
    show ?thesis
    proof (cases "site_handle b w h ev F")
      case None
      then show ?thesis using Cons.prems False by simp
    next
      case (Some F')
      then have "site_can n b w h evs F'" using Cons.prems by simp
      from Cons.IH [OF this] show ?thesis
      proof
        assume "site_allows n b w h evs F'"
        then show ?thesis using Cons.prems False Some by simp
      next
        assume "\<exists>evs1 e evs2. evs = evs1 @ On_page (Filter_key e) # evs2 \<and> site_allows n b w h evs1 F' \<and> keyCode e = 40 \<and>
          (\<forall>F1. run_site b w h evs1 F' = Some F1 \<longrightarrow> searchIndex (searchBox (front_page F1)) + 1 = n)"
        then obtain evs1 e evs2 where *: "evs = evs1 @ On_page (Filter_key e) # evs2" "site_allows n b w h evs1 F'"
          "keyCode e = 40" "\<forall>F1. run_site b w h evs1 F' = Some F1 \<longrightarrow> searchIndex (searchBox (front_page F1)) + 1 = n" by blast
        then have "ev # evs = (ev # evs1) @ On_page (Filter_key e) # evs2 \<and> site_allows n b w h (ev # evs1) F \<and>
            keyCode e = 40 \<and> (\<forall>F1. run_site b w h (ev # evs1) F = Some F1 \<longrightarrow> searchIndex (searchBox (front_page F1)) + 1 = n)"
          using Cons.prems False Some by simp
        then show ?thesis by blast
      qed
    qed
  qed
qed simp

section \<open>The updates of the page\<close>

lemma same_ids_put_display: "same_ids pg (put_display i v pg)"
  by (simp add: put_display_def same_ids_set_elem split: option.split)

lemma same_ids_put_shown: "same_ids pg (put_shown i pg)"
  by (simp add: put_shown_def same_ids_set_elem split: option.split)

lemma put_box_simps [simp]:
  "searchBox (put_display i v pg) = searchBox pg" "searchBox (put_shown i pg) = searchBox pg"
  "searchBox (put_html i ns pg) = searchBox pg"
  by (simp_all add: put_display_def put_shown_def put_html_def set_elem_def split: option.split)

lemma loading_put [simp]:
  "loading (put_display i v pg) = loading pg" "loading (put_shown i pg) = loading pg"
  by (simp_all add: put_display_def put_shown_def set_elem_def split: option.split)

text \<open>Writing into a place of the box takes no element that a closure needs in the document.\<close>

lemma captures_ok_removed:
  assumes c: "captures_ok d (load_caps l)"
    and win: "\<And>q. id_at d q = lit ''MSearchResultsWindow'' \<Longrightarrow> id_at d' q = lit ''MSearchResultsWindow''"
    and close: "\<And>q. \<not> strict_suffix p q \<Longrightarrow> id_at d' q = id_at d q"
  shows "captures_ok d' (load_caps (remove_captured p l))"
proof -
  have "remove_below p k = Null \<longleftrightarrow> k = Null" for k by (cases k) auto
  moreover have "id_at d' q = lit ''MSearchClose''" if "remove_below p (cap_close (load_caps l)) = Placed q" for q
    using that c close by (cases "cap_close (load_caps l)") (auto simp: captures_ok_def split: if_splits)
  ultimately show ?thesis using c win by (auto simp: captures_ok_def remove_captured_def)
qed

lemma waits_ok_put:
  assumes w: "waits_ok pg" and d: "doc_shape r B (document pg)" and pl: "places r B p1 p2"
    and i: "i = ''searchBoxPos1'' \<and> p = p1 \<or> i = ''searchBoxPos2'' \<and> p = p2"
  shows "waits_ok (put_html i ns pg)"
proof -
  have p: "p \<in> {p1, p2}" "place r B i p" "own_id i" using pl i own_places unfolding places_def by blast+
  note found = place_found [OF d p(2,3)]
  have "i \<noteq> []" using p(3) by (simp add: own_id_def)
  with found(2) obtain e ds where n: "node_at (document pg) p = Some (Elem e ds)" by (rule id_at_child)
  let ?d = "upd_node p (set_children (\<lambda>_. ns)) (document pg)"
  have keep: "id_at ?d q = id_at (document pg) q" if "\<not> strict_suffix p q" for q
    using that by (simp add: id_at_put_children [OF n] put_ids_other)
  have out: "\<And>q. \<not> strict_suffix r q \<Longrightarrow> id_at (document pg) q = B q" and rows: "rows_typed r (id_at (document pg))"
    using d by (simp_all add: doc_shape_def)
  have win: "id_at ?d q = lit ''MSearchResultsWindow''" if q: "id_at (document pg) q = lit ''MSearchResultsWindow''" for q
  proof -
    have "\<not> strict_suffix r q" using rows own_page_ids [OF page_ids_simps(5)] q unfolding rows_typed_def by blast
    moreover from this have "B q = lit ''MSearchResultsWindow''" using out q by simp
    moreover have "''MSearchResultsWindow'' \<in> set page_ids - set box_names" by (simp add: page_ids_def box_ids_def box_names_def)
    ultimately have "\<not> strict_suffix p q" using pl p(1) unfolding places_def by blast
    then show ?thesis using keep q by simp
  qed
  have "captures_ok ?d (load_caps (remove_captured p l))" if "l \<in> set (loading pg)" for l
    by (rule captures_ok_removed [OF _ win keep]) (use w that in \<open>simp_all add: waits_ok_def\<close>)
  then show ?thesis by (simp add: waits_ok_def put_html_def found(1))
qed

lemma put_html_shape:
  assumes d: "doc_shape r B (document pg)" and pl: "places r B p1 p2" and ids: "box_ids_only (ids_of ns)"
    and i: "i = ''searchBoxPos1'' \<and> p = p1 \<or> i = ''searchBoxPos2'' \<and> p = p2"
  shows "doc_shape r (put_ids p (ids_of ns) B) (document (put_html i ns pg))"
proof -
  have p: "p \<in> {p1, p2}" "place r B i p" "own_id i" using pl i own_places unfolding places_def by blast+
  note found = place_found [OF d p(2,3)]
  have "i \<noteq> []" using p(3) by (simp add: own_id_def)
  with found(2) obtain e ds where "node_at (document pg) p = Some (Elem e ds)" by (rule id_at_child)
  from doc_shape_put [OF d pl p(1) ids this] show ?thesis using found(1) by (simp add: put_html_def)
qed

section \<open>The menu bar as an abstraction of the page\<close>

text \<open>
  What \<^theory_text>\<open>menu_bar\<close> says of the two places determines the ids of the document: \<open>B\<close> are those of the empty
  places, \<open>ids\<close> those of the box with the markup \<open>h\<close>.
\<close>

definition box_ids_if :: "(path \<Rightarrow> jstring) \<Rightarrow> bool \<Rightarrow> path \<Rightarrow> jstring" where
  "box_ids_if ids c s = (if c then ids s else [])"

definition bar_ids :: "(path \<Rightarrow> jstring) \<Rightarrow> jstring \<Rightarrow> path \<Rightarrow> path \<Rightarrow> (path \<Rightarrow> jstring) \<Rightarrow> menu_bar \<Rightarrow> path \<Rightarrow> jstring" where
  "bar_ids ids h p1 p2 B m =
     put_ids p1 (box_ids_if ids (pos1_html m = h)) (put_ids p2 (box_ids_if ids (pos2_html m = h)) B)"

definition shows_bar ::
  "int \<Rightarrow> path \<Rightarrow> path \<Rightarrow> path \<Rightarrow> (path \<Rightarrow> jstring) \<Rightarrow> (path \<Rightarrow> jstring) \<Rightarrow> jstring \<Rightarrow> front \<Rightarrow> menu_bar \<Rightarrow> bool" where
  "shows_bar n r p1 p2 B ids h F m \<longleftrightarrow>
     page_typed n r (bar_ids ids h p1 p2 B m) (front_page F) \<and>
     prev_width F = prevWidth m \<and> box_checked F = menu_checked m \<and> slides F = animations m"

lemma box_ids_if_simps [simp]: "box_ids_if ids True = ids" "box_ids_if ids False = (\<lambda>s. [])"
  by (simp_all add: box_ids_if_def fun_eq_iff)

lemma put_ids_twice: "put_ids p ids (put_ids p ids' B) = put_ids p ids B"
  by (auto simp: put_ids_def)

lemma put_ids_comm:
  assumes "\<not> suffix p q" "\<not> suffix q p"
  shows "put_ids p ids (put_ids q ids' B) = put_ids q ids' (put_ids p ids B)"
proof
  fix u
  have "\<not> (strict_suffix p u \<and> strict_suffix q u)"
  proof
    assume "strict_suffix p u \<and> strict_suffix q u"
    then have "suffix p q \<or> suffix q p" by (meson strict_suffix_def suffix_same_cases)
    then show False using assms by blast
  qed
  then show "put_ids p ids (put_ids q ids' B) u = put_ids q ids' (put_ids p ids B) u" by (auto simp: put_ids_def)
qed

lemma box_ids_if_only: "box_ids_only ids \<Longrightarrow> box_ids_only (box_ids_if ids c)"
  by (simp add: box_ids_only_def box_ids_if_def)

lemma ids_of_Nil: "ids_of [] = (\<lambda>s. [])"
proof
  show "ids_of [] s = []" for s
    by (cases s rule: rev_cases) (simp_all add: ids_of_def id_at_def elem_at_snoc elem_id_def createElement_def)
qed

lemma bar_ids_shape:
  assumes shape: "base_shape r B" and pl: "places r B p1 p2" and ids: "box_ids_only ids"
  shows "base_shape r (bar_ids ids h p1 p2 B m)" "places r (bar_ids ids h p1 p2 B m) p1 p2"
proof -
  let ?B = "put_ids p2 (box_ids_if ids (pos2_html m = h)) B"
  have s: "base_shape r ?B" "places r ?B p1 p2"
    using base_shape_put [OF shape pl _ box_ids_if_only [OF ids]] places_put [OF shape pl _ box_ids_if_only [OF ids]] by auto
  show "base_shape r (bar_ids ids h p1 p2 B m)" "places r (bar_ids ids h p1 p2 B m) p1 p2"
    using base_shape_put [OF s _ box_ids_if_only [OF ids]] places_put [OF s _ box_ids_if_only [OF ids]]
    by (simp_all add: bar_ids_def)
qed

text \<open>A box at one of the places completes the page.\<close>

lemma bar_ids_typed:
  assumes shape: "base_shape r B" and pl: "places r B p1 p2" and ids: "box_ids_only ids" "whole_box ids"
    and m: "pos1_html m = h \<or> pos2_html m = h" and s: "s \<in> set page_ids"
  shows "\<exists>p. \<not> strict_suffix r p \<and> bar_ids ids h p1 p2 B m p = lit s"
proof (cases "s \<in> set box_names")
  case True
  note apart = places_apart [OF shape pl]
  have in1: "bar_ids ids h p1 p2 B m (u @ p1) = ids u" if "pos1_html m = h" "u \<noteq> []" for u
    using that by (simp add: bar_ids_def put_ids_below box_ids_if_def)
  have in2: "bar_ids ids h p1 p2 B m (u @ p2) = ids u" if "pos2_html m = h" "u \<noteq> []" for u
  proof -
    have "\<not> suffix p1 p2" "\<not> suffix p2 p1" using pl by (auto simp: places_def)
    then show ?thesis using that by (simp add: bar_ids_def put_ids_comm [of p1 p2] put_ids_below box_ids_if_def)
  qed
  obtain u where u: "u \<noteq> []" "ids u = lit s" using ids(2) True unfolding whole_box_def by blast
  have "\<not> strict_suffix r (u @ p1)" "\<not> strict_suffix r (u @ p2)"
    using apart(4) [of p1 "u @ p1"] apart(4) [of p2 "u @ p2"] u by auto
  then show ?thesis using in1 in2 u m by metis
next
  case False
  then have "s \<in> set page_ids - set box_names" using s by blast
  then show ?thesis using bar_ids_shape(2) [OF shape pl ids(1), of h m] unfolding places_def by blast
qed

text \<open>Writing the markup, or nothing, into the places is the step of the bar.\<close>

lemma bar_ids_step:
  assumes "\<not> suffix p1 p2" "\<not> suffix p2 p1" "h \<noteq> []"
  shows "put_ids p1 ids (bar_ids ids h p1 p2 B m) = bar_ids ids h p1 p2 B (m\<lparr>pos1_html := h\<rparr>)"
    "put_ids p2 ids (put_ids p1 (\<lambda>s. []) (bar_ids ids h p1 p2 B m)) = bar_ids ids h p1 p2 B (m\<lparr>pos1_html := [], pos2_html := h\<rparr>)"
proof -
  show "put_ids p1 ids (bar_ids ids h p1 p2 B m) = bar_ids ids h p1 p2 B (m\<lparr>pos1_html := h\<rparr>)"
    by (simp add: bar_ids_def put_ids_twice)
  show "put_ids p2 ids (put_ids p1 (\<lambda>s. []) (bar_ids ids h p1 p2 B m)) = bar_ids ids h p1 p2 B (m\<lparr>pos1_html := [], pos2_html := h\<rparr>)"
    using assms by (simp add: bar_ids_def put_ids_twice put_ids_comm [of p2 p1])
qed

lemma bar_ids_cong:
  "pos1_html m = pos1_html m' \<Longrightarrow> pos2_html m = pos2_html m' \<Longrightarrow> bar_ids ids h p1 p2 B m = bar_ids ids h p1 p2 B m'"
  by (simp add: bar_ids_def)

text \<open>
  The page between the two halves of \<open>resetState\<close>, before the results window is closed; at the place of the box there
  are then exactly the nodes that the markup gives.
\<close>

definition moved_box :: "browser \<Rightarrow> jstring \<Rightarrow> int \<Rightarrow> page \<Rightarrow> page" where
  "moved_box b h width pg =
     (if width < 768
      then put_display ''searchBoxPos2'' ''none''
        (put_html ''searchBoxPos1'' (of_html b h) (put_display ''main-menu'' ''none'' pg))
      else put_shown ''searchBoxPos2''
        (put_html ''searchBoxPos2'' (of_html b h) (put_html ''searchBoxPos1'' [] (put_shown ''main-menu'' pg))))"

definition written :: "dom list \<Rightarrow> path \<Rightarrow> page \<Rightarrow> bool" where
  "written ns p pg \<longleftrightarrow>
     (\<forall>u. u \<noteq> [] \<longrightarrow> elem_at (document pg) (u @ p) = elem_at (Elem (createElement ''div'') ns) u)"

lemma reset_page_moved:
  "width \<noteq> prev_width F \<Longrightarrow> reset_page b (Some h) True width F =
     map_option (\<lambda>pg. F\<lparr>front_page := pg, box_checked := (768 \<le> width \<and> box_checked F), prev_width := width\<rparr>)
       (CloseResultsWindow (moved_box b h width (front_page F)))"
  by (cases "CloseResultsWindow (moved_box b h width (front_page F))")
     (auto simp: reset_page_def moved_box_def put_box_def Let_def)

lemma put_html_written:
  assumes "by_id pg i = Some p" "id_at (document pg) p = lit i" "i \<noteq> []"
  shows "written ns p (put_html i ns pg)"
  unfolding written_def
proof (intro allI impI)
  obtain e ds where n: "node_at (document pg) p = Some (Elem e ds)" using assms(2,3) by (rule id_at_child)
  fix u :: path assume "u \<noteq> []"
  then obtain t j where t: "u = t @ [j]" by (cases u rule: rev_cases) auto
  have "elem_at (document (put_html i ns pg)) (u @ p) = elem_at (Elem e ns) u"
    using elem_at_node [of "document (put_html i ns pg)" u p] by (simp add: put_html_def assms(1) node_at_upd_node n)
  then show "elem_at (document (put_html i ns pg)) (u @ p) = elem_at (Elem (createElement ''div'') ns) u"
    unfolding t elem_at_snoc .
qed

lemma written_display:
  assumes "written ns p pg" "by_id pg i = Some q" "\<not> strict_suffix p q"
  shows "written ns p (put_display i v pg)" "written ns p (put_shown i pg)"
proof -
  have "u @ p \<noteq> q" if "u \<noteq> []" for u using assms(3) that by (metis strict_suffix_append)
  then show "written ns p (put_display i v pg)" "written ns p (put_shown i pg)"
    using assms(1,2) by (simp_all add: written_def put_display_def put_shown_def set_elem_def dom_simps)
qed

lemma moved_box_shape:
  assumes shape: "base_shape r B" and pl: "places r B p1 p2"
    and box: "ids_of (of_html b h) = ids" "box_ids_only ids" "h \<noteq> []"
    and d: "doc_shape r (bar_ids ids h p1 p2 B m) (document pg)" and wts: "waits_ok pg" and w: "width \<noteq> prevWidth m"
  shows "doc_shape r (bar_ids ids h p1 p2 B (resetState (Some h) True width m)) (document (moved_box b h width pg))"
    and "written (of_html b h) (if width < 768 then p1 else p2) (moved_box b h width pg)"
    and "waits_ok (moved_box b h width pg)"
proof -
  let ?m = "resetState (Some h) True width m" and ?ns = "of_html b h" and ?B = "bar_ids ids h p1 p2 B m"
  have apart: "\<not> suffix p1 p2" "\<not> suffix p2 p1" using pl by (auto simp: places_def)
  note shown = doc_shape_same [OF same_ids_put_shown] and hidden = doc_shape_same [OF same_ids_put_display]
  have wshown: "waits_ok (put_shown i g)" and whidden: "waits_ok (put_display i v g)" if "waits_ok g" for i v g
    using waits_ok_same [OF same_ids_put_shown _ that] waits_ok_same [OF same_ids_put_display _ that] by simp_all
  note pl_m = bar_ids_shape [OF shape pl box(2), of h m]
  have box': "box_ids_only (ids_of ?ns)" "box_ids_only (ids_of [])"
    using box(1,2) by (simp_all add: ids_of_Nil box_ids_only_def)
  have at2: "by_id g ''searchBoxPos2'' = Some p2 \<and> id_at (document g) p2 = lit ''searchBoxPos2''"
    if "doc_shape r A (document g)" "places r A p1 p2" for A g
    using place_found [OF that(1) _ own_places(2)] that(2) unfolding places_def by blast
  have "doc_shape r (bar_ids ids h p1 p2 B ?m) (document (moved_box b h width pg)) \<and>
      written ?ns (if width < 768 then p1 else p2) (moved_box b h width pg) \<and> waits_ok (moved_box b h width pg)"
  proof (cases "width < 768")
    case True
    let ?g = "put_display ''main-menu'' ''none'' pg"
    have bar: "bar_ids ids h p1 p2 B ?m = put_ids p1 ids ?B"
      unfolding bar_ids_step(1) [OF apart box(3)] using w True by (intro bar_ids_cong) (simp_all add: resetState_def Let_def)
    have d1: "doc_shape r (put_ids p1 ids ?B) (document (put_html ''searchBoxPos1'' ?ns ?g))"
      using put_html_shape [OF hidden [OF d] pl_m(2) box'(1), of "''searchBoxPos1''" p1] by (simp add: box(1))
    have p1: "by_id ?g ''searchBoxPos1'' = Some p1" "id_at (document ?g) p1 = lit ''searchBoxPos1''"
      using place_found [OF hidden [OF d] _ own_places(1)] pl_m(2) unfolding places_def by blast+
    have p2: "by_id (put_html ''searchBoxPos1'' ?ns ?g) ''searchBoxPos2'' = Some p2"
      using at2 [OF d1 places_put [OF pl_m _ box(2)]] by simp
    have "written ?ns p1 (put_display ''searchBoxPos2'' ''none'' (put_html ''searchBoxPos1'' ?ns ?g))"
      by (rule written_display(1) [OF put_html_written [OF p1] p2]) (use apart(1) in \<open>simp_all add: strict_suffix_def\<close>)
    moreover have "waits_ok (put_html ''searchBoxPos1'' ?ns ?g)"
      by (rule waits_ok_put [OF whidden [OF wts] hidden [OF d] pl_m(2)]) simp
    ultimately show ?thesis using hidden [OF d1] whidden True by (simp add: moved_box_def bar)
  next
    case False
    let ?g = "put_html ''searchBoxPos1'' [] (put_shown ''main-menu'' pg)"
    let ?A = "put_ids p1 (\<lambda>s. []) ?B"
    have bar: "bar_ids ids h p1 p2 B ?m = put_ids p2 ids ?A"
      unfolding bar_ids_step(2) [OF apart box(3)] using w False by (intro bar_ids_cong) (simp_all add: resetState_def Let_def)
    have d1: "doc_shape r ?A (document ?g)"
      using put_html_shape [OF shown [OF d] pl_m(2) box'(2), of "''searchBoxPos1''" p1] by (simp add: ids_of_Nil)
    have s1: "base_shape r ?A" "places r ?A p1 p2"
      using base_shape_put [OF pl_m, of p1 "\<lambda>s. []"] places_put [OF pl_m, of p1 "\<lambda>s. []"] by (simp_all add: box_ids_only_def)
    have d2: "doc_shape r (put_ids p2 ids ?A) (document (put_html ''searchBoxPos2'' ?ns ?g))"
      using put_html_shape [OF d1 s1(2) box'(1), of "''searchBoxPos2''" p2] by (simp add: box(1))
    have p2: "by_id ?g ''searchBoxPos2'' = Some p2" "id_at (document ?g) p2 = lit ''searchBoxPos2''"
      "by_id (put_html ''searchBoxPos2'' ?ns ?g) ''searchBoxPos2'' = Some p2"
      using at2 [OF d1 s1(2)] at2 [OF d2 places_put [OF s1 _ box(2)]] by auto
    have "written ?ns p2 (put_shown ''searchBoxPos2'' (put_html ''searchBoxPos2'' ?ns ?g))"
      by (rule written_display(2) [OF put_html_written [OF p2(1,2)] p2(3)]) simp_all
    moreover have "waits_ok ?g" by (rule waits_ok_put [OF wshown [OF wts] shown [OF d] pl_m(2)]) simp
    then have "waits_ok (put_html ''searchBoxPos2'' ?ns ?g)" by (rule waits_ok_put [OF _ d1 s1(2)]) simp
    ultimately show ?thesis using shown [OF d2] wshown False by (simp add: moved_box_def bar)
  qed
  then show "doc_shape r (bar_ids ids h p1 p2 B ?m) (document (moved_box b h width pg))"
    "written ?ns (if width < 768 then p1 else p2) (moved_box b h width pg)" "waits_ok (moved_box b h width pg)" by auto
qed

text \<open>\<open>resetState\<close> on a page whose places show the bar, with or without a search box.\<close>

lemma reset_page_shows:
  assumes shape: "base_shape r B" and pl: "places r B p1 p2"
    and box: "ids_of (of_html b h) = ids" "box_ids_only ids" "whole_box ids" "h \<noteq> []"
    and d: "doc_shape r (bar_ids ids h p1 p2 B m) (document (front_page F))" and wts: "waits_ok (front_page F)"
    and ix: "0 \<le> searchIndex (searchBox (front_page F))" "searchIndex (searchBox (front_page F)) < n"
    and bar: "prev_width F = prevWidth m" "box_checked F = menu_checked m" "slides F = animations m"
    and w: "width \<noteq> prevWidth m"
  obtains F' where "reset_page b (Some h) True width F = Some F'"
    "shows_bar n r p1 p2 B ids h F' (resetState (Some h) True width m)"
    "page_typed n r (bar_ids ids h p1 p2 B (resetState (Some h) True width m)) (moved_box b h width (front_page F))"
    "CloseResultsWindow (moved_box b h width (front_page F)) = Some (front_page F')"
proof -
  let ?m = "resetState (Some h) True width m" and ?g = "moved_box b h width (front_page F)"
  have "pos1_html ?m = h \<or> pos2_html ?m = h" using w by (simp add: resetState_def Let_def)
  moreover have "searchBox ?g = searchBox (front_page F)" by (simp add: moved_box_def)
  ultimately have typed: "page_typed n r (bar_ids ids h p1 p2 B ?m) ?g"
    using bar_ids_typed [OF shape pl box(2,3)] moved_box_shape(1,3) [OF shape pl box(1,2,4) d wts w] ix
    by (simp add: page_typed_def typed_doc_shape)
  obtain pg where pg: "CloseResultsWindow ?g = Some pg" "page_typed n r (bar_ids ids h p1 p2 B ?m) pg"
    using safe_CloseResultsWindow [OF typed] by (auto simp: safe_def)
  let ?F = "F\<lparr>front_page := pg, box_checked := (768 \<le> width \<and> box_checked F), prev_width := width\<rparr>"
  have "reset_page b (Some h) True width F = Some ?F"
    using reset_page_moved [of width F b h] w bar(1) pg(1) by simp
  moreover have "shows_bar n r p1 p2 B ids h ?F ?m"
    using pg(2) bar w by (auto simp: shows_bar_def resetState_simps)
  ultimately show ?thesis using that [of ?F] typed pg(1) by simp
qed

section \<open>Every event is a step of the bar\<close>

fun bar_event :: "jstring option \<Rightarrow> menu_bar \<Rightarrow> site_event \<Rightarrow> menu_bar" where
  "bar_event h m (On_page ev) = m"
| "bar_event h m (On_menu ev) = menu_step h True m ev"

lemma shows_bar_same:
  assumes "shows_bar n r p1 p2 B ids h F m" "same_ids (front_page F) (front_page F')"
    "searchBox (front_page F') = searchBox (front_page F)" "loading (front_page F') = loading (front_page F)"
    "pos1_html m' = pos1_html m" "pos2_html m' = pos2_html m"
    "prev_width F' = prevWidth m'" "box_checked F' = menu_checked m'" "slides F' = animations m'"
  shows "shows_bar n r p1 p2 B ids h F' m'"
proof -
  have "bar_ids ids h p1 p2 B m' = bar_ids ids h p1 p2 B m" by (rule bar_ids_cong) (simp_all add: assms(5,6))
  moreover have "page_typed n r (bar_ids ids h p1 p2 B m) (front_page F')"
    using assms(1-4) unfolding shows_bar_def by (intro page_typed_same [OF assms(2)]) (simp_all add: choice_view_def)
  ultimately show ?thesis using assms by (simp add: shows_bar_def)
qed

lemma start_first_simps [simp]:
  "prev_width (start_first F) = prev_width F" "box_checked (start_first F) = box_checked F"
  "slides (start_first F) = slides F" "loading (front_page (start_first F)) = loading (front_page F)" "searchBox (front_page (start_first F)) = searchBox (front_page F)"
  "same_ids (front_page F) (front_page (start_first F))"
  by (simp_all add: start_first_def same_ids_put_shown split: list.split bool.split)

lemma change_page_simps:
  "prev_width (change_page c F) = prev_width F" "box_checked (change_page c F) = c"
  "slides (change_page c F) = slides F @ [c]" "loading (front_page (change_page c F)) = loading (front_page F)" "searchBox (front_page (change_page c F)) = searchBox (front_page F)"
  "same_ids (front_page F) (front_page (change_page c F))"
proof -
  have start: "same_ids pg (front_page (start_first F'))" if "same_ids pg (front_page F')" for pg F'
    by (rule same_ids_trans [OF that]) simp
  show "same_ids (front_page F) (front_page (change_page c F))"
    by (auto simp: change_page_def queue_slide_def Let_def same_ids_put_shown same_ids_put_display intro!: start)
qed (auto simp: change_page_def queue_slide_def Let_def)

lemma complete_page_simps:
  "prev_width (complete_page F) = prev_width F" "box_checked (complete_page F) = box_checked F"
  "slides (complete_page F) = tl (slides F)" "loading (front_page (complete_page F)) = loading (front_page F)" "searchBox (front_page (complete_page F)) = searchBox (front_page F)"
  "same_ids (front_page F) (front_page (complete_page F))"
proof -
  have start: "same_ids pg (front_page (start_first F'))" if "same_ids pg (front_page F')" for pg F'
    by (rule same_ids_trans [OF that]) simp
  show "same_ids (front_page F) (front_page (complete_page F))"
    by (auto simp: complete_page_def same_ids_put_display intro!: start split: list.split)
qed (auto simp: complete_page_def split: list.split)

locale site_setting =
  fixes n :: int and r p1 p2 :: path and B ids :: "path \<Rightarrow> jstring" and b :: browser and h :: jstring and w :: site
  assumes shape: "base_shape r B" and pl: "places r B p1 p2"
    and box: "ids_of (of_html b h) = ids" "box_ids_only ids" "whole_box ids" "h \<noteq> []"
    and sections: "filters w n" "0 < n" and layout: "\<And>d. layout_ok w d"
begin

lemma step:
  assumes F: "shows_bar n r p1 p2 B ids h F m" and ev: "site_possible n F ev" "\<not> site_past_last n F ev"
  obtains F' where "site_handle b w (Some h) ev F = Some F'" "shows_bar n r p1 p2 B ids h F' (bar_event (Some h) m ev)"
proof (cases ev)
  case (On_page e)
  have "safe n r (bar_ids ids h p1 p2 B m) (handle w e (front_page F))"
    using F ev On_page by (intro handle_safe [OF _ sections(1) layout]) (simp_all add: shows_bar_def)
  then obtain pg where "handle w e (front_page F) = Some pg" "page_typed n r (bar_ids ids h p1 p2 B m) pg"
    by (auto simp: safe_def)
  then show ?thesis using that [of "F\<lparr>front_page := pg\<rparr>"] F On_page by (simp add: shows_bar_def)
next
  case (On_menu e)
  show ?thesis
  proof (cases e)
    case (Resized wd)
    show ?thesis
    proof (cases "wd = prevWidth m")
      case True
      then show ?thesis
        using that [of F] F On_menu Resized by (simp add: shows_bar_def reset_page_def menu_step_def resetState_def)
    next
      case False
      have "doc_shape r (bar_ids ids h p1 p2 B m) (document (front_page F))"
        using F by (simp add: shows_bar_def page_typed_def typed_doc_shape)
      moreover have "0 \<le> searchIndex (searchBox (front_page F))" "searchIndex (searchBox (front_page F)) < n"
        "prev_width F = prevWidth m" "box_checked F = menu_checked m" "slides F = animations m" "waits_ok (front_page F)"
        using F by (simp_all add: shows_bar_def page_typed_def)
      ultimately show ?thesis
        using reset_page_shows [OF shape pl box _ _ _ _ _ _ _ False] that On_menu Resized by (auto simp: menu_step_def)
    qed
  next
    case (Box_Changed c)
    have "shows_bar n r p1 p2 B ids h (change_page c F) (menu_change c m)"
      using F by (intro shows_bar_same [OF F]) (simp_all add: change_page_simps shows_bar_def)
    then show ?thesis using that On_menu Box_Changed by (simp add: menu_step_def)
  next
    case Slide_Ended
    have "shows_bar n r p1 p2 B ids h (complete_page F) (slide_complete m)"
      using F by (intro shows_bar_same [OF F]) (simp_all add: complete_page_simps shows_bar_def)
    then show ?thesis using that On_menu Slide_Ended by (simp add: menu_step_def)
  qed
qed

lemma run:
  assumes "shows_bar n r p1 p2 B ids h F m" "site_allows n b w (Some h) evs F"
  shows "\<exists>F'. run_site b w (Some h) evs F = Some F' \<and> shows_bar n r p1 p2 B ids h F' (foldl (bar_event (Some h)) m evs)"
  using assms
proof (induction evs arbitrary: F m)
  case (Cons ev evs)
  have "site_possible n F ev" "\<not> site_past_last n F ev" using Cons.prems(2) by simp_all
  with Cons.prems(1) obtain F' where F': "site_handle b w (Some h) ev F = Some F'"
    "shows_bar n r p1 p2 B ids h F' (bar_event (Some h) m ev)" by (rule step)
  then show ?case using Cons.IH [OF F'(2)] Cons.prems(2) by simp
qed simp

lemma ready:
  assumes d: "doc_shape r (bar_ids ids h p1 p2 B initial_bar) (document pg)" and wts: "waits_ok pg"
    and ix: "searchIndex (searchBox pg) = 0"
    and wd: "width \<noteq> 0"
  shows "\<exists>F. page_ready b w (Some h) True width pg = Some F \<and>
    shows_bar n r p1 p2 B ids h F (resetState (Some h) True width initial_bar)"
proof -
  have "width \<noteq> prevWidth initial_bar" "prev_width (new_front pg) = prevWidth initial_bar"
    "box_checked (new_front pg) = menu_checked initial_bar" "slides (new_front pg) = animations initial_bar"
    using wd by (simp_all add: new_front_def initial_bar_def)
  moreover have "doc_shape r (bar_ids ids h p1 p2 B initial_bar) (document (front_page (new_front pg)))"
    "0 \<le> searchIndex (searchBox (front_page (new_front pg)))" "searchIndex (searchBox (front_page (new_front pg))) < n"
    "waits_ok (front_page (new_front pg))"
    using d ix wts sections by (simp_all add: new_front_def)
  ultimately obtain F where F: "reset_page b (Some h) True width (new_front pg) = Some F"
    "shows_bar n r p1 p2 B ids h F (resetState (Some h) True width initial_bar)"
    using reset_page_shows [OF shape pl box, of initial_bar "new_front pg" n width] by blast
  have "safe n r (bar_ids ids h p1 p2 B (resetState (Some h) True width initial_bar)) (init_search w (front_page F))"
    using F(2) sections layout unfolding shows_bar_def page_typed_def by (intro init_search_safe) simp_all
  then show ?thesis using F by (auto simp: safe_def page_ready_def shows_bar_def)
qed

end

end
