(* ===== verification/Site_Document.thy ===== *)
theory Site_Document
  imports Site_Page Demo_Page
begin

text \<open>
  The document of a page after \<open>initMenu\<close>: document order, in which \<open>getElementById\<close> finds the first element, the
  condition on the document that the properties need, and \<open>docs/html/index.html\<close>, which meets it.
\<close>

section \<open>The first element with an id\<close>

lemma getElementById_first:
  assumes "getElementById d i = Some p" "i \<noteq> []" "id_at d q = i"
  shows "p = q \<or> before p q"
proof -
  obtain e where e: "elem_at d q = Some e" "attrs e ''id'' = Some i" using assms(2,3) by (auto simp: id_at_attrs)
  then have "q \<in> set (preorder [] d)" "has_id i d q" using elem_at_preorder assms(2) by (auto simp: has_id_def)
  then obtain j where j: "j < length (preorder [] d)" "preorder [] d ! j = q" by (auto simp: in_set_conv_nth)
  obtain k where k: "k < length (preorder [] d)" "preorder [] d ! k = p" "\<forall>l<k. \<not> has_id i d (preorder [] d ! l)"
    using assms(1) by (auto simp: getElementById_def find_Some_iff)
  have "k \<le> j" using k(3) j(2) \<open>has_id i d q\<close> by (metis not_le)
  then show ?thesis using j k sorted_wrt_nth_less [OF preorder_sorted(1), of k j "[]" d] by (cases "k = j") auto
qed

text \<open>All below the first place is before all below the second one.\<close>

lemma lexordp_append_both: "ord_class.lexordp (xs :: nat list) ys \<Longrightarrow> \<not> prefix xs ys \<Longrightarrow> ord_class.lexordp (xs @ us) (ys @ vs)"
  by (induction rule: lexordp_induct) auto

lemma before_below:
  assumes "before p q" "\<not> suffix p q"
  shows "before (s @ p) (t @ q)"
  using assms lexordp_append_both [of "rev p" "rev q" "rev s" "rev t"] by (simp add: before_def suffix_to_prefix)

lemma before_antisym: "before p q \<Longrightarrow> \<not> before q p"
  by (metis before_def lexordp_antisym lexordp_irreflexive')

section \<open>The document after the menu was made\<close>

text \<open>
  Every id occurs once; the list of results, the filter popup and the two places of the search box are there and
  hold no element; the other elements that the search looks up are there, except the search box; no id is one that a
  row would have; the first place comes first.
\<close>

definition id_paths :: "dom \<Rightarrow> path list" where
  "id_paths d = List.filter (\<lambda>p. id_at d p \<noteq> []) (preorder [] d)"

definition menu_doc :: "path \<Rightarrow> path \<Rightarrow> path \<Rightarrow> dom \<Rightarrow> bool" where
  "menu_doc r p1 p2 d \<longleftrightarrow>
     distinct (map (id_at d) (id_paths d)) \<and>
     id_at d r = lit ''SRResults'' \<and> id_at d p1 = lit ''searchBoxPos1'' \<and> id_at d p2 = lit ''searchBoxPos2'' \<and> before p1 p2 \<and>
     (\<forall>s \<in> set page_ids - set box_names. \<exists>p \<in> set (id_paths d). id_at d p = lit s) \<and>
     (\<forall>p \<in> set (id_paths d). \<not> prefix (lit ''Item'') (id_at d p) \<and> (\<forall>s \<in> set box_names. id_at d p \<noteq> lit s) \<and>
        (id_at d p \<in> {lit ''SRResults'', lit ''MSearchSelectWindow'', lit ''searchBoxPos1'', lit ''searchBoxPos2''} \<longrightarrow>
         (\<forall>q \<in> set (preorder [] d). strict_suffix p q \<longrightarrow> elem_at d q = None)))"

lemma id_paths_iff: "p \<in> set (id_paths d) \<longleftrightarrow> id_at d p \<noteq> []"
  using id_at_elem [of d p] by (auto simp: id_paths_def dest: elem_at_preorder)

lemma menu_docD:
  assumes "menu_doc r p1 p2 d"
  shows "id_at d p = i \<Longrightarrow> id_at d q = i \<Longrightarrow> i \<noteq> [] \<Longrightarrow> p = q"
    and "id_at d r = lit ''SRResults''" "id_at d p1 = lit ''searchBoxPos1''" "id_at d p2 = lit ''searchBoxPos2''" "before p1 p2"
    and "s \<in> set page_ids - set box_names \<Longrightarrow> \<exists>p. id_at d p = lit s"
    and "id_at d p \<noteq> lit ''Item'' @ u" "s \<in> set box_names \<Longrightarrow> id_at d p \<noteq> lit s"
    and "id_at d p \<in> lit ` {''SRResults'', ''MSearchSelectWindow'', ''searchBoxPos1'', ''searchBoxPos2''} \<Longrightarrow>
      strict_suffix p q \<Longrightarrow> elem_at d q = None"
proof -
  note m = assms [unfolded menu_doc_def]
  show "id_at d p = i \<Longrightarrow> id_at d q = i \<Longrightarrow> i \<noteq> [] \<Longrightarrow> p = q"
    using m by (metis distinct_map id_paths_iff inj_onD)
  show "id_at d r = lit ''SRResults''" "id_at d p1 = lit ''searchBoxPos1''" "id_at d p2 = lit ''searchBoxPos2''" "before p1 p2"
    using m by simp_all
  show "\<exists>p. id_at d p = lit s" if "s \<in> set page_ids - set box_names" using m that by blast
  have ok: "\<not> prefix (lit ''Item'') (id_at d p) \<and> (\<forall>s \<in> set box_names. id_at d p \<noteq> lit s) \<and>
      (id_at d p \<in> {lit ''SRResults'', lit ''MSearchSelectWindow'', lit ''searchBoxPos1'', lit ''searchBoxPos2''} \<longrightarrow>
       (\<forall>q \<in> set (preorder [] d). strict_suffix p q \<longrightarrow> elem_at d q = None))" if "id_at d p \<noteq> []"
    using m that id_paths_iff by blast
  show "id_at d p \<noteq> lit ''Item'' @ u" using ok by (auto simp: lit_Cons)
  show "id_at d p \<noteq> lit s" if "s \<in> set box_names" using ok that by (cases "id_at d p = []") (auto simp: box_names_def lit_Cons)
  show "elem_at d q = None"
    if "id_at d p \<in> lit ` {''SRResults'', ''MSearchSelectWindow'', ''searchBoxPos1'', ''searchBoxPos2''}" "strict_suffix p q"
  proof (rule ccontr)
    assume "elem_at d q \<noteq> None"
    then have "q \<in> set (preorder [] d)" using elem_at_preorder by blast
    moreover have "id_at d p \<noteq> []" using that(1) by (auto simp: lit_Cons)
    ultimately show False using ok that \<open>elem_at d q \<noteq> None\<close> by auto
  qed
qed

text \<open>The ids of a document in one walk, for evaluation.\<close>

fun id_table :: "path \<Rightarrow> dom \<Rightarrow> (path \<times> jstring option) list"
  and id_table_list :: "path \<Rightarrow> nat \<Rightarrow> dom list \<Rightarrow> (path \<times> jstring option) list" where
  "id_table p (Leaf s) = [(p, None)]"
| "id_table p (Elem e ds) = (p, Some (elem_id e)) # id_table_list p 0 ds"
| "id_table_list p i [] = []"
| "id_table_list p i (d # ds) = id_table (i # p) d @ id_table_list p (Suc i) ds"

lemma id_table_map:
  "id_table p d = map (\<lambda>q. (q, map_option elem_id (elem_at d (take (length q - length p) q)))) (preorder p d)"
  "id_table_list p i ds =
     map (\<lambda>q. (q, map_option elem_id (elem_at (Elem (createElement ''div'') (replicate i (Leaf []) @ ds)) (take (length q - length p) q))))
       (preorder_list p i ds)"
proof (induction p d and p i ds rule: id_table_id_table_list.induct)
  case (2 p e ds)
  have "elem_at (Elem e ds) (take (length q - length p) q) = elem_at (Elem (createElement ''div'') ds) (take (length q - length p) q)"
    if q: "q \<in> set (preorder_list p 0 ds)" for q
  proof -
    obtain s j where "q = (s @ [j]) @ p" using preorder_below(2) [OF q] by auto
    then show ?thesis by (simp add: elem_at_snoc)
  qed
  then show ?case using 2 by simp
next
  case (4 p i d ds)
  let ?e = "createElement ''div''"
  have "elem_at d (take (length q - length (i # p)) q) =
      elem_at (Elem ?e (replicate i (Leaf []) @ d # ds)) (take (length q - length p) q)"
    if q: "q \<in> set (preorder (i # p) d)" for q
  proof -
    obtain s where "q = s @ i # p" using preorder_below(1) [OF q] by blast
    moreover have "take (length (s @ i # p) - length p) (s @ i # p) = s @ [i]" by simp
    ultimately show ?thesis by (simp add: elem_at_snoc nth_append)
  qed
  moreover have "Elem ?e (replicate (Suc i) (Leaf []) @ ds) = Elem ?e (replicate i (Leaf []) @ Leaf [] # ds)"
    by (simp add: replicate_app_Cons_same)
  moreover have "elem_at (Elem ?e (replicate i (Leaf []) @ Leaf [] # ds)) (take (length q - length p) q) =
      elem_at (Elem ?e (replicate i (Leaf []) @ d # ds)) (take (length q - length p) q)"
    if q: "q \<in> set (preorder_list p (Suc i) ds)" for q
  proof -
    obtain s j where "Suc i \<le> j" "q = (s @ [j]) @ p" using preorder_below(2) [OF q] by auto
    then show ?thesis by (simp add: elem_at_snoc nth_append)
  qed
  ultimately show ?case using 4 by simp
qed simp_all

lemma getElementById_table:
  assumes "i \<noteq> []"
  shows "getElementById d i = map_option fst (List.find (\<lambda>x. snd x = Some i) (id_table [] d))"
proof -
  have id: "has_id i d = (\<lambda>q. map_option elem_id (elem_at d q) = Some i)"
    using assms by (auto simp: fun_eq_iff has_id_def elem_id_def split: option.splits)
  have "List.find (\<lambda>x. snd x = Some i) (map (\<lambda>q. (q, f q)) ps) = map_option (\<lambda>q. (q, f q)) (List.find (\<lambda>q. f q = Some i) ps)" for f ps
    by (induction ps) simp_all
  from this [of "\<lambda>q. map_option elem_id (elem_at d q)" "preorder [] d"] show ?thesis
    by (simp add: getElementById_def id id_table_map option.map_comp comp_def option.map_ident del: map_option_eq_Some)
qed

definition menu_check :: "path \<Rightarrow> path \<Rightarrow> path \<Rightarrow> (path \<times> jstring option) list \<Rightarrow> (path \<times> jstring) list \<Rightarrow> bool" where
  "menu_check r p1 p2 ts is \<longleftrightarrow> distinct (map snd is) \<and>
     (r, lit ''SRResults'') \<in> set is \<and> (p1, lit ''searchBoxPos1'') \<in> set is \<and> (p2, lit ''searchBoxPos2'') \<in> set is \<and> before p1 p2 \<and>
     list_all (\<lambda>s. lit s \<in> set (map snd is)) (List.filter (\<lambda>s. s \<notin> set box_names) page_ids) \<and>
     list_all (\<lambda>(p, i). \<not> prefix (lit ''Item'') i \<and> i \<notin> set (map lit box_names)) is \<and>
     list_all (\<lambda>(p, i). list_all (\<lambda>(q, t). \<not> strict_suffix p q \<or> Option.is_none t) ts)
       (List.filter (\<lambda>(p, i). i \<in> set (map lit [''SRResults'', ''MSearchSelectWindow'', ''searchBoxPos1'', ''searchBoxPos2''])) is)"

definition id_rows :: "(path \<times> jstring option) list \<Rightarrow> (path \<times> jstring) list" where
  "id_rows ts = List.map_filter (\<lambda>(p, t). case t of Some i \<Rightarrow> if i = [] then None else Some (p, i) | None \<Rightarrow> None) ts"

lemma id_rows_paths: "id_rows (id_table [] d) = map (\<lambda>p. (p, id_at d p)) (id_paths d)"
proof -
  have "id_rows (map (\<lambda>q. (q, map_option elem_id (elem_at d q))) ps) = map (\<lambda>p. (p, id_at d p)) (List.filter (\<lambda>p. id_at d p \<noteq> []) ps)" for ps
    by (induction ps) (auto simp: id_rows_def map_filter_simps id_at_def split: option.splits)
  then show ?thesis by (simp add: id_table_map id_paths_def)
qed

lemma menu_check_doc:
  assumes "menu_check r p1 p2 (id_table [] d) (id_rows (id_table [] d))"
  shows "menu_doc r p1 p2 d"
proof -
  let ?is = "map (\<lambda>p. (p, id_at d p)) (id_paths d)"
  have c: "menu_check r p1 p2 (map (\<lambda>q. (q, map_option elem_id (elem_at d q))) (preorder [] d)) ?is"
    using assms by (simp add: id_rows_paths) (simp add: id_table_map)
  have snd: "map snd ?is = map (id_at d) (id_paths d)" by (simp add: comp_def)
  have at: "(p, i) \<in> set ?is \<Longrightarrow> id_at d p = i" for p i by auto
  have "\<exists>p \<in> set (id_paths d). id_at d p = lit s" if "s \<in> set page_ids - set box_names" for s
  proof -
    have "lit s \<in> set (map snd ?is)" using c that unfolding menu_check_def list_all_iff by simp
    then show ?thesis unfolding snd by auto
  qed
  moreover have "\<not> prefix (lit ''Item'') (id_at d p) \<and> (\<forall>s \<in> set box_names. id_at d p \<noteq> lit s)" if "p \<in> set (id_paths d)" for p
    using c that unfolding menu_check_def list_all_iff by auto
  moreover have "distinct (map (id_at d) (id_paths d))" using c unfolding menu_check_def snd by blast
  moreover have "id_at d r = lit ''SRResults'' \<and> id_at d p1 = lit ''searchBoxPos1'' \<and> id_at d p2 = lit ''searchBoxPos2'' \<and> before p1 p2"
    using c at unfolding menu_check_def by blast
  moreover have "elem_at d q = None"
    if "p \<in> set (id_paths d)" "id_at d p \<in> {lit ''SRResults'', lit ''MSearchSelectWindow'', lit ''searchBoxPos1'', lit ''searchBoxPos2''}"
      "q \<in> set (preorder [] d)" "strict_suffix p q" for p q
  proof -
    let ?is' = "List.filter (\<lambda>(p, i). i \<in> set (map lit [''SRResults'', ''MSearchSelectWindow'', ''searchBoxPos1'', ''searchBoxPos2''])) ?is"
    let ?ts = "map (\<lambda>q. (q, map_option elem_id (elem_at d q))) (preorder [] d)"
    have "list_all (\<lambda>(p, i). list_all (\<lambda>(q, t). \<not> strict_suffix p q \<or> Option.is_none t) ?ts) ?is'"
      using c unfolding menu_check_def by blast
    then have "\<forall>x \<in> set ?is'. \<forall>y \<in> set ?ts. \<not> strict_suffix (fst x) (fst y) \<or> Option.is_none (snd y)"
      by (simp only: list_all_iff case_prod_beta')
    from bspec [OF this, of "(p, id_at d p)"]
    have "\<forall>y \<in> set ?ts. \<not> strict_suffix p (fst y) \<or> Option.is_none (snd y)" using that(1,2) by simp
    from bspec [OF this, of "(q, map_option elem_id (elem_at d q))"]
    have "\<not> strict_suffix p q \<or> Option.is_none (map_option elem_id (elem_at d q))" using that(3) by simp
    then show ?thesis using that(4) by (simp add: Option.is_none_def)
  qed
  ultimately show ?thesis unfolding menu_doc_def by blast
qed

text \<open>Such a document has the shape that the page needs, with the bar before the first \<open>resetState\<close>.\<close>

lemma menu_doc_shape:
  assumes m: "menu_doc r p1 p2 d"
  shows "base_shape r (id_at d)" "places r (id_at d) p1 p2" "doc_shape r (id_at d) d"
    "h \<noteq> [] \<Longrightarrow> bar_ids ids h p1 p2 (id_at d) initial_bar = id_at d"
proof -
  note D = menu_docD [OF m]
  have below: "id_at d q = []" if "strict_suffix p q" "p \<in> {r, p1, p2} \<or> id_at d p = lit ''MSearchSelectWindow''" for p q
    by (rule id_at_None, rule D(9) [OF _ that(1)]) (use that(2) D(2-4) in auto)
  have at: "\<not> strict_suffix r q" if "id_at d q = lit s" "s \<noteq> []" for q s
    using below [of r q] that by auto
  show shape: "base_shape r (id_at d)"
    unfolding base_shape_def
  proof (intro conjI ballI allI impI)
    show "id_at d r = lit ''SRResults''" by (rule D(2))
    fix s p q
    assume "s \<in> {''SRResults'', ''MSearchSelectWindow''}"
      and "\<not> strict_suffix r p \<and> \<not> strict_suffix r q \<and> id_at d p = lit s \<and> id_at d q = lit s"
    then show "p = q" using D(1) [of p "lit s" q] by auto
  next
    fix win q
    assume "\<not> strict_suffix r win \<and> id_at d win = lit ''MSearchSelectWindow'' \<and> strict_suffix win q \<and> \<not> strict_suffix r q"
    then show "id_at d q = []" using below [of win q] by simp
  qed
  have place: "place r (id_at d) i p" if "id_at d p = lit i" "i \<noteq> []" for i p
    unfolding place_def
  proof (intro conjI allI impI that(1) at [OF that])
    fix q assume "\<not> strict_suffix r q \<and> id_at d q = lit i"
    then have q: "id_at d q = lit i" by simp
    show "q = p" by (rule D(1) [OF q that(1)]) (simp add: that(2))
  qed
  have apart: "\<not> suffix p q" if "p \<in> {p1, p2}" "q \<in> {p1, p2}" "p \<noteq> q" for p q
  proof
    assume "suffix p q"
    then have "id_at d q = []" using that by (intro below [of p]) (auto simp: strict_suffix_def)
    then show False using that(2) D(3,4) by (auto simp: lit_Cons)
  qed
  have "p1 \<noteq> p2" using D(3,4) by (auto simp: lit_Cons)
  moreover have "\<exists>q. \<not> strict_suffix r q \<and> id_at d q = lit s \<and> \<not> strict_suffix p1 q \<and> \<not> strict_suffix p2 q"
    if core: "s \<in> set page_ids - set box_names" for s
  proof -
    have s: "s \<noteq> []" using own_page_ids core by (auto simp: own_id_def)
    obtain q where "id_at d q = lit s" using D(6) [OF core] by blast
    then show ?thesis using below [of p1 q] below [of p2 q] at s by (intro exI [of _ q]) auto
  qed
  moreover have "\<not> strict_suffix p1 q \<and> \<not> strict_suffix p2 q"
    if "s \<in> set page_ids - set box_names" "id_at d q = lit s" for s q
  proof -
    have "s \<noteq> []" using own_page_ids that(1) by (auto simp: own_id_def)
    then show ?thesis using below [of p1 q] below [of p2 q] that(2) by auto
  qed
  ultimately show "places r (id_at d) p1 p2"
    using place D(3,4,8) apart unfolding places_def by simp
  have "rows_typed r (id_at d)"
  proof -
    have "id_at d q \<noteq> item_name i" "id_at d q \<noteq> child_name i c" for q i c
      using D(7) by (simp_all add: item_name_def child_name_def lit_Cons)
    moreover have "id_at d q \<noteq> lit s" if "strict_suffix r q" "own_id s" for q s
      using below [of r q] that by (auto simp: own_id_def)
    ultimately show ?thesis by (auto simp: rows_typed_def)
  qed
  moreover have "popup_typed d"
    using D(9) [OF _ strict_suffix_Cons(1)] unfolding popup_typed_def by (metis imageI insertCI option.distinct(1))
  ultimately show "doc_shape r (id_at d) d" using shape by (simp add: doc_shape_def)
  have "put_ids p (\<lambda>s. []) (id_at d) = id_at d" if "p \<in> {p1, p2}" for p
    using below [of p] that by (auto simp: put_ids_def fun_eq_iff)
  then show "bar_ids ids h p1 p2 (id_at d) initial_bar = id_at d" if "h \<noteq> []"
    using that by (simp add: bar_ids_def initial_bar_def)
qed

text \<open>The markup of the search box has its four parts.\<close>

lemma box_tree_ids:
  "box_ids_only (ids_of [search_box_tree relPath search])" "whole_box (ids_of [search_box_tree relPath search])"
proof -
  let ?t = "[search_box_tree relPath search]"
  have "elem_id e = [] \<or> elem_id e \<in> lit ` set (''MSearchCloseImg'' # box_names)" if "e \<in> set (elems (search_box_tree relPath search))" for e
    using that by (auto simp: search_box_tree_def attr_elem_def elem_id_def setAttribute_def createElement_def box_names_def)
  moreover have "elem_id (createElement ''div'') = []" by (simp add: elem_id_def createElement_def)
  ultimately have "elem_id e = [] \<or> elem_id e \<in> lit ` set (''MSearchCloseImg'' # box_names)"
    if "elem_at (Elem (createElement ''div'') ?t) s = Some e" for s e
    using elem_at_elems [OF that] by auto
  then show "box_ids_only (ids_of ?t)" unfolding box_ids_only_def ids_of_def id_at_def by (metis option.case_eq_if option.collapse)
  have at: "ids_of ?t [0] = lit ''MSearchBox''" "ids_of ?t [0, 0, 0] = lit ''MSearchSelect''"
    "ids_of ?t [1, 0, 0] = lit ''MSearchField''" "ids_of ?t [0, 1, 0] = lit ''MSearchClose''"
    by (simp_all add: ids_of_def id_at_def elem_at_def search_box_tree_def attr_elem_def elem_id_def setAttribute_def createElement_def)
  then show "whole_box (ids_of ?t)" by (auto simp: whole_box_def box_names_def)
qed

section \<open>The page index.html\<close>

text \<open>
  The elements of \<open>docs/html/index.html\<close> (without the blank texts between them), with nodes before and in the
  element \<open>main-nav\<close>, where \<open>initMenu\<close> writes.
\<close>

definition tagged :: "string \<Rightarrow> dom list \<Rightarrow> dom" where
  "tagged t ds = Elem (createElement t) ds"

definition nav_html :: "dom list \<Rightarrow> dom list \<Rightarrow> dom" where
  "nav_html headers nav_nodes =
     tagged ''html''
       [tagged ''head'' [],
        tagged ''body''
          [node ''div'' ''top''
             ([node ''div'' ''titlearea''
                [tagged ''table'' [tagged ''tbody'' [node ''tr'' ''projectrow'' [node ''td'' ''projectalign''
                   [node ''div'' ''projectname'' [Leaf (lit ''C Project Template''),
                      node ''span'' ''projectnumber'' [Leaf (lit ''&#160;1.0.0'')]]]]]]],
              tagged ''script'' [], tagged ''script'' [], tagged ''script'' [], tagged ''script'' []] @ headers @
              [node ''div'' ''main-nav'' nav_nodes]),
           node ''div'' ''MSearchSelectWindow'' [Leaf (lit '' '')],
           node ''div'' ''MSearchResultsWindow''
             [node ''div'' ''MSearchResults''
                [plain_node ''div'' ''SRPage''
                   [node ''div'' ''SRIndex''
                      [node ''div'' ''SRResults'' [],
                       Elem (attr_elem ''div'' [(''class'', ''SRStatus''), (''id'', ''Loading'')]) [Leaf (lit ''Loading...'')],
                       Elem (attr_elem ''div'' [(''class'', ''SRStatus''), (''id'', ''Searching'')]) [Leaf (lit ''Searching...'')],
                       Elem (attr_elem ''div'' [(''class'', ''SRStatus''), (''id'', ''NoMatches'')]) [Leaf (lit ''No Matches'')]]]]],
           plain_node ''div'' ''header''
             [plain_node ''div'' ''headertitle'' [plain_node ''div'' ''title'' [Leaf (lit ''C Project Template Documentation'')]]],
           plain_node ''div'' ''contents'' [],
           plain_node ''hr'' ''footer'' [],
           plain_node ''address'' ''footer''
             [tagged ''small'' [Leaf (lit ''Generated by&#160;''),
                Elem (attr_elem ''a'' [(''href'', ''https://www.doxygen.org/index.html'')]) [plain_node ''img'' ''footer'' []],
                Leaf (lit '' 1.9.8'')]]]]"

definition index_html :: dom where
  "index_html = nav_html [] []"

text \<open>A browser that reads the markup of the repository's menu and of the search box.\<close>

definition index_browser :: browser where
  "index_browser = menu_browser\<lparr>of_html := (\<lambda>s.
     if Some s = searchBoxHtml True False [] (lit ''search.php'') (lit ''Search'') then [search_box_tree [] (lit ''Search'')]
     else if s = makeTree [] menudata
     then [tagged ''ul'' [tagged ''li'' [Elem (attr_elem ''a'' [(''href'', ''index.html'')]) [Leaf (lit ''Main Page'')]]]]
     else [Leaf s])\<rparr>"

text \<open>What \<open>initMenu\<close> makes of the page: the bar before the place of the menu, and one list in it.\<close>

definition index_menu :: dom where
  "index_menu =
     Elem (setAttribute ''id'' (lit ''main-menu'') (addClass [lit ''sm'', lit ''sm-dox''] (createElement ''ul'')))
       [tagged ''li'' [Elem (attr_elem ''a'' [(''href'', ''index.html'')]) [Leaf (lit ''Main Page'')]], search_item_node]"

definition index_with_menu :: dom where
  "index_with_menu = nav_html [menu_header] [index_menu]"

lemma elem_id_simps:
  "elem_id (setAttribute k v e) = (if k = ''id'' then v else elem_id e)" "elem_id (set_style k v e) = elem_id e"
  "elem_id (createElement t) = []" "elem_id (id_elem t i) = lit i" "elem_id (class_elem t i) = []" "elem_id (addClass cs e) = elem_id e"
  by (simp_all add: elem_id_def setAttribute_def set_style_def createElement_def id_elem_def class_elem_def addClass_def)

lemmas tree_simps = elem_id_simps tagged_def node_def plain_node_def attr_elem_def nav_html_def

lemma nav_paths:
  "getElementById (nav_html [] ns) (lit ''main-nav'') = Some [5, 0, 1]"
  "getElementById (nav_html [menu_header] ns) (lit ''main-nav'') = Some [6, 0, 1]"
  "getElementById (nav_html [menu_header] ns) (lit ''main-menu-state'') = Some [0, 5, 0, 1]"
  by (simp_all add: getElementById_table tree_simps menu_header_def)

lemma nav_inserted: "insert_before [5, 0, 1] menu_header (nav_html [] ns) = nav_html [menu_header] ns"
  by (simp add: tree_simps insert_before_def)

lemma nav_appended: "append_all ms [6, 0, 1] (nav_html [menu_header] ns) = nav_html [menu_header] (ns @ ms)"
proof (induction ms arbitrary: ns)
  case (Cons m ms)
  have "appendChild [6, 0, 1] m (nav_html [menu_header] ns) = nav_html [menu_header] (ns @ [m])"
    by (simp add: tree_simps appendChild_def)
  then show ?case using Cons by (simp add: append_all_def)
qed (simp add: append_all_def)

lemma index_initMenu:
  "initMenu index_browser [] True False (lit ''search.php'') (lit ''Search'') index_html = (index_with_menu, True)"
proof -
  let ?a = "tagged ''li'' [Elem (attr_elem ''a'' [(''href'', ''index.html'')]) [Leaf (lit ''Main Page'')]]"
  let ?m = "Elem (setAttribute ''id'' (lit ''main-menu'') (addClass [lit ''sm'', lit ''sm-dox''] (createElement ''ul''))) [?a]"
  obtain h where h: "searchBoxHtml True False [] (lit ''search.php'') (lit ''Search'') = Some h" "take 2 h = lit ''<d''"
    by (simp add: searchBoxHtml_def lit_Cons)
  have "take 2 (makeTree [] menudata) = lit ''<u''" by (simp add: menudata_def lit_Cons)
  then have "makeTree [] menudata \<noteq> h" using h(2) by (auto simp: lit_Cons)
  then have read: "of_html index_browser (makeTree [] menudata) = [tagged ''ul'' [?a]]" by (simp add: index_browser_def h(1))
  have menu: "main_menu [6, 0, 1] (nav_html [menu_header] [tagged ''ul'' [?a]]) = nav_html [menu_header] [?m]"
    by (simp add: main_menu_def first_child_def elem_at_def upd_elem_def tree_simps menu_header_def)
  have "getElementById (nav_html [menu_header] [?m]) (lit ''main-menu'') = Some [0, 6, 0, 1]"
    by (simp add: getElementById_table tree_simps menu_header_def)
  moreover have "appendChild [0, 6, 0, 1] search_item_node (nav_html [menu_header] [?m]) = index_with_menu"
    by (simp add: appendChild_def tree_simps index_with_menu_def index_menu_def)
  ultimately have "menu_markup_nodes index_browser [] menudata (Some h) index_html = index_with_menu"
    by (simp add: menu_markup_nodes_def at_id_def index_html_def nav_paths nav_inserted nav_appended read menu del: One_nat_def)
  then show ?thesis by (simp add: initMenu_def h(1) index_with_menu_def nav_paths)
qed

lemma index_menu_doc: "menu_doc [0, 0, 0, 0, 2, 1] [2, 5, 0, 1] [1, 0, 6, 0, 1] index_with_menu"
proof (rule menu_check_doc)
  have rows: "id_rows (id_table [] index_with_menu) =
     [([0, 1], lit ''top''), ([0, 0, 1], lit ''titlearea''), ([0, 0, 0, 0, 0, 1], lit ''projectrow''),
      ([0, 0, 0, 0, 0, 0, 1], lit ''projectalign''), ([0, 0, 0, 0, 0, 0, 0, 1], lit ''projectname''), ([1, 0, 0, 0, 0, 0, 0, 0, 1], lit ''projectnumber''),
      ([0, 5, 0, 1], lit ''main-menu-state''), ([2, 5, 0, 1], lit ''searchBoxPos1''), ([6, 0, 1], lit ''main-nav''),
      ([0, 6, 0, 1], lit ''main-menu''), ([1, 0, 6, 0, 1], lit ''searchBoxPos2''), ([1, 1], lit ''MSearchSelectWindow''),
      ([2, 1], lit ''MSearchResultsWindow''), ([0, 2, 1], lit ''MSearchResults''), ([0, 0, 0, 2, 1], lit ''SRIndex''),
      ([0, 0, 0, 0, 2, 1], lit ''SRResults''), ([1, 0, 0, 0, 2, 1], lit ''Loading''), ([2, 0, 0, 0, 2, 1], lit ''Searching''),
      ([3, 0, 0, 0, 2, 1], lit ''NoMatches'')]" (is "_ = ?rows")
    by (simp add: id_rows_def map_filter_simps index_with_menu_def index_menu_def menu_header_def search_item_node_def tree_simps del: One_nat_def)
  show "menu_check [0, 0, 0, 0, 2, 1] [2, 5, 0, 1] [1, 0, 6, 0, 1] (id_table [] index_with_menu) (id_rows (id_table [] index_with_menu))"
    unfolding rows
    by (simp add: menu_check_def before_def box_names_def page_ids_def box_ids_def lit_Cons strict_suffix_to_prefix
        index_with_menu_def index_menu_def menu_header_def search_item_node_def tree_simps Option.is_none_def)
qed

end
