(* ===== verification/Site_Properties.thy ===== *)
theory Site_Properties
  imports Site_Document
begin

text \<open>
  The properties of a page as a whole (\<open>docs/html/menu.js\<close> with \<open>docs/html/search/search.js\<close>), and the page
  \<open>docs/html/index.html\<close> on which they are instantiated.
\<close>

section \<open>Loading and using a page\<close>

text \<open>What a page is loaded with: its markup, its browser and its index.\<close>

definition page_setting ::
  "int \<Rightarrow> path \<Rightarrow> path \<Rightarrow> path \<Rightarrow> browser \<Rightarrow> site \<Rightarrow> jstring \<Rightarrow> jstring \<Rightarrow> jstring \<Rightarrow> dom \<Rightarrow> dom \<Rightarrow> bool" where
  "page_setting n r p1 p2 b w relPath searchPage search d0 d \<longleftrightarrow>
     initMenu b relPath True False searchPage search d0 = (d, True) \<and> menu_doc r p1 p2 d \<and>
     reads_box b relPath searchPage search \<and> filters w n \<and> 0 < n \<and> (\<forall>d. layout_ok w d)"

lemma page_settingE:
  assumes "page_setting n r p1 p2 b w relPath searchPage search d0 d"
  obtains h where "searchBoxHtml True False relPath searchPage search = Some h" "h \<noteq> []"
    "initMenu b relPath True False searchPage search d0 = (d, True)"
    "site_setting n r p1 p2 (id_at d) (ids_of [search_box_tree relPath search]) b h w"
proof -
  obtain h where h: "searchBoxHtml True False relPath searchPage search = Some h" "h \<noteq> []"
    by (auto simp: searchBoxHtml_def lit_Cons)
  have m: "menu_doc r p1 p2 d" "of_html b h = [search_box_tree relPath search]" "filters w n" "0 < n" "\<And>d. layout_ok w d"
    using assms h(1) by (auto simp: page_setting_def reads_box_def)
  have "site_setting n r p1 p2 (id_at d) (ids_of [search_box_tree relPath search]) b h w"
    by (rule site_setting.intro [OF menu_doc_shape(1,2) [OF m(1)] _ box_tree_ids h(2) m(3-5)]) (simp add: m(2))
  then show ?thesis using that h assms by (simp add: page_setting_def)
qed

text \<open>The page \<open>index.html\<close>, with one section in its index.\<close>

lemma index_setting:
  "page_setting 1 [0, 0, 0, 0, 2, 1] [2, 5, 0, 1] [1, 0, 6, 0, 1] index_browser index_site [] (lit ''search.php'') (lit ''Search'')
     index_html index_with_menu"
proof -
  have "reads_box index_browser [] (lit ''search.php'') (lit ''Search'')"
    by (simp add: reads_box_def index_browser_def searchBoxHtml_def)
  moreover have "filters index_site 1" by (auto simp: filters_def index_site_def)
  ultimately show ?thesis using index_menu_doc index_layout index_initMenu by (simp add: page_setting_def)
qed

interpretation idx: site_setting 1 "[0, 0, 0, 0, 2, 1]" "[2, 5, 0, 1]" "[1, 0, 6, 0, 1]" "id_at index_with_menu"
    "ids_of [search_box_tree [] (lit ''Search'')]" index_browser
    "the (searchBoxHtml True False [] (lit ''search.php'') (lit ''Search''))" index_site
  by (rule page_settingE [OF index_setting]) simp

text \<open>The events of the menu among the events of a page.\<close>

definition menu_part :: "site_event list \<Rightarrow> menu_event list" where
  "menu_part evs = List.map_filter (\<lambda>ev. case ev of On_page e \<Rightarrow> None | On_menu e \<Rightarrow> Some e) evs"

lemma foldl_menu_part: "foldl (bar_event h) m evs = foldl (menu_step h True) m (menu_part evs)"
  by (induction evs arbitrary: m) (auto simp: menu_part_def map_filter_simps split: site_event.split)

lemma page_loaded:
  assumes set: "page_setting n r p1 p2 b w relPath searchPage search d0 d" and wd: "width \<noteq> 0"
    and h: "searchBoxHtml True False relPath searchPage search = Some h"
  obtains F where "load_page b w relPath searchPage search width (new_SearchBox nm dir ext) d0 = Some F"
    "\<And>evs. site_allows n b w (Some h) evs F \<Longrightarrow>
      \<exists>F'. run_site b w (Some h) evs F = Some F' \<and>
        shows_bar n r p1 p2 (id_at d) (ids_of [search_box_tree relPath search]) h F' (after_events (Some h) True width (menu_part evs))"
proof -
  from set obtain h' where "searchBoxHtml True False relPath searchPage search = Some h'" "h' \<noteq> []"
    and init: "initMenu b relPath True False searchPage search d0 = (d, True)"
    and "site_setting n r p1 p2 (id_at d) (ids_of [search_box_tree relPath search]) b h' w"
    by (rule page_settingE)
  then have s: "site_setting n r p1 p2 (id_at d) (ids_of [search_box_tree relPath search]) b h w" and "h \<noteq> []"
    using h by simp_all
  have "menu_doc r p1 p2 d" using set by (simp add: page_setting_def)
  then have doc: "doc_shape r (bar_ids (ids_of [search_box_tree relPath search]) h p1 p2 (id_at d) initial_bar)
      (document (new_page (new_SearchBox nm dir ext) d))"
    using menu_doc_shape(3,4) \<open>h \<noteq> []\<close> by (simp add: new_page_def)
  have ix: "searchIndex (searchBox (new_page (new_SearchBox nm dir ext) d)) = 0" by (simp add: new_page_def new_SearchBox_def)
  have wts: "waits_ok (new_page (new_SearchBox nm dir ext) d)" by (simp add: waits_ok_def new_page_def)
  obtain F where F: "page_ready b w (Some h) True width (new_page (new_SearchBox nm dir ext) d) = Some F"
    "shows_bar n r p1 p2 (id_at d) (ids_of [search_box_tree relPath search]) h F (resetState (Some h) True width initial_bar)"
    using site_setting.ready [OF s doc wts ix wd] by blast
  show ?thesis
    using F(1) site_setting.run [OF s F(2)] by (intro that [of F]) (simp_all add: load_page_def init h after_events_def foldl_menu_part)
qed

lemma page_runs:
  assumes "page_setting n r p1 p2 b w relPath searchPage search d0 d" and "width \<noteq> 0"
    and "searchBoxHtml True False relPath searchPage search = Some h"
    and "load_page b w relPath searchPage search width (new_SearchBox nm dir ext) d0 = Some F"
    and "site_allows n b w (Some h) evs F" and "run_site b w (Some h) evs F = Some F'"
  shows "shows_bar n r p1 p2 (id_at d) (ids_of [search_box_tree relPath search]) h F' (after_events (Some h) True width (menu_part evs))"
proof (rule page_loaded [OF assms(1-3), of nm dir ext])
  fix F1
  assume "load_page b w relPath searchPage search width (new_SearchBox nm dir ext) d0 = Some F1"
    and run: "\<And>evs. site_allows n b w (Some h) evs F1 \<Longrightarrow> \<exists>F'. run_site b w (Some h) evs F1 = Some F' \<and>
      shows_bar n r p1 p2 (id_at d) (ids_of [search_box_tree relPath search]) h F' (after_events (Some h) True width (menu_part evs))"
  then have "F1 = F" using assms(4) by simp
  then show ?thesis using run [of evs] assms(5,6) by simp
qed

text \<open>A visit to \<open>index.html\<close>: a wide window becomes narrow, the mobile menu is opened, a word is typed.\<close>

definition visit :: "site_event list" where
  "visit = [On_menu (Resized 500), On_menu (Box_Changed True), On_page (Typed (lit ''main'')), On_menu Slide_Ended]"

definition index_box :: "jstring option" where
  "index_box = searchBoxHtml True False [] (lit ''search.php'') (lit ''Search'')"

definition index_load :: "front option" where
  "index_load = load_page index_browser index_site [] (lit ''search.php'') (lit ''Search'') 1024
     (new_SearchBox (lit ''searchBox'') (lit ''search/'') (lit ''.html'')) index_html"

lemma visit_allowed: "site_allows 1 index_browser index_site index_box visit F"
  by (simp add: visit_def del: site_handle.simps split: option.split)

lemma visit_can: "site_can 1 index_browser index_site index_box visit F"
  by (simp add: visit_def del: site_handle.simps split: option.split)

lemma visit_no_filter: "visit \<noteq> evs1 @ On_page (Filter_key e) # evs2"
proof
  assume "visit = evs1 @ On_page (Filter_key e) # evs2"
  then have "On_page (Filter_key e) \<in> set visit" by (metis in_set_conv_decomp)
  then show False by (simp add: visit_def)
qed

text \<open>C5. A page with its menu and an index with letters for \<open>n\<close> sections, \<open>n\<close> positive (the \<open>searchdata.js\<close> of the
  repository has none, so that every search throws there): if \<open>initMenu\<close> has made the places of the search box on a
  document with the other elements of the search, and the browser reads the markup as it is meant, then \<open>resetState\<close>
  and \<open>init_search\<close> return, and of every sequence of possible events of the search and of the menu (resizes and the
  rewriting of the box among them) one of two things holds. Either all handlers return, none throws a TypeError, and
  the page has all elements that the scripts look up, with the list of results at its place and rows that fit together;
  or the sequence presses the Down key at the last filter, which \<open>OnSearchSelectKey\<close> lets through and which raises
  the index past the sections: then it returns, and keeps the page so, up to that key.\<close>

theorem page_safe:
  assumes "page_setting n r p1 p2 b w relPath searchPage search d0 d" and "width \<noteq> 0"
  shows "\<exists>F. load_page b w relPath searchPage search width (new_SearchBox nm dir ext) d0 = Some F \<and>
    (\<forall>evs. site_can n b w (searchBoxHtml True False relPath searchPage search) evs F \<longrightarrow>
      (\<exists>F' B. run_site b w (searchBoxHtml True False relPath searchPage search) evs F = Some F' \<and>
        page_typed n r B (front_page F') \<and> places r B p1 p2) \<or>
      (\<exists>evs1 e evs2 F1 B. evs = evs1 @ On_page (Filter_key e) # evs2 \<and>
        run_site b w (searchBoxHtml True False relPath searchPage search) evs1 F = Some F1 \<and>
        page_typed n r B (front_page F1) \<and> places r B p1 p2 \<and>
        keyCode e = 40 \<and> searchIndex (searchBox (front_page F1)) + 1 = n))"
proof -
  from assms(1) obtain h where h: "searchBoxHtml True False relPath searchPage search = Some h"
    and s: "site_setting n r p1 p2 (id_at d) (ids_of [search_box_tree relPath search]) b h w" by (rule page_settingE)
  from assms(1,2) h show ?thesis
  proof (rule page_loaded [of _ _ _ _ _ _ _ _ _ _ _ _ _ nm dir ext])
    fix F
    let ?ids = "ids_of [search_box_tree relPath search]"
    assume F: "load_page b w relPath searchPage search width (new_SearchBox nm dir ext) d0 = Some F"
      and run: "\<And>evs. site_allows n b w (Some h) evs F \<Longrightarrow> \<exists>F'. run_site b w (Some h) evs F = Some F' \<and>
        shows_bar n r p1 p2 (id_at d) ?ids h F' (after_events (Some h) True width (menu_part evs))"
    have pl: "places r (bar_ids ?ids h p1 p2 (id_at d) m) p1 p2" for m
      using bar_ids_shape(2) [OF site_setting.shape [OF s] site_setting.pl [OF s] box_tree_ids(1)] .
    have typed: "\<exists>F' B. run_site b w (Some h) evs F = Some F' \<and> page_typed n r B (front_page F') \<and> places r B p1 p2"
      if "site_allows n b w (Some h) evs F" for evs
      using run [OF that] pl unfolding shows_bar_def by blast
    have "(\<exists>F' B. run_site b w (Some h) evs F = Some F' \<and> page_typed n r B (front_page F') \<and> places r B p1 p2) \<or>
      (\<exists>evs1 e evs2 F1 B. evs = evs1 @ On_page (Filter_key e) # evs2 \<and> run_site b w (Some h) evs1 F = Some F1 \<and>
        page_typed n r B (front_page F1) \<and> places r B p1 p2 \<and>
        keyCode e = 40 \<and> searchIndex (searchBox (front_page F1)) + 1 = n)"
      if "site_can n b w (Some h) evs F" for evs
      using site_can_split [OF that]
    proof
      assume "site_allows n b w (Some h) evs F"
      then show ?thesis using typed by blast
    next
      assume "\<exists>evs1 e evs2. evs = evs1 @ On_page (Filter_key e) # evs2 \<and> site_allows n b w (Some h) evs1 F \<and> keyCode e = 40 \<and>
        (\<forall>F1. run_site b w (Some h) evs1 F = Some F1 \<longrightarrow> searchIndex (searchBox (front_page F1)) + 1 = n)"
      then show ?thesis using typed by blast
    qed
    then show ?thesis using F unfolding h by blast
  qed
qed

lemma page_safe_witness:
  "\<exists>F F' B. index_load = Some F \<and> run_site index_browser index_site index_box visit F = Some F' \<and>
     page_typed 1 [0, 0, 0, 0, 2, 1] B (front_page F')"
  using page_safe [OF index_setting, of 1024 "lit ''searchBox''" "lit ''search/''" "lit ''.html''"] visit_can visit_no_filter
  unfolding index_load_def index_box_def by (metis zero_neq_numeral)

text \<open>What \<open>index.html\<close> is loaded to, and where the visit leads.\<close>

lemma index_visit:
  obtains h F F' where "searchBoxHtml True False [] (lit ''search.php'') (lit ''Search'') = Some h" "h \<noteq> []"
    "load_page index_browser index_site [] (lit ''search.php'') (lit ''Search'') 1024
       (new_SearchBox (lit ''searchBox'') (lit ''search/'') (lit ''.html'')) index_html = Some F"
    "site_allows 1 index_browser index_site (Some h) visit F" "run_site index_browser index_site (Some h) visit F = Some F'"
proof -
  from page_settingE [OF index_setting] obtain h
    where h: "searchBoxHtml True False [] (lit ''search.php'') (lit ''Search'') = Some h" "h \<noteq> []" by metis
  have box: "index_box = Some h" by (simp add: index_box_def h)
  show ?thesis
  proof (rule page_loaded [OF index_setting, of 1024 h "lit ''searchBox''" "lit ''search/''" "lit ''.html''"])
    fix F
    assume F: "load_page index_browser index_site [] (lit ''search.php'') (lit ''Search'') 1024
        (new_SearchBox (lit ''searchBox'') (lit ''search/'') (lit ''.html'')) index_html = Some F"
      and run: "\<And>evs. site_allows 1 index_browser index_site (Some h) evs F \<Longrightarrow>
        \<exists>F'. run_site index_browser index_site (Some h) evs F = Some F' \<and>
          shows_bar 1 [0, 0, 0, 0, 2, 1] [2, 5, 0, 1] [1, 0, 6, 0, 1] (id_at index_with_menu)
            (ids_of [search_box_tree [] (lit ''Search'')]) h F' (after_events (Some h) True 1024 (menu_part evs))"
    have "site_allows 1 index_browser index_site (Some h) visit F" using visit_allowed box by metis
    then show ?thesis using that [OF h F] run by blast
  qed (simp_all add: h)
qed

lemma visit_bar:
  assumes "h \<noteq> []"
  shows "prevWidth (after_events (Some h) True 1024 (menu_part visit)) = 500 \<and>
    \<not> pos2_shown (after_events (Some h) True 1024 (menu_part visit)) \<and>
    pos1_html (after_events (Some h) True 1024 (menu_part visit)) = h \<and>
    pos2_html (after_events (Some h) True 1024 (menu_part visit)) = h"
  by (simp add: visit_def menu_part_def map_filter_simps after_events_def menu_step_def resetState_def initial_bar_def Let_def)

text \<open>Where the search finds the parts of the box.\<close>

lemma bar_ids_at:
  assumes "\<not> suffix p1 p2" "\<not> suffix p2 p1" "u \<noteq> []"
  shows "bar_ids ids h p1 p2 B m (u @ p1) = box_ids_if ids (pos1_html m = h) u"
    "bar_ids ids h p1 p2 B m (u @ p2) = box_ids_if ids (pos2_html m = h) u"
  using assms by (simp add: bar_ids_def put_ids_below) (use assms in \<open>simp add: bar_ids_def put_ids_comm [of p1 p2] put_ids_below\<close>)

lemma box_found:
  assumes t: "page_typed n r (bar_ids ids h p1 p2 B m) pg" and shape: "base_shape r B" and pl: "places r B p1 p2"
    and first: "before p1 p2" and ids: "box_ids_only ids" "whole_box ids" and ok: "bar_ok h m" and h: "h \<noteq> []"
    and s: "s \<in> set box_names"
  shows "\<exists>q. by_id pg s = Some q \<and> strict_suffix (if pos2_shown m then p2 else p1) q"
proof -
  let ?B = "bar_ids ids h p1 p2 B m"
  have apart: "\<not> suffix p1 p2" "\<not> suffix p2 p1" using pl by (auto simp: places_def)
  note at = bar_ids_at [OF apart]
  note pl' = bar_ids_shape(2) [OF shape pl ids(1), of h m]
  have d: "typed_doc r ?B (document pg)" using t by (simp add: page_typed_def)
  have s': "s \<in> set page_ids" using s by (auto simp: box_names_def page_ids_def box_ids_def)
  from d s' obtain q where q: "by_id pg s = Some q" "\<not> strict_suffix r q" "?B q = lit s" by (rule typed_lookup)
  obtain u where u: "u \<noteq> []" "ids u = lit s" using ids(2) s unfolding whole_box_def by blast
  have in_place: "strict_suffix p1 q \<or> strict_suffix p2 q" using pl' s q(2,3) unfolding places_def by blast
  have "strict_suffix (if pos2_shown m then p2 else p1) q"
  proof (cases "pos2_shown m")
    case True
    then have "pos1_html m \<noteq> h" using ok h by (auto simp: bar_ok_def split: if_splits)
    then have "\<not> strict_suffix p1 q"
      using q(3) at(1) page_id_not_Nil [OF s'] by (auto dest!: strict_suffix_split)
    then show ?thesis using in_place True by simp
  next
    case False
    then have one: "pos1_html m = h" using ok by (auto simp: bar_ok_def split: if_splits)
    have "\<not> strict_suffix r (u @ p1)"
      by (rule places_apart(4) [OF shape pl, of p1]) (use u in simp_all)
    then have "id_at (document pg) (u @ p1) = lit s" using typed_docD(2) [OF d] at(1) [OF u(1)] one u(2) by simp
    then have le: "q = u @ p1 \<or> before q (u @ p1)"
      using getElementById_first q(1) page_id_not_Nil [OF s'] unfolding by_id_def by blast
    have "\<not> strict_suffix p2 q"
    proof
      assume "strict_suffix p2 q"
      then obtain t where t: "q = t @ p2" by (auto dest: strict_suffix_split)
      have "before (u @ p1) q" unfolding t by (rule before_below [OF first apart(1)])
      then show False using le before_antisym by blast
    qed
    then show ?thesis using in_place False by simp
  qed
  then show ?thesis using q(1) by blast
qed

text \<open>C6. The page implements the menu bar, and the search follows it: after any sequence of possible events of a page
  that was loaded (without the Down key at the last filter), the variables of the menu and the ids in both places are
  those that the bar \<^theory_text>\<open>menu_bar\<close> has after the events of the menu alone; exactly one box is visible on that bar, and
  each part of the box that the search looks up by its id is found in the place where the bar shows it, even while the
  hidden place holds an older copy. This is about what is looked up: a search that waits for its index file goes on
  with the elements that it found when it started.\<close>

theorem search_uses_visible_box:
  assumes "page_setting n r p1 p2 b w relPath searchPage search d0 d" and "width \<noteq> 0"
    and "searchBoxHtml True False relPath searchPage search = Some h"
    and "load_page b w relPath searchPage search width (new_SearchBox nm dir ext) d0 = Some F"
    and "site_allows n b w (Some h) evs F" and "run_site b w (Some h) evs F = Some F'"
    and "m = after_events (Some h) True width (menu_part evs)"
  shows "prev_width F' = prevWidth m \<and> box_checked F' = menu_checked m \<and> slides F' = animations m \<and>
    visible_boxes m = [h] \<and>
    (\<forall>s \<in> set box_names. \<exists>q. by_id (front_page F') s = Some q \<and> strict_suffix (if pos2_shown m then p2 else p1) q) \<and>
    (\<forall>u. u \<noteq> [] \<longrightarrow> id_at (document (front_page F')) (u @ p1) =
       (if pos1_html m = h then ids_of [search_box_tree relPath search] u else [])) \<and>
    (\<forall>u. u \<noteq> [] \<longrightarrow> id_at (document (front_page F')) (u @ p2) =
       (if pos2_html m = h then ids_of [search_box_tree relPath search] u else []))"
proof -
  let ?ids = "ids_of [search_box_tree relPath search]"
  from assms(1) obtain h' where "searchBoxHtml True False relPath searchPage search = Some h'" "h' \<noteq> []"
    and "site_setting n r p1 p2 (id_at d) ?ids b h' w" by (rule page_settingE)
  then have h: "h \<noteq> []" and s: "site_setting n r p1 p2 (id_at d) ?ids b h w" using assms(3) by simp_all
  have F': "shows_bar n r p1 p2 (id_at d) ?ids h F' m" unfolding assms(7) by (rule page_runs [OF assms(1-6)])
  then have t: "page_typed n r (bar_ids ?ids h p1 p2 (id_at d) m) (front_page F')" by (simp add: shows_bar_def)
  have ok: "bar_ok h m" unfolding assms(7) by (rule after_events_ok [OF assms(2)])
  have "menu_doc r p1 p2 d" using assms(1) by (simp add: page_setting_def)
  note shape = menu_doc_shape(1,2) [OF this] and first = menu_docD(5) [OF this]
  have apart: "\<not> suffix p1 p2" "\<not> suffix p2 p1" using shape(2) by (auto simp: places_def)
  have "id_at (document (front_page F')) (u @ p1) = (if pos1_html m = h then ?ids u else [])"
    "id_at (document (front_page F')) (u @ p2) = (if pos2_html m = h then ?ids u else [])" if u: "u \<noteq> []" for u
  proof -
    have "\<not> strict_suffix r (u @ p1)" "\<not> strict_suffix r (u @ p2)"
      using places_apart(4) [OF shape, of p1 "u @ p1"] places_apart(4) [OF shape, of p2 "u @ p2"] u by simp_all
    then show "id_at (document (front_page F')) (u @ p1) = (if pos1_html m = h then ?ids u else [])"
      "id_at (document (front_page F')) (u @ p2) = (if pos2_html m = h then ?ids u else [])"
      using t typed_docD(2) bar_ids_at [OF apart u] unfolding page_typed_def box_ids_if_def by metis+
  qed
  then show ?thesis
    using F' bar_ok_visible [OF h ok] box_found [OF t shape first box_tree_ids ok h] by (simp add: shows_bar_def)
qed


lemma search_uses_visible_box_witness:
  "\<exists>F' q. index_load \<bind> run_site index_browser index_site index_box visit = Some F' \<and> prev_width F' = 500 \<and>
     by_id (front_page F') ''MSearchField'' = Some q \<and> strict_suffix [2, 5, 0, 1] q"
proof -
  obtain h F F' where h: "searchBoxHtml True False [] (lit ''search.php'') (lit ''Search'') = Some h" "h \<noteq> []"
    and F: "load_page index_browser index_site [] (lit ''search.php'') (lit ''Search'') 1024
       (new_SearchBox (lit ''searchBox'') (lit ''search/'') (lit ''.html'')) index_html = Some F"
      "site_allows 1 index_browser index_site (Some h) visit F" "run_site index_browser index_site (Some h) visit F = Some F'"
    by (rule index_visit)
  have "''MSearchField'' \<in> set box_names" by (simp add: box_names_def)
  then show ?thesis
    using search_uses_visible_box [OF index_setting _ h(1) F refl] visit_bar [OF h(2)] F
    by (auto simp: index_load_def index_box_def h(1))
qed

section \<open>A resize makes a new box\<close>

lemma init_search_tabindex:
  assumes "init_search w pg = Some pg'"
  shows "\<exists>e. elem_by_id pg' ''MSearchSelect'' = Some e \<and> attrs e ''tabindex'' = Some (lit ''0'')"
proof -
  from assms obtain g q where g: "by_id g ''MSearchSelect'' = Some q" "pg' = set_elem q (setAttribute ''tabindex'' (lit ''0'')) g"
    by (auto simp: init_search_def Let_def split: bind_splits)
  then obtain e where "elem_by_id g ''MSearchSelect'' = Some e" using by_id_elem [OF g(1)] by (auto simp: elem_by_id_def)
  then show ?thesis
    unfolding g(2) using g(1) by (intro exI [of _ "setAttribute ''tabindex'' (lit ''0'') e"]) (simp add: elem_by_id_set_elem setAttribute_def)
qed

lemma box_tree_attrs:
  assumes "elem_at (Elem (createElement ''div'') [search_box_tree relPath search]) u = Some e"
  shows "attrs e ''tabindex'' = None"
proof -
  have "e = createElement ''div'' \<or> e \<in> set (elems (search_box_tree relPath search))" using elem_at_elems [OF assms] by simp
  then show ?thesis by (auto simp: search_box_tree_def attr_elem_def setAttribute_def createElement_def)
qed

text \<open>C25. A resize that changes the width replaces the search box, and loses what \<open>init_search\<close> did to it: after loading,
  the selector of the filter can be reached by the keyboard (it has a \<open>tabindex\<close>, and \<open>init_search\<close> gave it its listener
  for keys); after any events and a resize to another width, the selector that the page then has was made from the
  markup and has no \<open>tabindex\<close>, and the typed word is gone. Nothing else fails: the handler returns and the results
  window is closed. (The events are without the Down key at the last filter.)\<close>

theorem resize_loses_filter_key:
  assumes "page_setting n r p1 p2 b w relPath searchPage search d0 d" and "width \<noteq> 0"
    and "searchBoxHtml True False relPath searchPage search = Some h"
    and "load_page b w relPath searchPage search width (new_SearchBox nm dir ext) d0 = Some F"
    and "site_allows n b w (Some h) evs F" and "run_site b w (Some h) evs F = Some F1" and "wd \<noteq> prev_width F1"
  shows "(\<exists>e. elem_by_id (front_page F) ''MSearchSelect'' = Some e \<and> attrs e ''tabindex'' = Some (lit ''0'')) \<and>
    (\<exists>F2 e. site_handle b w (Some h) (On_menu (Resized wd)) F1 = Some F2 \<and>
      elem_by_id (front_page F2) ''MSearchSelect'' = Some e \<and> attrs e ''tabindex'' = None \<and>
      field_value (front_page F2) = [] \<and> \<not> shown (front_page F2) ''MSearchResultsWindow'')"
proof (intro conjI)
  show "\<exists>e. elem_by_id (front_page F) ''MSearchSelect'' = Some e \<and> attrs e ''tabindex'' = Some (lit ''0'')"
    using assms(4) init_search_tabindex by (auto simp: load_page_def page_ready_def split: prod.splits bind_splits)
next
  let ?ids = "ids_of [search_box_tree relPath search]"
  from page_settingE [OF assms(1)] assms(3) have h: "h \<noteq> []"
    and s: "site_setting n r p1 p2 (id_at d) ?ids b h w" by (metis option.inject)+
  define m where "m = after_events (Some h) True width (menu_part evs)"
  have F1: "shows_bar n r p1 p2 (id_at d) ?ids h F1 m"
    unfolding m_def by (rule page_runs [OF assms(1-6)])
  have box: "ids_of (of_html b h) = ?ids" "of_html b h = [search_box_tree relPath search]"
    using site_setting.box(1) [OF s] assms(1,3) by (auto simp: page_setting_def reads_box_def)
  note shape = site_setting.shape [OF s] site_setting.pl [OF s]
  have wd: "wd \<noteq> prevWidth m" using assms(7) F1 by (simp add: shows_bar_def)
  let ?m = "resetState (Some h) True wd m" and ?g = "moved_box b h wd (front_page F1)"
  have doc: "doc_shape r (bar_ids ?ids h p1 p2 (id_at d) m) (document (front_page F1))"
    using F1 by (simp add: shows_bar_def page_typed_def typed_doc_shape)
  have view: "0 \<le> searchIndex (searchBox (front_page F1))" "searchIndex (searchBox (front_page F1)) < n"
    "prev_width F1 = prevWidth m" "box_checked F1 = menu_checked m" "slides F1 = animations m" "waits_ok (front_page F1)"
    using F1 by (simp_all add: shows_bar_def page_typed_def)
  obtain F2 where F2: "reset_page b (Some h) True wd F1 = Some F2"
    "page_typed n r (bar_ids ?ids h p1 p2 (id_at d) ?m) ?g" "CloseResultsWindow ?g = Some (front_page F2)"
    by (rule reset_page_shows [OF shape box(1) box_tree_ids h doc view(6) view(1-5) wd])
  have ok: "bar_ok h ?m" by (rule resetState_ok) (simp add: wd)
  have "menu_doc r p1 p2 d" using assms(1) by (simp add: page_setting_def)
  then have first: "before p1 p2" by (rule menu_docD)
  have "''MSearchSelect'' \<in> set box_names" by (simp add: box_names_def)
  with box_found [OF F2(2) shape first box_tree_ids ok h] obtain q
    where q: "by_id ?g ''MSearchSelect'' = Some q" "strict_suffix (if pos2_shown ?m then p2 else p1) q" by blast
  have "pos2_shown ?m = (\<not> wd < 768)" using ok by (auto simp: bar_ok_def resetState_simps split: if_splits)
  then obtain u where u: "u \<noteq> []" "q = u @ (if wd < 768 then p1 else p2)"
    using q(2) by (auto dest!: strict_suffix_split split: if_splits)
  obtain e where e: "elem_at (document ?g) q = Some e" using by_id_elem [OF q(1)] by blast
  then have "attrs e ''tabindex'' = None"
    using moved_box_shape(2) [OF shape box(1) box_tree_ids(1) h doc view(6) wd] u box_tree_attrs unfolding written_def box(2) by metis
  moreover have "elem_by_id ?g ''MSearchSelect'' = Some e" using q(1) e by (simp add: elem_by_id_def)
  moreover have "elem_by_id (front_page F2) ''MSearchSelect'' = elem_by_id ?g ''MSearchSelect'' \<and> field_value (front_page F2) = [] \<and>
      \<not> shown (front_page F2) ''MSearchResultsWindow''"
    by (rule CloseResultsWindow_spec [OF typed_ok(1) [OF F2(2)]]) (use F2(3) in simp)
  ultimately show "\<exists>F2 e. site_handle b w (Some h) (On_menu (Resized wd)) F1 = Some F2 \<and>
      elem_by_id (front_page F2) ''MSearchSelect'' = Some e \<and> attrs e ''tabindex'' = None \<and>
      field_value (front_page F2) = [] \<and> \<not> shown (front_page F2) ''MSearchResultsWindow''"
    using F2(1) by auto
qed


lemma resize_loses_filter_key_witness:
  "\<exists>F' e. index_load \<bind> run_site index_browser index_site index_box (visit @ [On_menu (Resized 800)]) = Some F' \<and>
     elem_by_id (front_page F') ''MSearchSelect'' = Some e \<and> attrs e ''tabindex'' = None"
proof -
  obtain h F F' where h: "searchBoxHtml True False [] (lit ''search.php'') (lit ''Search'') = Some h" "h \<noteq> []"
    and F: "load_page index_browser index_site [] (lit ''search.php'') (lit ''Search'') 1024
       (new_SearchBox (lit ''searchBox'') (lit ''search/'') (lit ''.html'')) index_html = Some F"
      "site_allows 1 index_browser index_site (Some h) visit F" "run_site index_browser index_site (Some h) visit F = Some F'"
    by (rule index_visit)
  have "prev_width F' = 500"
    using page_runs [OF index_setting _ h(1) F] visit_bar [OF h(2)] by (simp add: shows_bar_def)
  then have "\<exists>F2 e. site_handle index_browser index_site (Some h) (On_menu (Resized 800)) F' = Some F2 \<and>
      elem_by_id (front_page F2) ''MSearchSelect'' = Some e \<and> attrs e ''tabindex'' = None"
    using resize_loses_filter_key [OF index_setting _ h(1) F, of 800] by force
  then show ?thesis using F(1,3) by (simp add: index_load_def index_box_def h(1) run_site_snoc)
qed

end
