(* ===== verification/Spec2Isabelle.thy ===== *)
theory Spec2Isabelle
  imports Driver_Properties Server_Properties File_Properties Search_Properties Search_Data Search_Flow Page_Properties Site_Properties
begin

text \<open>
  Verification of the repository Embedded_linux: the character driver \<open>aesd-char-driver/\<close>, the socket
  server \<open>server/\<close> that stands on it, and the search and menu scripts of the documentation,
  \<open>docs/html/\<close>.

  The parts and how they interact. The driver keeps the last ten newline-terminated commands
  that were written to \<open>/dev/aesdchar\<close> in a ring of heap blocks, and serves reads, seeks and an
  ioctl on their concatenation. The server has one thread per client; it writes what it receives
  to the device and answers a complete line with the contents of the device. The pages of the
  documentation load \<open>search/search.js\<close>, whose box asks for an index file of the first
  letter of the word, turns the entries of the file into rows and shows those that match;
  \<open>dynsections.js\<close> folds parts of a page, and \<open>menu.js\<close> builds the menu and its search box.

  Conventions. A call with undefined behaviour in C (an access outside an array or a block, a
  freed or null pointer, a mutex locked twice, unlocked when free or used when destroyed), a
  TypeError in JavaScript, and a loop that does not end are the value \<open>None\<close>; a theorem that an
  operation gives \<open>Some\<close> says that none of these happens. So is a call of the server in which a signal is caught by
  a thread that holds \<open>file_mutex\<close>, whose handler destroys that mutex, or that raises \<open>SIGPIPE\<close>, which kills the
  process. Error codes are values of a sum. C
  integers are words of their width, JavaScript strings lists of 16-bit units, JavaScript numbers
  integers (none leaves the exact range). The choices of the surroundings are arguments: what the
  allocator returns (\<open>alloc_choice\<close>, \<open>op_env\<close>), signals, the network and the descriptors
  (\<open>surroundings\<close>), the file system (\<open>disk_answers\<close>), the layout of the browser and the letter case outside ASCII (\<open>site\<close>).
  What is assumed of them is stated where it is used: an allocator never returns a live block
  (\<open>write_env_ok\<close>, \<open>sane\<close>), no client thread takes a signal and no peer closes its connection while it is written
  to (\<open>undisturbed\<close>, \<open>disk_undisturbed\<close>); \<open>steady\<close> and \<open>file_steady\<close> are environments without failures. The witnesses show that the assumptions can hold.

  The C driver:
    \<open>Prelude\<close>: C types, pointers, the heap, lists and words.
    \<open>Circular_Buffer\<close>: \<open>circular-buffer/\<close>; the ring with its 8-bit indices, the list it stands for, the
      interface \<open>ring_log\<close> of a bounded log and its instance.
    \<open>Char_Buffer\<close>: \<open>aesd-char-buffer.c\<close> and \<open>aesdchar.h\<close>; the partial command and moving a complete one
      into the ring; who owns which block.
    \<open>Char_Device\<close>: \<open>aesd-char-device.c\<close>, \<open>main.c\<close>; setting up and releasing the device.
    \<open>File_Ops\<close>: \<open>aesd-char-fileops.c\<close>, \<open>aesd_ioctl.h\<close>; read, write, llseek and ioctl, each with its result
      on every path.
    \<open>Driver_World\<close>: the system calls on a table of open files, the states they reach, the abstract log
      and the refinement of every call.
    \<open>Driver_Properties\<close>: the theorems on the driver.

  The server:
    \<open>Thread_List\<close>: the linked list of \<open>thread_manager.c\<close> as a pointer program, and the abstract list.
    \<open>Socket_Ops\<close>: \<open>socket_ops.c\<close>; the retrying loops over the interface \<open>sink\<close> (extended by
      \<open>whole_sink\<close> and \<open>steady_sink\<close>), with the connection and the device as instances.
    \<open>Client_Session\<close>: \<open>handle_client\<close> with its buffer, its parsing and its calls of the driver, and
      the abstract session.
    \<open>Server\<close>: \<open>aesdsocket.c\<close>, \<open>signal_handler.c\<close>; the start, the main thread and the clients with their
      steps, the invariant of the threads, the shutdown.
    \<open>Server_Steps\<close>: the steps in any order and the abstract server, for any rounds of the clients that
      provide the interface \<open>client_rounds\<close>; those on the device are an instance.
    \<open>File_Session\<close>, \<open>File_Rounds\<close>, \<open>File_Server\<close>: the build without the device (\<open>USE_AESD_CHAR_DEVICE\<close> is 0), in
      which the data go to a regular file and \<open>timestamp_thread\<close> adds the time: the branches of the code for
      it on a model of that file, again a \<open>sink\<close>, the rounds as the other instance of \<open>client_rounds\<close>, the
      timer as one more thread, and the shutdown that cancels it.
    \<open>Server_Properties\<close>, \<open>File_Properties\<close>: the theorems on the server.

  The scripts of the documentation:
    \<open>Js_String\<close>, \<open>Search_Id\<close>: strings, \<open>convertToId\<close> and the search word.
    \<open>Dom\<close>, \<open>Page\<close>: the tree of elements, and the page with its timers, script loads and boxes.
    \<open>Search_Results\<close>: \<open>SearchResults\<close>: finding children, searching rows, walking over the results;
      the interface \<open>ui_frame\<close> of what an operation leaves alone.
    \<open>Search_Rows\<close>: \<open>createResults\<close> and the rows it builds.
    \<open>Search_Box\<close>: \<open>SearchBox\<close>, \<open>init_search\<close>, the handlers and the events as a step relation;
      the elements that a search looks up when it starts and styles when its index file arrives (\<open>captures\<close>), which may
      have been taken out of the document since.
    \<open>Search_Flow\<close>: a search from the typed word over the request and its answer to the rows.
    \<open>Search_Events\<close>: the shape of the document that the handlers rely on, all events in any order, and that every
      handler returns and keeps the shape (\<open>safe_intros\<close>, one rule for each operation).
    \<open>Search_Data\<close>: \<open>searchdata.js\<close> and the 25 index files, their entries numbered as the rows need.
    \<open>Demo_Page\<close>: a small page on which the theorems are applied.
    \<open>Dyn_Sections\<close>: \<open>dynsections.js\<close>: sections, the directory table, inherited members.
    \<open>Dom_Edit\<close>: edits of the tree at a path, and where they move the other nodes.
    \<open>Code_Folds\<close>, \<open>Fold_Invariant\<close>, \<open>Fold_Init\<close>: \<open>init_codefold\<close> of \<open>dynsections.js\<close> and its buttons; what holds of
      a page with folds, and that every round of the set-up and every button keeps it.
    \<open>Menu\<close>, \<open>Menu_Page\<close>: \<open>menu.js\<close>, \<open>menudata.js\<close>; the menu with its animations as a state machine, and what
      \<open>initMenu\<close> adds to the document.
    \<open>Box_Places\<close>, \<open>Site_Page\<close>, \<open>Site_Document\<close>: a whole page, menu and search on one document from its loading on:
      the two places of the search box, \<open>resetState\<close> and the handlers of the menu on the document, the simulation of
      the bar of \<open>Menu\<close> (\<open>site_setting\<close>), and \<open>docs/html/index.html\<close>, the instance.
    \<open>Search_Properties\<close>, \<open>Page_Properties\<close>, \<open>Site_Properties\<close>: the theorems on the scripts.

  What the theorems show. The driver is, call by call and for every sequence of calls, the
  abstract log (\<open>driver_refines_log\<close>); no reachable call is undefined, no block leaks or is shared, and
  what comes out is what went in. The server, for every interleaving, is the abstract server on
  that log (\<open>server_refines\<close>); as long as no signal or \<open>SIGPIPE\<close> ends it, no interleaving gets stuck
  (\<open>server_never_stuck\<close>) and every path of a client gives everything back, and the shutdown is wrong (\<open>shutdown_undefined\<close>). In its other build it is an append-only log in the same
  way (\<open>file_server_refines\<close>), which nothing takes back, though a round of its timer without the lock is undefined
  (\<open>file_server_only_appends\<close>), and its shutdown is wrong once more
  (\<open>file_shutdown_undefined\<close>). The search shows exactly the entries whose
  name begins with the word, for the words on which the ids agree with the names; at most one
  search is pending, and one more for each time that a filter was chosen while one was (\<open>one_search_pending\<close>, \<open>filter_orphans_search\<close>);
  with tables that have a filter, unlike the repository's, from the loading of a page on no sequence of events
  of the search and of the menu leads to a TypeError, but for the Down key at the last filter (\<open>page_safe\<close>),
  and the search always works on the box that is visible (\<open>search_uses_visible_box\<close>), which a resize replaces by one
  without its keyboard access (\<open>resize_loses_filter_key\<close>); the index that was generated is complete for the search, but
  the tables that were checked in make every search fail (\<open>repository_search_throws\<close>). Every block of
  code has exactly one of its two forms visible, whatever buttons are pressed (\<open>folds_stay_exclusive\<close>), and the
  mobile menu settles as \<open>menu_settles\<close> says, in terms of the last change of its check box and the resizes after it.

  Bounds. The loops over strings, rows and nodes are total functions or \<open>partial_function\<close>s whose
  results are proved to exist. \<open>read_to_end\<close> has fuel; any fuel above the number of bytes left is
  enough (\<open>read_to_end_returns_rest\<close>). A kernel block has at most \<open>kmalloc_max\<close> bytes, so the sum of the
  ten commands fits into 64 bits.

  Not modelled. \<open>jquery.js\<close> is third-party and minified: the scripts' uses of it are modelled by what
  they do on the tree. Parsing markup is the browser's: \<open>browser\<close> holds its answers, and
  \<open>parses_back\<close> says that the first line of a block, printed, stripped of its brace and parsed again,
  holds no fold of its own. The widgets \<open>smartmenus\<close> and \<open>initResizable\<close> that \<open>initMenu\<close> calls are
  third-party. The server's logging is left out: it changes no
  state of the program. A
  signal is modelled where it finds the main thread, in \<open>accept\<close>; one that finds it in \<open>remove_completed_threads\<close> is not
  a step, and what a handler does that runs in a client thread is only modelled by \<open>None\<close> (\<open>handler_in_holder\<close>). The
  earlier drafts of the server (\<open>aesdsocket1.c\<close>, \<open>aesdsocket2.c\<close>, \<open>socket2.c\<close>), the course exercises
  under \<open>examples/\<close>, \<open>finder-app/\<close> and \<open>student-test/\<close>, the tests and the scripts are not part of the
  three programs.
\<close>

section \<open>The index files and the search together\<close>

lemma symbol_found:
  assumes "x \<in> set (concat index_files)" and "v \<noteq> []" "hd v \<noteq> 0x20" "last v \<noteq> 0x20" "ascii v"
    and "prefix (map ascii_lower v) (map ascii_lower (entry_symbol x))"
  shows "entry_matches w v x"
proof -
  from numbered_member [OF index_numbered assms(1)] obtain n
    where n: "ascii (entry_symbol x)" "0 \<le> n" "entry_id x = id_of x n" by auto
  from entry_row [OF assms(2,5,3,4) n(1) n(3) [unfolded id_of_def] n(2)] assms(6) show ?thesis by simp
qed

text \<open>C31. The generated index is complete for the search: for every row of every index file, every beginning of its
  symbol, typed in any letter case, matches the row.\<close>

theorem every_symbol_found:
  assumes "x \<in> set (concat index_files)" and "v \<noteq> []" "hd v \<noteq> 0x20" "last v \<noteq> 0x20" "ascii v"
    and "prefix (map ascii_lower v) (map ascii_lower (entry_symbol x))"
  shows "entry_matches w v x"
  by (rule symbol_found [OF assms])

lemma every_symbol_found_witness: "entry_matches index_site (lit ''Device_Man'') (all_2 ! 3)"
proof -
  have x: "all_2 ! 3 \<in> set (concat index_files)" "entry_symbol (all_2 ! 3) = lit ''device_manager.c''"
    by (simp_all add: index_files_def all_2_def search_item_def)
  show ?thesis
    by (rule every_symbol_found [OF x(1)])
       (simp_all add: x(2), simp_all add: lit_def unit_of_def ascii_def ascii_lower_def)
qed

text \<open>C3. From the keyboard to the list: with tables that name the section and a file for the first letter of the word, the
  search that the timer starts requests exactly that file, and when the file arrives and is one of the index files of
  the repository, the results window is shown, and the row of every symbol that begins with the typed word, in any
  letter case, is visible with the id of its entry; of all rows exactly those that match are visible.\<close>

theorem typed_symbol_is_shown:
  assumes "search_page r pg" and "\<forall>d. layout_ok w d"
    and "indexSectionsWithContent w (searchIndex (searchBox pg)) = Some sec"
    and "index_of sec (idx_char w v) = Some i" and "data \<in> set index_files" and "n < length data"
    and "field_value pg = v" and "v \<noteq> []" "hd v \<noteq> 0x20" "last v \<noteq> 0x20" "ascii v"
    and "prefix (map ascii_lower v) (map ascii_lower (entry_symbol (data ! n)))"
  shows "\<exists>pg1 pg2 row. run_callback w Do_Search pg = Some pg1 \<and>
    map load_url (loading pg1) = map load_url (loading pg) @ [js_file w (searchBox pg) i] \<and>
    script_loaded w (length (loading pg)) data pg1 = Some pg2 \<and> shown pg2 ''MSearchResultsWindow'' \<and>
    elem_at (document pg2) (n # r) = Some row \<and> elem_id row = lit ''SR_'' @ entry_id (data ! n) \<and>
    display row = lit ''block'' \<and> rows_shown r data (entry_matches w v) (document pg2)"
proof -
  have v: "strip_leading (field_value pg) = v" using assms(7-9) by (cases v) (simp_all add: strip_leading_def)
  obtain pg1 pg2 where s: "run_callback w Do_Search pg = Some pg1"
    "loading pg1 = loading pg @ [\<lparr>load_url = js_file w (searchBox pg) i, load_idx = Some i, load_value = v,
       load_caps = capture_elements pg\<rparr>]"
    "script_loaded w (length (loading pg)) data pg1 = Some pg2" "shown pg2 ''MSearchResultsWindow''"
    "rows_shown r data (entry_matches w v) (document pg2)"
    by (rule word_to_rows [OF assms(1,3), of i data, unfolded v]) (use assms(2,4) in auto)
  have "data ! n \<in> set (concat index_files)" using nth_mem [OF assms(6)] assms(5) by auto
  then have "entry_matches w v (data ! n)" by (rule symbol_found) (use assms(8-12) in auto)
  then obtain row where "elem_at (document pg2) (n # r) = Some row" "elem_id row = lit ''SR_'' @ entry_id (data ! n)"
    "display row = lit ''block''" using s(5) assms(6) unfolding rows_shown_def by force
  then show ?thesis using s by auto
qed

lemma typed_symbol_is_shown_witness:
  "\<exists>pg1 pg2 row. run_callback index_site Do_Search (typed_page ''Dev'') = Some pg1 \<and>
    script_loaded index_site 0 all_2 pg1 = Some pg2 \<and> shown pg2 ''MSearchResultsWindow'' \<and>
    elem_at (document pg2) [3, 0, 0, 0, 0, 2] = Some row \<and> display row = lit ''block''"
proof -
  have x: "all_2 \<in> set index_files" "3 < length all_2" "entry_symbol (all_2 ! 3) = lit ''device_manager.c''"
    by (simp_all add: index_files_def all_2_def search_item_def)
  have "idx_char index_site (lit ''Dev'') = lit ''d''"
    by (simp add: idx_char_def index_site_def toLowerCase_def ascii_def lit_def unit_of_def ascii_lower_def)
  then have idx: "index_of (lit ''dm'') (idx_char index_site (lit ''Dev'')) = Some 0" by (simp add: lit_def unit_of_def)
  have sec: "indexSectionsWithContent index_site (searchIndex (searchBox (typed_page ''Dev''))) = Some (lit ''dm'')"
    by (simp add: typed_box index_page_def new_SearchBox_def index_site_def)
  have "\<exists>pg1 pg2 row. run_callback index_site Do_Search (typed_page ''Dev'') = Some pg1 \<and>
      map load_url (loading pg1) = map load_url (loading (typed_page ''Dev'')) @
        [js_file index_site (searchBox (typed_page ''Dev'')) 0] \<and>
      script_loaded index_site (length (loading (typed_page ''Dev''))) all_2 pg1 = Some pg2 \<and>
      shown pg2 ''MSearchResultsWindow'' \<and>
      elem_at (document pg2) (3 # [0, 0, 0, 0, 2]) = Some row \<and> elem_id row = lit ''SR_'' @ entry_id (all_2 ! 3) \<and>
      display row = lit ''block'' \<and> rows_shown [0, 0, 0, 0, 2] all_2 (entry_matches index_site (lit ''Dev'')) (document pg2)"
    by (rule typed_symbol_is_shown [OF typed_search_page _ sec idx x(1,2) typed_value])
       (simp_all add: index_layout x(3), simp_all add: lit_def unit_of_def ascii_def ascii_lower_def)
  then show ?thesis by (auto simp: typed_box)
qed

text \<open>C32. With the repository's own \<open>searchdata.js\<close>, whose tables are empty, every search throws a TypeError before
  anything is requested or shown, on every page, for every word and filter: the section's letters are read from
  \<open>undefined\<close>. The timer that starts a search, and choosing a filter with a word in the active box, fail with it.\<close>

theorem repository_search_throws:
  "box_Search (searchdata w) pg = None \<and> run_callback (searchdata w) Do_Search pg = None \<and>
   (case SelectItemSet i (upd_box (\<lambda>b. b\<lparr>searchIndex := i\<rparr>) pg) of
      None \<Rightarrow> OnSelectItem (searchdata w) i pg = None
    | Some pg1 \<Rightarrow>
        OnSelectItem (searchdata w) i pg =
          (case elem_by_id pg1 ''MSearchField'' of
             None \<Rightarrow> None
           | Some field \<Rightarrow> if strip_all (val field) \<noteq> [] \<and> searchActive (searchBox pg1) then None else Some pg1))"
proof -
  have none: "box_Search (searchdata w) p = None" for p
    by (rule box_Search_no_section) (simp add: searchdata_def)
  then show ?thesis
    by (auto simp: run_callback_def OnSelectItem_def split: option.splits)
qed

end
